(* ===== verification/Prelude.thy ===== *)
theory Prelude
  imports Main "HOL-Library.Word" "HOL-Library.Sublist"
begin

text \<open>
  Shared vocabulary of the development.

  Machine integers of the C++ code are \<open>word\<close>s of their width; \<open>std::vector<uint8_t>\<close>,
  \<open>std::span\<close> and \<open>std::array<uint8_t, n>\<close> are byte lists (an array's fixed length is a
  well-formedness condition of the component that holds it); \<open>std::string\<close> is HOL's
  \<open>string\<close>, converted to bytes and back as the code converts it.

  \<open>Result<T>\<close> (include/peercore/types.hpp) is the sum \<open>string + 'a\<close>: \<open>Inl\<close> carries the
  error message, \<open>Inr\<close> the value; \<open>Result<void>\<close> is \<open>unit result\<close>.  A member function that
  can fail after having changed its object is an \<open>action\<close>: it returns its result together
  with the state it leaves, whether or not it failed.
\<close>

unbundle bit_operations_syntax

section \<open>Types\<close>

type_synonym byte = "8 word"
type_synonym u16 = "16 word"
type_synonym u32 = "32 word"
type_synonym u64 = "64 word"
type_synonym bytes = "byte list"
type_synonym 'a result = "string + 'a"
type_synonym ('s, 'a) action = "'s \<Rightarrow> 'a result \<times> 's"

named_theorems keeps \<open>operations that keep an invariant\<close>
named_theorems action_defs \<open>definitions of the action combinators\<close>

section \<open>Results\<close>

definition is_ok :: "'a result \<Rightarrow> bool" where
  "is_ok r \<longleftrightarrow> (case r of Inl _ \<Rightarrow> False | Inr _ \<Rightarrow> True)"

definition is_err :: "'a result \<Rightarrow> bool" where
  "is_err r \<longleftrightarrow> (case r of Inl _ \<Rightarrow> True | Inr _ \<Rightarrow> False)"

definition bind_result :: "'a result \<Rightarrow> ('a \<Rightarrow> 'b result) \<Rightarrow> 'b result" where
  "bind_result r f = (case r of Inl e \<Rightarrow> Inl e | Inr x \<Rightarrow> f x)"

lemma is_ok_simps [simp]: "is_ok (Inr x)" "\<not> is_ok (Inl e)"
  by (simp_all add: is_ok_def)

lemma is_err_simps [simp]: "is_err (Inl e)" "\<not> is_err (Inr x)"
  by (simp_all add: is_err_def)

lemma is_err_iff: "is_err r \<longleftrightarrow> \<not> is_ok r"
  by (cases r) simp_all

lemma is_ok_iff: "is_ok r \<longleftrightarrow> (\<exists>x. r = Inr x)"
  by (cases r) simp_all

lemma bind_result_simps [simp]:
  "bind_result (Inl e) f = Inl e"
  "bind_result (Inr x) f = f x"
  by (simp_all add: bind_result_def)

lemma bind_result_Inr_iff:
  "bind_result r f = Inr y \<longleftrightarrow> (\<exists>x. r = Inr x \<and> f x = Inr y)"
  by (cases r) simp_all

section \<open>Actions: results with a state that survives failure\<close>

definition return_ok :: "'a \<Rightarrow> ('s, 'a) action" where
  "return_ok x = (\<lambda>s. (Inr x, s))"

definition return_err :: "string \<Rightarrow> ('s, 'a) action" where
  "return_err e = (\<lambda>s. (Inl e, s))"

definition return_result :: "'a result \<Rightarrow> ('s, 'a) action" where
  "return_result r = (\<lambda>s. (r, s))"

definition and_then :: "('s, 'a) action \<Rightarrow> ('a \<Rightarrow> ('s, 'b) action) \<Rightarrow> ('s, 'b) action" where
  "and_then m f = (\<lambda>s. case m s of (Inl e, t) \<Rightarrow> (Inl e, t) | (Inr x, t) \<Rightarrow> f x t)"

definition update :: "('s \<Rightarrow> 's) \<Rightarrow> ('s, unit) action" where
  "update f = (\<lambda>s. (Inr (), f s))"

definition reading :: "('s \<Rightarrow> ('s, 'a) action) \<Rightarrow> ('s, 'a) action" where
  "reading f = (\<lambda>s. f s s)"

text \<open>\<open>relabel g m\<close> turns the error of \<open>m\<close> into \<open>g\<close> of it: the code's
  \<open>err("prefix: " + inner.message)\<close>.\<close>

definition relabel :: "(string \<Rightarrow> string) \<Rightarrow> ('s, 'a) action \<Rightarrow> ('s, 'a) action" where
  "relabel g m = (\<lambda>s. case m s of (Inl e, t) \<Rightarrow> (Inl (g e), t) | (Inr x, t) \<Rightarrow> (Inr x, t))"

text \<open>An action on a part of the state.\<close>

definition zoom :: "('s \<Rightarrow> 'x) \<Rightarrow> ('x \<Rightarrow> 's \<Rightarrow> 's) \<Rightarrow> ('x, 'a) action \<Rightarrow> ('s, 'a) action" where
  "zoom get put m = (\<lambda>s. let (r, x) = m (get s) in (r, put x s))"

lemma return_ok_apply [simp]: "return_ok x s = (Inr x, s)"
  by (simp add: return_ok_def)

lemma return_err_apply [simp]: "return_err e s = (Inl e, s)"
  by (simp add: return_err_def)

lemma return_result_apply [simp]: "return_result r s = (r, s)"
  by (simp add: return_result_def)

lemma update_apply [simp]: "update f s = (Inr (), f s)"
  by (simp add: update_def)

lemma reading_apply [simp]: "reading f s = f s s"
  by (simp add: reading_def)

lemma and_then_ok: "m s = (Inr x, t) \<Longrightarrow> and_then m f s = f x t"
  by (simp add: and_then_def)

lemma and_then_err: "m s = (Inl e, t) \<Longrightarrow> and_then m f s = (Inl e, t)"
  by (simp add: and_then_def)

lemma and_then_simps [simp]:
  "and_then (return_ok x) f s = f x s"
  "and_then (return_err e) f s = (Inl e, s)"
  "and_then (update g) h s = h () (g s)"
  "and_then (reading k) f s = and_then (k s) f s"
  "and_then (return_result r) f s = (case r of Inl e \<Rightarrow> (Inl e, s) | Inr x \<Rightarrow> f x s)"
  by (simp_all add: and_then_def)

lemma and_then_Inr_iff:
  "and_then m f s = (Inr y, u) \<longleftrightarrow> (\<exists>x t. m s = (Inr x, t) \<and> f x t = (Inr y, u))"
  by (auto simp: and_then_def split: prod.splits sum.splits)

lemma and_thenE:
  assumes "and_then m f s = (r, u)"
  obtains (fail) e where "m s = (Inl e, u)" and "r = Inl e"
  | (ok) x t where "m s = (Inr x, t)" and "f x t = (r, u)"
  using assms by (auto simp: and_then_def split: prod.splits sum.splits)

lemma relabel_ok: "relabel g m s = (Inr x, t) \<longleftrightarrow> m s = (Inr x, t)"
  by (auto simp: relabel_def split: prod.splits sum.splits)

lemma relabel_state [simp]: "snd (relabel g m s) = snd (m s)"
  by (auto simp: relabel_def split: prod.splits sum.splits)

lemmas action_unfold = return_ok_def return_err_def return_result_def and_then_def
  update_def reading_def relabel_def

text \<open>An action keeps an invariant when the state it leaves has it, also on failure.\<close>

definition preserves :: "('s \<Rightarrow> bool) \<Rightarrow> ('s, 'a) action \<Rightarrow> bool" where
  "preserves P m \<longleftrightarrow> (\<forall>s. P s \<longrightarrow> P (snd (m s)))"

lemma preservesI: "(\<And>s. P s \<Longrightarrow> P (snd (m s))) \<Longrightarrow> preserves P m"
  by (simp add: preserves_def)

lemma preservesD: "preserves P m \<Longrightarrow> P s \<Longrightarrow> m s = (r, t) \<Longrightarrow> P t"
  unfolding preserves_def by (metis snd_conv)

lemma preserves_return [keeps]:
  "preserves P (return_ok x)" "preserves P (return_err e)" "preserves P (return_result r)"
  by (simp_all add: preserves_def)

lemma preserves_update [keeps]: "(\<And>s. P s \<Longrightarrow> P (f s)) \<Longrightarrow> preserves P (update f)"
  by (simp add: preserves_def)

lemma preserves_and_then [keeps]:
  assumes "preserves P m" and "\<And>x. preserves P (f x)"
  shows "preserves P (and_then m f)"
proof (rule preservesI)
  fix s assume "P s"
  obtain r t where m: "m s = (r, t)" by force
  with assms(1) \<open>P s\<close> have "P t" by (rule preservesD)
  with m assms(2) show "P (snd (and_then m f s))"
    by (cases r) (auto simp: and_then_def preserves_def)
qed

lemma preserves_reading [keeps]: "(\<And>s. preserves P (f s)) \<Longrightarrow> preserves P (reading f)"
  by (simp add: preserves_def)

lemma preserves_relabel [keeps]: "preserves P m \<Longrightarrow> preserves P (relabel g m)"
  by (simp add: preserves_def)

text \<open>An action relates the state it leaves to the state it starts in, also on failure.  For a
  reflexive and transitive relation, sequences of such actions do too.\<close>

definition stays :: "('s \<Rightarrow> 's \<Rightarrow> bool) \<Rightarrow> ('s, 'a) action \<Rightarrow> bool" where
  "stays R m \<longleftrightarrow> (\<forall>s. R s (snd (m s)))"

lemma staysI: "(\<And>s. R s (snd (m s))) \<Longrightarrow> stays R m"
  by (simp add: stays_def)

lemma staysD: "stays R m \<Longrightarrow> m s = (r, t) \<Longrightarrow> R s t"
  unfolding stays_def by (metis snd_conv)

lemma stays_apply: "stays R m \<Longrightarrow> R s (snd (m s))"
  by (simp add: stays_def)

locale change_order =
  fixes R :: "'s \<Rightarrow> 's \<Rightarrow> bool"
  assumes unchanged: "R s s"
    and later: "R s t \<Longrightarrow> R t u \<Longrightarrow> R s u"
begin

lemma stays_return:
  "stays R (return_ok x)" "stays R (return_err e)" "stays R (return_result r)"
  by (simp_all add: stays_def unchanged)

lemma stays_update: "(\<And>s. R s (f s)) \<Longrightarrow> stays R (update f)"
  by (simp add: stays_def)

lemma stays_reading: "(\<And>s. stays R (f s)) \<Longrightarrow> stays R (reading f)"
  by (simp add: stays_def)

lemma stays_and_then:
  assumes "stays R m" and "\<And>x. stays R (f x)"
  shows "stays R (and_then m f)"
proof (rule staysI)
  fix s
  obtain r t where m: "m s = (r, t)" by force
  have st: "R s t" by (rule staysD [OF assms(1) m])
  show "R s (snd (and_then m f s))"
  proof (cases r)
    case (Inl e)
    with m st show ?thesis by (simp add: and_then_def)
  next
    case (Inr x)
    have "R t (snd (f x t))" by (rule stays_apply [OF assms(2)])
    with m st Inr show ?thesis by (auto simp: and_then_def intro: later)
  qed
qed

lemmas stays_rules = stays_return stays_and_then stays_reading

end

lemma preserves_if: "preserves P m \<Longrightarrow> preserves P m' \<Longrightarrow> preserves P (if b then m else m')"
  by simp

lemma preserves_sum_case:
  "(\<And>e. preserves P (f e)) \<Longrightarrow> (\<And>x. preserves P (g x)) \<Longrightarrow> preserves P (case r of Inl e \<Rightarrow> f e | Inr x \<Rightarrow> g x)"
  by (cases r) simp_all

text \<open>From one condition to another, also on failure.\<close>

definition leads :: "('s \<Rightarrow> bool) \<Rightarrow> ('s, 'a) action \<Rightarrow> ('s \<Rightarrow> bool) \<Rightarrow> bool" where
  "leads P m Q \<longleftrightarrow> (\<forall>s. P s \<longrightarrow> Q (snd (m s)))"

lemma leadsI: "(\<And>s. P s \<Longrightarrow> Q (snd (m s))) \<Longrightarrow> leads P m Q"
  by (simp add: leads_def)

lemma leadsD: "leads P m Q \<Longrightarrow> P s \<Longrightarrow> Q (snd (m s))"
  by (simp add: leads_def)

lemma leads_and_then:
  assumes "preserves P m" and "\<And>x. leads P (f x) Q" and "\<And>s. P s \<Longrightarrow> Q s"
  shows "leads P (and_then m f) Q"
proof (rule leadsI)
  fix s assume s: "P s"
  obtain r t where m: "m s = (r, t)" by force
  with assms(1) s have t: "P t" by (rule preservesD)
  show "Q (snd (and_then m f s))"
    using m assms(3) [OF t] leadsD [OF assms(2) t] by (cases r) (auto simp: and_then_def)
qed

lemma leads_weaken: "preserves P m \<Longrightarrow> (\<And>s. P s \<Longrightarrow> Q s) \<Longrightarrow> leads P m Q"
  by (simp add: leads_def preserves_def)

text \<open>What holds after an action has succeeded.\<close>

named_theorems after_success \<open>postconditions of successful actions\<close>

definition ensures :: "('s \<Rightarrow> bool) \<Rightarrow> ('s, 'a) action \<Rightarrow> ('s \<Rightarrow> bool) \<Rightarrow> bool" where
  "ensures P m Q \<longleftrightarrow> (\<forall>s r t. P s \<longrightarrow> m s = (Inr r, t) \<longrightarrow> Q t)"

lemma ensuresI: "(\<And>s r t. P s \<Longrightarrow> m s = (Inr r, t) \<Longrightarrow> Q t) \<Longrightarrow> ensures P m Q"
  by (simp add: ensures_def)

lemma ensuresD: "ensures P m Q \<Longrightarrow> P s \<Longrightarrow> m s = (Inr r, t) \<Longrightarrow> Q t"
  by (simp add: ensures_def)

lemma ensures_and_then:
  "ensures P m Q \<Longrightarrow> (\<And>x. ensures Q (f x) R) \<Longrightarrow> ensures P (and_then m f) R"
  unfolding ensures_def and_then_Inr_iff by blast

lemma ensures_skip: "(\<And>x. ensures (\<lambda>_. True) (f x) R) \<Longrightarrow> ensures (\<lambda>_. True) (and_then m f) R"
  unfolding ensures_def and_then_Inr_iff by blast

lemma ensures_if: "ensures P m Q \<Longrightarrow> ensures P m' Q \<Longrightarrow> ensures P (if b then m else m') Q"
  by simp

lemma ensures_keep:
  "ensures P m P \<Longrightarrow> (\<And>x. ensures P (f x) R) \<Longrightarrow> ensures P (and_then m f) R"
  by (rule ensures_and_then)

lemma ensures_any: "ensures (\<lambda>_. True) m (\<lambda>_. True)"
  by (simp add: ensures_def)

lemma ensures_return [after_success]:
  "ensures P (return_ok x) P" "ensures P (return_err e) Q" "ensures P (return_result r) P"
  by (simp_all add: ensures_def)

lemma ensures_update [after_success]: "(\<And>s. P s \<Longrightarrow> Q (f s)) \<Longrightarrow> ensures P (update f) Q"
  by (simp add: ensures_def)

lemma ensures_reading [after_success]: "(\<And>s. ensures P (f s) Q) \<Longrightarrow> ensures P (reading f) Q"
  by (simp add: ensures_def)

lemma ensures_relabel [after_success]: "ensures P m Q \<Longrightarrow> ensures P (relabel g m) Q"
  by (simp add: ensures_def relabel_ok)

text \<open>An action for each element of a list, in order, stopping at the first error.\<close>

fun for_each :: "('x \<Rightarrow> ('s, 'a) action) \<Rightarrow> 'x list \<Rightarrow> ('s, 'a list) action" where
  "for_each f [] = return_ok []"
| "for_each f (x # xs) =
     and_then (f x) (\<lambda>y. and_then (for_each f xs) (\<lambda>ys. return_ok (y # ys)))"

section \<open>Strings and bytes\<close>

definition byte_of_char :: "char \<Rightarrow> byte" where
  "byte_of_char c = of_char c"

definition char_of_byte :: "byte \<Rightarrow> char" where
  "char_of_byte w = char_of (uint w)"

abbreviation bytes_of :: "string \<Rightarrow> bytes" where
  "bytes_of s \<equiv> map byte_of_char s"

abbreviation text_of :: "bytes \<Rightarrow> string" where
  "text_of bs \<equiv> map char_of_byte bs"

lemma uint_byte_of_char: "uint (byte_of_char c) = of_char c"
proof -
  have "uint (byte_of_char c) = take_bit 8 (of_char c)"
    by (cases c) (simp add: byte_of_char_def of_char_def horner_sum_simps)
  then show ?thesis by (simp add: take_bit_eq_mod)
qed

lemma char_of_byte_of_char [simp]: "char_of_byte (byte_of_char c) = c"
  by (simp add: char_of_byte_def uint_byte_of_char)

lemma byte_of_char_of_byte [simp]: "byte_of_char (char_of_byte w) = w"
proof (rule word_uint_eqI)
  have "uint w mod 256 = uint w"
    by (rule mod_pos_pos_trivial) (use uint_lt2p [of w] in simp_all)
  then show "uint (byte_of_char (char_of_byte w)) = uint w"
    by (simp add: uint_byte_of_char char_of_byte_def)
qed

lemma text_of_bytes_of [simp]: "text_of (bytes_of s) = s"
  by (simp add: comp_def)

lemma bytes_of_text_of [simp]: "bytes_of (text_of bs) = bs"
  by (simp add: comp_def)

lemma byte_of_char_eq_iff [simp]: "byte_of_char c = byte_of_char d \<longleftrightarrow> c = d"
  by (metis char_of_byte_of_char)

lemma char_of_byte_eq_iff [simp]: "char_of_byte v = char_of_byte w \<longleftrightarrow> v = w"
  by (metis byte_of_char_of_byte)

lemma bytes_of_eq_iff [simp]: "bytes_of s = bytes_of t \<longleftrightarrow> s = t"
  by (metis text_of_bytes_of)

section \<open>Lists and words\<close>

lemma strict_prefix_append:
  "strict_prefix bs (xs @ ys) \<longleftrightarrow> strict_prefix bs xs \<or> (\<exists>part. bs = xs @ part \<and> strict_prefix part ys)"
  by (auto simp: strict_prefix_def prefix_append)

lemma nth_list_update_if: "xs[i := y] ! j = (if i = j \<and> j < length xs then y else xs ! j)"
  by (cases "i < length xs") (auto simp: nth_list_update list_update_beyond)

lemma take_strict_prefix: "n < length xs \<Longrightarrow> strict_prefix (take n xs) xs"
  by (metis take_is_prefix length_take min.absorb4 nat_neq_iff strict_prefix_def)

lemma unat_of_nat_u64: "n < 2 ^ 64 \<Longrightarrow> unat (of_nat n :: u64) = n"
  by (simp add: unat_of_nat take_bit_eq_mod)

lemma unat_of_nat_u32: "n < 2 ^ 32 \<Longrightarrow> unat (of_nat n :: u32) = n"
  by (simp add: unat_of_nat take_bit_eq_mod)

lemma unat_of_nat_u16: "n < 2 ^ 16 \<Longrightarrow> unat (of_nat n :: u16) = n"
  by (simp add: unat_of_nat take_bit_eq_mod)

lemma unat_ucast_mod: "unat (ucast (w :: 'a::len word) :: 'b::len word) = unat w mod 2 ^ LENGTH('b)"
  by (simp add: unsigned_ucast_eq take_bit_eq_mod)

lemma unat_byte_less: "unat (b :: byte) < 256"
  using unsigned_less [of b, where ?'a = nat] by simp

lemma unat_ucast_byte_u32 [simp]: "unat (ucast (b :: byte) :: u32) = unat b"
  using unat_byte_less [of b] by (simp add: unat_ucast_mod)

lemma unat_ucast_byte_u64 [simp]: "unat (ucast (b :: byte) :: u64) = unat b"
  using unat_byte_less [of b] by (simp add: unat_ucast_mod)

lemma unat_ucast_byte_u16 [simp]: "unat (ucast (b :: byte) :: u16) = unat b"
  using unat_byte_less [of b] by (simp add: unat_ucast_mod)

lemma bit_255: "bit (255 :: nat) n \<longleftrightarrow> n < 8" "bit (255 :: int) n \<longleftrightarrow> n < 8"
proof -
  have "(255 :: nat) = mask 8" "(255 :: int) = mask 8" by (simp_all add: mask_eq_exp_minus_1)
  then show "bit (255 :: nat) n \<longleftrightarrow> n < 8" "bit (255 :: int) n \<longleftrightarrow> n < 8"
    by (simp_all only: bit_mask_iff) simp_all
qed

lemma ucast_low_byte: "(ucast ((x :: 'a::len word) AND 0xFF) :: byte) = ucast x"
  by (rule bit_word_eqI) (auto simp: bit_simps bit_255 dest: bit_imp_le_length)

lemma find_eq: "find (\<lambda>y. y = x) ys = (if x \<in> set ys then Some x else None)"
  by (induction ys) auto

end
