(* ===== verification/Positional.thy ===== *)
theory Positional
  imports Prelude
begin

text \<open>
  Positional notation, the mathematics behind base58: a list of digits, least significant
  first, multiplied by \<open>m\<close> and increased by \<open>c\<close> digit by digit with a carry.  Both loops of
  src/src/types.cpp (base 58 times 256, base 256 times 58) are instances; here they are on
  unbounded naturals, and theory \<open>PeerTypes\<close> shows that the 32-bit carries never wrap.
\<close>

fun digits_value :: "nat \<Rightarrow> nat list \<Rightarrow> nat" where
  "digits_value B [] = 0"
| "digits_value B (d # ds) = d + B * digits_value B ds"

fun mul_carry :: "nat \<Rightarrow> nat \<Rightarrow> nat \<Rightarrow> nat list \<Rightarrow> nat list \<times> nat" where
  "mul_carry B m c [] = ([], c)"
| "mul_carry B m c (d # ds) =
     (let t = c + d * m; (ds', c') = mul_carry B m (t div B) ds in (t mod B # ds', c'))"

fun carry_digits :: "nat \<Rightarrow> nat \<Rightarrow> nat list" where
  "carry_digits B c = (if c = 0 \<or> B < 2 then [] else c mod B # carry_digits B (c div B))"

declare carry_digits.simps [simp del]

lemma carry_digits_0 [simp]: "carry_digits B 0 = []"
  by (simp add: carry_digits.simps)

definition mul_add :: "nat \<Rightarrow> nat \<Rightarrow> nat list \<Rightarrow> nat \<Rightarrow> nat list" where
  "mul_add B m ds c = (let (ds', c') = mul_carry B m c ds in ds' @ carry_digits B c')"

definition canonical :: "nat \<Rightarrow> nat list \<Rightarrow> bool" where
  "canonical B ds \<longleftrightarrow> (\<forall>d \<in> set ds. d < B) \<and> (ds \<noteq> [] \<longrightarrow> last ds \<noteq> 0)"

lemma canonical_Nil [simp]: "canonical B []"
  by (simp add: canonical_def)

lemma digits_value_append:
  "digits_value B (xs @ ys) = digits_value B xs + B ^ length xs * digits_value B ys"
  by (induction xs) (simp_all add: algebra_simps)

lemma digits_value_less: "\<forall>d \<in> set ds. d < B \<Longrightarrow> digits_value B ds < B ^ length ds"
proof (induction ds)
  case (Cons d ds)
  then have "d < B" and "Suc (digits_value B ds) \<le> B ^ length ds" by simp_all
  then have "d + B * digits_value B ds < B * Suc (digits_value B ds)" by simp
  also have "\<dots> \<le> B * B ^ length ds"
    using \<open>Suc (digits_value B ds) \<le> B ^ length ds\<close> by (rule mult_le_mono2)
  finally show ?case by simp
qed simp

lemma digits_value_ge:
  assumes "ds \<noteq> []" and "last ds \<noteq> 0"
  shows "B ^ (length ds - 1) \<le> digits_value B ds"
proof -
  have "digits_value B ds = digits_value B (butlast ds) + B ^ (length ds - 1) * last ds"
    using digits_value_append [of B "butlast ds" "[last ds]"] assms(1) by simp
  moreover have "B ^ (length ds - 1) \<le> B ^ (length ds - 1) * last ds" using assms(2) by simp
  ultimately show ?thesis by linarith
qed

lemma digits_value_eq_0_iff:
  assumes "canonical B ds" and "0 < B"
  shows "digits_value B ds = 0 \<longleftrightarrow> ds = []"
proof
  assume "digits_value B ds = 0"
  show "ds = []"
  proof (rule ccontr)
    assume "ds \<noteq> []"
    with assms(1) have "B ^ (length ds - 1) \<le> digits_value B ds"
      by (intro digits_value_ge) (simp_all add: canonical_def)
    with \<open>digits_value B ds = 0\<close> assms(2) show False by simp
  qed
qed simp

lemma canonical_Cons:
  "canonical B (d # ds) \<longleftrightarrow> d < B \<and> canonical B ds \<and> (ds = [] \<longrightarrow> d \<noteq> 0)"
  by (auto simp: canonical_def)

lemma canonical_unique:
  assumes "0 < B" and "canonical B xs" and "canonical B ys"
    and "digits_value B xs = digits_value B ys"
  shows "xs = ys"
  using assms(2-4)
proof (induction xs arbitrary: ys)
  case Nil
  then show ?case using digits_value_eq_0_iff [OF _ assms(1)] by fastforce
next
  case (Cons x xs)
  show ?case
  proof (cases ys)
    case Nil
    with Cons.prems assms(1) digits_value_eq_0_iff [of B "x # xs"] show ?thesis by simp
  next
    case (Cons y zs)
    with Cons.prems have eq: "x + B * digits_value B xs = y + B * digits_value B zs"
      and "x < B" and "y < B" by (simp_all add: canonical_Cons)
    have low: "(d + B * v) mod B = d" if "d < B" for d v using that by simp
    have "x = y"
      using arg_cong [OF eq, of "\<lambda>n. n mod B"] unfolding low [OF \<open>x < B\<close>] low [OF \<open>y < B\<close>] .
    with eq assms(1) have "digits_value B xs = digits_value B zs" by simp
    with Cons Cons.IH Cons.prems \<open>x = y\<close> show ?thesis by (simp add: canonical_Cons)
  qed
qed

lemma length_mul_carry [simp]: "length (fst (mul_carry B m c ds)) = length ds"
  by (induction B m c ds rule: mul_carry.induct) (simp_all add: Let_def case_prod_beta)

lemma mul_carry_value:
  "digits_value B (fst (mul_carry B m c ds)) + B ^ length ds * snd (mul_carry B m c ds)
     = m * digits_value B ds + c"
proof (induction B m c ds rule: mul_carry.induct)
  case (2 B m c d ds)
  obtain ds' c' where r: "mul_carry B m ((c + d * m) div B) ds = (ds', c')" by force
  with "2.IH" have "digits_value B ds' + B ^ length ds * c'
      = m * digits_value B ds + (c + d * m) div B" by simp
  then have "B * (digits_value B ds' + B ^ length ds * c') + (c + d * m) mod B
      = B * (m * digits_value B ds) + (B * ((c + d * m) div B) + (c + d * m) mod B)"
    by (simp add: algebra_simps)
  also have "\<dots> = m * (d + B * digits_value B ds) + c"
    by (simp add: algebra_simps)
  finally show ?case by (simp add: r algebra_simps)
qed simp

lemma mul_carry_digits: "0 < B \<Longrightarrow> d \<in> set (fst (mul_carry B m c ds)) \<Longrightarrow> d < B"
  by (induction B m c ds rule: mul_carry.induct) (auto simp: Let_def split: prod.splits)

lemma carry_digits_value: "2 \<le> B \<Longrightarrow> digits_value B (carry_digits B c) = c"
proof (induction B c rule: carry_digits.induct)
  case (1 B c)
  then show ?case by (cases "c = 0") (simp_all add: carry_digits.simps [of B c])
qed

lemma carry_digits_canonical: "2 \<le> B \<Longrightarrow> canonical B (carry_digits B c)"
proof (induction B c rule: carry_digits.induct)
  case (1 B c)
  show ?case
  proof (cases "c = 0")
    case True
    then show ?thesis by (simp add: carry_digits.simps [of B c])
  next
    case False
    with 1 have IH: "canonical B (carry_digits B (c div B))" by simp
    have "c mod B \<noteq> 0" if "carry_digits B (c div B) = []"
    proof -
      from that have "c div B = 0" using carry_digits_value [OF "1.prems", of "c div B"] by simp
      with False "1.prems" show ?thesis by (simp add: div_eq_0_iff)
    qed
    with False 1 IH show ?thesis by (simp add: carry_digits.simps [of B c] canonical_Cons)
  qed
qed

lemma mul_add_value: "2 \<le> B \<Longrightarrow> digits_value B (mul_add B m ds c) = m * digits_value B ds + c"
  using mul_carry_value [of B m c ds]
  by (simp add: mul_add_def digits_value_append carry_digits_value case_prod_beta Let_def)

lemma mul_add_canonical:
  assumes "2 \<le> B" and "1 \<le> m" and "canonical B ds"
  shows "canonical B (mul_add B m ds c)"
proof -
  define xs where "xs = fst (mul_carry B m c ds)"
  define k where "k = snd (mul_carry B m c ds)"
  have mul: "mul_add B m ds c = xs @ carry_digits B k"
    by (simp add: mul_add_def xs_def k_def case_prod_beta Let_def)
  have len: "length xs = length ds" by (simp add: xs_def)
  have small: "\<forall>d \<in> set xs. d < B" using assms(1) mul_carry_digits unfolding xs_def by auto
  have val: "digits_value B xs + B ^ length ds * k = m * digits_value B ds + c"
    unfolding xs_def k_def by (rule mul_carry_value)
  have "last xs \<noteq> 0" if "k = 0" "xs \<noteq> []"
  proof
    assume "last xs = 0"
    have "ds \<noteq> []" using that(2) len by auto
    then have "B ^ (length ds - 1) \<le> digits_value B ds"
      using assms(3) by (intro digits_value_ge) (simp_all add: canonical_def)
    also have "\<dots> \<le> m * digits_value B ds" using assms(2) by simp
    also have "\<dots> \<le> digits_value B xs" using val that(1) by simp
    also have "\<dots> = digits_value B (butlast xs)"
      using digits_value_append [of B "butlast xs" "[last xs]"] that(2) \<open>last xs = 0\<close>
      by (metis append_butlast_last_id digits_value.simps mult_0_right add_0_right)
    also have "\<dots> < B ^ length (butlast xs)"
      by (rule digits_value_less) (use small in_set_butlastD in fastforce)
    finally show False using len by simp
  qed
  moreover have "canonical B (carry_digits B k)" by (rule carry_digits_canonical [OF assms(1)])
  moreover have "carry_digits B k = [] \<Longrightarrow> k = 0"
    using carry_digits_value [OF assms(1), of k] by simp
  ultimately show ?thesis
    unfolding mul using small by (auto simp: canonical_def last_append)
qed

text \<open>Folding \<open>mul_add\<close> over a text converts it from base \<open>m\<close> to base \<open>B\<close>.\<close>

lemma convert_value:
  "2 \<le> B \<Longrightarrow> digits_value B (foldl (mul_add B m) acc ds)
     = m ^ length ds * digits_value B acc + digits_value m (rev ds)"
  by (induction ds arbitrary: acc) (simp_all add: mul_add_value digits_value_append algebra_simps)

lemma convert_canonical:
  "2 \<le> B \<Longrightarrow> 1 \<le> m \<Longrightarrow> canonical B acc \<Longrightarrow> canonical B (foldl (mul_add B m) acc ds)"
  by (induction ds arbitrary: acc) (simp_all add: mul_add_canonical)

lemma digits_value_zeroes: "digits_value B (xs @ replicate n 0) = digits_value B xs"
  by (induction xs) (induction n, simp_all)

text \<open>Converting to base \<open>m\<close> and back to base \<open>B\<close> drops leading zeroes only.\<close>

lemma convert_back:
  assumes "2 \<le> B" and "2 \<le> m" and "canonical B (rev ds)"
  shows "foldl (mul_add B m) [] (replicate n 0 @ rev (foldl (mul_add m B) [] (replicate k 0 @ ds))) = rev ds"
    (is "?back = _")
proof (rule canonical_unique)
  let ?there = "foldl (mul_add m B) [] (replicate k 0 @ ds)"
  show "0 < B" using assms(1) by simp
  show "canonical B ?back" using assms(1,2) by (intro convert_canonical) simp_all
  show "canonical B (rev ds)" by (rule assms(3))
  have "digits_value B ?back = digits_value m (rev (replicate n 0 @ rev ?there))"
    using assms(1) by (simp only: convert_value digits_value.simps)
  also have "\<dots> = digits_value m ?there"
    by (simp only: rev_append rev_rev_ident rev_replicate digits_value_zeroes)
  also have "\<dots> = digits_value B (rev (replicate k 0 @ ds))"
    using assms(2) by (simp only: convert_value digits_value.simps)
  also have "\<dots> = digits_value B (rev ds)"
    by (simp only: rev_append rev_replicate digits_value_zeroes)
  finally show "digits_value B ?back = digits_value B (rev ds)" .
qed

end
