(* ===== verification/PeerTypes.thy ===== *)
theory PeerTypes
  imports Positional "HOL-Library.List_Lexorder"
begin

text \<open>
  Identities and addresses (include/peercore/types.hpp, src/src/types.cpp): peer ids and their
  base58 text, and the \<open>/ip4/.../tcp/...[/p2p/...]\<close> subset of multiaddresses.
\<close>

section \<open>Code: data\<close>

text \<open>\<open>std::array<uint8_t, 32>\<close>: a byte list, of length 32 for a \<open>wf_peer_id\<close>.\<close>

datatype peer_id = PeerId (peer_bytes: bytes)

definition wf_peer_id :: "peer_id \<Rightarrow> bool" where
  "wf_peer_id p \<longleftrightarrow> length (peer_bytes p) = 32"

record identity =
  id_peer_id :: peer_id
  id_secret_key :: bytes

datatype multiaddr = Multiaddr (maddr_bytes: bytes)

record ip4_tcp_endpoint =
  ep_ip :: string
  ep_port :: u16
  ep_peer_id :: "string option"

section \<open>Code: base58\<close>

definition kBase58Alphabet :: string where
  "kBase58Alphabet = ''123456789ABCDEFGHJKLMNPQRSTUVWXYZabcdefghijkmnopqrstuvwxyz''"

fun position_of :: "'a \<Rightarrow> 'a list \<Rightarrow> nat option" where
  "position_of c [] = None"
| "position_of c (x # xs) = (if x = c then Some 0 else map_option Suc (position_of c xs))"

definition base58_value :: "char \<Rightarrow> byte option" where
  "base58_value c = map_option of_nat (position_of c kBase58Alphabet)"

fun encode_carry_loop :: "u32 \<Rightarrow> byte list \<Rightarrow> byte list \<times> u32" where
  "encode_carry_loop carry [] = ([], carry)"
| "encode_carry_loop carry (digit # digits) =
     (let carry1 = carry + push_bit 8 (ucast digit);
          digit1 = ucast (carry1 mod 58);
          (digits1, carry2) = encode_carry_loop (carry1 div 58) digits
      in (digit1 # digits1, carry2))"

lemma unat_div_less: "1 < k \<Longrightarrow> x \<noteq> 0 \<Longrightarrow> unat (x div k) < unat x" for x k :: "'a::len word"
proof -
  assume "1 < k" "x \<noteq> 0"
  then have "1 < unat k" "0 < unat x"
    by (simp_all add: word_less_nat_alt unat_gt_0)
  then show ?thesis by (simp add: unat_div)
qed

function encode_push_loop :: "u32 \<Rightarrow> byte list" where
  "encode_push_loop carry =
     (if 0 < carry then ucast (carry mod 58) # encode_push_loop (carry div 58) else [])"
  by pat_completeness auto
termination
  by (relation "measure unat") (auto intro!: unat_div_less)

declare encode_push_loop.simps [simp del]

definition encode_step :: "byte list \<Rightarrow> byte \<Rightarrow> byte list" where
  "encode_step digits byte =
     (let (digits1, carry) = encode_carry_loop (ucast byte) digits
      in digits1 @ encode_push_loop carry)"

definition encode_base58 :: "bytes \<Rightarrow> string" where
  "encode_base58 data =
     (let leading_zeroes = length (takeWhile (\<lambda>b. b = 0) data);
          digits = foldl encode_step [] data;
          out = replicate leading_zeroes (CHR ''1'') @
                map (\<lambda>d. kBase58Alphabet ! unat d) (rev digits)
      in if out = [] then ''1'' else out)"

fun decode_carry_loop :: "u32 \<Rightarrow> bytes \<Rightarrow> bytes \<times> u32" where
  "decode_carry_loop carry [] = ([], carry)"
| "decode_carry_loop carry (byte # bytes) =
     (let carry1 = carry + ucast byte * 58;
          byte1 = ucast (carry1 AND 0xFF);
          (bytes1, carry2) = decode_carry_loop (drop_bit 8 carry1) bytes
      in (byte1 # bytes1, carry2))"

function decode_push_loop :: "u32 \<Rightarrow> bytes" where
  "decode_push_loop carry =
     (if 0 < carry then ucast (carry AND 0xFF) # decode_push_loop (drop_bit 8 carry) else [])"
  by pat_completeness auto
termination
  by (relation "measure unat") (auto simp: drop_bit_eq_div intro!: unat_div_less)

declare decode_push_loop.simps [simp del]

definition decode_step :: "bytes \<Rightarrow> byte \<Rightarrow> bytes" where
  "decode_step bytes v =
     (let (bytes1, carry) = decode_carry_loop (ucast v) bytes
      in bytes1 @ decode_push_loop carry)"

fun decode_loop :: "bytes \<Rightarrow> string \<Rightarrow> bytes result" where
  "decode_loop bytes [] = Inr bytes"
| "decode_loop bytes (ch # text) =
     (case base58_value ch of
        None \<Rightarrow> Inl ''invalid base58 peer id''
      | Some v \<Rightarrow> decode_loop (decode_step bytes v) text)"

definition decode_base58 :: "string \<Rightarrow> bytes result" where
  "decode_base58 text =
     (let leading_zeroes = length (takeWhile (\<lambda>c. c = CHR ''1'') text)
      in bind_result (decode_loop [] text) (\<lambda>bytes.
           Inr (replicate leading_zeroes 0 @ rev bytes)))"

section \<open>Code: peer ids\<close>

definition kIdentityMultihashCode :: byte where "kIdentityMultihashCode = 0x00"
definition kIdentityPayloadLength :: byte where "kIdentityPayloadLength = 36"
definition kEd25519PublicKeyPrefix :: bytes where
  "kEd25519PublicKeyPrefix = [0x08, 0x01, 0x12, 0x20]"

definition peer_id_to_string :: "peer_id \<Rightarrow> string" where
  "peer_id_to_string p =
     encode_base58 ([kIdentityMultihashCode, kIdentityPayloadLength] @
                    kEd25519PublicKeyPrefix @ peer_bytes p)"

definition peer_id_from_bytes :: "bytes \<Rightarrow> peer_id" where
  "peer_id_from_bytes b = PeerId b"

definition peer_id_from_string :: "string \<Rightarrow> peer_id result" where
  "peer_id_from_string text =
     bind_result (decode_base58 text) (\<lambda>bytes.
       if length bytes \<noteq> 2 + length kEd25519PublicKeyPrefix + 32 then
         Inl ''invalid peer id payload''
       else if bytes ! 0 \<noteq> kIdentityMultihashCode \<or> bytes ! 1 \<noteq> kIdentityPayloadLength then
         Inl ''unsupported peer id multihash''
       else if take (length kEd25519PublicKeyPrefix) (drop 2 bytes) \<noteq> kEd25519PublicKeyPrefix then
         Inl ''unsupported peer id key type''
       else Inr (PeerId (drop (2 + length kEd25519PublicKeyPrefix) bytes)))"

section \<open>Code: multiaddresses\<close>

text \<open>The splitting loop of \<open>parse_ip4_tcp_text\<close>: at most \<open>room\<close> non-empty segments between
  slashes (\<open>parts.size() - index\<close> slots are left).\<close>

function split_parts :: "nat \<Rightarrow> string \<Rightarrow> string list" where
  "split_parts room rest =
     (if room = 0 then []
      else
        let segment = takeWhile (\<lambda>c. c \<noteq> CHR ''/'') rest;
            from_slash = dropWhile (\<lambda>c. c \<noteq> CHR ''/'') rest;
            parts = (if segment \<noteq> [] then [segment] else [])
        in if from_slash = [] then parts
           else parts @ split_parts (room - length parts) (tl from_slash))"
  by pat_completeness auto
termination
proof (relation "measure (\<lambda>(room, rest). length rest)", goal_cases)
  case (2 room rest segment from_slash parts)
  then have "0 < length from_slash" and "length from_slash \<le> length rest"
    by (simp_all add: length_dropWhile_le)
  then show ?case by (cases from_slash) simp_all
qed simp

declare split_parts.simps [simp del]

text \<open>\<open>std::strtol\<close> in base 10 on a C string, in the "C" locale with a 64-bit \<open>long\<close>: the value
  and the text \<open>endptr\<close> points at.  A \<open>std::string\<close> passed through \<open>c_str()\<close> ends at its first
  NUL.\<close>

definition c_string :: "string \<Rightarrow> string" where
  "c_string s = takeWhile (\<lambda>c. c \<noteq> CHR 0x00) s"

definition is_space :: "char \<Rightarrow> bool" where
  "is_space c \<longleftrightarrow> c \<in> {CHR 0x09, CHR 0x0A, CHR 0x0B, CHR 0x0C, CHR 0x0D, CHR 0x20}"

definition is_digit :: "char \<Rightarrow> bool" where
  "is_digit c \<longleftrightarrow> c \<in> set ''0123456789''"

definition digit_value :: "char \<Rightarrow> int" where
  "digit_value c = of_char c - 48"

definition decimal_value :: "string \<Rightarrow> int" where
  "decimal_value ds = foldl (\<lambda>n c. 10 * n + digit_value c) 0 ds"

definition clamp_long :: "int \<Rightarrow> int" where
  "clamp_long n = max (- (2 ^ 63)) (min (2 ^ 63 - 1) n)"

definition strtol10 :: "string \<Rightarrow> int \<times> string" where
  "strtol10 s =
     (let unspaced = dropWhile is_space s;
          negative = (unspaced \<noteq> [] \<and> hd unspaced = CHR ''-'');
          signed = (unspaced \<noteq> [] \<and> hd unspaced \<in> {CHR ''-'', CHR ''+''});
          unsigned_part = (if signed then tl unspaced else unspaced);
          digits = takeWhile is_digit unsigned_part
      in if digits = [] then (0, s)
         else (clamp_long (if negative then - decimal_value digits else decimal_value digits),
               dropWhile is_digit unsigned_part))"

definition parse_ip4_tcp_text :: "string \<Rightarrow> ip4_tcp_endpoint result" where
  "parse_ip4_tcp_text str =
     (let parts = split_parts 7 str;
          index = length parts
      in if (index \<noteq> 4 \<and> index \<noteq> 6) \<or> parts ! 0 \<noteq> ''ip4'' \<or> parts ! 2 \<noteq> ''tcp'' then
           Inl ''only /ip4/<addr>/tcp/<port>[/p2p/<peer-id>] is supported''
         else
           let (port, port_end) = strtol10 (c_string (parts ! 3))
           in if port_end \<noteq> [] \<or> port < 0 \<or> 65535 < port then Inl ''invalid tcp port''
              else if index = 6 then
                if parts ! 4 \<noteq> ''p2p'' \<or> parts ! 5 = [] then Inl ''invalid p2p peer id''
                else Inr \<lparr>ep_ip = parts ! 1, ep_port = word_of_int port,
                          ep_peer_id = Some (parts ! 5)\<rparr>
              else Inr \<lparr>ep_ip = parts ! 1, ep_port = word_of_int port, ep_peer_id = None\<rparr>)"

definition multiaddr_of_text :: "string \<Rightarrow> multiaddr" where
  "multiaddr_of_text str = Multiaddr (bytes_of str)"

definition multiaddr_to_string :: "multiaddr \<Rightarrow> string" where
  "multiaddr_to_string a = text_of (maddr_bytes a)"

definition parse_ip4_tcp :: "multiaddr \<Rightarrow> ip4_tcp_endpoint result" where
  "parse_ip4_tcp a = parse_ip4_tcp_text (multiaddr_to_string a)"

text \<open>\<open>std::to_string(uint16_t)\<close>.\<close>

fun decimal_digits :: "nat \<Rightarrow> string" where
  "decimal_digits n =
     (if n < 10 then [''0123456789'' ! n]
      else decimal_digits (n div 10) @ [''0123456789'' ! (n mod 10)])"

declare decimal_digits.simps [simp del]

definition from_ip4_tcp :: "string \<Rightarrow> u16 \<Rightarrow> multiaddr" where
  "from_ip4_tcp ip port =
     multiaddr_of_text (''/ip4/'' @ ip @ ''/tcp/'' @ decimal_digits (unat port))"

definition from_ip4_tcp_peer :: "string \<Rightarrow> u16 \<Rightarrow> string \<Rightarrow> multiaddr" where
  "from_ip4_tcp_peer ip port peer_id =
     multiaddr_of_text (''/ip4/'' @ ip @ ''/tcp/'' @ decimal_digits (unat port) @
                        ''/p2p/'' @ peer_id)"

section \<open>Base58 is positional notation\<close>

lemma unat_encode_carry:
  assumes "unat carry \<le> 256" and "unat digit < 58"
  shows "unat (carry + push_bit 8 (ucast digit) :: u32) = unat carry + unat (digit :: byte) * 256"
proof -
  have "unat (push_bit 8 (ucast digit) :: u32) = unat digit * 256"
    using assms(2) by (simp add: push_bit_eq_mult unat_word_ariths)
  then show ?thesis using assms by (simp add: unat_word_ariths)
qed

lemma encode_carry_loop_refines:
  assumes "unat carry \<le> 256" and "\<forall>d \<in> set digits. unat d < 58"
  shows "map unat (fst (encode_carry_loop carry digits)) = fst (mul_carry 58 256 (unat carry) (map unat digits))
    \<and> unat (snd (encode_carry_loop carry digits)) = snd (mul_carry 58 256 (unat carry) (map unat digits))
    \<and> unat (snd (encode_carry_loop carry digits)) \<le> 256"
  using assms
proof (induction carry digits rule: encode_carry_loop.induct)
  case (2 carry digit digits)
  define c1 where "c1 = carry + push_bit 8 (ucast digit)"
  have c1: "unat c1 = unat carry + unat digit * 256"
    unfolding c1_def using 2 by (intro unat_encode_carry) simp_all
  have q: "unat (c1 div 58) = unat c1 div 58" by (simp add: unat_div)
  have d: "unat (ucast (c1 mod 58) :: byte) = unat c1 mod 58"
    by (simp add: unat_ucast_mod unat_mod)
  have "unat c1 \<le> 14848" using c1 "2.prems" by simp
  then have "unat c1 div 58 \<le> 256" by arith
  with "2.IH" [OF c1_def refl] "2.prems"
  show ?case
    by (simp add: Let_def case_prod_beta d q c1 flip: c1_def)
qed simp

lemma encode_push_loop_refines:
  "unat carry \<le> 256 \<Longrightarrow> map unat (encode_push_loop carry) = carry_digits 58 (unat carry)"
proof (induction carry rule: encode_push_loop.induct)
  case (1 carry)
  show ?case
  proof (cases "carry = 0")
    case True
    then show ?thesis by (simp add: encode_push_loop.simps)
  next
    case False
    have q: "unat (carry div 58) = unat carry div 58" by (simp add: unat_div)
    have d: "unat (ucast (carry mod 58) :: byte) = unat carry mod 58"
      by (simp add: unat_ucast_mod unat_mod)
    have "map unat (encode_push_loop (carry div 58)) = carry_digits 58 (unat carry div 58)"
      using 1 False by (simp add: q word_neq_0_conv)
    with False d show ?thesis
      by (simp add: encode_push_loop.simps [of carry] carry_digits.simps [of 58 "unat carry"]
          word_neq_0_conv unat_eq_zero)
  qed
qed

lemma encode_step_refines:
  assumes "\<forall>d \<in> set digits. unat d < 58"
  shows "map unat (encode_step digits byte) = mul_add 58 256 (map unat digits) (unat byte)"
proof -
  have "unat (ucast byte :: u32) \<le> 256" using unat_byte_less [of byte] by simp
  from encode_carry_loop_refines [OF this assms] show ?thesis
    by (simp add: encode_step_def mul_add_def case_prod_beta Let_def encode_push_loop_refines)
qed

lemma encode_digits_refine:
  "map unat (foldl encode_step [] data) = foldl (mul_add 58 256) [] (map unat data)
   \<and> (\<forall>d \<in> set (foldl encode_step [] data). unat d < 58)"
proof (induction data rule: rev_induct)
  case (snoc byte data)
  let ?ds = "foldl encode_step [] data"
  have step: "map unat (encode_step ?ds byte) = mul_add 58 256 (map unat ?ds) (unat byte)"
    using snoc by (intro encode_step_refines) simp
  have "canonical 58 (foldl (mul_add 58 256) [] (map unat (data @ [byte])))"
    by (rule convert_canonical) simp_all
  moreover have eq: "map unat (encode_step ?ds byte)
      = foldl (mul_add 58 256) [] (map unat (data @ [byte]))"
    using step snoc by simp
  ultimately have "canonical 58 (map unat (encode_step ?ds byte))"
    by (simp only:)
  then have "\<forall>d \<in> set (encode_step ?ds byte). unat d < 58"
    by (simp add: canonical_def)
  with eq show ?case by simp
qed simp

lemma unat_decode_carry:
  assumes "unat carry < 58"
  shows "unat (carry + ucast (byte :: byte) * 58 :: u32) = unat carry + unat byte * 58"
proof -
  have "unat (ucast byte * 58 :: u32) = unat byte * 58"
    using unat_byte_less [of byte] by (simp add: unat_word_ariths)
  then show ?thesis using assms unat_byte_less [of byte] by (simp add: unat_word_ariths)
qed

lemma unat_drop_bit8: "unat (drop_bit 8 x) = unat x div 256" for x :: u32
proof -
  have "unat (drop_bit 8 x) = drop_bit 8 (unat x)" by (simp only: unat_drop_bit_eq)
  then show ?thesis by (simp add: drop_bit_eq_div)
qed

lemma decode_carry_loop_refines:
  assumes "unat carry < 58"
  shows "map unat (fst (decode_carry_loop carry bs)) = fst (mul_carry 256 58 (unat carry) (map unat bs))
    \<and> unat (snd (decode_carry_loop carry bs)) = snd (mul_carry 256 58 (unat carry) (map unat bs))
    \<and> unat (snd (decode_carry_loop carry bs)) < 58"
  using assms
proof (induction carry bs rule: decode_carry_loop.induct)
  case (2 carry byte bs)
  define c1 where "c1 = carry + ucast byte * 58"
  have c1: "unat c1 = unat carry + unat byte * 58"
    unfolding c1_def using "2.prems" by (intro unat_decode_carry)
  have d: "unat (ucast (c1 AND 0xFF) :: byte) = unat c1 mod 256"
    by (simp add: ucast_low_byte unat_ucast_mod)
  have "unat c1 < 14848" using c1 "2.prems" unat_byte_less [of byte] by simp
  then have "unat (drop_bit 8 c1) < 58" by (simp add: unat_drop_bit8 less_mult_imp_div_less)
  with "2.IH" [OF c1_def refl] show ?case
    by (simp add: Let_def case_prod_beta d unat_drop_bit8 c1 flip: c1_def)
qed simp

lemma decode_push_loop_refines:
  "map unat (decode_push_loop carry) = carry_digits 256 (unat carry)"
proof (induction carry rule: decode_push_loop.induct)
  case (1 carry)
  show ?case
  proof (cases "carry = 0")
    case True
    then show ?thesis by (simp add: decode_push_loop.simps)
  next
    case False
    have d: "unat (ucast (carry AND 0xFF) :: byte) = unat carry mod 256"
      by (simp add: ucast_low_byte unat_ucast_mod)
    have "map unat (decode_push_loop (drop_bit 8 carry)) = carry_digits 256 (unat carry div 256)"
      using 1 False by (simp add: unat_drop_bit8 word_neq_0_conv)
    with False d show ?thesis
      by (simp add: decode_push_loop.simps [of carry] carry_digits.simps [of 256 "unat carry"]
          word_neq_0_conv unat_eq_zero)
  qed
qed

lemma decode_step_refines:
  assumes "unat v < 58"
  shows "map unat (decode_step bs v) = mul_add 256 58 (map unat bs) (unat v)"
proof -
  have "unat (ucast v :: u32) < 58" using assms by simp
  from decode_carry_loop_refines [OF this, of bs] show ?thesis
    by (simp add: decode_step_def mul_add_def case_prod_beta Let_def decode_push_loop_refines)
qed

lemma position_of_bound: "position_of c xs = Some n \<Longrightarrow> n < length xs \<and> xs ! n = c"
  by (induction xs arbitrary: n) (auto split: if_splits)

lemma position_of_nth: "distinct xs \<Longrightarrow> n < length xs \<Longrightarrow> position_of (xs ! n) xs = Some n"
proof (induction xs arbitrary: n)
  case (Cons x xs)
  then show ?case by (cases n) auto
qed simp

lemma alphabet_facts: "length kBase58Alphabet = 58" "distinct kBase58Alphabet"
  "kBase58Alphabet ! 0 = CHR ''1''"
  by (simp_all add: kBase58Alphabet_def)

lemma base58_value_SomeD:
  assumes "base58_value c = Some v"
  shows "unat v < 58" and "kBase58Alphabet ! unat v = c"
proof -
  from assms obtain n where n: "position_of c kBase58Alphabet = Some n" and v: "v = of_nat n"
    by (auto simp: base58_value_def)
  then have b: "n < 58" "kBase58Alphabet ! n = c"
    using position_of_bound [OF n] by (simp_all add: alphabet_facts)
  with v have "unat v = n" by (simp add: unat_of_nat take_bit_eq_mod)
  with b show "unat v < 58" and "kBase58Alphabet ! unat v = c" by simp_all
qed

lemma base58_value_digit: "unat d < 58 \<Longrightarrow> base58_value (kBase58Alphabet ! unat d) = Some d"
  by (simp add: base58_value_def position_of_nth alphabet_facts)

lemma base58_value_1: "base58_value c = Some v \<Longrightarrow> c = CHR ''1'' \<longleftrightarrow> v = 0"
  using base58_value_SomeD [of c v] base58_value_digit [of v] base58_value_digit [of 0]
  by (auto simp: alphabet_facts)

text \<open>What the decoding loop computes, on the digits of the text.\<close>

lemma decode_loop_refines:
  "decode_loop bs str = Inr out \<Longrightarrow>
   \<exists>vs. map base58_value str = map Some vs \<and> (\<forall>v \<in> set vs. unat v < 58) \<and>
        map unat out = foldl (mul_add 256 58) (map unat bs) (map unat vs)"
proof (induction bs str rule: decode_loop.induct)
  case (2 bs ch str)
  then obtain v where v: "base58_value ch = Some v" by (auto split: option.splits)
  with 2 obtain vs where "map base58_value str = map Some vs" "\<forall>v \<in> set vs. unat v < 58"
    "map unat out = foldl (mul_add 256 58) (map unat (decode_step bs v)) (map unat vs)"
    by auto
  with v show ?case
    by (intro exI [of _ "v # vs"]) (simp add: base58_value_SomeD decode_step_refines)
qed simp

lemma decode_loop_ok:
  assumes "map base58_value str = map Some vs"
  shows "\<exists>out. decode_loop bs str = Inr out"
  using assms
proof (induction str arbitrary: bs vs)
  case (Cons c str)
  then show ?case by (cases vs) auto
qed simp

section \<open>Base58 round trips\<close>

lemma takeWhile_split: "takeWhile (\<lambda>x. x = a) xs = replicate (length (takeWhile (\<lambda>x. x = a) xs)) a"
  by (induction xs) auto

lemma split_leading:
  obtains k ys where "xs = replicate k a @ ys" and "ys \<noteq> [] \<longrightarrow> hd ys \<noteq> a"
    and "length (takeWhile (\<lambda>x. x = a) xs) = k"
proof
  show "xs = replicate (length (takeWhile (\<lambda>x. x = a) xs)) a @ dropWhile (\<lambda>x. x = a) xs"
    by (metis takeWhile_dropWhile_id takeWhile_split)
  show "dropWhile (\<lambda>x. x = a) xs \<noteq> [] \<longrightarrow> hd (dropWhile (\<lambda>x. x = a) xs) \<noteq> a"
    using hd_dropWhile [of "\<lambda>x. x = a" xs] by blast
qed simp

lemma leading_replicate:
  "ys \<noteq> [] \<longrightarrow> hd ys \<noteq> a \<Longrightarrow> length (takeWhile (\<lambda>x. x = a) (replicate k a @ ys)) = k"
  by (induction k) (cases ys, simp_all)

lemma map_unat_eq_iff: "map unat xs = map unat ys \<longleftrightarrow> xs = (ys :: 'a::len word list)"
  by (simp add: inj_map_eq_map [OF injI] word_unat_eq_iff)

lemma canonical_rev_leading:
  assumes "ys \<noteq> [] \<longrightarrow> hd ys \<noteq> 0" and "\<forall>y \<in> set ys. unat y < B"
  shows "canonical B (rev (map unat (ys :: byte list)))"
  using assms by (auto simp: canonical_def last_rev hd_map unat_eq_zero)

lemma base58_values_text:
  "map base58_value cs = map Some vs \<Longrightarrow>
   cs = map (\<lambda>d. kBase58Alphabet ! unat d) vs \<and> (\<forall>v \<in> set vs. unat v < 58)"
proof (induction cs arbitrary: vs)
  case (Cons c cs)
  then show ?case by (cases vs) (auto simp: base58_value_SomeD)
qed simp

abbreviation alphabet_text :: "nat \<Rightarrow> byte list \<Rightarrow> string" where
  "alphabet_text k ds \<equiv> replicate k (CHR ''1'') @ map (\<lambda>d. kBase58Alphabet ! unat d) ds"

lemma alphabet_text_values:
  "\<forall>d \<in> set ds. unat d < 58 \<Longrightarrow>
   map base58_value (alphabet_text k ds) = map Some (replicate k 0 @ ds)"
  using base58_value_digit [of 0] by (simp add: alphabet_facts base58_value_digit)

lemma alphabet_text_leading:
  assumes "\<forall>d \<in> set ds. unat d < 58" and "ds \<noteq> [] \<longrightarrow> hd ds \<noteq> 0"
  shows "length (takeWhile (\<lambda>c. c = CHR ''1'') (alphabet_text k ds)) = k"
proof (rule leading_replicate, rule impI)
  assume "map (\<lambda>d. kBase58Alphabet ! unat d) ds \<noteq> []"
  then have "ds \<noteq> []" by simp
  with assms have "unat (hd ds) < 58" "hd ds \<noteq> 0" by simp_all
  then have "kBase58Alphabet ! unat (hd ds) \<noteq> CHR ''1''"
    using base58_value_1 [OF base58_value_digit] by blast
  with \<open>ds \<noteq> []\<close> show "hd (map (\<lambda>d. kBase58Alphabet ! unat d) ds) \<noteq> CHR ''1''"
    by (simp add: hd_map)
qed

lemma decode_alphabet_text:
  assumes "\<forall>d \<in> set ds. unat d < 58" and "ds \<noteq> [] \<longrightarrow> hd ds \<noteq> 0"
  obtains bs where "decode_base58 (alphabet_text k ds) = Inr (replicate k 0 @ rev bs)"
    and "map unat bs = foldl (mul_add 256 58) [] (replicate k 0 @ map unat ds)"
proof -
  note vals = alphabet_text_values [OF assms(1), of k]
  then obtain out where out: "decode_loop [] (alphabet_text k ds) = Inr out"
    using decode_loop_ok by blast
  then obtain vs where "map base58_value (alphabet_text k ds) = map Some vs"
    and o: "map unat out = foldl (mul_add 256 58) [] (map unat vs)"
    using decode_loop_refines by fastforce
  with vals have "vs = replicate k 0 @ ds" by (metis map_injective option.inject injI)
  moreover have "decode_base58 (alphabet_text k ds) = Inr (replicate k 0 @ rev out)"
    using out alphabet_text_leading [OF assms, of k] by (simp add: decode_base58_def)
  ultimately show ?thesis using that o by simp
qed

lemma encode_base58_data:
  assumes "ys \<noteq> [] \<longrightarrow> hd ys \<noteq> 0"
  obtains ds where "map unat ds = foldl (mul_add 58 256) [] (replicate k 0 @ map unat ys)"
    and "\<forall>d \<in> set ds. unat d < 58" and "ds \<noteq> [] \<longrightarrow> last ds \<noteq> 0"
    and "encode_base58 (replicate k 0 @ ys) =
      (if replicate k 0 @ ys = [] then ''1'' else alphabet_text k (rev ds))"
proof -
  define ds where "ds = foldl encode_step [] (replicate k 0 @ ys)"
  have ds: "map unat ds = foldl (mul_add 58 256) [] (replicate k 0 @ map unat ys)"
    and small: "\<forall>d \<in> set ds. unat d < 58"
    unfolding ds_def using encode_digits_refine [of "replicate k 0 @ ys"] by simp_all
  have can: "canonical 58 (map unat ds)" unfolding ds by (rule convert_canonical) simp_all
  have ys: "canonical 256 (rev (map unat ys))"
    using assms by (rule canonical_rev_leading) (simp add: unat_byte_less)
  have "digits_value 58 (map unat ds) = digits_value 256 (rev (replicate k 0 @ map unat ys))"
    unfolding ds by (simp only: convert_value) simp
  then have "digits_value 58 (map unat ds) = digits_value 256 (rev (map unat ys))"
    by (simp only: rev_append rev_replicate digits_value_zeroes)
  with can ys have "ds = [] \<longleftrightarrow> ys = []"
    using digits_value_eq_0_iff [OF can] digits_value_eq_0_iff [OF ys] by simp
  moreover have "encode_base58 (replicate k 0 @ ys) =
      (if alphabet_text k (rev ds) = [] then ''1'' else alphabet_text k (rev ds))"
    by (simp only: encode_base58_def Let_def leading_replicate [OF assms] ds_def)
  ultimately have "encode_base58 (replicate k 0 @ ys) =
      (if replicate k 0 @ ys = [] then ''1'' else alphabet_text k (rev ds))"
    by simp
  moreover have "ds \<noteq> [] \<longrightarrow> last ds \<noteq> 0"
    using can by (auto simp: canonical_def last_map unat_eq_zero)
  ultimately show ?thesis using that ds small by blast
qed

lemma decode_base58_1: "decode_base58 ''1'' = Inr [0]"
proof -
  have "decode_step [] 0 = []" by (simp add: decode_step_def decode_push_loop.simps)
  then show ?thesis
    using base58_value_digit [of 0] by (simp add: decode_base58_def alphabet_facts)
qed

lemma decode_encode_base58:
  "decode_base58 (encode_base58 data) = Inr (if data = [] then [0] else data)"
proof -
  obtain k ys where data: "data = replicate k 0 @ ys" and ys: "ys \<noteq> [] \<longrightarrow> hd ys \<noteq> 0"
    by (rule split_leading)
  from ys obtain ds where ds: "map unat ds = foldl (mul_add 58 256) [] (replicate k 0 @ map unat ys)"
    "\<forall>d \<in> set ds. unat d < 58" "ds \<noteq> [] \<longrightarrow> last ds \<noteq> 0"
    and enc: "encode_base58 data = (if data = [] then ''1'' else alphabet_text k (rev ds))"
    unfolding data by (rule encode_base58_data)
  from ds(2,3) obtain bs where dec: "decode_base58 (alphabet_text k (rev ds)) = Inr (replicate k 0 @ rev bs)"
    and bs: "map unat bs = foldl (mul_add 256 58) [] (replicate k 0 @ map unat (rev ds))"
    by (auto simp: hd_rev intro: decode_alphabet_text [of "rev ds" k])
  have "map unat bs = rev (map unat ys)"
    unfolding bs rev_map [symmetric] ds(1)
    by (rule convert_back) (use ys in \<open>simp_all add: canonical_rev_leading unat_byte_less\<close>)
  then have "rev bs = ys" by (metis map_unat_eq_iff rev_map rev_rev_ident)
  with dec show ?thesis by (simp add: enc decode_base58_1 flip: data)
qed

lemma decode_base58_empty: "decode_base58 [] = Inr data \<longleftrightarrow> data = []"
  by (auto simp: decode_base58_def)

lemma encode_decode_base58:
  assumes "decode_base58 str = Inr data" and "str \<noteq> []"
  shows "encode_base58 data = str \<and> data \<noteq> []"
proof -
  obtain k cs where str: "str = replicate k (CHR ''1'') @ cs" and cs: "cs \<noteq> [] \<longrightarrow> hd cs \<noteq> CHR ''1''"
    by (rule split_leading)
  from assms(1) obtain out where "decode_loop [] str = Inr out"
    by (auto simp: decode_base58_def bind_result_Inr_iff)
  then obtain all where "map base58_value str = map Some all"
    using decode_loop_refines by blast
  then obtain vs where vs: "map base58_value cs = map Some vs"
    by (auto simp: str map_eq_append_conv append_eq_map_conv)
  have cs_eq: "cs = map (\<lambda>d. kBase58Alphabet ! unat d) vs" and small: "\<forall>v \<in> set vs. unat v < 58"
    using base58_values_text [OF vs] by simp_all
  have lead: "vs \<noteq> [] \<longrightarrow> hd vs \<noteq> 0"
    using cs small unfolding cs_eq by (auto simp: hd_map alphabet_facts)
  obtain bs where dec: "decode_base58 str = Inr (replicate k 0 @ rev bs)"
    and bs: "map unat bs = foldl (mul_add 256 58) [] (replicate k 0 @ map unat vs)"
    unfolding str cs_eq by (rule decode_alphabet_text [OF small lead])
  have can: "canonical 256 (map unat bs)" unfolding bs by (rule convert_canonical) simp_all
  then have "rev bs \<noteq> [] \<longrightarrow> hd (rev bs) \<noteq> 0"
    by (auto simp: canonical_def last_map hd_rev unat_eq_zero)
  then obtain ds where ds: "map unat ds = foldl (mul_add 58 256) [] (replicate k 0 @ map unat (rev bs))"
    and enc: "encode_base58 (replicate k 0 @ rev bs) =
      (if replicate k 0 @ rev bs = [] then ''1'' else alphabet_text k (rev ds))"
    by (rule encode_base58_data)
  have "map unat ds = rev (map unat vs)"
    unfolding ds rev_map [symmetric] bs
    by (rule convert_back) (use lead small in \<open>simp_all add: canonical_rev_leading\<close>)
  then have "rev ds = vs" by (metis map_unat_eq_iff rev_map rev_rev_ident)
  moreover have "data = replicate k 0 @ rev bs" using dec assms(1) by simp
  moreover from this \<open>rev ds = vs\<close> assms(2) ds have "data \<noteq> []"
    by (auto simp: str cs_eq)
  ultimately show ?thesis using enc by (auto simp: str cs_eq)
qed

section \<open>Peer ids\<close>

lemma prefix_length [simp]: "length kEd25519PublicKeyPrefix = 4"
  by (simp add: kEd25519PublicKeyPrefix_def)

lemma peer_id_from_to_string:
  "wf_peer_id p \<Longrightarrow> peer_id_from_string (peer_id_to_string p) = Inr p"
  by (cases p) (simp add: peer_id_from_string_def peer_id_to_string_def decode_encode_base58
      wf_peer_id_def nth_append)

lemma peer_id_from_stringD:
  assumes "peer_id_from_string str = Inr p"
  shows "wf_peer_id p \<and> peer_id_to_string p = str"
proof -
  from assms obtain bs where dec: "decode_base58 str = Inr bs" and len: "length bs = 38"
    and head: "bs ! 0 = kIdentityMultihashCode" "bs ! 1 = kIdentityPayloadLength"
    and pre: "take 4 (drop 2 bs) = kEd25519PublicKeyPrefix" and p: "p = PeerId (drop 6 bs)"
    by (auto simp: peer_id_from_string_def bind_result_Inr_iff split: if_splits)
  have "drop 4 (drop 2 bs) = drop 6 bs" by simp
  then have "bs = take 2 bs @ take 4 (drop 2 bs) @ drop 6 bs"
    by (metis append_take_drop_id)
  moreover have "take 2 bs = [bs ! 0, bs ! 1]"
    using len by (cases bs; cases "tl bs") (simp_all add: numeral_2_eq_2)
  ultimately have "bs = [kIdentityMultihashCode, kIdentityPayloadLength] @
      kEd25519PublicKeyPrefix @ peer_bytes p"
    using head pre p by simp
  moreover have "str \<noteq> []" using dec len by (auto simp: decode_base58_def)
  ultimately show ?thesis
    using encode_decode_base58 [OF dec] len p
    by (simp add: peer_id_to_string_def wf_peer_id_def)
qed

lemma peer_id_to_string_inj:
  "wf_peer_id p \<Longrightarrow> wf_peer_id q \<Longrightarrow> peer_id_to_string p = peer_id_to_string q \<longleftrightarrow> p = q"
  by (metis peer_id_from_to_string sum.inject(2))

section \<open>Multiaddresses\<close>

lemma split_parts_slash: "split_parts (Suc n) (CHR ''/'' # rest) = split_parts (Suc n) rest"
  by (simp add: split_parts.simps [of "Suc n" "CHR ''/'' # rest"])

lemma split_parts_last:
  "seg \<noteq> [] \<Longrightarrow> CHR ''/'' \<notin> set seg \<Longrightarrow> split_parts (Suc n) seg = [seg]"
  by (simp add: split_parts.simps [of "Suc n" seg] takeWhile_eq_all_conv [THEN iffD2]
      dropWhile_eq_Nil_conv [THEN iffD2] Let_def)

lemma split_parts_segment:
  assumes "seg \<noteq> []" and "CHR ''/'' \<notin> set seg"
  shows "split_parts (Suc n) (seg @ CHR ''/'' # rest) = seg # split_parts n rest"
proof -
  have "takeWhile (\<lambda>c. c \<noteq> CHR ''/'') (seg @ CHR ''/'' # rest) = seg"
    and "dropWhile (\<lambda>c. c \<noteq> CHR ''/'') (seg @ CHR ''/'' # rest) = CHR ''/'' # rest"
    using assms(2) by (induction seg) auto
  with assms(1) show ?thesis
    by (simp add: split_parts.simps [of "Suc n" "seg @ CHR ''/'' # rest"])
qed

lemmas split_parts_rules = split_parts_slash split_parts_segment split_parts_last

lemma split_parts_all_nonempty: "p \<in> set (split_parts n str) \<Longrightarrow> p \<noteq> [] \<and> CHR ''/'' \<notin> set p"
proof (induction n str rule: split_parts.induct)
  case (1 room rest)
  then show ?case
    by (auto simp: split_parts.simps [of room rest] Let_def split: if_splits dest: set_takeWhileD)
qed

lemma length_split_parts: "length (split_parts n str) \<le> n"
proof (induction n str rule: split_parts.induct)
  case (1 room rest)
  show ?case
  proof (cases "room = 0 \<or> dropWhile (\<lambda>c. c \<noteq> CHR ''/'') rest = []")
    case True
    then show ?thesis by (auto simp: split_parts.simps [of room rest] Let_def Suc_le_eq)
  next
    case False
    let ?parts = "if takeWhile (\<lambda>c. c \<noteq> CHR ''/'') rest \<noteq> []
      then [takeWhile (\<lambda>c. c \<noteq> CHR ''/'') rest] else []"
    have "length (split_parts (room - length ?parts) (tl (dropWhile (\<lambda>c. c \<noteq> CHR ''/'') rest)))
        \<le> room - length ?parts"
      using False by (intro 1) simp_all
    moreover have "length ?parts \<le> room" using False by simp
    moreover have "split_parts room rest = ?parts @
        split_parts (room - length ?parts) (tl (dropWhile (\<lambda>c. c \<noteq> CHR ''/'') rest))"
      using False unfolding split_parts.simps [of room rest] Let_def by (simp only: de_Morgan_disj if_False)
    ultimately show ?thesis by simp
  qed
qed

lemma digit_char:
  assumes "n < 10"
  shows "is_digit (''0123456789'' ! n) \<and> digit_value (''0123456789'' ! n) = int n"
proof -
  from assms have "n \<in> {0, 1, 2, 3, 4, 5, 6, 7, 8, 9}" by auto
  then show ?thesis by (auto simp: is_digit_def digit_value_def)
qed

lemma decimal_digits_value:
  "decimal_value (decimal_digits n) = int n \<and> list_all is_digit (decimal_digits n) \<and> decimal_digits n \<noteq> []"
proof (induction n rule: decimal_digits.induct)
  case (1 n)
  show ?case
  proof (cases "n < 10")
    case True
    then show ?thesis
      using digit_char [of n] by (simp add: decimal_digits.simps [of n] decimal_value_def)
  next
    case False
    have "10 * int (n div 10) + int (n mod 10) = int n" by presburger
    with False 1 digit_char [of "n mod 10"] show ?thesis
      by (simp add: decimal_digits.simps [of n] decimal_value_def del: of_nat_div of_nat_mod)
  qed
qed

lemma is_digit_plain: "is_digit c \<Longrightarrow> \<not> is_space c \<and> c \<noteq> CHR ''-'' \<and> c \<noteq> CHR ''+'' \<and> c \<noteq> CHR ''/'' \<and> c \<noteq> CHR 0x00"
  by (auto simp: is_digit_def is_space_def)

lemma strtol10_digits:
  assumes "list_all is_digit ds" and "ds \<noteq> []"
  shows "strtol10 ds = (clamp_long (decimal_value ds), [])"
proof -
  have all: "takeWhile is_digit ds = ds" "dropWhile is_digit ds = []"
    using assms(1) by (simp_all add: list_all_iff takeWhile_eq_all_conv)
  obtain d rest where "ds = d # rest" using assms(2) by (cases ds) auto
  with assms(1) have "\<not> is_space d" "d \<noteq> CHR ''-''" "d \<noteq> CHR ''+''"
    using is_digit_plain by auto
  with \<open>ds = d # rest\<close> all show ?thesis by (simp add: strtol10_def Let_def)
qed

lemma uint_port_bounds: "0 \<le> uint port \<and> uint port \<le> 65535" for port :: u16
  using unsigned_less [of port, where ?'a = int] by simp

lemma strtol10_port:
  "strtol10 (c_string (decimal_digits (unat (port :: u16)))) = (int (unat port), [])"
proof -
  let ?ds = "decimal_digits (unat port)"
  have ds: "decimal_value ?ds = int (unat port)" "list_all is_digit ?ds" "?ds \<noteq> []"
    using decimal_digits_value by blast+
  then have "c_string ?ds = ?ds"
    by (auto simp: c_string_def list_all_iff takeWhile_eq_all_conv dest: is_digit_plain)
  then have "strtol10 (c_string ?ds) = (clamp_long (int (unat port)), [])"
    using strtol10_digits [OF ds(2,3)] by (simp only: ds(1))
  then show ?thesis using uint_port_bounds [of port] by (simp add: clamp_long_def)
qed

lemma decimal_digits_no_slash: "CHR ''/'' \<notin> set (decimal_digits n)"
  using decimal_digits_value [of n] by (auto simp: list_all_iff dest: is_digit_plain)

lemma parse_from_ip4_tcp:
  assumes "ip \<noteq> []" and "CHR ''/'' \<notin> set ip"
  shows "parse_ip4_tcp (from_ip4_tcp ip port) = Inr \<lparr>ep_ip = ip, ep_port = port, ep_peer_id = None\<rparr>"
proof -
  have "split_parts 7 (''/ip4/'' @ ip @ ''/tcp/'' @ decimal_digits (unat port))
      = [''ip4'', ip, ''tcp'', decimal_digits (unat port)]"
    using assms decimal_digits_value [of "unat port"] decimal_digits_no_slash [of "unat port"]
      split_parts_segment [of "''ip4''"] split_parts_segment [of "''tcp''"]
    by (simp add: eval_nat_numeral split_parts_rules)
  then show ?thesis using uint_port_bounds [of port]
    by (simp add: parse_ip4_tcp_def from_ip4_tcp_def multiaddr_to_string_def multiaddr_of_text_def
        comp_def parse_ip4_tcp_text_def strtol10_port Let_def)
qed

lemma parse_from_ip4_tcp_peer:
  assumes "ip \<noteq> []" and "CHR ''/'' \<notin> set ip" and "peer \<noteq> []" and "CHR ''/'' \<notin> set peer"
  shows "parse_ip4_tcp (from_ip4_tcp_peer ip port peer)
    = Inr \<lparr>ep_ip = ip, ep_port = port, ep_peer_id = Some peer\<rparr>"
proof -
  have "split_parts 7 (''/ip4/'' @ ip @ ''/tcp/'' @ decimal_digits (unat port) @ ''/p2p/'' @ peer)
      = [''ip4'', ip, ''tcp'', decimal_digits (unat port), ''p2p'', peer]"
    using assms decimal_digits_value [of "unat port"] decimal_digits_no_slash [of "unat port"]
      split_parts_segment [of "''ip4''"] split_parts_segment [of "''tcp''"]
      split_parts_segment [of "''p2p''"]
    by (simp add: eval_nat_numeral split_parts_rules)
  then show ?thesis using assms(3) uint_port_bounds [of port]
    by (simp add: parse_ip4_tcp_def from_ip4_tcp_peer_def multiaddr_to_string_def multiaddr_of_text_def
        comp_def parse_ip4_tcp_text_def strtol10_port Let_def)
qed

lemma parse_ip4_tcp_textD:
  assumes "parse_ip4_tcp_text str = Inr ep"
  shows "\<exists>port_text. (split_parts 7 str = [''ip4'', ep_ip ep, ''tcp'', port_text] \<and> ep_peer_id ep = None
        \<or> (\<exists>peer. split_parts 7 str = [''ip4'', ep_ip ep, ''tcp'', port_text, ''p2p'', peer]
             \<and> ep_peer_id ep = Some peer))
    \<and> strtol10 (c_string port_text) = (uint (ep_port ep), [])"
proof -
  let ?ps = "split_parts 7 str"
  obtain port rest where num: "strtol10 (c_string (?ps ! 3)) = (port, rest)"
    by (cases "strtol10 (c_string (?ps ! 3))")
  from assms num have len: "length ?ps = 4 \<or> length ?ps = 6"
    and parts: "?ps ! 0 = ''ip4''" "?ps ! 2 = ''tcp''"
    and ok: "rest = []" "0 \<le> port" "port \<le> 65535"
    and p2p: "length ?ps = 6 \<longrightarrow> ?ps ! 4 = ''p2p''"
    and ep: "ep = \<lparr>ep_ip = ?ps ! 1, ep_port = word_of_int port,
      ep_peer_id = (if length ?ps = 6 then Some (?ps ! 5) else None)\<rparr>"
    by (auto simp: parse_ip4_tcp_text_def Let_def split: if_splits)
  have "uint (word_of_int port :: u16) = port"
    using ok by (simp add: uint_word_of_int)
  moreover have "?ps = (if length ?ps = 6 then [?ps ! 0, ?ps ! 1, ?ps ! 2, ?ps ! 3, ?ps ! 4, ?ps ! 5]
      else [?ps ! 0, ?ps ! 1, ?ps ! 2, ?ps ! 3])"
    using len by (intro nth_equalityI) (auto simp: less_Suc_eq eval_nat_numeral)
  ultimately show ?thesis using parts p2p ep num ok len
    by (intro exI [of _ "?ps ! 3"]) (auto split: if_splits)
qed

lemma position_of_None: "position_of c xs = None \<longleftrightarrow> c \<notin> set xs"
  by (induction xs) auto

text \<open>The text of a peer id can stand in a multiaddress.\<close>

lemma peer_id_text_plain:
  assumes "wf_peer_id p"
  shows "peer_id_to_string p \<noteq> []" and "CHR ''/'' \<notin> set (peer_id_to_string p)"
proof -
  have "peer_id_from_string (peer_id_to_string p) = Inr p" by (rule peer_id_from_to_string [OF assms])
  then obtain out where out: "decode_loop [] (peer_id_to_string p) = Inr out"
    by (auto simp: peer_id_from_string_def decode_base58_def bind_result_Inr_iff)
  then obtain vs where "map base58_value (peer_id_to_string p) = map Some vs"
    using decode_loop_refines by blast
  then have "base58_value ` set (peer_id_to_string p) = Some ` set vs" by (metis set_map)
  moreover have "CHR ''/'' \<notin> set kBase58Alphabet" by (simp add: kBase58Alphabet_def)
  then have "base58_value (CHR ''/'') = None" by (simp add: base58_value_def position_of_None)
  ultimately show "CHR ''/'' \<notin> set (peer_id_to_string p)" by (metis imageE imageI option.distinct(1))
  show "peer_id_to_string p \<noteq> []" by (simp add: peer_id_to_string_def encode_base58_def Let_def)
qed

section \<open>Order\<close>

text \<open>Peer ids are ordered as their byte arrays are, so that maps keyed by a peer can be
  enumerated.\<close>

instantiation peer_id :: linorder
begin

definition less_eq_peer_id :: "peer_id \<Rightarrow> peer_id \<Rightarrow> bool" where
  "less_eq_peer_id p q \<longleftrightarrow> map unat (peer_bytes p) \<le> map unat (peer_bytes q)"

definition less_peer_id :: "peer_id \<Rightarrow> peer_id \<Rightarrow> bool" where
  "less_peer_id p q \<longleftrightarrow> map unat (peer_bytes p) < map unat (peer_bytes q)"

instance
  by standard (auto simp: less_eq_peer_id_def less_peer_id_def less_le map_unat_eq_iff
      intro: peer_id.expand)

end

section \<open>Properties\<close>

text \<open>Base58 is a bijection between non-empty byte strings and the texts the decoder accepts:
  a non-empty text decodes to \<open>data\<close> exactly when it is the encoding of \<open>data\<close> (the empty text
  decodes to no bytes, which no encoding produces).\<close>

theorem base58_bijection:
  "decode_base58 str = Inr data \<longleftrightarrow>
     (if str = [] then data = [] else data \<noteq> [] \<and> str = encode_base58 data)"
  by (cases "str = []") (auto simp: decode_encode_base58 decode_base58_empty dest: encode_decode_base58)

text \<open>C40. A text parses to a peer id exactly when it is the text of that peer id: the textual form
  is unique, and foreign multihashes, key types and lengths are all rejected.\<close>

theorem peer_id_text_form:
  "peer_id_from_string str = Inr p \<longleftrightarrow> wf_peer_id p \<and> str = peer_id_to_string p"
  using peer_id_from_stringD peer_id_from_to_string by blast

text \<open>The address a node publishes for itself parses back to the same host, port and peer id, for
  every 16-bit port.\<close>

theorem multiaddr_round_trip:
  assumes "ip \<noteq> []" and "CHR ''/'' \<notin> set ip" and "peer \<noteq> []" and "CHR ''/'' \<notin> set peer"
  shows "parse_ip4_tcp (from_ip4_tcp ip port)
      = Inr \<lparr>ep_ip = ip, ep_port = port, ep_peer_id = None\<rparr>
    \<and> parse_ip4_tcp (from_ip4_tcp_peer ip port peer)
      = Inr \<lparr>ep_ip = ip, ep_port = port, ep_peer_id = Some peer\<rparr>"
  using assms by (simp add: parse_from_ip4_tcp parse_from_ip4_tcp_peer)

theorem multiaddr_round_trip_witness:
  "parse_ip4_tcp (from_ip4_tcp_peer ''127.0.0.1'' 4001 ''12D3'')
    = Inr \<lparr>ep_ip = ''127.0.0.1'', ep_port = 4001, ep_peer_id = Some ''12D3''\<rparr>"
  using multiaddr_round_trip [of "''127.0.0.1''" "''12D3''" 4001] by simp

text \<open>The port is read by \<open>strtol\<close>, which skips white space, accepts a sign and stops at a NUL.\<close>

lemma port_text_is_lenient:
  "parse_ip4_tcp_text ''/ip4/h/tcp/ +80'' = Inr \<lparr>ep_ip = ''h'', ep_port = 80, ep_peer_id = None\<rparr>"
  "parse_ip4_tcp_text (''/ip4/h/tcp/80'' @ [CHR 0x00] @ ''junk'')
    = Inr \<lparr>ep_ip = ''h'', ep_port = 80, ep_peer_id = None\<rparr>"
  by code_simp+

end
