(* ===== verification/Streaming.thy ===== *)
theory Streaming
  imports Prelude
begin

text \<open>
  Byte-stream parsing, shared by every layer that cuts messages out of a buffer: Yamux
  frames, Noise wire frames, multistream-select messages and their varints.  \<open>parse_all\<close> is
  the loop the code runs (\<open>while (try_parse(...)) handle(...)\<close>), seen as the list of messages
  it cuts and the bytes it leaves.

  The locale \<open>incremental_parser\<close> is the contract such a parser must keep for the result not
  to depend on how the transport splits the bytes; \<open>frame_codec\<close> adds the encoder of the
  sending side.  Each layer interprets them on its own functions.
\<close>

function parse_all :: "('b list \<Rightarrow> ('f \<times> 'b list) option) \<Rightarrow> 'b list \<Rightarrow> 'f list \<times> 'b list" where
  "parse_all p bs =
     (case p bs of
        None \<Rightarrow> ([], bs)
      | Some (f, rest) \<Rightarrow>
          if length rest < length bs
          then (let (fs, r) = parse_all p rest in (f # fs, r))
          else ([f], rest))"
  by pat_completeness auto
termination
  by (relation "measure (\<lambda>(p, bs). length bs)") auto

declare parse_all.simps [simp del]

text \<open>One more chunk from the transport: parse what was left over followed by the chunk.\<close>

definition feed :: "('b list \<Rightarrow> ('f \<times> 'b list) option) \<Rightarrow>
    'f list \<times> 'b list \<Rightarrow> 'b list \<Rightarrow> 'f list \<times> 'b list" where
  "feed p st chunk = (let (gs, r) = parse_all p (snd st @ chunk) in (fst st @ gs, r))"

locale incremental_parser =
  fixes parse :: "'b list \<Rightarrow> ('f \<times> 'b list) option"
  assumes parse_append: "parse bs = Some (f, rest) \<Longrightarrow> parse (bs @ extra) = Some (f, rest @ extra)"
    and parse_shrinks: "parse bs = Some (f, rest) \<Longrightarrow> length rest < length bs"
begin

lemma parse_all_None: "parse bs = None \<Longrightarrow> parse_all parse bs = ([], bs)"
  by (simp add: parse_all.simps)

lemma parse_all_Some:
  "parse bs = Some (f, rest) \<Longrightarrow>
   parse_all parse bs = (let (fs, r) = parse_all parse rest in (f # fs, r))"
  by (simp add: parse_all.simps [of parse bs] parse_shrinks)

lemma parse_all_rest_stuck: "parse (snd (parse_all parse bs)) = None"
proof (induction "length bs" arbitrary: bs rule: less_induct)
  case less
  show ?case
  proof (cases "parse bs")
    case None
    then show ?thesis by (simp add: parse_all_None)
  next
    case (Some fr)
    then obtain f rest where fr: "parse bs = Some (f, rest)" by (cases fr) auto
    then have "parse (snd (parse_all parse rest)) = None"
      by (intro less parse_shrinks)
    then show ?thesis by (simp add: parse_all_Some [OF fr] case_prod_beta Let_def)
  qed
qed

lemma parse_all_append:
  "parse_all parse (bs @ extra) = feed parse (parse_all parse bs) extra"
proof (induction "length bs" arbitrary: bs rule: less_induct)
  case less
  show ?case
  proof (cases "parse bs")
    case None
    then show ?thesis by (simp add: parse_all_None feed_def split: prod.splits)
  next
    case (Some fr)
    then obtain f rest where fr: "parse bs = Some (f, rest)" by (cases fr) auto
    then have "parse_all parse (rest @ extra) = feed parse (parse_all parse rest) extra"
      by (intro less parse_shrinks)
    then show ?thesis
      by (simp add: parse_all_Some [OF fr] parse_all_Some [OF parse_append [OF fr]] feed_def
          split: prod.splits)
  qed
qed

lemma feed_append: "feed parse (feed parse st a) b = feed parse st (a @ b)"
  using parse_all_append [of "snd st @ a" b]
  by (simp add: feed_def split: prod.splits)

lemma feed_Nil: "parse (snd st) = None \<Longrightarrow> feed parse st [] = st"
  by (simp add: feed_def parse_all_None)

lemma feed_chunks:
  assumes "parse (snd st) = None"
  shows "foldl (feed parse) st chunks = feed parse st (concat chunks)"
  using assms
proof (induction chunks arbitrary: st)
  case Nil
  then show ?case by (simp add: feed_Nil)
next
  case (Cons c cs)
  have "parse (snd (feed parse st c)) = None"
    using parse_all_rest_stuck [of "snd st @ c"] by (simp add: feed_def case_prod_beta Let_def)
  then show ?case by (simp add: Cons.IH feed_append)
qed

end

locale frame_codec = incremental_parser parse
  for parse :: "'b list \<Rightarrow> ('f \<times> 'b list) option" +
  fixes encode :: "'f \<Rightarrow> 'b list"
    and valid :: "'f \<Rightarrow> bool"
  assumes parse_encode: "valid f \<Longrightarrow> parse (encode f) = Some (f, [])"
begin

lemma parse_encode_append: "valid f \<Longrightarrow> parse (encode f @ rest) = Some (f, rest)"
  using parse_append [OF parse_encode] by simp

lemma encode_nonempty: "valid f \<Longrightarrow> encode f \<noteq> []"
  using parse_shrinks [OF parse_encode] by fastforce

lemma encode_prefix_free:
  assumes "valid f" and "valid g" and "encode f @ xs = encode g @ ys"
  shows "f = g \<and> xs = ys"
proof -
  have "Some (f, xs) = parse (encode g @ ys)"
    using parse_encode_append [OF assms(1), of xs] by (simp only: assms(3))
  also have "\<dots> = Some (g, ys)" by (rule parse_encode_append [OF assms(2)])
  finally show ?thesis by simp
qed

lemma parse_strict_prefix:
  assumes "valid f" and "strict_prefix bs (encode f)"
  shows "parse bs = None"
proof (rule ccontr)
  assume "parse bs \<noteq> None"
  then obtain g r where g: "parse bs = Some (g, r)" by auto
  from assms(2) obtain c cs where "encode f = bs @ c # cs" by (rule strict_prefixE')
  with parse_append [OF g, of "c # cs"] parse_encode [OF assms(1)] show False by simp
qed

lemma parse_all_encoded:
  "list_all valid fs \<Longrightarrow>
   parse_all parse (concat (map encode fs) @ rest) =
     (let (gs, r) = parse_all parse rest in (fs @ gs, r))"
proof (induction fs)
  case Nil
  then show ?case by (simp split: prod.splits)
next
  case (Cons f fs)
  then have "parse (encode f @ concat (map encode fs) @ rest) = Some (f, concat (map encode fs) @ rest)"
    by (simp add: parse_encode_append)
  with Cons show ?case by (simp add: parse_all_Some split: prod.splits)
qed

text \<open>However the transport cuts the encoded messages, the receiver gets exactly them.\<close>

lemma feed_encoded:
  assumes "list_all valid fs" and "concat chunks = concat (map encode fs)" and "parse [] = None"
  shows "foldl (feed parse) ([], []) chunks = (fs, [])"
proof -
  have "foldl (feed parse) ([], []) chunks = feed parse ([], []) (concat chunks)"
    by (rule feed_chunks) (simp add: assms(3))
  also have "\<dots> = parse_all parse (concat (map encode fs) @ [])"
    by (simp add: feed_def assms(2) split: prod.splits)
  also have "\<dots> = (fs, [])"
    using assms(1,3) by (subst parse_all_encoded) (auto simp: parse_all_None)
  finally show ?thesis .
qed

end

end
