(* ===== verification/Varint.thy ===== *)
theory Varint
  imports Streaming
begin

text \<open>
  Unsigned LEB128 varints.  The repository holds the encoder twice (multistream_select.cpp,
  noise.cpp) and the decoder four times (also swarm.cpp and connection_session.cpp); the copies
  differ only in their two error messages, which are the parameter \<open>varint_errors\<close> here.
  The value is a 64-bit word, so bits shifted past bit 63 are lost as in the C++ code.
\<close>

section \<open>Code\<close>

record varint_errors =
  err_invalid :: string
  err_incomplete :: string

lemma unat_drop_bit7: "unat (drop_bit 7 v) = unat v div 2 ^ 7" for v :: u64
proof -
  have "unat (drop_bit 7 v) = drop_bit 7 (unat v)" by (simp only: unat_drop_bit_eq)
  then show ?thesis by (simp only: drop_bit_eq_div)
qed

lemma drop_bit7_less: "drop_bit 7 v \<noteq> 0 \<Longrightarrow> unat (drop_bit 7 v) < unat v" for v :: u64
proof -
  assume "drop_bit 7 v \<noteq> 0"
  then have "0 < unat v" by (auto simp: unat_gt_0)
  then show ?thesis unfolding unat_drop_bit7 by (intro div_less_dividend) simp_all
qed

function encode_uvarint :: "u64 \<Rightarrow> bytes" where
  "encode_uvarint v =
     (let byte = (ucast (v AND 0x7F) :: byte);
          v' = drop_bit 7 v
      in if v' \<noteq> 0 then (byte OR 0x80) # encode_uvarint v' else [byte])"
  by pat_completeness auto
termination
  by (relation "measure unat") (auto intro: drop_bit7_less)

declare encode_uvarint.simps [simp del]

fun decode_uvarint_loop :: "varint_errors \<Rightarrow> u64 \<Rightarrow> nat \<Rightarrow> bytes \<Rightarrow> (u64 \<times> bytes) result" where
  "decode_uvarint_loop errs acc shift [] = Inl (err_incomplete errs)"
| "decode_uvarint_loop errs acc shift (byte # buf) =
     (let acc' = acc OR push_bit shift (ucast (byte AND 0x7F))
      in if byte AND 0x80 = 0 then Inr (acc', buf)
         else if 64 \<le> shift + 7 then Inl (err_invalid errs)
         else decode_uvarint_loop errs acc' (shift + 7) buf)"

definition decode_uvarint_with :: "varint_errors \<Rightarrow> bytes \<Rightarrow> (u64 \<times> bytes) result" where
  "decode_uvarint_with errs buf = decode_uvarint_loop errs 0 0 buf"

text \<open>The copies, with the messages each file gives its errors.\<close>

definition multistream_errors :: varint_errors where
  "multistream_errors =
     \<lparr>err_invalid = ''invalid multistream length'', err_incomplete = ''incomplete multistream length''\<rparr>"

definition protobuf_errors :: varint_errors where
  "protobuf_errors =
     \<lparr>err_invalid = ''invalid protobuf varint'', err_incomplete = ''incomplete protobuf varint''\<rparr>"

definition decode_uvarint :: "bytes \<Rightarrow> (u64 \<times> bytes) result" where
  "decode_uvarint = decode_uvarint_with multistream_errors"

definition decode_multistream_length :: "bytes \<Rightarrow> (u64 \<times> bytes) result" where
  "decode_multistream_length = decode_uvarint_with multistream_errors"

definition decode_protobuf_uvarint :: "bytes \<Rightarrow> (u64 \<times> bytes) result" where
  "decode_protobuf_uvarint = decode_uvarint_with protobuf_errors"

section \<open>Bits of one group\<close>

text \<open>The simplifier reads a bit of a word's numeral as a bit of the numeral itself.\<close>

lemma bit_127: "bit (127 :: nat) n \<longleftrightarrow> n < 7" "bit (127 :: int) n \<longleftrightarrow> n < 7"
proof -
  have "(127 :: nat) = mask 7" "(127 :: int) = mask 7" by (simp_all add: mask_eq_exp_minus_1)
  then show "bit (127 :: nat) n \<longleftrightarrow> n < 7" "bit (127 :: int) n \<longleftrightarrow> n < 7"
    by (simp_all only: bit_mask_iff) simp_all
qed

lemma bit_128: "bit (128 :: nat) n \<longleftrightarrow> n = 7" "bit (128 :: int) n \<longleftrightarrow> n = 7"
proof -
  have "(128 :: nat) = 2 ^ 7" "(128 :: int) = 2 ^ 7" by simp_all
  then show "bit (128 :: nat) n \<longleftrightarrow> n = 7" "bit (128 :: int) n \<longleftrightarrow> n = 7"
    by (simp_all only: bit_exp_iff) auto
qed

lemmas bit_group = bit_simps bit_127 bit_128

lemma low_group_flag: "(ucast (v AND 0x7F :: u64) :: byte) AND 0x80 = 0"
  by (rule bit_word_eqI) (auto simp: bit_group)

lemma high_group_flag: "((x :: byte) OR 0x80) AND 0x80 \<noteq> 0"
proof
  assume "(x OR 0x80) AND 0x80 = 0"
  then have "\<not> bit ((x OR 0x80) AND 0x80) 7" by simp
  then show False by (simp add: bit_group)
qed

lemma low_group_value: "(ucast ((ucast (v AND 0x7F :: u64) :: byte) AND 0x7F) :: u64) = v AND 0x7F"
  by (rule bit_word_eqI) (auto simp: bit_group)

lemma high_group_value:
  "(ucast (((ucast (v AND 0x7F :: u64) :: byte) OR 0x80) AND 0x7F) :: u64) = v AND 0x7F"
  by (rule bit_word_eqI) (auto simp: bit_group)

lemma group_split:
  "push_bit s (v AND 0x7F) OR push_bit (s + 7) (drop_bit 7 v) = push_bit s (v :: u64)"
proof (rule bit_word_eqI)
  fix n assume "n < LENGTH(64)"
  moreover have "s + 7 \<le> n \<Longrightarrow> 7 + (n - (s + 7)) = n - s" by simp
  ultimately show "bit (push_bit s (v AND 0x7F) OR push_bit (s + 7) (drop_bit 7 v)) n \<longleftrightarrow> bit (push_bit s v) n"
    by (cases "s + 7 \<le> n") (auto simp: bit_group)
qed

lemma group_last: "drop_bit 7 v = 0 \<Longrightarrow> v AND 0x7F = (v :: u64)"
proof (rule bit_word_eqI)
  fix n
  assume "drop_bit 7 v = 0"
  then have "\<not> bit (drop_bit 7 v) (n - 7)" by simp
  then show "bit (v AND 0x7F) n \<longleftrightarrow> bit v n" if "n < LENGTH(64)"
    using that by (cases "n < 7") (auto simp: bit_group)
qed

section \<open>Round trip\<close>

lemma decode_loop_encode:
  assumes "s < 64" and "unat v < 2 ^ (64 - s)"
  shows "decode_uvarint_loop errs acc s (encode_uvarint v @ rest) = Inr (acc OR push_bit s v, rest)"
  using assms
proof (induction v arbitrary: acc s rule: encode_uvarint.induct)
  case (1 v)
  show ?case
  proof (cases "drop_bit 7 v = 0")
    case True
    define b where "b = (ucast (v AND 0x7F) :: byte)"
    have "encode_uvarint v = [b]" using True by (simp add: encode_uvarint.simps [of v] b_def)
    moreover have "b AND 0x80 = 0" unfolding b_def by (rule low_group_flag)
    moreover have "ucast (b AND 0x7F) = v"
      unfolding b_def low_group_value using True by (rule group_last)
    ultimately show ?thesis by simp
  next
    case False
    note d = unat_drop_bit7 [of v]
    with False have big: "2 ^ 7 \<le> unat v"
      by (metis div_less not_le unat_eq_zero)
    have room: "7 < 64 - s"
    proof (rule ccontr)
      assume "\<not> 7 < 64 - s"
      then have "(2::nat) ^ (64 - s) \<le> 2 ^ 7" by (intro power_increasing) auto
      with big "1.prems"(2) show False by linarith
    qed
    then have "64 - s = 7 + (64 - (s + 7))" by simp
    then have e: "(2::nat) ^ (64 - s) = 2 ^ 7 * 2 ^ (64 - (s + 7))"
      by (metis power_add)
    have "unat (drop_bit 7 v) < 2 ^ (64 - (s + 7))"
      using "1.prems"(2) unfolding d e by (simp add: less_mult_imp_div_less mult.commute)
    then have IH: "decode_uvarint_loop errs acc' (s + 7) (encode_uvarint (drop_bit 7 v) @ rest)
        = Inr (acc' OR push_bit (s + 7) (drop_bit 7 v), rest)" for acc'
      using "1.IH" [OF refl refl False, of "s + 7" acc'] room by simp
    define b where "b = (ucast (v AND 0x7F) :: byte) OR 0x80"
    have "encode_uvarint v = b # encode_uvarint (drop_bit 7 v)"
      using False by (simp add: encode_uvarint.simps [of v] b_def)
    moreover have "b AND 0x80 \<noteq> 0" unfolding b_def by (rule high_group_flag)
    moreover have "ucast (b AND 0x7F) = v AND 0x7F"
      unfolding b_def by (rule high_group_value)
    moreover have "(acc OR push_bit s (v AND 0x7F)) OR push_bit (s + 7) (drop_bit 7 v)
        = acc OR push_bit s v"
      by (simp only: or.assoc group_split)
    ultimately show ?thesis using room IH by (simp add: Let_def)
  qed
qed

lemma decode_uvarint_with_encode [simp]:
  "decode_uvarint_with errs (encode_uvarint v @ rest) = Inr (v, rest)"
  using decode_loop_encode [of 0 v errs 0 rest] unsigned_less [of v, where ?'a = nat]
  by (simp add: decode_uvarint_with_def)

lemma decode_loop_append:
  "decode_uvarint_loop errs acc s bs = Inr (v, rest) \<Longrightarrow>
   decode_uvarint_loop errs acc s (bs @ extra) = Inr (v, rest @ extra)"
  by (induction errs acc s bs rule: decode_uvarint_loop.induct) (auto simp: Let_def split: if_splits)

lemma decode_loop_shrinks:
  "decode_uvarint_loop errs acc s bs = Inr (v, rest) \<Longrightarrow> length rest < length bs"
  by (induction errs acc s bs rule: decode_uvarint_loop.induct)
     (fastforce simp: Let_def split: if_splits)+

lemma decode_loop_invalid_append:
  "decode_uvarint_loop errs acc s bs = Inl (err_invalid errs) \<Longrightarrow>
   err_invalid errs \<noteq> err_incomplete errs \<Longrightarrow>
   decode_uvarint_loop errs acc s (bs @ extra) = Inl (err_invalid errs)"
  by (induction errs acc s bs rule: decode_uvarint_loop.induct) (auto simp: Let_def split: if_splits)

lemma decode_loop_errors:
  "decode_uvarint_loop errs acc s bs = Inl e \<Longrightarrow> e = err_invalid errs \<or> e = err_incomplete errs"
  by (induction errs acc s bs rule: decode_uvarint_loop.induct) (auto simp: Let_def split: if_splits)

lemma decode_loop_suffix:
  "decode_uvarint_loop errs acc s bs = Inr (v, rest) \<Longrightarrow> suffix rest bs"
  by (induction errs acc s bs rule: decode_uvarint_loop.induct)
     (auto simp: Let_def intro: suffix_ConsI split: if_splits)

lemma length_encode_uvarint_le:
  assumes "unat v < 2 ^ (7 * k)" and "0 < k"
  shows "length (encode_uvarint v) \<le> k"
  using assms
proof (induction v arbitrary: k rule: encode_uvarint.induct)
  case (1 v)
  show ?case
  proof (cases "drop_bit 7 v = 0")
    case True
    with "1.prems" show ?thesis by (simp add: encode_uvarint.simps [of v])
  next
    case False
    note d = unat_drop_bit7 [of v]
    from False have big: "2 ^ 7 \<le> unat v"
      by (metis d div_less not_le unat_eq_zero)
    obtain j where j: "k = Suc j" using "1.prems"(2) by (cases k) auto
    have "0 < j"
      using big "1.prems"(1) unfolding j by (cases j) auto
    moreover have "unat (drop_bit 7 v) < 2 ^ (7 * j)"
      using "1.prems"(1) unfolding d j by (simp add: less_mult_imp_div_less power_add mult.commute)
    ultimately have "length (encode_uvarint (drop_bit 7 v)) \<le> j"
      by (intro "1.IH" [OF refl refl False])
    with False j show ?thesis by (simp add: encode_uvarint.simps [of v] Let_def)
  qed
qed

lemma length_encode_uvarint: "length (encode_uvarint v) \<le> 10"
  using length_encode_uvarint_le [of v 10] unsigned_less [of v, where ?'a = nat] by simp

definition uvarint_parse :: "varint_errors \<Rightarrow> bytes \<Rightarrow> (u64 \<times> bytes) option" where
  "uvarint_parse errs bs = (case decode_uvarint_with errs bs of Inl _ \<Rightarrow> None | Inr r \<Rightarrow> Some r)"

lemma uvarint_parse_Some:
  "uvarint_parse errs bs = Some r \<longleftrightarrow> decode_uvarint_with errs bs = Inr r"
  by (simp add: uvarint_parse_def split: sum.splits)

interpretation varint: frame_codec "uvarint_parse errs" encode_uvarint "\<lambda>_. True" for errs
proof unfold_locales
  show "uvarint_parse errs (bs @ extra) = Some (f, rest @ extra)"
    if "uvarint_parse errs bs = Some (f, rest)" for bs f rest extra
    using that decode_loop_append unfolding uvarint_parse_Some decode_uvarint_with_def by blast
  show "length rest < length bs" if "uvarint_parse errs bs = Some (f, rest)" for bs f rest
    using that decode_loop_shrinks unfolding uvarint_parse_Some decode_uvarint_with_def by blast
  show "uvarint_parse errs (encode_uvarint f) = Some (f, [])" for f
    using decode_uvarint_with_encode [of errs f "[]"] by (simp add: uvarint_parse_Some)
qed

lemma decode_uvarint_with_append:
  "decode_uvarint_with errs bs = Inr (v, rest) \<Longrightarrow>
   decode_uvarint_with errs (bs @ extra) = Inr (v, rest @ extra)"
  using varint.parse_append unfolding uvarint_parse_Some .

lemma decode_uvarint_with_suffix:
  "decode_uvarint_with errs bs = Inr (v, rest) \<Longrightarrow> suffix rest bs \<and> length rest < length bs"
  unfolding decode_uvarint_with_def by (blast dest: decode_loop_suffix decode_loop_shrinks)

lemma decode_uvarint_with_strict_prefix:
  assumes "strict_prefix bs (encode_uvarint v)" and "err_invalid errs \<noteq> err_incomplete errs"
  shows "decode_uvarint_with errs bs = Inl (err_incomplete errs)"
proof -
  from assms(1) obtain c cs where full: "encode_uvarint v = bs @ c # cs" by (rule strict_prefixE')
  have "uvarint_parse errs bs = None" by (rule varint.parse_strict_prefix [OF _ assms(1)]) simp
  then obtain e where e: "decode_uvarint_with errs bs = Inl e"
    by (auto simp: uvarint_parse_def split: sum.splits)
  have "e \<noteq> err_invalid errs"
  proof
    assume "e = err_invalid errs"
    with e have "decode_uvarint_loop errs 0 0 (bs @ c # cs) = Inl (err_invalid errs)"
      unfolding decode_uvarint_with_def using assms(2) by (intro decode_loop_invalid_append) simp_all
    then show False
      using decode_uvarint_with_encode [of errs v "[]"] by (simp add: decode_uvarint_with_def full)
  qed
  with e show ?thesis unfolding decode_uvarint_with_def by (blast dest: decode_loop_errors)
qed

end
