(* ===== verification/Multistream.thy ===== *)
theory Multistream
  imports Varint
begin

text \<open>
  multistream-select 1.0 (src/src/protocol/multistream_select.cpp): messages are a varint length
  and a text that ends in a newline; an exchange is a header message and a protocol message.
  The spans at the end are the helpers of connection_session.cpp that decide whether a buffer
  already holds a whole exchange.
\<close>

section \<open>Code\<close>

definition newline :: char where
  "newline = CHR 0x0A"

definition kHeader :: string where
  "kHeader = ''/multistream/1.0.0''"

definition ensure_newline :: "string \<Rightarrow> string" where
  "ensure_newline msg = (if msg \<noteq> [] \<and> last msg = newline then msg else msg @ [newline])"

definition encode_message :: "string \<Rightarrow> bytes" where
  "encode_message msg =
     (let payload = ensure_newline msg
      in encode_uvarint (of_nat (length payload)) @ bytes_of payload)"

definition decode_next :: "bytes \<Rightarrow> (string \<times> bytes) result" where
  "decode_next buf =
     bind_result (decode_uvarint buf) (\<lambda>(len, buf1).
       if length buf1 < unat len then Inl ''incomplete multistream message''
       else
         let token = text_of (take (unat len) buf1);
             buf2 = drop (unat len) buf1
         in if token = [] \<or> last token \<noteq> newline then Inl ''invalid multistream message''
            else Inr (butlast token, buf2))"

definition prepare_outbound :: "string list \<Rightarrow> bytes result" where
  "prepare_outbound proposals =
     (case proposals of
        [] \<Rightarrow> Inl ''no protocols proposed''
      | proposal # _ \<Rightarrow> Inr (encode_message kHeader @ encode_message proposal))"

definition read_outbound_response :: "bytes \<Rightarrow> string \<Rightarrow> string result" where
  "read_outbound_response incoming proposal =
     bind_result (decode_next incoming) (\<lambda>(header, incoming1).
       if header \<noteq> kHeader then Inl ''unexpected multistream header''
       else
         bind_result (decode_next incoming1) (\<lambda>(token, _).
           if token = proposal then Inr token
           else if token = ''na'' then Inl ''protocol not supported''
           else Inl ''unexpected multistream response''))"

record inbound_negotiation =
  in_outbound :: bytes
  in_protocol :: "string option"

definition negotiate_inbound :: "bytes \<Rightarrow> string list \<Rightarrow> inbound_negotiation result" where
  "negotiate_inbound incoming supported =
     bind_result (decode_next incoming) (\<lambda>(header, incoming1).
       if header \<noteq> kHeader then Inl ''unexpected multistream header''
       else
         bind_result (decode_next incoming1) (\<lambda>(proposal, _).
           case find (\<lambda>supported_proto. supported_proto = proposal) supported of
             Some supported_proto \<Rightarrow>
               Inr \<lparr>in_outbound = encode_message kHeader @ encode_message supported_proto,
                    in_protocol = Some supported_proto\<rparr>
           | None \<Rightarrow>
               Inr \<lparr>in_outbound = encode_message kHeader @ encode_message ''na'',
                    in_protocol = None\<rparr>))"

text \<open>connection_session.cpp: how many bytes of a buffer the next message and exchange take.\<close>

definition is_incomplete_multistream_error :: "string \<Rightarrow> bool" where
  "is_incomplete_multistream_error error \<longleftrightarrow>
     error = ''incomplete multistream length'' \<or> error = ''incomplete multistream message''"

definition multistream_message_span :: "bytes \<Rightarrow> nat result" where
  "multistream_message_span buf =
     bind_result (decode_multistream_length buf) (\<lambda>(len, remaining).
       if length remaining < unat len then Inl ''incomplete multistream message''
       else Inr (length buf - length remaining + unat len))"

definition multistream_exchange_span :: "bytes \<Rightarrow> nat result" where
  "multistream_exchange_span buf =
     bind_result (multistream_message_span buf) (\<lambda>first.
       bind_result (multistream_message_span (drop first buf)) (\<lambda>second.
         Inr (first + second)))"

section \<open>Messages\<close>

text \<open>A protocol name the encoding represents: no trailing newline, and short enough for its
  length with the newline to fit a \<open>size_t\<close>.\<close>

definition plain :: "string \<Rightarrow> bool" where
  "plain msg \<longleftrightarrow> (msg = [] \<or> last msg \<noteq> newline) \<and> length msg + 1 < 2 ^ 64"

lemma ensure_newline_plain: "plain msg \<Longrightarrow> ensure_newline msg = msg @ [newline]"
  by (auto simp: ensure_newline_def plain_def)

lemma ensure_newline_last: "ensure_newline msg \<noteq> []" "last (ensure_newline msg) = newline"
  by (auto simp: ensure_newline_def)

lemma plain_kHeader [simp]: "plain kHeader"
  by (simp add: plain_def kHeader_def newline_def)

lemma plain_na [simp]: "plain ''na''"
  by (simp add: plain_def newline_def)

lemma unat_length: "length (xs :: 'a list) < 2 ^ 64 \<Longrightarrow> unat (of_nat (length xs) :: u64) = length xs"
  by (rule unat_of_nat_u64)

lemma decode_uvarint_encode [simp]: "decode_uvarint (encode_uvarint v @ rest) = Inr (v, rest)"
  by (simp add: decode_uvarint_def)

lemma decode_next_encode:
  assumes "length msg + 1 < 2 ^ 64"
  shows "decode_next (encode_message msg @ rest) = Inr (butlast (ensure_newline msg), rest)"
proof -
  have "length (ensure_newline msg) < 2 ^ 64"
    using assms by (simp add: ensure_newline_def)
  then have len: "unat (of_nat (length (ensure_newline msg)) :: u64) = length (ensure_newline msg)"
    by (rule unat_length)
  show ?thesis
    by (simp add: decode_next_def encode_message_def Let_def len ensure_newline_last comp_def)
qed

lemma decode_next_plain [simp]:
  "plain msg \<Longrightarrow> decode_next (encode_message msg @ rest) = Inr (msg, rest)"
  by (simp add: decode_next_encode plain_def ensure_newline_plain [unfolded plain_def])

definition message_parse :: "bytes \<Rightarrow> (string \<times> bytes) option" where
  "message_parse bs = (case decode_next bs of Inl _ \<Rightarrow> None | Inr r \<Rightarrow> Some r)"

lemma message_parse_Some: "message_parse bs = Some r \<longleftrightarrow> decode_next bs = Inr r"
  by (simp add: message_parse_def split: sum.splits)

lemma decode_next_InrE:
  assumes "decode_next buf = Inr (token, rest)"
  obtains len buf1 where "decode_uvarint buf = Inr (len, buf1)" and "unat len \<le> length buf1"
    and "rest = drop (unat len) buf1" and "token = butlast (text_of (take (unat len) buf1))"
    and "text_of (take (unat len) buf1) \<noteq> []" and "last (text_of (take (unat len) buf1)) = newline"
  using assms unfolding decode_next_def
  by (auto simp: bind_result_Inr_iff Let_def split: if_splits)

lemma decode_next_append:
  assumes "decode_next buf = Inr (token, rest)"
  shows "decode_next (buf @ extra) = Inr (token, rest @ extra)"
proof -
  from assms obtain len buf1 where d: "decode_uvarint buf = Inr (len, buf1)"
    and l: "unat len \<le> length buf1"
    and r: "rest = drop (unat len) buf1" "token = butlast (text_of (take (unat len) buf1))"
      "text_of (take (unat len) buf1) \<noteq> []" "last (text_of (take (unat len) buf1)) = newline"
    by (rule decode_next_InrE)
  have "decode_uvarint (buf @ extra) = Inr (len, buf1 @ extra)"
    using d unfolding decode_uvarint_def by (rule decode_uvarint_with_append)
  with l r show ?thesis by (simp add: decode_next_def Let_def)
qed

lemma decode_next_shrinks:
  assumes "decode_next buf = Inr (token, rest)"
  shows "length rest < length buf"
proof -
  from assms obtain len buf1 where "decode_uvarint buf = Inr (len, buf1)"
    and "rest = drop (unat len) buf1"
    by (rule decode_next_InrE)
  then show ?thesis
    unfolding decode_uvarint_def by (auto dest: decode_uvarint_with_suffix)
qed

interpretation message: frame_codec message_parse encode_message plain
proof unfold_locales
  show "message_parse (bs @ extra) = Some (f, rest @ extra)"
    if "message_parse bs = Some (f, rest)" for bs f rest extra
    using that decode_next_append unfolding message_parse_Some by blast
  show "length rest < length bs" if "message_parse bs = Some (f, rest)" for bs f rest
    using that decode_next_shrinks unfolding message_parse_Some by blast
  show "message_parse (encode_message f) = Some (f, [])" if "plain f" for f
    using decode_next_plain [OF that, of "[]"] by (simp add: message_parse_Some)
qed

section \<open>Negotiation\<close>

lemma prepare_outbound_ok:
  "prepare_outbound (p # ps) = Inr (encode_message kHeader @ encode_message p)"
  by (simp add: prepare_outbound_def)

lemma negotiate_inbound_request:
  assumes "plain p"
  shows "negotiate_inbound (encode_message kHeader @ encode_message p @ rest) supported =
    Inr (if p \<in> set supported
         then \<lparr>in_outbound = encode_message kHeader @ encode_message p, in_protocol = Some p\<rparr>
         else \<lparr>in_outbound = encode_message kHeader @ encode_message ''na'', in_protocol = None\<rparr>)"
  using assms by (simp add: negotiate_inbound_def find_eq)

lemma read_outbound_response_token:
  assumes "plain token"
  shows "read_outbound_response (encode_message kHeader @ encode_message token @ rest) p =
    (if token = p then Inr p
     else if token = ''na'' then Inl ''protocol not supported''
     else Inl ''unexpected multistream response'')"
  using assms by (simp add: read_outbound_response_def)

lemma read_outbound_response_sound:
  "read_outbound_response incoming p = Inr q \<Longrightarrow> q = p"
  by (auto simp: read_outbound_response_def bind_result_Inr_iff split: if_splits prod.splits)

lemma negotiate_inbound_sound:
  "negotiate_inbound incoming supported = Inr n \<Longrightarrow> in_protocol n = Some p \<Longrightarrow> p \<in> set supported"
  by (auto simp: negotiate_inbound_def bind_result_Inr_iff find_eq split: if_splits prod.splits)

section \<open>Spans\<close>

lemma message_span_encode:
  assumes "length msg + 1 < 2 ^ 64"
  shows "multistream_message_span (encode_message msg @ rest) = Inr (length (encode_message msg))"
proof -
  have "length (ensure_newline msg) < 2 ^ 64"
    using assms by (simp add: ensure_newline_def)
  then have len: "unat (of_nat (length (ensure_newline msg)) :: u64) = length (ensure_newline msg)"
    by (rule unat_length)
  show ?thesis
    by (simp add: multistream_message_span_def encode_message_def Let_def len
        decode_multistream_length_def)
qed

lemma exchange_span_encode:
  assumes "plain a" and "plain b"
  shows "multistream_exchange_span (encode_message a @ encode_message b @ rest) =
    Inr (length (encode_message a) + length (encode_message b))"
  using assms by (simp add: multistream_exchange_span_def message_span_encode plain_def)

lemma message_span_strict_prefix:
  assumes "length msg + 1 < 2 ^ 64" and "strict_prefix bs (encode_message msg)"
  shows "\<exists>e. multistream_message_span bs = Inl e \<and> is_incomplete_multistream_error e"
proof -
  define v where "v = (of_nat (length (ensure_newline msg)) :: u64)"
  define body where "body = bytes_of (ensure_newline msg)"
  have len: "unat v = length body"
    unfolding v_def body_def using assms(1) by (simp add: unat_of_nat_u64 ensure_newline_def)
  have enc: "encode_message msg = encode_uvarint v @ body"
    by (simp add: encode_message_def v_def body_def Let_def)
  show ?thesis
  proof (cases "strict_prefix bs (encode_uvarint v)")
    case True
    then have "decode_uvarint_with multistream_errors bs = Inl (err_incomplete multistream_errors)"
      by (rule decode_uvarint_with_strict_prefix) (simp add: multistream_errors_def)
    then show ?thesis
      by (simp add: multistream_message_span_def decode_multistream_length_def
          is_incomplete_multistream_error_def multistream_errors_def)
  next
    case False
    with assms(2) obtain part where bs: "bs = encode_uvarint v @ part" and "strict_prefix part body"
      unfolding enc strict_prefix_append by auto
    then have "length part < unat v" using len by (simp add: prefix_length_less)
    then show ?thesis
      by (simp add: multistream_message_span_def decode_multistream_length_def bs
          is_incomplete_multistream_error_def)
  qed
qed

lemma message_span_bound:
  "multistream_message_span buf = Inr n \<Longrightarrow> 0 < n \<and> n \<le> length buf"
  unfolding multistream_message_span_def decode_multistream_length_def
  by (auto simp: bind_result_Inr_iff dest!: decode_uvarint_with_suffix split: if_splits)

lemma exchange_span_bound:
  assumes "multistream_exchange_span buf = Inr n"
  shows "0 < n \<and> n \<le> length buf"
proof -
  from assms obtain a b where "multistream_message_span buf = Inr a"
    and "multistream_message_span (drop a buf) = Inr b" and "n = a + b"
    unfolding multistream_exchange_span_def by (auto simp: bind_result_Inr_iff)
  then show ?thesis
    using message_span_bound [of buf a] message_span_bound [of "drop a buf" b] by auto
qed

lemma exchange_span_strict_prefix:
  assumes "plain a" and "plain b" and "strict_prefix bs (encode_message a @ encode_message b)"
  shows "\<exists>e. multistream_exchange_span bs = Inl e \<and> is_incomplete_multistream_error e"
proof (cases "strict_prefix bs (encode_message a)")
  case True
  with assms(1) message_span_strict_prefix show ?thesis
    unfolding plain_def by (fastforce simp: multistream_exchange_span_def)
next
  case False
  with assms(3) obtain part where bs: "bs = encode_message a @ part"
    and "strict_prefix part (encode_message b)"
    unfolding strict_prefix_append by auto
  with assms(2) obtain e where "multistream_message_span part = Inl e"
    and "is_incomplete_multistream_error e"
    using message_span_strict_prefix [of b part] by (auto simp: plain_def)
  with assms(1) show ?thesis
    by (simp add: multistream_exchange_span_def bs message_span_encode plain_def)
qed

section \<open>Properties\<close>

text \<open>Varints round trip for every 64-bit value, whatever follows them in the buffer, and take at
  most ten bytes.\<close>

theorem uvarint_round_trip:
  "decode_uvarint (encode_uvarint v @ rest) = Inr (v, rest) \<and> length (encode_uvarint v) \<le> 10"
  by (simp add: length_encode_uvarint)

text \<open>Both ends of a multistream-select exchange agree: the responder answers the initiator's
  request, and the initiator accepts the answer exactly when the responder supports the
  protocol; trailing bytes of either buffer do not matter.\<close>

theorem negotiation_agreement:
  assumes "plain p" and "p \<noteq> ''na''"
  shows "\<exists>request response.
      prepare_outbound (p # ps) = Inr request
      \<and> negotiate_inbound (request @ extra) supported = Inr response
      \<and> in_protocol response = (if p \<in> set supported then Some p else None)
      \<and> read_outbound_response (in_outbound response @ extra') p
          = (if p \<in> set supported then Inr p else Inl ''protocol not supported'')"
  using assms
  by (simp add: prepare_outbound_ok negotiate_inbound_request read_outbound_response_token)

theorem negotiation_agreement_witness:
  "\<exists>request response.
      prepare_outbound [''/noise''] = Inr request
      \<and> negotiate_inbound request [''/tls'', ''/noise''] = Inr response
      \<and> in_protocol response = Some ''/noise''
      \<and> read_outbound_response (in_outbound response) ''/noise'' = Inr ''/noise''"
  using negotiation_agreement [of "''/noise''" "[]" "[]" "[''/tls'', ''/noise'']" "[]"]
  by (simp add: plain_def newline_def)

text \<open>The span a session waits for is exactly the two messages of an exchange: any shorter
  prefix is reported as incomplete (the session waits), the whole exchange is found whatever
  follows it.\<close>

theorem exchange_span_exact:
  assumes "plain a" and "plain b"
  shows "multistream_exchange_span (encode_message a @ encode_message b @ rest)
      = Inr (length (encode_message a @ encode_message b))
    \<and> (\<forall>n < length (encode_message a @ encode_message b).
        \<exists>e. multistream_exchange_span (take n (encode_message a @ encode_message b)) = Inl e
          \<and> is_incomplete_multistream_error e)"
proof (intro conjI allI impI)
  show "multistream_exchange_span (encode_message a @ encode_message b @ rest)
      = Inr (length (encode_message a @ encode_message b))"
    using exchange_span_encode [OF assms] by simp
next
  fix n assume "n < length (encode_message a @ encode_message b)"
  then show "\<exists>e. multistream_exchange_span (take n (encode_message a @ encode_message b)) = Inl e
      \<and> is_incomplete_multistream_error e"
    by (intro exchange_span_strict_prefix [OF assms] take_strict_prefix)
qed

theorem exchange_span_exact_witness:
  "multistream_exchange_span (encode_message kHeader @ encode_message ''/noise'' @ [1, 2])
      = Inr (length (encode_message kHeader @ encode_message ''/noise''))"
  by (rule exchange_span_exact [of kHeader "''/noise''" "[1, 2]", THEN conjunct1])
     (simp_all add: plain_def newline_def kHeader_def)

text \<open>A proposal named \<open>na\<close> reads the refusal as an acceptance.\<close>

lemma na_proposal_accepted:
  "\<exists>response. negotiate_inbound (encode_message kHeader @ encode_message ''na'') [] = Inr response
     \<and> in_protocol response = None
     \<and> read_outbound_response (in_outbound response) ''na'' = Inr ''na''"
  using negotiate_inbound_request [of "''na''" "[]" "[]"] read_outbound_response_token [of "''na''" "[]" "''na''"]
  by simp

end
