(* ===== verification/Yamux.thy ===== *)
theory Yamux
  imports Streaming
begin

text \<open>
  The Yamux multiplexer (src/src/protocol/yamux/yamux.hpp, yamux.cpp).

  A \<open>YamuxStream\<close> is an object shared by the session and the application
  (\<open>std::shared_ptr\<close>), so the session record carries the store of stream objects
  (\<open>ys_heap\<close>, a pointer is an index) and the map \<open>ys_streams\<close> from stream ids to pointers.
  The three callbacks of a session belong to its owner, whose state is the type variable
  \<open>'e\<close>: the accept and close callbacks change only that state; the outgoing callback may
  also drain the pending output.
\<close>

section \<open>Code: frames\<close>

datatype yamux_type = Data | WindowUpdate | Ping | GoAway
datatype yamux_flag = SYN | ACK | FIN | RST
datatype yamux_go_away_code = Normal | ProtocolError | InternalError

record yamux_header =
  hdr_version :: byte
  hdr_type :: byte
  hdr_flags :: u16
  hdr_stream_id :: u32
  hdr_length :: u32

definition kYamuxVersion :: byte where "kYamuxVersion = 0"

fun type_value :: "yamux_type \<Rightarrow> byte" where
  "type_value Data = 0"
| "type_value WindowUpdate = 1"
| "type_value Ping = 2"
| "type_value GoAway = 3"

fun flag_value :: "yamux_flag \<Rightarrow> u16" where
  "flag_value SYN = 1"
| "flag_value ACK = 2"
| "flag_value FIN = 4"
| "flag_value RST = 8"

fun go_away_value :: "yamux_go_away_code \<Rightarrow> u32" where
  "go_away_value Normal = 0"
| "go_away_value ProtocolError = 1"
| "go_away_value InternalError = 2"

definition kInitialStreamWindow :: u32 where "kInitialStreamWindow = 256 * 1024"

definition kHeaderSize :: nat where "kHeaderSize = 12"

definition read_be16 :: "bytes \<Rightarrow> u16" where
  "read_be16 bs = push_bit 8 (ucast (bs ! 0)) OR ucast (bs ! 1)"

definition read_be32 :: "bytes \<Rightarrow> u32" where
  "read_be32 bs = push_bit 24 (ucast (bs ! 0)) OR push_bit 16 (ucast (bs ! 1)) OR
     push_bit 8 (ucast (bs ! 2)) OR ucast (bs ! 3)"

definition be16 :: "u16 \<Rightarrow> bytes" where
  "be16 v = [ucast (drop_bit 8 v AND 0xFF), ucast (v AND 0xFF)]"

definition be32 :: "u32 \<Rightarrow> bytes" where
  "be32 v = [ucast (drop_bit 24 v AND 0xFF), ucast (drop_bit 16 v AND 0xFF),
     ucast (drop_bit 8 v AND 0xFF), ucast (v AND 0xFF)]"

definition has_flag :: "u16 \<Rightarrow> yamux_flag \<Rightarrow> bool" where
  "has_flag flags flag \<longleftrightarrow> flags AND flag_value flag \<noteq> 0"

definition frame_bytes :: "yamux_header \<times> bytes \<Rightarrow> bytes" where
  "frame_bytes = (\<lambda>(hdr, payload).
     [hdr_version hdr, hdr_type hdr] @ be16 (hdr_flags hdr) @ be32 (hdr_stream_id hdr) @
     be32 (hdr_length hdr) @ payload)"

definition read_header :: "bytes \<Rightarrow> yamux_header" where
  "read_header header =
     \<lparr>hdr_version = header ! 0, hdr_type = header ! 1,
      hdr_flags = read_be16 (take 2 (drop 2 header)),
      hdr_stream_id = read_be32 (take 4 (drop 4 header)),
      hdr_length = read_be32 (take 4 (drop 8 header))\<rparr>"

definition payload_size :: "yamux_header \<Rightarrow> nat" where
  "payload_size hdr = (if hdr_type hdr = type_value Data then unat (hdr_length hdr) else 0)"

text \<open>\<open>try_parse_frame\<close> on the receive buffer: the frame and the bytes left in the buffer.\<close>

definition try_parse_frame :: "bytes \<Rightarrow> ((yamux_header \<times> bytes) \<times> bytes) option" where
  "try_parse_frame recv_buf =
     (if length recv_buf < kHeaderSize then None
      else
        let hdr = read_header (take kHeaderSize recv_buf);
            frame_size = kHeaderSize + payload_size hdr
        in if length recv_buf < frame_size then None
           else Some ((hdr, take (payload_size hdr) (drop kHeaderSize recv_buf)),
                      drop frame_size recv_buf))"

section \<open>Code: streams and sessions\<close>

record yamux_stream =
  st_id :: u32
  st_conn_id :: u64
  st_read_closed :: bool
  st_write_closed :: bool
  st_reset :: bool
  st_recv_buf :: bytes
  st_protocol :: "string option"

definition new_stream :: "u32 \<Rightarrow> u64 \<Rightarrow> yamux_stream" where
  "new_stream sid conn_id =
     \<lparr>st_id = sid, st_conn_id = conn_id, st_read_closed = False, st_write_closed = False,
      st_reset = False, st_recv_buf = [], st_protocol = None\<rparr>"

definition is_open :: "yamux_stream \<Rightarrow> bool" where
  "is_open st =
     (if st_reset st then False
      else \<not> st_read_closed st \<or> \<not> st_write_closed st \<or> st_recv_buf st \<noteq> [])"

definition read_closed :: "yamux_stream \<Rightarrow> bool" where
  "read_closed st \<longleftrightarrow> st_read_closed st \<or> st_reset st"

definition write_closed :: "yamux_stream \<Rightarrow> bool" where
  "write_closed st \<longleftrightarrow> st_write_closed st \<or> st_reset st"

definition receive_data :: "bytes \<Rightarrow> yamux_stream \<Rightarrow> yamux_stream" where
  "receive_data data st = st\<lparr>st_recv_buf := st_recv_buf st @ data\<rparr>"

definition receive_fin :: "yamux_stream \<Rightarrow> yamux_stream" where
  "receive_fin st = st\<lparr>st_read_closed := True\<rparr>"

definition receive_rst :: "yamux_stream \<Rightarrow> yamux_stream" where
  "receive_rst st =
     st\<lparr>st_read_closed := True, st_write_closed := True, st_reset := True, st_recv_buf := []\<rparr>"

definition close_local_write :: "yamux_stream \<Rightarrow> yamux_stream" where
  "close_local_write st = st\<lparr>st_write_closed := True\<rparr>"

definition set_protocol :: "string \<Rightarrow> yamux_stream \<Rightarrow> yamux_stream" where
  "set_protocol proto st = st\<lparr>st_protocol := Some proto\<rparr>"

record yamux_session =
  ys_conn_id :: u64
  ys_is_client :: bool
  ys_next_stream_id :: u32
  ys_streams :: "u32 \<rightharpoonup> nat"
  ys_send_windows :: "u32 \<rightharpoonup> u32"
  ys_recv_buf :: bytes
  ys_send_buf :: bytes
  ys_remote_go_away :: bool
  ys_heap :: "yamux_stream list"

record 'e yamux_callbacks =
  accept_cb :: "(nat \<Rightarrow> u32 \<Rightarrow> 'e \<Rightarrow> 'e) option"
  outgoing_cb :: "(bytes \<Rightarrow> 'e \<Rightarrow> unit result \<times> bytes \<times> 'e) option"
  close_cb :: "(u32 \<Rightarrow> string \<Rightarrow> 'e \<Rightarrow> 'e) option"

definition no_callbacks :: "'e yamux_callbacks" where
  "no_callbacks = \<lparr>accept_cb = None, outgoing_cb = None, close_cb = None\<rparr>"

type_synonym 'e ystate = "yamux_session \<times> 'e"

definition new_session :: "u64 \<Rightarrow> bool \<Rightarrow> yamux_session" where
  "new_session conn_id is_client =
     \<lparr>ys_conn_id = conn_id, ys_is_client = is_client,
      ys_next_stream_id = (if is_client then 1 else 2),
      ys_streams = Map.empty, ys_send_windows = Map.empty, ys_recv_buf = [], ys_send_buf = [],
      ys_remote_go_away = False, ys_heap = []\<rparr>"

definition stream_at :: "yamux_session \<Rightarrow> nat \<Rightarrow> yamux_stream" where
  "stream_at s p = ys_heap s ! p"

definition map_stream :: "nat \<Rightarrow> (yamux_stream \<Rightarrow> yamux_stream) \<Rightarrow> yamux_session \<Rightarrow> yamux_session" where
  "map_stream p f s = s\<lparr>ys_heap := (ys_heap s)[p := f (ys_heap s ! p)]\<rparr>"

definition on_session :: "(yamux_session \<Rightarrow> yamux_session) \<Rightarrow> 'e ystate \<Rightarrow> 'e ystate" where
  "on_session f = (\<lambda>(s, e). (f s, e))"

definition on_owner :: "('e \<Rightarrow> 'e) option \<Rightarrow> 'e ystate \<Rightarrow> 'e ystate" where
  "on_owner f = (\<lambda>(s, e). (s, case f of None \<Rightarrow> e | Some g \<Rightarrow> g e))"

definition write_frame :: "yamux_header \<Rightarrow> bytes \<Rightarrow> yamux_session \<Rightarrow> yamux_session" where
  "write_frame hdr payload s = s\<lparr>ys_send_buf := ys_send_buf s @ frame_bytes (hdr, payload)\<rparr>"

definition frame :: "yamux_type \<Rightarrow> u16 \<Rightarrow> u32 \<Rightarrow> u32 \<Rightarrow> yamux_header" where
  "frame ty flags sid len =
     \<lparr>hdr_version = kYamuxVersion, hdr_type = type_value ty, hdr_flags = flags,
      hdr_stream_id = sid, hdr_length = len\<rparr>"

definition drain_outgoing :: "yamux_session \<Rightarrow> bytes \<times> yamux_session" where
  "drain_outgoing s = (ys_send_buf s, s\<lparr>ys_send_buf := []\<rparr>)"

text \<open>\<open>if (outgoing_cb_) return outgoing_cb_(); return ok();\<close>\<close>

definition run_outgoing :: "'e yamux_callbacks \<Rightarrow> ('e ystate, unit) action" where
  "run_outgoing cbs = (\<lambda>(s, e).
     case outgoing_cb cbs of
       None \<Rightarrow> (Inr (), (s, e))
     | Some cb \<Rightarrow> (let (r, buf, e') = cb (ys_send_buf s) e in (r, (s\<lparr>ys_send_buf := buf\<rparr>, e'))))"

definition get_or_create_stream ::
    "u32 \<Rightarrow> bool \<Rightarrow> yamux_session \<Rightarrow> nat option \<times> yamux_session" where
  "get_or_create_stream sid open_if_missing s =
     (case ys_streams s sid of
        Some p \<Rightarrow> (Some p, s)
      | None \<Rightarrow>
          if \<not> open_if_missing then (None, s)
          else
            let p = length (ys_heap s)
            in (Some p, s\<lparr>ys_heap := ys_heap s @ [new_stream sid (ys_conn_id s)],
                          ys_streams := (ys_streams s)(sid \<mapsto> p),
                          ys_send_windows := (ys_send_windows s)(sid \<mapsto> kInitialStreamWindow)\<rparr>))"

definition erase_stream :: "u32 \<Rightarrow> yamux_session \<Rightarrow> yamux_session" where
  "erase_stream sid s =
     s\<lparr>ys_streams := (ys_streams s)(sid := None), ys_send_windows := (ys_send_windows s)(sid := None)\<rparr>"

definition is_remote_stream_id :: "yamux_session \<Rightarrow> u32 \<Rightarrow> bool" where
  "is_remote_stream_id s sid =
     (if sid = 0 then False
      else if ys_is_client s then sid mod 2 = 0
      else sid mod 2 = 1)"

section \<open>Code: session operations\<close>

definition open_stream :: "'e yamux_callbacks \<Rightarrow> ('e ystate, nat) action" where
  "open_stream cbs = reading (\<lambda>(s, e).
     if ys_remote_go_away s then return_err ''yamux session is shutting down''
     else
       let sid = ys_next_stream_id s;
           (stream, s1) = get_or_create_stream sid True (s\<lparr>ys_next_stream_id := sid + 2\<rparr>)
       in and_then (update (\<lambda>_. (write_frame (frame Data (flag_value SYN) sid 0) [] s1, e)))
            (\<lambda>_. and_then (run_outgoing cbs) (\<lambda>_. return_ok (the stream))))"

definition write_stream_data :: "'e yamux_callbacks \<Rightarrow> u32 \<Rightarrow> bytes \<Rightarrow> ('e ystate, nat) action" where
  "write_stream_data cbs sid data = reading (\<lambda>(s, e).
     case ys_send_windows s sid of
       None \<Rightarrow> return_err ''unknown yamux stream''
     | Some window \<Rightarrow>
         let writable = min (length data) (unat window)
         in if writable = 0 then return_err ''EAGAIN''
            else and_then
              (update (on_session (\<lambda>s.
                 (write_frame (frame Data 0 sid (of_nat writable)) (take writable data) s)
                   \<lparr>ys_send_windows := (ys_send_windows s)(sid \<mapsto> window - of_nat writable)\<rparr>)))
              (\<lambda>_. and_then (run_outgoing cbs) (\<lambda>_. return_ok writable)))"

definition acknowledge_stream :: "'e yamux_callbacks \<Rightarrow> u32 \<Rightarrow> ('e ystate, unit) action" where
  "acknowledge_stream cbs sid =
     and_then (update (on_session (write_frame (frame Data (flag_value ACK) sid 0) [])))
       (\<lambda>_. run_outgoing cbs)"

definition close_stream_write :: "'e yamux_callbacks \<Rightarrow> u32 \<Rightarrow> ('e ystate, unit) action" where
  "close_stream_write cbs sid =
     and_then (update (on_session (\<lambda>s.
       let s1 = write_frame (frame Data (flag_value FIN) sid 0) [] s
       in case ys_streams s1 sid of
            None \<Rightarrow> s1
          | Some p \<Rightarrow> map_stream p close_local_write s1)))
       (\<lambda>_. run_outgoing cbs)"

definition reset_stream :: "'e yamux_callbacks \<Rightarrow> u32 \<Rightarrow> ('e ystate, unit) action" where
  "reset_stream cbs sid =
     and_then (update (on_session (\<lambda>s.
       erase_stream sid (write_frame (frame Data (flag_value RST) sid 0) [] s))))
       (\<lambda>_. run_outgoing cbs)"

definition update_receive_window :: "'e yamux_callbacks \<Rightarrow> u32 \<Rightarrow> nat \<Rightarrow> ('e ystate, unit) action" where
  "update_receive_window cbs sid delta =
     (if delta = 0 then return_ok ()
      else and_then (update (on_session (write_frame (frame WindowUpdate 0 sid (of_nat delta)) [])))
             (\<lambda>_. run_outgoing cbs))"

definition send_ping_ack :: "'e yamux_callbacks \<Rightarrow> u32 \<Rightarrow> ('e ystate, unit) action" where
  "send_ping_ack cbs opaque_value =
     and_then (update (on_session (write_frame (frame Ping (flag_value ACK) 0 opaque_value) [])))
       (\<lambda>_. run_outgoing cbs)"

definition send_go_away :: "'e yamux_callbacks \<Rightarrow> yamux_go_away_code \<Rightarrow> ('e ystate, unit) action" where
  "send_go_away cbs code =
     and_then (update (on_session (write_frame (frame GoAway 0 0 (go_away_value code)) [])))
       (\<lambda>_. run_outgoing cbs)"

section \<open>Code: stream operations\<close>

definition try_read :: "'e yamux_callbacks \<Rightarrow> nat \<Rightarrow> nat \<Rightarrow> ('e ystate, bytes) action" where
  "try_read cbs p buf_size = reading (\<lambda>(s, e).
     let st = stream_at s p
     in if st_recv_buf st = [] then
          (if st_read_closed st \<or> st_reset st then return_ok [] else return_err ''EAGAIN'')
        else
          let n = min buf_size (length (st_recv_buf st))
          in and_then (update (on_session (map_stream p (\<lambda>st.
               st\<lparr>st_recv_buf := drop n (st_recv_buf st)\<rparr>))))
             (\<lambda>_ t. (Inr (take n (st_recv_buf st)), snd (update_receive_window cbs (st_id st) n t))))"

definition try_write :: "'e yamux_callbacks \<Rightarrow> nat \<Rightarrow> bytes \<Rightarrow> ('e ystate, nat) action" where
  "try_write cbs p data = reading (\<lambda>(s, e).
     let st = stream_at s p
     in if st_write_closed st \<or> st_reset st then return_err ''stream is closed for writing''
        else write_stream_data cbs (st_id st) data)"

definition close_write :: "'e yamux_callbacks \<Rightarrow> nat \<Rightarrow> ('e ystate, unit) action" where
  "close_write cbs p = reading (\<lambda>(s, e).
     let st = stream_at s p
     in if st_write_closed st then return_ok ()
        else and_then (update (on_session (map_stream p close_local_write)))
               (\<lambda>_. close_stream_write cbs (st_id st)))"

definition reset :: "'e yamux_callbacks \<Rightarrow> nat \<Rightarrow> ('e ystate, unit) action" where
  "reset cbs p = reading (\<lambda>(s, e).
     and_then (update (on_session (map_stream p receive_rst)))
       (\<lambda>_. reset_stream cbs (st_id (stream_at s p))))"

section \<open>Code: receiving\<close>

definition grow_window :: "u32 \<Rightarrow> u32 \<Rightarrow> yamux_session \<Rightarrow> yamux_session" where
  "grow_window sid delta s =
     (case ys_send_windows s sid of
        None \<Rightarrow> s
      | Some window \<Rightarrow>
          let next_window = (ucast window + ucast delta :: u64)
          in s\<lparr>ys_send_windows := (ys_send_windows s)(sid \<mapsto> ucast (min next_window 0xFFFFFFFF))\<rparr>)"

text \<open>The stages of \<open>handle_frame\<close> once the stream object \<open>p\<close> is found, in its order.\<close>

definition accept_new :: "'e yamux_callbacks \<Rightarrow> nat \<Rightarrow> u32 \<Rightarrow> bool \<Rightarrow> 'e ystate \<Rightarrow> 'e ystate" where
  "accept_new cbs p sid opened t =
     (if opened
      then snd (acknowledge_stream cbs sid
                 (on_owner (map_option (\<lambda>cb. cb p sid) (accept_cb cbs)) t))
      else t)"

definition apply_window :: "yamux_header \<Rightarrow> 'e ystate \<Rightarrow> 'e ystate" where
  "apply_window hdr t =
     (if hdr_type hdr = type_value WindowUpdate \<and> hdr_length hdr > 0
      then on_session (grow_window (hdr_stream_id hdr) (hdr_length hdr)) t else t)"

definition apply_payload :: "nat \<Rightarrow> bytes \<Rightarrow> 'e ystate \<Rightarrow> 'e ystate" where
  "apply_payload p payload t =
     (if payload \<noteq> [] then on_session (map_stream p (receive_data payload)) t else t)"

definition apply_fin :: "'e yamux_callbacks \<Rightarrow> nat \<Rightarrow> yamux_header \<Rightarrow> 'e ystate \<Rightarrow> 'e ystate" where
  "apply_fin cbs p hdr t =
     (if has_flag (hdr_flags hdr) FIN
      then (let t' = on_session (map_stream p receive_fin) t
            in if \<not> is_open (stream_at (fst t') p)
               then on_owner (map_option (\<lambda>cb. cb (hdr_stream_id hdr) ''yamux stream closed'') (close_cb cbs)) t'
               else t')
      else t)"

definition apply_rst :: "'e yamux_callbacks \<Rightarrow> nat \<Rightarrow> yamux_header \<Rightarrow> 'e ystate \<Rightarrow> 'e ystate" where
  "apply_rst cbs p hdr t =
     (if has_flag (hdr_flags hdr) RST
      then on_session (erase_stream (hdr_stream_id hdr))
             (on_owner (map_option (\<lambda>cb. cb (hdr_stream_id hdr) ''yamux stream reset by peer'') (close_cb cbs))
               (on_session (map_stream p receive_rst) t))
      else t)"

definition handle_stream_frame ::
    "'e yamux_callbacks \<Rightarrow> yamux_header \<Rightarrow> bytes \<Rightarrow> 'e ystate \<Rightarrow> 'e ystate" where
  "handle_stream_frame cbs hdr payload = (\<lambda>(s0, e0).
     let sid = hdr_stream_id hdr;
         open_if_missing = has_flag (hdr_flags hdr) SYN;
         existed = (ys_streams s0 sid \<noteq> None);
         (stream, s1) = get_or_create_stream sid open_if_missing s0
     in case stream of
          None \<Rightarrow> (s1, e0)
        | Some p \<Rightarrow>
            apply_rst cbs p hdr
              (apply_fin cbs p hdr
                (apply_payload p payload
                  (apply_window hdr
                    (accept_new cbs p sid (open_if_missing \<and> \<not> existed) (s1, e0))))))"

definition handle_frame ::
    "'e yamux_callbacks \<Rightarrow> yamux_header \<Rightarrow> bytes \<Rightarrow> 'e ystate \<Rightarrow> 'e ystate" where
  "handle_frame cbs hdr payload t =
     (if hdr_version hdr \<noteq> kYamuxVersion then t
      else if hdr_type hdr = type_value Ping then
        (if \<not> has_flag (hdr_flags hdr) ACK then snd (send_ping_ack cbs (hdr_length hdr) t) else t)
      else if hdr_type hdr = type_value GoAway then
        on_session (\<lambda>s. s\<lparr>ys_remote_go_away := True\<rparr>) t
      else if (hdr_type hdr \<noteq> type_value Data \<and> hdr_type hdr \<noteq> type_value WindowUpdate)
              \<or> hdr_stream_id hdr = 0 then t
      else if has_flag (hdr_flags hdr) SYN \<and> \<not> is_remote_stream_id (fst t) (hdr_stream_id hdr) then
        snd (send_go_away cbs ProtocolError t)
      else handle_stream_frame cbs hdr payload t)"

text \<open>Handling a frame leaves the receive buffer alone, so the loop of \<open>process_frames\<close>
  consumes it.\<close>

definition same_recv :: "'e ystate \<Rightarrow> 'e ystate \<Rightarrow> bool" where
  "same_recv t t' \<longleftrightarrow> ys_recv_buf (fst t) = ys_recv_buf (fst t')"

lemma session_fields [simp]:
  "fst (on_session f t) = f (fst t)" "snd (on_session f t) = snd t"
  "fst (on_owner g t) = fst t"
  by (simp_all add: on_session_def on_owner_def case_prod_beta)

lemma run_outgoing_session: "\<exists>buf. fst (snd (run_outgoing cbs t)) = (fst t)\<lparr>ys_send_buf := buf\<rparr>"
proof (cases "outgoing_cb cbs")
  case None
  then have "fst (snd (run_outgoing cbs t)) = (fst t)\<lparr>ys_send_buf := ys_send_buf (fst t)\<rparr>"
    by (simp add: run_outgoing_def case_prod_beta)
  then show ?thesis by blast
next
  case (Some cb)
  then show ?thesis by (auto simp: run_outgoing_def case_prod_beta Let_def)
qed

lemma send_then_session:
  "\<exists>buf. fst (snd (and_then (update f) (\<lambda>_. run_outgoing cbs) t)) = (fst (f t))\<lparr>ys_send_buf := buf\<rparr>"
  using run_outgoing_session by simp

lemma get_or_create_recv [simp]:
  "ys_recv_buf (snd (get_or_create_stream sid b s)) = ys_recv_buf s"
  by (simp add: get_or_create_stream_def Let_def split: option.splits)

lemma recv_untouched [simp]:
  "ys_recv_buf (write_frame hdr payload s) = ys_recv_buf s"
  "ys_recv_buf (map_stream p f s) = ys_recv_buf s"
  "ys_recv_buf (erase_stream sid s) = ys_recv_buf s"
  "ys_recv_buf (grow_window sid delta s) = ys_recv_buf s"
  by (simp_all add: write_frame_def map_stream_def erase_stream_def grow_window_def Let_def
      split: option.splits)

lemma run_outgoing_recv [simp]: "ys_recv_buf (fst (snd (run_outgoing cbs t))) = ys_recv_buf (fst t)"
proof -
  obtain buf where "fst (snd (run_outgoing cbs t)) = (fst t)\<lparr>ys_send_buf := buf\<rparr>"
    using run_outgoing_session by blast
  then show ?thesis by simp
qed

lemma acknowledge_recv [simp]: "ys_recv_buf (fst (snd (acknowledge_stream cbs sid t))) = ys_recv_buf (fst t)"
  by (simp add: acknowledge_stream_def)

lemma stages_recv [simp]:
  "ys_recv_buf (fst (accept_new cbs p sid b t)) = ys_recv_buf (fst t)"
  "ys_recv_buf (fst (apply_window hdr t)) = ys_recv_buf (fst t)"
  "ys_recv_buf (fst (apply_payload p payload t)) = ys_recv_buf (fst t)"
  "ys_recv_buf (fst (apply_fin cbs p hdr t)) = ys_recv_buf (fst t)"
  "ys_recv_buf (fst (apply_rst cbs p hdr t)) = ys_recv_buf (fst t)"
  by (simp_all add: accept_new_def apply_window_def apply_payload_def apply_fin_def apply_rst_def Let_def)

lemma handle_stream_frame_recv:
  "ys_recv_buf (fst (handle_stream_frame cbs hdr payload t)) = ys_recv_buf (fst t)"
  by (simp add: handle_stream_frame_def case_prod_beta Let_def split: option.splits)

lemma handle_frame_recv [simp]:
  "ys_recv_buf (fst (handle_frame cbs hdr payload t)) = ys_recv_buf (fst t)"
  by (simp add: handle_frame_def handle_stream_frame_recv send_ping_ack_def send_go_away_def)

lemma try_parse_frame_shrinks:
  "try_parse_frame bs = Some (f, rest) \<Longrightarrow> length rest < length bs"
  by (auto simp: try_parse_frame_def kHeaderSize_def Let_def split: if_splits)

function process_frames :: "'e yamux_callbacks \<Rightarrow> 'e ystate \<Rightarrow> 'e ystate" where
  "process_frames cbs t =
     (case try_parse_frame (ys_recv_buf (fst t)) of
        None \<Rightarrow> t
      | Some ((hdr, payload), rest) \<Rightarrow>
          process_frames cbs
            (handle_frame cbs hdr payload (on_session (\<lambda>s. s\<lparr>ys_recv_buf := rest\<rparr>) t)))"
  by pat_completeness auto
termination
  by (relation "measure (\<lambda>(cbs, t). length (ys_recv_buf (fst t)))")
     (auto dest: try_parse_frame_shrinks)

declare process_frames.simps [simp del]

definition receive :: "'e yamux_callbacks \<Rightarrow> bytes \<Rightarrow> ('e ystate, unit) action" where
  "receive cbs data =
     and_then (update (\<lambda>t. process_frames cbs
       (on_session (\<lambda>s. s\<lparr>ys_recv_buf := ys_recv_buf s @ data\<rparr>) t)))
       (\<lambda>_. return_ok ())"

section \<open>Frame codec\<close>

lemma be16_bytes: "be16 v = [ucast (drop_bit 8 v), ucast v]"
  by (simp add: be16_def ucast_low_byte)

lemma be32_bytes: "be32 v = [ucast (drop_bit 24 v), ucast (drop_bit 16 v), ucast (drop_bit 8 v), ucast v]"
  by (simp add: be32_def ucast_low_byte)

lemma read_be16_be16 [simp]: "read_be16 (be16 v) = v"
proof (rule bit_word_eqI)
  fix n assume "n < LENGTH(16)"
  then show "bit (read_be16 (be16 v)) n \<longleftrightarrow> bit v n"
    by (cases "n < 8") (auto simp: read_be16_def be16_bytes bit_simps)
qed

lemma read_be32_be32 [simp]: "read_be32 (be32 v) = v"
proof (rule bit_word_eqI)
  fix n assume "n < LENGTH(32)"
  then consider "n < 8" | "8 \<le> n" "n < 16" | "16 \<le> n" "n < 24" | "24 \<le> n" "n < 32" by fastforce
  then show "bit (read_be32 (be32 v)) n \<longleftrightarrow> bit v n"
    by cases (auto simp: read_be32_def be32_bytes bit_simps)
qed

lemma be_length [simp]: "length (be16 v) = 2" "length (be32 w) = 4"
  by (simp_all add: be16_def be32_def)

text \<open>The frames a peer may write: the length field of a data frame is its payload's.\<close>

definition wf_frame :: "yamux_header \<times> bytes \<Rightarrow> bool" where
  "wf_frame f \<longleftrightarrow> length (snd f) = payload_size (fst f)"

lemma take_header [simp]:
  "take kHeaderSize (frame_bytes (hdr, payload) @ rest) = frame_bytes (hdr, [])"
  "drop kHeaderSize (frame_bytes (hdr, payload) @ rest) = payload @ rest"
  by (simp_all add: frame_bytes_def kHeaderSize_def be16_def be32_def)

lemma length_frame_bytes [simp]: "length (frame_bytes (hdr, payload)) = kHeaderSize + length payload"
  by (simp add: frame_bytes_def kHeaderSize_def)

lemma read_header_frame [simp]: "read_header (frame_bytes (hdr, [])) = hdr"
proof -
  have "take 2 (drop 2 (frame_bytes (hdr, []))) = be16 (hdr_flags hdr)"
    "take 4 (drop 4 (frame_bytes (hdr, []))) = be32 (hdr_stream_id hdr)"
    "take 4 (drop 8 (frame_bytes (hdr, []))) = be32 (hdr_length hdr)"
    by (simp_all add: frame_bytes_def be16_def be32_def)
  then show ?thesis by (simp add: read_header_def frame_bytes_def)
qed

lemma try_parse_frame_Some_iff:
  "try_parse_frame bs = Some (f, rest) \<longleftrightarrow>
     kHeaderSize + payload_size (fst f) \<le> length bs
     \<and> f = (read_header (take kHeaderSize bs), take (payload_size (fst f)) (drop kHeaderSize bs))
     \<and> rest = drop (kHeaderSize + payload_size (fst f)) bs"
  by (cases f) (auto simp: try_parse_frame_def Let_def)

lemma try_parse_frame_append:
  assumes "try_parse_frame bs = Some (f, rest)"
  shows "try_parse_frame (bs @ extra) = Some (f, rest @ extra)"
proof -
  from assms have "kHeaderSize + payload_size (fst f) \<le> length bs"
    by (simp only: try_parse_frame_Some_iff)
  then have "take kHeaderSize (bs @ extra) = take kHeaderSize bs"
    and "take (payload_size (fst f)) (drop kHeaderSize (bs @ extra)) = take (payload_size (fst f)) (drop kHeaderSize bs)"
    and "drop (kHeaderSize + payload_size (fst f)) (bs @ extra) = drop (kHeaderSize + payload_size (fst f)) bs @ extra"
    by simp_all
  with assms show ?thesis by (simp only: try_parse_frame_Some_iff) simp
qed

interpretation yframe: frame_codec try_parse_frame frame_bytes wf_frame
proof unfold_locales
  show "try_parse_frame (bs @ extra) = Some (f, rest @ extra)"
    if "try_parse_frame bs = Some (f, rest)" for bs f rest extra
    using that by (rule try_parse_frame_append)
  show "length rest < length bs" if "try_parse_frame bs = Some (f, rest)" for bs f rest
    using that by (rule try_parse_frame_shrinks)
  show "try_parse_frame (frame_bytes f) = Some (f, [])" if "wf_frame f" for f
    using that take_header [of "fst f" "snd f" "[]"]
    by (cases f) (simp add: try_parse_frame_def wf_frame_def)
qed

lemma wf_frame_frame [simp]:
  "wf_frame (frame Data flags sid 0, [])"
  "ty \<noteq> Data \<Longrightarrow> wf_frame (frame ty flags sid len, [])"
  by (cases ty; simp add: wf_frame_def payload_size_def frame_def)+

lemma wf_frame_data [simp]:
  "length payload < 2 ^ 32 \<Longrightarrow> wf_frame (frame Data flags sid (of_nat (length payload)), payload)"
  by (simp add: wf_frame_def payload_size_def frame_def unat_of_nat_u32)

section \<open>Receiving does not depend on how the transport cuts the bytes\<close>

text \<open>The loop is a fold of \<open>handle_frame\<close> over the frames the buffer holds.\<close>

definition handle_frames :: "'e yamux_callbacks \<Rightarrow> (yamux_header \<times> bytes) list \<Rightarrow> 'e ystate \<Rightarrow> 'e ystate" where
  "handle_frames cbs fs t = foldl (\<lambda>t (hdr, payload). handle_frame cbs hdr payload t) t fs"

definition set_recv :: "bytes \<Rightarrow> 'e ystate \<Rightarrow> 'e ystate" where
  "set_recv bs = on_session (\<lambda>s. s\<lparr>ys_recv_buf := bs\<rparr>)"

lemma set_recv_simps [simp]:
  "ys_recv_buf (fst (set_recv bs t)) = bs"
  "set_recv bs (set_recv bs' t) = set_recv bs t"
  "set_recv (ys_recv_buf (fst t)) t = t"
  by (cases t; simp add: set_recv_def on_session_def)+

lemma run_outgoing_set_recv:
  "run_outgoing cbs (set_recv bs t) = map_prod id (set_recv bs) (run_outgoing cbs t)"
  by (cases t) (simp add: run_outgoing_def set_recv_def on_session_def case_prod_beta Let_def split: option.splits)

lemma send_set_recv:
  assumes "\<And>t. f (set_recv bs t) = set_recv bs (f t)"
  shows "snd (and_then (update f) (\<lambda>_. run_outgoing cbs) (set_recv bs t))
    = set_recv bs (snd (and_then (update f) (\<lambda>_. run_outgoing cbs) t))"
  by (simp add: assms run_outgoing_set_recv)

lemma on_session_set_recv:
  "(\<And>s. f (s\<lparr>ys_recv_buf := bs\<rparr>) = (f s)\<lparr>ys_recv_buf := bs\<rparr>) \<Longrightarrow>
   on_session f (set_recv bs t) = set_recv bs (on_session f t)"
  by (cases t) (simp add: set_recv_def on_session_def)

lemma on_owner_set_recv: "on_owner g (set_recv bs t) = set_recv bs (on_owner g t)"
  by (cases t) (simp add: set_recv_def on_session_def on_owner_def)

lemma session_set_recv:
  "write_frame hdr payload (s\<lparr>ys_recv_buf := bs\<rparr>) = (write_frame hdr payload s)\<lparr>ys_recv_buf := bs\<rparr>"
  "map_stream p f (s\<lparr>ys_recv_buf := bs\<rparr>) = (map_stream p f s)\<lparr>ys_recv_buf := bs\<rparr>"
  "erase_stream sid (s\<lparr>ys_recv_buf := bs\<rparr>) = (erase_stream sid s)\<lparr>ys_recv_buf := bs\<rparr>"
  "grow_window sid delta (s\<lparr>ys_recv_buf := bs\<rparr>) = (grow_window sid delta s)\<lparr>ys_recv_buf := bs\<rparr>"
  "get_or_create_stream sid b (s\<lparr>ys_recv_buf := bs\<rparr>)
    = map_prod id (\<lambda>s. s\<lparr>ys_recv_buf := bs\<rparr>) (get_or_create_stream sid b s)"
  by (simp_all add: write_frame_def map_stream_def erase_stream_def grow_window_def
      get_or_create_stream_def Let_def split: option.splits)

lemma stream_at_set_recv [simp]: "stream_at (fst (set_recv bs t)) p = stream_at (fst t) p"
  by (cases t) (simp add: set_recv_def on_session_def stream_at_def)

lemmas recv_commute = send_set_recv on_session_set_recv on_owner_set_recv session_set_recv

lemma acknowledge_set_recv:
  "snd (acknowledge_stream cbs sid (set_recv bs t)) = set_recv bs (snd (acknowledge_stream cbs sid t))"
  unfolding acknowledge_stream_def by (intro recv_commute)

lemma stages_set_recv:
  "accept_new cbs p sid b (set_recv bs t) = set_recv bs (accept_new cbs p sid b t)"
  "apply_window hdr (set_recv bs t) = set_recv bs (apply_window hdr t)"
  "apply_payload p payload (set_recv bs t) = set_recv bs (apply_payload p payload t)"
  "apply_fin cbs p hdr (set_recv bs t) = set_recv bs (apply_fin cbs p hdr t)"
  "apply_rst cbs p hdr (set_recv bs t) = set_recv bs (apply_rst cbs p hdr t)"
  by (simp_all add: accept_new_def apply_window_def apply_payload_def apply_fin_def apply_rst_def
      on_owner_set_recv on_session_set_recv session_set_recv acknowledge_set_recv Let_def
      del: session_fields)

lemma get_or_create_set_recv_eq:
  "get_or_create_stream sid b s = (q, s1) \<Longrightarrow>
   get_or_create_stream sid b (s\<lparr>ys_recv_buf := bs\<rparr>) = (q, s1\<lparr>ys_recv_buf := bs\<rparr>)"
  by (simp add: session_set_recv)

lemma handle_stream_frame_set_recv:
  "handle_stream_frame cbs hdr payload (set_recv bs t) = set_recv bs (handle_stream_frame cbs hdr payload t)"
proof -
  obtain s e where t: "t = (s, e)" by force
  obtain q s1 where g: "get_or_create_stream (hdr_stream_id hdr) (has_flag (hdr_flags hdr) SYN) s = (q, s1)"
    by force
  note g' = get_or_create_set_recv_eq [OF g]
  have start: "(s1\<lparr>ys_recv_buf := bs\<rparr>, e) = set_recv bs (s1, e)"
    and init: "set_recv bs t = (s\<lparr>ys_recv_buf := bs\<rparr>, e)"
    by (simp_all add: t set_recv_def on_session_def)
  show ?thesis
    unfolding init unfolding t
    by (cases q) (simp_all add: handle_stream_frame_def g g' start stages_set_recv Let_def
        del: set_recv_simps)
qed

lemma handle_frame_set_recv:
  "handle_frame cbs hdr payload (set_recv bs t) = set_recv bs (handle_frame cbs hdr payload t)"
proof -
  have "is_remote_stream_id (fst (set_recv bs t)) sid = is_remote_stream_id (fst t) sid" for sid
    by (simp add: is_remote_stream_id_def set_recv_def)
  then show ?thesis
    by (simp add: handle_frame_def handle_stream_frame_set_recv send_ping_ack_def send_go_away_def
        run_outgoing_set_recv on_session_set_recv session_set_recv)
qed

lemma handle_frames_set_recv:
  "handle_frames cbs fs (set_recv bs t) = set_recv bs (handle_frames cbs fs t)"
  by (induction fs arbitrary: t) (simp_all add: handle_frames_def handle_frame_set_recv case_prod_beta)

lemma process_frames_set_recv:
  "process_frames cbs (set_recv bs t) =
     (let (fs, rest) = parse_all try_parse_frame bs in set_recv rest (handle_frames cbs fs t))"
proof (induction "length bs" arbitrary: bs t rule: less_induct)
  case less
  show ?case
  proof (cases "try_parse_frame bs")
    case None
    then show ?thesis
      by (simp add: process_frames.simps [of cbs "set_recv bs t"] yframe.parse_all_None handle_frames_def)
  next
    case (Some r)
    obtain hdr payload rest where r: "r = ((hdr, payload), rest)" by (metis surj_pair)
    with Some have parse: "try_parse_frame bs = Some ((hdr, payload), rest)" by simp
    have "process_frames cbs (set_recv bs t)
        = process_frames cbs (set_recv rest (handle_frame cbs hdr payload t))"
      by (simp add: process_frames.simps [of cbs "set_recv bs t"] parse
          handle_frame_set_recv flip: set_recv_def)
    also have "\<dots> = (let (fs, r) = parse_all try_parse_frame rest
        in set_recv r (handle_frames cbs fs (handle_frame cbs hdr payload t)))"
      by (intro less try_parse_frame_shrinks [OF parse])
    finally show ?thesis
      by (simp add: yframe.parse_all_Some [OF parse] case_prod_beta Let_def handle_frames_def)
  qed
qed

lemma receive_frames:
  "snd (receive cbs data t) =
     (let (fs, rest) = parse_all try_parse_frame (ys_recv_buf (fst t) @ data)
      in set_recv rest (handle_frames cbs fs t))"
proof -
  have "on_session (\<lambda>s. s\<lparr>ys_recv_buf := ys_recv_buf s @ data\<rparr>) t = set_recv (ys_recv_buf (fst t) @ data) t"
    by (cases t) (simp add: set_recv_def on_session_def)
  then show ?thesis by (simp add: receive_def process_frames_set_recv)
qed

lemma handle_frames_append:
  "handle_frames cbs (fs @ gs) t = handle_frames cbs gs (handle_frames cbs fs t)"
  by (simp add: handle_frames_def)

lemma receive_append:
  "snd (receive cbs b (snd (receive cbs a t))) = snd (receive cbs (a @ b) t)"
  using yframe.parse_all_append [of "ys_recv_buf (fst t) @ a" b]
  by (simp add: receive_frames feed_def case_prod_beta Let_def handle_frames_append handle_frames_set_recv)

lemma receive_chunks:
  assumes "chunks \<noteq> []"
  shows "foldl (\<lambda>t chunk. snd (receive cbs chunk t)) t chunks = snd (receive cbs (concat chunks) t)"
  using assms
proof (induction chunks arbitrary: t)
  case (Cons c cs)
  show ?case
  proof (cases "cs = []")
    case False
    with Cons.IH [of "snd (receive cbs c t)"] show ?thesis by (simp add: receive_append)
  qed simp
qed simp

section \<open>Properties\<close>

text \<open>C21. The state a session reaches does not depend on how the transport cuts the bytes it
  receives: any sequence of chunks has the effect of their concatenation, callbacks
  included.\<close>

theorem receive_chunk_independent:
  assumes "chunks \<noteq> []"
  shows "foldl (\<lambda>t chunk. snd (receive cbs chunk t)) t chunks = snd (receive cbs (concat chunks) t)"
  using assms by (rule receive_chunks)

theorem receive_chunk_independent_witness:
  "foldl (\<lambda>t chunk. snd (receive no_callbacks chunk t)) (new_session 1 True, ())
      [[0, 2, 0], [0, 0, 0, 0, 0, 0, 0, 0, 7]]
    = snd (receive no_callbacks [0, 2, 0, 0, 0, 0, 0, 0, 0, 0, 0, 7] (new_session 1 True, ()))"
  using receive_chunk_independent [of "[[0, 2, 0], [0, 0, 0, 0, 0, 0, 0, 0, 7]]" no_callbacks
      "(new_session 1 True, ())"]
  by simp

end
