(* ===== verification/YamuxInvariant.thy ===== *)
theory YamuxInvariant
  imports Yamux
begin

text \<open>
  The invariant of a Yamux session, that every operation keeps it, and the reachable sessions.
\<close>

section \<open>The session invariant\<close>

text \<open>The pending output is a sequence of whole frames.\<close>

definition wire_frames :: "bytes \<Rightarrow> bool" where
  "wire_frames bs \<longleftrightarrow> (\<exists>fs. list_all wf_frame fs \<and> bs = concat (map frame_bytes fs))"

definition yamux_inv :: "yamux_session \<Rightarrow> bool" where
  "yamux_inv s \<longleftrightarrow>
     dom (ys_send_windows s) = dom (ys_streams s)
     \<and> (\<forall>sid p. ys_streams s sid = Some p \<longrightarrow>
          p < length (ys_heap s) \<and> st_id (ys_heap s ! p) = sid
          \<and> st_conn_id (ys_heap s ! p) = ys_conn_id s \<and> \<not> st_reset (ys_heap s ! p))
     \<and> (ys_next_stream_id s mod 2 = 1 \<longleftrightarrow> ys_is_client s)
     \<and> wire_frames (ys_send_buf s)"

text \<open>What the session asks of its owner: an outgoing callback takes the pending output as a
  whole or leaves it.\<close>

definition outgoing_whole :: "'e yamux_callbacks \<Rightarrow> bool" where
  "outgoing_whole cbs \<longleftrightarrow>
     (\<forall>cb buf e. outgoing_cb cbs = Some cb \<longrightarrow> fst (snd (cb buf e)) = [] \<or> fst (snd (cb buf e)) = buf)"

lemma wire_frames_Nil [simp]: "wire_frames []"
  unfolding wire_frames_def by (rule exI [of _ "[]"]) simp

lemma wire_frames_append:
  "wire_frames bs \<Longrightarrow> wf_frame f \<Longrightarrow> wire_frames (bs @ frame_bytes f)"
proof -
  assume "wire_frames bs" "wf_frame f"
  then obtain fs where "list_all wf_frame fs" "bs = concat (map frame_bytes fs)"
    by (auto simp: wire_frames_def)
  with \<open>wf_frame f\<close> show ?thesis
    unfolding wire_frames_def by (intro exI [of _ "fs @ [f]"]) simp
qed

lemma yamux_invD:
  assumes "yamux_inv s"
  shows "dom (ys_send_windows s) = dom (ys_streams s)"
    and "ys_streams s sid = Some p \<Longrightarrow> p < length (ys_heap s) \<and> st_id (ys_heap s ! p) = sid
      \<and> st_conn_id (ys_heap s ! p) = ys_conn_id s \<and> \<not> st_reset (ys_heap s ! p)"
    and "ys_next_stream_id s mod 2 = 1 \<longleftrightarrow> ys_is_client s"
    and "wire_frames (ys_send_buf s)"
  using assms by (auto simp: yamux_inv_def)

named_theorems yinv \<open>session updates that keep the invariant\<close>

lemma inv_new_session [yinv]: "yamux_inv (new_session conn_id is_client)"
  by (cases is_client) (simp_all add: yamux_inv_def new_session_def)

lemma inv_write_frame [yinv]:
  "yamux_inv s \<Longrightarrow> wf_frame (hdr, payload) \<Longrightarrow> yamux_inv (write_frame hdr payload s)"
  by (auto simp: yamux_inv_def write_frame_def wire_frames_append)

lemma inv_map_stream [yinv]:
  assumes "yamux_inv s"
    and "\<And>st. st_id (f st) = st_id st \<and> st_conn_id (f st) = st_conn_id st \<and> st_reset (f st) = st_reset st"
  shows "yamux_inv (map_stream p f s)"
  using assms by (auto simp: yamux_inv_def map_stream_def nth_list_update_if)

lemma inv_receive_rst [yinv]:
  assumes "yamux_inv s" and "p < length (ys_heap s) \<longrightarrow> st_id (ys_heap s ! p) = sid"
  shows "yamux_inv (erase_stream sid (map_stream p receive_rst s))"
  using assms unfolding yamux_inv_def
  by (auto simp: map_stream_def erase_stream_def nth_list_update_if split: if_splits)

lemma inv_erase_stream [yinv]: "yamux_inv s \<Longrightarrow> yamux_inv (erase_stream sid s)"
  by (auto simp: yamux_inv_def erase_stream_def)

lemma inv_grow_window [yinv]: "yamux_inv s \<Longrightarrow> yamux_inv (grow_window sid delta s)"
  by (auto simp: yamux_inv_def grow_window_def Let_def split: option.splits)

lemma inv_recv_buf [yinv]: "yamux_inv s \<Longrightarrow> yamux_inv (s\<lparr>ys_recv_buf := bs\<rparr>)"
  by (simp add: yamux_inv_def)

lemma inv_remote_go_away [yinv]: "yamux_inv s \<Longrightarrow> yamux_inv (s\<lparr>ys_remote_go_away := b\<rparr>)"
  by (simp add: yamux_inv_def)

lemma inv_drained [yinv]: "yamux_inv s \<Longrightarrow> yamux_inv (snd (drain_outgoing s))"
  by (simp add: yamux_inv_def drain_outgoing_def)

lemma inv_get_or_create [yinv]:
  "yamux_inv s \<Longrightarrow> yamux_inv (snd (get_or_create_stream sid b s))"
  by (auto simp: yamux_inv_def get_or_create_stream_def new_stream_def nth_append Let_def
      intro: less_SucI split: option.splits if_splits)

lemma inv_next_stream_id [yinv]:
  "yamux_inv s \<Longrightarrow> yamux_inv (s\<lparr>ys_next_stream_id := ys_next_stream_id s + 2\<rparr>)"
proof -
  have "(x + 2) mod 2 = x mod 2" for x :: u32
  proof -
    have "even (x + 2) \<longleftrightarrow> even x" by simp
    then show ?thesis by (metis even_iff_mod_2_eq_zero odd_iff_mod_2_eq_one)
  qed
  then show "yamux_inv s \<Longrightarrow> ?thesis" by (simp add: yamux_inv_def)
qed

lemma inv_run_outgoing [yinv]:
  assumes "outgoing_whole cbs" and "yamux_inv (fst t)"
  shows "yamux_inv (fst (snd (run_outgoing cbs t)))"
proof (cases "outgoing_cb cbs")
  case None
  with assms(2) show ?thesis by (simp add: run_outgoing_def case_prod_beta)
next
  case (Some cb)
  with assms(1) have "fst (snd (cb buf e)) = [] \<or> fst (snd (cb buf e)) = buf" for buf e
    by (simp add: outgoing_whole_def)
  with Some assms(2) show ?thesis
    by (auto simp: run_outgoing_def case_prod_beta Let_def yamux_inv_def) (metis wire_frames_Nil)+
qed

lemma inv_and_outgoing:
  assumes "outgoing_whole cbs" and "yamux_inv (fst (f t))"
  shows "yamux_inv (fst (snd (and_then (update f) (\<lambda>_. run_outgoing cbs) t)))"
  using assms by (simp add: inv_run_outgoing)

section \<open>Every operation keeps it\<close>

lemma run_outgoing_streams [simp]:
  "ys_streams (fst (snd (run_outgoing cbs t))) = ys_streams (fst t)"
  "ys_heap (fst (snd (run_outgoing cbs t))) = ys_heap (fst t)"
  "ys_send_windows (fst (snd (run_outgoing cbs t))) = ys_send_windows (fst t)"
  using run_outgoing_session [of cbs t] by auto

lemma write_frame_streams [simp]:
  "ys_streams (write_frame hdr payload s) = ys_streams s"
  "ys_heap (write_frame hdr payload s) = ys_heap s"
  "ys_send_windows (write_frame hdr payload s) = ys_send_windows s"
  by (simp_all add: write_frame_def)

lemma map_stream_streams [simp]:
  "ys_streams (map_stream p f s) = ys_streams s"
  "ys_send_windows (map_stream p f s) = ys_send_windows s"
  by (simp_all add: map_stream_def)

lemma grow_window_streams [simp]: "ys_streams (grow_window sid delta s) = ys_streams s"
  by (simp add: grow_window_def Let_def split: option.splits)

lemma stages_streams:
  "ys_streams (fst (accept_new cbs p sid b t)) = ys_streams (fst t)"
  "ys_streams (fst (apply_window hdr t)) = ys_streams (fst t)"
  "ys_streams (fst (apply_payload p payload t)) = ys_streams (fst t)"
  "ys_streams (fst (apply_fin cbs p hdr t)) = ys_streams (fst t)"
  by (simp_all add: accept_new_def apply_window_def apply_payload_def apply_fin_def
      acknowledge_stream_def Let_def)

lemma inv_stages [yinv]:
  assumes "outgoing_whole cbs" and "yamux_inv (fst t)"
  shows "yamux_inv (fst (accept_new cbs p sid b t))"
    and "yamux_inv (fst (apply_window hdr t))"
    and "yamux_inv (fst (apply_payload p payload t))"
    and "yamux_inv (fst (apply_fin cbs p hdr t))"
  using assms
  by (simp_all add: accept_new_def apply_window_def apply_payload_def apply_fin_def
      acknowledge_stream_def receive_data_def receive_fin_def Let_def yinv)

lemma inv_apply_rst [yinv]:
  assumes "yamux_inv (fst t)" and "ys_streams (fst t) (hdr_stream_id hdr) = Some p"
  shows "yamux_inv (fst (apply_rst cbs p hdr t))"
  using assms yamux_invD(2) [OF assms]
  by (simp add: apply_rst_def inv_receive_rst)

lemma get_or_create_streams:
  "get_or_create_stream sid b s = (Some p, s1) \<Longrightarrow> ys_streams s1 sid = Some p"
  by (auto simp: get_or_create_stream_def Let_def split: option.splits if_splits)

lemma inv_handle_stream_frame [yinv]:
  assumes "outgoing_whole cbs" and "yamux_inv (fst t)"
  shows "yamux_inv (fst (handle_stream_frame cbs hdr payload t))"
proof -
  obtain s e where t: "t = (s, e)" by force
  obtain q s1 where g: "get_or_create_stream (hdr_stream_id hdr) (has_flag (hdr_flags hdr) SYN) s = (q, s1)"
    by force
  with assms(2) have s1: "yamux_inv s1" unfolding t by (metis fst_conv inv_get_or_create snd_conv)
  show ?thesis
  proof (cases q)
    case None
    with g s1 show ?thesis by (simp add: handle_stream_frame_def t)
  next
    case (Some p)
    with g have "ys_streams s1 (hdr_stream_id hdr) = Some p" by (simp add: get_or_create_streams)
    with Some g s1 assms(1) show ?thesis
      by (simp add: handle_stream_frame_def t Let_def inv_apply_rst inv_stages stages_streams)
  qed
qed

lemma inv_handle_frame [yinv]:
  assumes "outgoing_whole cbs" and "yamux_inv (fst t)"
  shows "yamux_inv (fst (handle_frame cbs hdr payload t))"
  using assms by (simp add: handle_frame_def send_ping_ack_def send_go_away_def yinv)

lemma inv_handle_frames [yinv]:
  assumes "outgoing_whole cbs" and "yamux_inv (fst t)"
  shows "yamux_inv (fst (handle_frames cbs fs t))"
  using assms(2)
  by (induction fs arbitrary: t) (simp_all add: handle_frames_def case_prod_beta inv_handle_frame [OF assms(1)])

lemma inv_receive:
  assumes "outgoing_whole cbs" and "yamux_inv (fst t)"
  shows "yamux_inv (fst (snd (receive cbs data t)))"
  using inv_handle_frames [OF assms]
  by (simp add: receive_frames case_prod_beta Let_def set_recv_def inv_recv_buf)

lemma inv_open_stream:
  assumes "outgoing_whole cbs" and "yamux_inv (fst t)"
  shows "yamux_inv (fst (snd (open_stream cbs t)))"
proof -
  obtain s e where t: "t = (s, e)" by force
  define s0 where "s0 = s\<lparr>ys_next_stream_id := ys_next_stream_id s + 2\<rparr>"
  have "yamux_inv s0" unfolding s0_def using assms(2) by (simp add: t yinv)
  then have s1: "yamux_inv (snd (get_or_create_stream (ys_next_stream_id s) True s0))" by (rule yinv)
  have "snd (open_stream cbs t) = (if ys_remote_go_away s then t else
      snd (run_outgoing cbs (write_frame (frame Data (flag_value SYN) (ys_next_stream_id s) 0) []
        (snd (get_or_create_stream (ys_next_stream_id s) True s0)), e)))"
    by (simp add: open_stream_def t s0_def case_prod_beta Let_def and_then_def [of "run_outgoing cbs"]
        split: sum.splits)
  with s1 assms show ?thesis by (simp add: yinv del: flag_value.simps)
qed

lemma and_then_return_state [simp]:
  "snd (and_then m (\<lambda>_. return_ok x) t) = snd (m t)"
  by (simp add: and_then_def case_prod_beta split: sum.splits)

lemma erase_write_frame:
  "erase_stream sid (write_frame hdr payload s) = write_frame hdr payload (erase_stream sid s)"
  by (simp add: erase_stream_def write_frame_def)

lemma inv_write_data:
  assumes "yamux_inv s" and "ys_send_windows s sid = Some w" and "n \<le> length data" and "n \<le> unat w"
  shows "yamux_inv ((write_frame (frame Data 0 sid (of_nat n)) (take n data) s)
    \<lparr>ys_send_windows := (ys_send_windows s)(sid \<mapsto> v)\<rparr>)"
proof -
  have "n < 2 ^ 32" using assms(4) unsigned_less [of w, where ?'a = nat] by simp
  then have "wf_frame (frame Data 0 sid (of_nat n), take n data)"
    using wf_frame_data [of "take n data" 0 sid] assms(3) by simp
  with assms(1) have inv: "yamux_inv (write_frame (frame Data 0 sid (of_nat n)) (take n data) s)"
    by (rule inv_write_frame)
  have "insert sid (dom (ys_streams s)) = dom (ys_streams s)"
    using assms(2) yamux_invD(1) [OF assms(1)] by (auto simp: insert_absorb dom_def)
  with inv assms(1) show ?thesis by (simp add: yamux_inv_def)
qed

lemma inv_stream_operations:
  assumes "outgoing_whole cbs" and "yamux_inv (fst t)"
  shows "yamux_inv (fst (snd (try_read cbs p n t)))"
    and "yamux_inv (fst (snd (try_write cbs p data t)))"
    and "yamux_inv (fst (snd (close_write cbs p t)))"
    and "yamux_inv (fst (snd (reset cbs p t)))"
proof -
  show "yamux_inv (fst (snd (try_read cbs p n t)))"
    using assms by (cases t) (simp add: try_read_def update_receive_window_def Let_def yinv)
  show "yamux_inv (fst (snd (close_write cbs p t)))"
    using assms by (cases t)
      (simp add: close_write_def close_stream_write_def close_local_write_def Let_def yinv split: option.splits)
  show "yamux_inv (fst (snd (reset cbs p t)))"
    using assms by (cases t) (simp add: reset_def reset_stream_def stream_at_def erase_write_frame yinv)
  show "yamux_inv (fst (snd (try_write cbs p data t)))"
    using assms by (cases t)
      (simp add: try_write_def write_stream_data_def Let_def yinv inv_write_data split: option.splits)
qed

section \<open>Reachable sessions\<close>

text \<open>Everything that can happen to a session: bytes arrive, the application opens a stream or uses
  any handle it was ever given (also of a stream the session has forgotten), the owner drains
  the output or changes its own state.\<close>

inductive yamux_step :: "'e yamux_callbacks \<Rightarrow> 'e ystate \<Rightarrow> 'e ystate \<Rightarrow> bool" for cbs where
  receives: "yamux_step cbs t (snd (receive cbs data t))"
| opens: "yamux_step cbs t (snd (open_stream cbs t))"
| reads: "p < length (ys_heap (fst t)) \<Longrightarrow> yamux_step cbs t (snd (try_read cbs p n t))"
| writes: "p < length (ys_heap (fst t)) \<Longrightarrow> yamux_step cbs t (snd (try_write cbs p data t))"
| closes: "p < length (ys_heap (fst t)) \<Longrightarrow> yamux_step cbs t (snd (close_write cbs p t))"
| resets: "p < length (ys_heap (fst t)) \<Longrightarrow> yamux_step cbs t (snd (reset cbs p t))"
| names: "p < length (ys_heap (fst t)) \<Longrightarrow> yamux_step cbs t (on_session (map_stream p (set_protocol proto)) t)"
| drains: "yamux_step cbs t (on_session (\<lambda>s. snd (drain_outgoing s)) t)"
| owner: "yamux_step cbs (s, e) (s, e')"

definition yamux_reachable :: "'e yamux_callbacks \<Rightarrow> 'e ystate \<Rightarrow> bool" where
  "yamux_reachable cbs t \<longleftrightarrow>
     (\<exists>conn_id is_client e. (yamux_step cbs)\<^sup>*\<^sup>* (new_session conn_id is_client, e) t)"

lemma yamux_step_inv:
  assumes "outgoing_whole cbs" and "yamux_step cbs t t'" and "yamux_inv (fst t)"
  shows "yamux_inv (fst t')"
  using assms(2,3)
  by (induction rule: yamux_step.induct)
     (use assms(1) in \<open>simp_all add: inv_receive inv_open_stream inv_stream_operations
        set_protocol_def yinv\<close>)

lemma yamux_reachable_inv:
  assumes "outgoing_whole cbs" and "yamux_reachable cbs t"
  shows "yamux_inv (fst t)"
proof -
  from assms(2) obtain conn_id is_client e
    where "(yamux_step cbs)\<^sup>*\<^sup>* (new_session conn_id is_client, e) t"
    by (auto simp: yamux_reachable_def)
  then show ?thesis
    by (induction rule: rtranclp_induct) (auto intro: yamux_step_inv [OF assms(1)] simp: inv_new_session)
qed

section \<open>What an operation can do to the owner\<close>

text \<open>The owner's state changes only through the callbacks: a reflexive and transitive relation that
  the callbacks respect holds across every operation.\<close>

definition outgoing_respects :: "('e \<Rightarrow> 'e \<Rightarrow> bool) \<Rightarrow> 'e yamux_callbacks \<Rightarrow> bool" where
  "outgoing_respects R cbs \<longleftrightarrow>
     reflp R \<and> (\<forall>cb buf e. outgoing_cb cbs = Some cb \<longrightarrow> R e (snd (snd (cb buf e))))"

definition owner_respects :: "('e \<Rightarrow> 'e \<Rightarrow> bool) \<Rightarrow> 'e yamux_callbacks \<Rightarrow> bool" where
  "owner_respects R cbs \<longleftrightarrow>
     outgoing_respects R cbs \<and> reflp R \<and> transp R
     \<and> (\<forall>cb p sid e. accept_cb cbs = Some cb \<longrightarrow> R e (cb p sid e))
     \<and> (\<forall>cb sid detail e. close_cb cbs = Some cb \<longrightarrow> R e (cb sid detail e))"

lemma owner_outgoing:
  assumes "outgoing_respects R cbs"
  shows "R (snd t) (snd (snd (run_outgoing cbs t)))"
  using assms by (cases t; cases "outgoing_cb cbs")
    (auto simp: outgoing_respects_def run_outgoing_def case_prod_beta Let_def reflp_def)

lemma owner_on_owner:
  assumes "reflp R" and "\<And>g e. f = Some g \<Longrightarrow> R e (g e)"
  shows "R (snd t) (snd (on_owner f t))"
  using assms by (cases t; cases f) (auto simp: on_owner_def reflp_def)

lemma owner_send:
  assumes "outgoing_respects R cbs"
  shows "R (snd t) (snd (snd (and_then (update (on_session f)) (\<lambda>_. run_outgoing cbs) t)))"
  using owner_outgoing [OF assms, of "on_session f t"] by simp

lemma owner_stages:
  assumes "owner_respects R cbs"
  shows "R (snd t) (snd (accept_new cbs p sid b t))"
    and "R (snd t) (snd (apply_window hdr t))"
    and "R (snd t) (snd (apply_payload p payload t))"
    and "R (snd t) (snd (apply_fin cbs p hdr t))"
    and "R (snd t) (snd (apply_rst cbs p hdr t))"
proof -
  have refl: "R e e" and trans: "R a b \<Longrightarrow> R b c \<Longrightarrow> R a c" for a b c e
    using assms by (auto simp: owner_respects_def reflp_def transp_def)
  have refl': "reflp R" using assms by (simp add: owner_respects_def)
  show "R (snd t) (snd (accept_new cbs p sid b t))"
  proof (cases b)
    case True
    have "R (snd t) (snd (on_owner (map_option (\<lambda>cb. cb p sid) (accept_cb cbs)) t))"
      by (rule owner_on_owner [OF refl']) (use assms in \<open>auto simp: owner_respects_def\<close>)
    moreover have "R (snd t') (snd (snd (acknowledge_stream cbs sid t')))" for t'
      unfolding acknowledge_stream_def by (rule owner_send) (use assms in \<open>simp add: owner_respects_def\<close>)
    ultimately show ?thesis using True trans by (simp add: accept_new_def)
  qed (simp add: accept_new_def refl)
  show "R (snd t) (snd (apply_window hdr t))" "R (snd t) (snd (apply_payload p payload t))"
    by (simp_all add: apply_window_def apply_payload_def refl)
  have close: "R (snd t') (snd (on_owner (map_option (\<lambda>cb. cb sid d) (close_cb cbs)) t'))" for sid d t'
    by (rule owner_on_owner [OF refl']) (use assms in \<open>auto simp: owner_respects_def\<close>)
  show "R (snd t) (snd (apply_fin cbs p hdr t))"
    using close [of "on_session (map_stream p receive_fin) t"] by (simp add: apply_fin_def Let_def refl)
  show "R (snd t) (snd (apply_rst cbs p hdr t))"
    using close [of "on_session (map_stream p receive_rst) t"] by (simp add: apply_rst_def refl)
qed

lemma owner_handle_frame:
  assumes "owner_respects R cbs"
  shows "R (snd t) (snd (handle_frame cbs hdr payload t))"
proof -
  have refl: "R e e" and trans: "R a b \<Longrightarrow> R b c \<Longrightarrow> R a c" for a b c e
    using assms by (auto simp: owner_respects_def reflp_def transp_def)
  have "R (snd t) (snd (handle_stream_frame cbs hdr payload t))"
  proof -
    obtain s e where t: "t = (s, e)" by force
    obtain q s1 where g: "get_or_create_stream (hdr_stream_id hdr) (has_flag (hdr_flags hdr) SYN) s = (q, s1)"
      by force
    show ?thesis
    proof (cases q)
      case None
      with g show ?thesis by (simp add: handle_stream_frame_def t refl)
    next
      case (Some p)
      note st = owner_stages [OF assms]
      let ?b = "has_flag (hdr_flags hdr) SYN \<and> \<not> (ys_streams s (hdr_stream_id hdr) \<noteq> None)"
      have "R e (snd (accept_new cbs p (hdr_stream_id hdr) ?b (s1, e)))"
        using st(1) [of "(s1, e)" p "hdr_stream_id hdr" ?b] by simp
      note this [THEN trans, OF st(2), THEN trans, OF st(3), THEN trans, OF st(4), THEN trans, OF st(5)]
      with g Some show ?thesis by (simp add: handle_stream_frame_def t Let_def)
    qed
  qed
  then show ?thesis
    using owner_send [of R cbs] refl assms
    by (simp add: owner_respects_def handle_frame_def send_ping_ack_def send_go_away_def)
qed

lemma owner_receive:
  assumes "owner_respects R cbs"
  shows "R (snd t) (snd (snd (receive cbs data t)))"
proof -
  have refl: "R e e" and trans: "R a b \<Longrightarrow> R b c \<Longrightarrow> R a c" for a b c e
    using assms by (auto simp: owner_respects_def reflp_def transp_def)
  have "R (snd t) (snd (handle_frames cbs fs t))" for fs
  proof (induction fs arbitrary: t)
    case (Cons f fs)
    from trans [OF owner_handle_frame [OF assms] Cons.IH] show ?case
      by (simp add: handle_frames_def case_prod_beta)
  qed (simp add: handle_frames_def refl)
  then show ?thesis by (simp add: receive_frames case_prod_beta Let_def set_recv_def)
qed

lemma owner_operations:
  assumes "outgoing_respects R cbs"
  shows "R (snd t) (snd (snd (open_stream cbs t)))"
    and "R (snd t) (snd (snd (try_read cbs p n t)))"
    and "R (snd t) (snd (snd (try_write cbs p data t)))"
    and "R (snd t) (snd (snd (close_write cbs p t)))"
    and "R (snd t) (snd (snd (reset cbs p t)))"
proof -
  have refl: "R x x" for x using assms by (auto simp: outgoing_respects_def reflp_def)
  have out: "R (snd t) (snd (snd (run_outgoing cbs t)))" for t by (rule owner_outgoing [OF assms])
  have send: "R e (snd (snd (run_outgoing cbs (s, e))))" for s e using out [of "(s, e)"] by simp
  show "R (snd t) (snd (snd (open_stream cbs t)))"
    by (cases t) (simp add: open_stream_def case_prod_beta Let_def refl send)
  show "R (snd t) (snd (snd (try_read cbs p n t)))"
    by (cases t) (simp add: try_read_def update_receive_window_def Let_def refl send on_session_def)
  show "R (snd t) (snd (snd (try_write cbs p data t)))"
    by (cases t) (simp add: try_write_def write_stream_data_def Let_def refl send on_session_def split: option.splits)
  show "R (snd t) (snd (snd (close_write cbs p t)))"
    by (cases t) (simp add: close_write_def close_stream_write_def Let_def refl send on_session_def split: option.splits)
  show "R (snd t) (snd (snd (reset cbs p t)))"
    by (cases t) (simp add: reset_def reset_stream_def refl send on_session_def)
qed

section \<open>Properties\<close>

text \<open>C16. In every reachable session, whatever the peer sends and whatever the application does with
  old and new handles: exactly the registered streams have a send window; a registered stream
  carries its own id, belongs to this connection, is not reset and is shared by no other id;
  and the pending output is a sequence of whole frames.\<close>

theorem reachable_session_consistent:
  assumes "outgoing_whole cbs" and "yamux_reachable cbs (s, e)"
  shows "dom (ys_send_windows s) = dom (ys_streams s)
    \<and> (\<forall>sid p. ys_streams s sid = Some p \<longrightarrow> p < length (ys_heap s)
          \<and> st_id (stream_at s p) = sid \<and> st_conn_id (stream_at s p) = ys_conn_id s
          \<and> \<not> st_reset (stream_at s p))
    \<and> inj_on (ys_streams s) (dom (ys_streams s))
    \<and> (\<exists>fs. list_all wf_frame fs \<and> ys_send_buf s = concat (map frame_bytes fs))"
proof -
  have inv: "yamux_inv s" using yamux_reachable_inv [OF assms] by simp
  have "inj_on (ys_streams s) (dom (ys_streams s))"
  proof (rule inj_onI)
    fix a b assume "a \<in> dom (ys_streams s)" "b \<in> dom (ys_streams s)" "ys_streams s a = ys_streams s b"
    then obtain p where "ys_streams s a = Some p" "ys_streams s b = Some p" by auto
    from yamux_invD(2) [OF inv this(1)] yamux_invD(2) [OF inv this(2)] show "a = b" by simp
  qed
  with inv show ?thesis by (simp add: yamux_inv_def wire_frames_def stream_at_def)
qed

theorem reachable_session_consistent_witness:
  "dom (ys_send_windows (fst (snd (open_stream no_callbacks (new_session 1 True, ())))))
    = dom (ys_streams (fst (snd (open_stream no_callbacks (new_session 1 True, ())))))"
proof -
  have "yamux_step no_callbacks (new_session 1 True, ()) (snd (open_stream no_callbacks (new_session 1 True, ())))"
    by (rule yamux_step.opens)
  moreover have "snd (open_stream no_callbacks (new_session 1 True, ()))
      = (fst (snd (open_stream no_callbacks (new_session 1 True, ()))), ())"
    by (simp add: prod_eq_iff)
  ultimately have "yamux_reachable no_callbacks (fst (snd (open_stream no_callbacks (new_session 1 True, ()))), ())"
    unfolding yamux_reachable_def by (metis r_into_rtranclp)
  then show ?thesis
    by (rule reachable_session_consistent [THEN conjunct1, rotated])
       (simp add: outgoing_whole_def no_callbacks_def)
qed

end
