(* ===== verification/NoiseWire.thy ===== *)
theory NoiseWire
  imports PeerTypes Varint
begin

text \<open>
  The byte formats of src/src/protocol/noise/noise.cpp: protobuf fields, Ed25519 public keys,
  extensions, the handshake payload, and the two-byte length frames; with the pop of a frame from
  a receive buffer (connection_session.cpp, \<open>try_pop_wire_frame\<close>).
\<close>

section \<open>Code: protobuf fields\<close>

definition kSignaturePrefix :: string where
  "kSignaturePrefix = ''noise-libp2p-static-key:''"

definition kKeyTypeEd25519 :: u64 where "kKeyTypeEd25519 = 1"

definition append_field_varint :: "bytes \<Rightarrow> u32 \<Rightarrow> u64 \<Rightarrow> bytes" where
  "append_field_varint out field_no v =
     (let key = encode_uvarint (push_bit 3 (ucast field_no) OR 0);
          encoded = encode_uvarint v
      in out @ key @ encoded)"

definition append_field_bytes :: "bytes \<Rightarrow> u32 \<Rightarrow> bytes \<Rightarrow> bytes" where
  "append_field_bytes out field_no v =
     (let key = encode_uvarint (push_bit 3 (ucast field_no) OR 2);
          len = encode_uvarint (of_nat (length v))
      in out @ key @ len @ v)"

definition key_field :: "u64 \<Rightarrow> u32" where
  "key_field key = ucast (drop_bit 3 key)"

definition key_wire_type :: "u64 \<Rightarrow> u32" where
  "key_wire_type key = ucast (key AND 0x07)"

lemma decode_protobuf_shrinks:
  "decode_protobuf_uvarint bs = Inr (v, rest) \<Longrightarrow> length rest < length bs"
  by (simp add: decode_protobuf_uvarint_def decode_uvarint_with_suffix)

section \<open>Code: public keys\<close>

definition serialize_public_key_ed25519 :: "bytes \<Rightarrow> bytes" where
  "serialize_public_key_ed25519 public_key =
     append_field_bytes (append_field_varint [] 1 kKeyTypeEd25519) 2 public_key"

function parse_public_key_loop ::
    "u64 option \<Rightarrow> bytes option \<Rightarrow> bytes \<Rightarrow> (u64 option \<times> bytes option) result" where
  "parse_public_key_loop key_type public_key bytes =
     (if bytes = [] then Inr (key_type, public_key)
      else case decode_protobuf_uvarint bytes of
        Inl e \<Rightarrow> Inl e
      | Inr (key, bytes1) \<Rightarrow>
          if key_field key = 1 \<and> key_wire_type key = 0 then
            (case decode_protobuf_uvarint bytes1 of
               Inl e \<Rightarrow> Inl e
             | Inr (v, bytes2) \<Rightarrow> parse_public_key_loop (Some v) public_key bytes2)
          else if key_field key = 2 \<and> key_wire_type key = 2 then
            (case decode_protobuf_uvarint bytes1 of
               Inl e \<Rightarrow> Inl e
             | Inr (len, bytes2) \<Rightarrow>
                 if length bytes2 < unat len \<or> len \<noteq> 32 then Inl ''invalid identity public key''
                 else parse_public_key_loop key_type (Some (take 32 bytes2)) (drop 32 bytes2))
          else Inl ''unsupported public key encoding'')"
  by pat_completeness auto
termination
  by (relation "measure (\<lambda>(t, k, bytes). length bytes)")
     (auto dest!: decode_protobuf_shrinks)

declare parse_public_key_loop.simps [simp del]

definition parse_public_key_ed25519 :: "bytes \<Rightarrow> bytes result" where
  "parse_public_key_ed25519 bytes =
     bind_result (parse_public_key_loop None None bytes) (\<lambda>(key_type, public_key).
       case public_key of
         Some k \<Rightarrow> if key_type = Some kKeyTypeEd25519 then Inr k else Inl ''invalid identity public key''
       | None \<Rightarrow> Inl ''invalid identity public key'')"

definition signature_message :: "bytes \<Rightarrow> bytes" where
  "signature_message static_pubkey = bytes_of kSignaturePrefix @ static_pubkey"

section \<open>Code: extensions and handshake payloads\<close>

record noise_extensions =
  stream_muxers :: "string list"

definition no_extensions :: noise_extensions where
  "no_extensions = \<lparr>stream_muxers = []\<rparr>"

record noise_handshake_payload =
  identity_key :: bytes
  identity_sig :: bytes
  extensions :: noise_extensions

definition serialize_extensions :: "noise_extensions \<Rightarrow> bytes" where
  "serialize_extensions ext =
     foldl (\<lambda>out muxer. append_field_bytes out 2 (bytes_of muxer)) [] (stream_muxers ext)"

function parse_extensions_loop :: "noise_extensions \<Rightarrow> bytes \<Rightarrow> noise_extensions result" where
  "parse_extensions_loop ext bytes =
     (if bytes = [] then Inr ext
      else case decode_protobuf_uvarint bytes of
        Inl e \<Rightarrow> Inl e
      | Inr (key, bytes1) \<Rightarrow>
          if key_wire_type key \<noteq> 2 then Inl ''unsupported noise extension''
          else (case decode_protobuf_uvarint bytes1 of
             Inl e \<Rightarrow> Inl e
           | Inr (len, bytes2) \<Rightarrow>
               if length bytes2 < unat len then Inl ''invalid noise extension''
               else parse_extensions_loop
                 (if key_field key = 2
                  then ext\<lparr>stream_muxers := stream_muxers ext @ [text_of (take (unat len) bytes2)]\<rparr>
                  else ext)
                 (drop (unat len) bytes2)))"
  by pat_completeness auto
termination
  by (relation "measure (\<lambda>(ext, bytes). length bytes)")
     (auto dest!: decode_protobuf_shrinks)

declare parse_extensions_loop.simps [simp del]

definition parse_extensions :: "bytes \<Rightarrow> noise_extensions result" where
  "parse_extensions bytes = parse_extensions_loop no_extensions bytes"

function parse_payload_loop :: "noise_handshake_payload \<Rightarrow> bytes \<Rightarrow> noise_handshake_payload result" where
  "parse_payload_loop out payload =
     (if payload = [] then Inr out
      else case decode_protobuf_uvarint payload of
        Inl e \<Rightarrow> Inl e
      | Inr (key, payload1) \<Rightarrow>
          if key_wire_type key \<noteq> 2 then Inl ''invalid noise handshake payload''
          else (case decode_protobuf_uvarint payload1 of
             Inl e \<Rightarrow> Inl e
           | Inr (len, payload2) \<Rightarrow>
               if length payload2 < unat len then Inl ''invalid noise handshake payload''
               else
                 let field = take (unat len) payload2;
                     payload3 = drop (unat len) payload2
                 in if key_field key = 1 then parse_payload_loop (out\<lparr>identity_key := field\<rparr>) payload3
                    else if key_field key = 2 then parse_payload_loop (out\<lparr>identity_sig := field\<rparr>) payload3
                    else if key_field key = 4 then
                      (case parse_extensions field of
                         Inl e \<Rightarrow> Inl e
                       | Inr ext \<Rightarrow> parse_payload_loop (out\<lparr>extensions := ext\<rparr>) payload3)
                    else parse_payload_loop out payload3))"
  by pat_completeness auto
termination
  by (relation "measure (\<lambda>(out, payload). length payload)")
     (auto dest!: decode_protobuf_shrinks)

declare parse_payload_loop.simps [simp del]

definition parse_handshake_payload :: "bytes \<Rightarrow> noise_handshake_payload result" where
  "parse_handshake_payload payload =
     bind_result (parse_payload_loop
         \<lparr>identity_key = [], identity_sig = [], extensions = no_extensions\<rparr> payload) (\<lambda>out.
       if identity_key out = [] \<or> identity_sig out = []
       then Inl ''missing identity data in handshake payload'' else Inr out)"

text \<open>The payload \<open>make_handshake_payload\<close> assembles once it has the signature.\<close>

definition assemble_payload :: "bytes \<Rightarrow> bytes \<Rightarrow> noise_extensions \<Rightarrow> bytes" where
  "assemble_payload public_key signature ext =
     (let out = append_field_bytes (append_field_bytes [] 1 public_key) 2 signature;
          encoded_extensions = serialize_extensions ext
      in if encoded_extensions \<noteq> [] then append_field_bytes out 4 encoded_extensions else out)"

section \<open>Code: wire frames\<close>

definition encode_frame :: "bytes \<Rightarrow> bytes result" where
  "encode_frame message =
     (if length message > 65535 then Inl ''noise frame too large''
      else
        let len = (of_nat (length message) :: u16)
        in Inr ([ucast (drop_bit 8 len AND 0xFF), ucast (len AND 0xFF)] @ message))"

definition frame_length :: "bytes \<Rightarrow> u16" where
  "frame_length frame = push_bit 8 (ucast (frame ! 0)) OR ucast (frame ! 1)"

definition decode_frame :: "bytes \<Rightarrow> bytes result" where
  "decode_frame frame =
     (if length frame < 2 then Inl ''incomplete noise frame''
      else if length (drop 2 frame) \<noteq> unat (frame_length frame) then Inl ''invalid noise frame length''
      else Inr (drop 2 frame))"

datatype pop_result = NoFrame | PopError string | Popped bytes bytes

text \<open>\<open>try_pop_wire_frame\<close>: the frame and the bytes left, no whole frame yet, or an error.\<close>

definition try_pop_wire_frame :: "bytes \<Rightarrow> pop_result" where
  "try_pop_wire_frame buffer =
     (if length buffer < 2 then NoFrame
      else
        let total = unat (frame_length buffer) + 2
        in if length buffer < total then NoFrame
           else (case decode_frame (take total buffer) of
                   Inl e \<Rightarrow> PopError e
                 | Inr frame \<Rightarrow> Popped frame (drop total buffer)))"

section \<open>Fields are read back\<close>

lemma parse_loops_Nil [simp]:
  "parse_extensions_loop ext [] = Inr ext"
  "parse_payload_loop out [] = Inr out"
  "parse_public_key_loop t k [] = Inr (t, k)"
  by (simp_all add: parse_extensions_loop.simps parse_payload_loop.simps parse_public_key_loop.simps)

lemma parse_extensions_step:
  "bs \<noteq> [] \<Longrightarrow> decode_protobuf_uvarint bs = Inr (key, bs1) \<Longrightarrow> key_wire_type key = 2 \<Longrightarrow>
   decode_protobuf_uvarint bs1 = Inr (len, bs2) \<Longrightarrow> unat len \<le> length bs2 \<Longrightarrow>
   parse_extensions_loop ext bs = parse_extensions_loop
     (if key_field key = 2
      then ext\<lparr>stream_muxers := stream_muxers ext @ [text_of (take (unat len) bs2)]\<rparr> else ext)
     (drop (unat len) bs2)"
  by (subst parse_extensions_loop.simps) simp

lemma append_field_bytes_out: "append_field_bytes out n v = out @ append_field_bytes [] n v"
  by (simp add: append_field_bytes_def Let_def)

lemma decode_protobuf_encode [simp]: "decode_protobuf_uvarint (encode_uvarint v @ rest) = Inr (v, rest)"
  by (simp add: decode_protobuf_uvarint_def)

lemma encode_uvarint_nonempty [simp]: "encode_uvarint v \<noteq> []"
  using varint.encode_nonempty by blast

lemma field_keys [simp]:
  "key_field 8 = 1" "key_wire_type 8 = 0" "key_field 10 = 1" "key_wire_type 10 = 2"
  "key_field 18 = 2" "key_wire_type 18 = 2" "key_field 34 = 4" "key_wire_type 34 = 2"
  by (simp_all add: key_field_def key_wire_type_def)

lemma field_bytes:
  "append_field_bytes [] 1 v = encode_uvarint 10 @ encode_uvarint (of_nat (length v)) @ v"
  "append_field_bytes [] 2 v = encode_uvarint 18 @ encode_uvarint (of_nat (length v)) @ v"
  "append_field_bytes [] 4 v = encode_uvarint 34 @ encode_uvarint (of_nat (length v)) @ v"
  by (simp_all add: append_field_bytes_def)

lemma parse_public_key_serialize:
  assumes "length k = 32"
  shows "parse_public_key_ed25519 (serialize_public_key_ed25519 k) = Inr k"
proof -
  have "serialize_public_key_ed25519 k = encode_uvarint 8 @ encode_uvarint kKeyTypeEd25519 @
      encode_uvarint 18 @ encode_uvarint 32 @ k"
    using assms by (simp add: serialize_public_key_ed25519_def append_field_varint_def append_field_bytes_def)
  moreover have "parse_public_key_loop None None (encode_uvarint 8 @ encode_uvarint kKeyTypeEd25519 @
      encode_uvarint 18 @ encode_uvarint 32 @ k) = Inr (Some kKeyTypeEd25519, Some k)"
    using assms by (simp add: parse_public_key_loop.simps)
  ultimately show ?thesis by (simp add: parse_public_key_ed25519_def)
qed

lemma parse_public_key_loop_length:
  assumes "parse_public_key_loop t pk bs = Inr (t', Some k)" and "\<forall>k. pk = Some k \<longrightarrow> length k = 32"
  shows "length k = 32"
  using assms
proof (induction t pk bs rule: parse_public_key_loop.induct)
  case (1 t pk bs)
  show ?case
  proof (cases "bs = []")
    case True
    with 1(3,4) show ?thesis by simp
  next
    case False
    from 1(3) False obtain key bs1 where key: "decode_protobuf_uvarint bs = Inr (key, bs1)"
      by (subst (asm) parse_public_key_loop.simps) (auto split: sum.splits)
    from 1(3) have loop: "(if key_field key = 1 \<and> key_wire_type key = 0 then
            (case decode_protobuf_uvarint bs1 of
               Inl e \<Rightarrow> Inl e
             | Inr (v, bs2) \<Rightarrow> parse_public_key_loop (Some v) pk bs2)
          else if key_field key = 2 \<and> key_wire_type key = 2 then
            (case decode_protobuf_uvarint bs1 of
               Inl e \<Rightarrow> Inl e
             | Inr (len, bs2) \<Rightarrow>
                 if length bs2 < unat len \<or> len \<noteq> 32 then Inl ''invalid identity public key''
                 else parse_public_key_loop t (Some (take 32 bs2)) (drop 32 bs2))
          else Inl ''unsupported public key encoding'') = Inr (t', Some k)"
      by (subst (asm) parse_public_key_loop.simps) (simp add: False key)
    consider (ty) v bs2 where "key_field key = 1 \<and> key_wire_type key = 0"
        "decode_protobuf_uvarint bs1 = Inr (v, bs2)" "parse_public_key_loop (Some v) pk bs2 = Inr (t', Some k)"
      | (pub) len bs2 where "\<not> (key_field key = 1 \<and> key_wire_type key = 0)"
        "key_field key = 2 \<and> key_wire_type key = 2"
        "decode_protobuf_uvarint bs1 = Inr (len, bs2)" "\<not> (length bs2 < unat len \<or> len \<noteq> 32)"
        "parse_public_key_loop t (Some (take 32 bs2)) (drop 32 bs2) = Inr (t', Some k)"
      using loop by (simp split: if_splits sum.splits prod.splits)
    then show ?thesis
    proof cases
      case ty
      show ?thesis by (rule 1(1) [OF False key refl ty(1,2) refl ty(3) 1(4)])
    next
      case pub
      then have "\<forall>k. Some (take 32 bs2) = Some k \<longrightarrow> length k = 32" by auto
      then show ?thesis by (rule 1(2) [OF False key refl pub(1-3) refl pub(4,5)])
    qed
  qed
qed

lemma parse_public_key_length:
  assumes "parse_public_key_ed25519 bs = Inr k"
  shows "length k = 32"
proof -
  from assms obtain t' where "parse_public_key_loop None None bs = Inr (t', Some k)"
    by (auto simp: parse_public_key_ed25519_def bind_result_Inr_iff split: option.splits if_splits)
  then show ?thesis by (rule parse_public_key_loop_length) simp
qed

lemma parse_extension:
  assumes "length m < 2 ^ 64"
  shows "parse_extensions_loop ext (append_field_bytes [] 2 (bytes_of m) @ rest)
    = parse_extensions_loop (ext\<lparr>stream_muxers := stream_muxers ext @ [m]\<rparr>) rest"
proof -
  have len: "unat (of_nat (length m) :: u64) = length m" using assms by (rule unat_of_nat_u64)
  have "parse_extensions_loop ext (append_field_bytes [] 2 (bytes_of m) @ rest) = parse_extensions_loop
     (if key_field 18 = 2 then ext\<lparr>stream_muxers := stream_muxers ext @
        [text_of (take (unat (of_nat (length m) :: u64)) (bytes_of m @ rest))]\<rparr> else ext)
     (drop (unat (of_nat (length m) :: u64)) (bytes_of m @ rest))"
    by (rule parse_extensions_step [of _ _ "encode_uvarint (of_nat (length m)) @ bytes_of m @ rest"]) (simp_all add: field_bytes len)
  then show ?thesis by (simp add: len comp_def)
qed

lemma serialize_extensions_concat:
  "serialize_extensions ext = concat (map (\<lambda>m. append_field_bytes [] 2 (bytes_of m)) (stream_muxers ext))"
proof -
  have "foldl (\<lambda>out m. append_field_bytes out 2 (bytes_of m)) out ms
      = out @ concat (map (\<lambda>m. append_field_bytes [] 2 (bytes_of m)) ms)" for out ms
  proof (induction ms arbitrary: out)
    case (Cons m ms)
    show ?case
      using Cons.IH [of "append_field_bytes out 2 (bytes_of m)"] append_field_bytes_out [of out 2 "bytes_of m"]
      by simp
  qed simp
  then show ?thesis by (simp add: serialize_extensions_def)
qed

definition small_extensions :: "noise_extensions \<Rightarrow> bool" where
  "small_extensions ext \<longleftrightarrow>
     (\<forall>m \<in> set (stream_muxers ext). length m < 2 ^ 64) \<and> length (serialize_extensions ext) < 2 ^ 64"

lemma parse_serialize_extensions:
  assumes "small_extensions ext"
  shows "parse_extensions (serialize_extensions ext) = Inr ext"
proof -
  have "\<forall>m \<in> set ms. length m < 2 ^ 64 \<Longrightarrow>
      parse_extensions_loop e (concat (map (\<lambda>m. append_field_bytes [] 2 (bytes_of m)) ms))
      = Inr (e\<lparr>stream_muxers := stream_muxers e @ ms\<rparr>)" for e ms
  proof (induction ms arbitrary: e)
    case Nil
    then show ?case by (simp add: parse_extensions_loop.simps)
  next
    case (Cons m ms)
    then show ?case by (simp add: parse_extension)
  qed
  with assms show ?thesis
    by (simp add: parse_extensions_def serialize_extensions_concat small_extensions_def no_extensions_def)
qed

lemma parse_payload_field:
  assumes "length v < 2 ^ 64"
  shows "parse_payload_loop out (append_field_bytes [] 1 v @ rest) = parse_payload_loop (out\<lparr>identity_key := v\<rparr>) rest"
    and "parse_payload_loop out (append_field_bytes [] 2 v @ rest) = parse_payload_loop (out\<lparr>identity_sig := v\<rparr>) rest"
    and "parse_extensions v = Inr ext \<Longrightarrow>
      parse_payload_loop out (append_field_bytes [] 4 v @ rest) = parse_payload_loop (out\<lparr>extensions := ext\<rparr>) rest"
  using unat_of_nat_u64 [OF assms] by (subst parse_payload_loop.simps, simp add: field_bytes Let_def)+

lemma parse_assembled_payload:
  assumes "length k < 2 ^ 64" and "length sig < 2 ^ 64" and "k \<noteq> []" and "sig \<noteq> []"
    and "small_extensions ext"
  shows "parse_handshake_payload (assemble_payload k sig ext)
    = Inr \<lparr>identity_key = k, identity_sig = sig, extensions = ext\<rparr>"
proof -
  let ?empty = "\<lparr>identity_key = [], identity_sig = [], extensions = no_extensions\<rparr>"
  let ?ext = "serialize_extensions ext"
  have bytes: "assemble_payload k sig ext = append_field_bytes [] 1 k @ append_field_bytes [] 2 sig @
      (if ?ext \<noteq> [] then append_field_bytes [] 4 ?ext else [])"
    by (simp add: assemble_payload_def append_field_bytes_out [of "append_field_bytes [] 1 k"]
        append_field_bytes_out [of "append_field_bytes [] 1 k @ append_field_bytes [] 2 sig"] Let_def)
  have "parse_payload_loop ?empty (assemble_payload k sig ext)
      = Inr \<lparr>identity_key = k, identity_sig = sig, extensions = ext\<rparr>"
  proof (cases "?ext = []")
    case True
    then have "ext = no_extensions"
      using parse_serialize_extensions [OF assms(5)]
      by (simp add: parse_extensions_def parse_extensions_loop.simps)
    moreover have "assemble_payload k sig ext = append_field_bytes [] 1 k @ append_field_bytes [] 2 sig @ []"
      using True by (simp add: bytes)
    ultimately show ?thesis
      using assms(1,2) by (simp only: parse_payload_field) simp
  next
    case False
    have small: "length ?ext < 2 ^ 64" using assms(5) by (simp add: small_extensions_def)
    from False assms parse_payload_field(3) [OF small parse_serialize_extensions [OF assms(5)], of _ "[]"]
    show ?thesis
      by (simp add: bytes parse_payload_field)
  qed
  with assms(3,4) show ?thesis by (simp add: parse_handshake_payload_def)
qed

section \<open>Frames\<close>

text \<open>The sender side of a frame, for messages that fit.\<close>

definition framed :: "bytes \<Rightarrow> bytes" where
  "framed message =
     [ucast (drop_bit 8 (of_nat (length message) :: u16)), ucast (of_nat (length message) :: u16)] @ message"

definition fits_frame :: "bytes \<Rightarrow> bool" where
  "fits_frame message \<longleftrightarrow> length message \<le> 65535"

lemma encode_frame_eq:
  "encode_frame message = (if fits_frame message then Inr (framed message) else Inl ''noise frame too large'')"
  by (simp add: encode_frame_def fits_frame_def framed_def ucast_low_byte Let_def)

lemma be16_value:
  "(push_bit 8 (ucast (ucast (drop_bit 8 v) :: byte)) OR ucast (ucast v :: byte) :: u16) = v"
proof (rule bit_word_eqI)
  fix n assume "n < LENGTH(16)"
  then show "bit (push_bit 8 (ucast (ucast (drop_bit 8 v) :: byte)) OR ucast (ucast v :: byte) :: u16) n \<longleftrightarrow> bit v n"
    by (cases "n < 8") (auto simp: bit_simps)
qed

lemma frame_length_framed [simp]: "frame_length (framed m @ rest) = of_nat (length m)"
  by (simp add: frame_length_def framed_def be16_value)

lemma frame_length_take: "2 \<le> n \<Longrightarrow> frame_length (take n bs) = frame_length bs"
  by (simp add: frame_length_def)

lemma frame_length_append: "2 \<le> length bs \<Longrightarrow> frame_length (bs @ extra) = frame_length bs"
  by (cases bs) (auto simp: frame_length_def nth_append)

lemma try_pop_no_error: "try_pop_wire_frame buffer \<noteq> PopError e"
  by (simp add: try_pop_wire_frame_def decode_frame_def frame_length_take Let_def)

lemma try_pop_Popped_iff:
  "try_pop_wire_frame buffer = Popped frame rest \<longleftrightarrow>
     2 \<le> length buffer \<and> unat (frame_length buffer) + 2 \<le> length buffer
     \<and> frame = take (unat (frame_length buffer)) (drop 2 buffer)
     \<and> rest = drop (unat (frame_length buffer) + 2) buffer"
  by (auto simp: try_pop_wire_frame_def decode_frame_def frame_length_take drop_take Let_def)

definition wire_parse :: "bytes \<Rightarrow> (bytes \<times> bytes) option" where
  "wire_parse buffer = (case try_pop_wire_frame buffer of Popped f r \<Rightarrow> Some (f, r) | _ \<Rightarrow> None)"

lemma wire_parse_Some: "wire_parse buffer = Some (f, r) \<longleftrightarrow> try_pop_wire_frame buffer = Popped f r"
  by (auto simp: wire_parse_def split: pop_result.splits)

interpretation wire: frame_codec wire_parse framed fits_frame
proof unfold_locales
  show "wire_parse (bs @ extra) = Some (f, rest @ extra)" if "wire_parse bs = Some (f, rest)" for bs f rest extra
    using that by (auto simp: wire_parse_Some try_pop_Popped_iff frame_length_append)
  show "length rest < length bs" if "wire_parse bs = Some (f, rest)" for bs f rest
    using that by (auto simp: wire_parse_Some try_pop_Popped_iff)
  show "wire_parse (framed f) = Some (f, [])" if "fits_frame f" for f
    using that unat_of_nat_u16 [of "length f"] frame_length_framed [of f "[]"]
    by (simp add: wire_parse_Some try_pop_Popped_iff fits_frame_def) (simp add: framed_def)
qed

lemma try_pop_framed: "fits_frame m \<Longrightarrow> try_pop_wire_frame (framed m @ rest) = Popped m rest"
  using wire.parse_encode_append [of m rest] by (simp add: wire_parse_Some)

lemma try_pop_shrinks: "try_pop_wire_frame buffer = Popped f r \<Longrightarrow> length r < length buffer"
  using wire.parse_shrinks [of buffer f r] by (simp add: wire_parse_Some)

end
