(* ===== verification/Noise.thy ===== *)
theory Noise
  imports NoiseWire
begin

text \<open>
  The Noise XX handshake and the transport ciphers (src/src/protocol/noise/noise.hpp, noise.cpp).

  libsodium is not part of the repository: its functions are the record \<open>crypto\<close>, an argument of
  every operation that calls one.  A call that can fail returns an option.  The verification of a
  detached signature reads 64 bytes at the pointer it is given; for a signature field of fewer
  bytes the C++ call reads past the vector, and the model's value on a short list stands for
  whatever that read yields.  Random bytes are an argument of the operations that draw them.
\<close>

section \<open>Code: data\<close>

record crypto =
  sodium_ready :: bool
  sha256 :: "bytes \<Rightarrow> bytes"
  hmac256 :: "bytes \<Rightarrow> bytes \<Rightarrow> bytes option"
  x25519 :: "bytes \<Rightarrow> bytes \<Rightarrow> bytes option"
  x25519_base :: "bytes \<Rightarrow> bytes"
  aead_encrypt :: "bytes \<Rightarrow> bytes \<Rightarrow> bytes \<Rightarrow> bytes \<Rightarrow> bytes option"
  aead_decrypt :: "bytes \<Rightarrow> bytes \<Rightarrow> bytes \<Rightarrow> bytes \<Rightarrow> bytes option"
  sign_detached :: "bytes \<Rightarrow> bytes \<Rightarrow> bytes option"
  sign_verify :: "bytes \<Rightarrow> bytes \<Rightarrow> bytes \<Rightarrow> bool"

record noise_keypair =
  kp_public_key :: bytes
  kp_secret_key :: bytes

record cipher_state =
  cs_key :: bytes
  cs_nonce :: u64
  cs_has_key :: bool

record noise_session =
  ns_is_initiator :: bool
  ns_local_identity :: "identity option"
  ns_remote_peer_id :: "peer_id option"
  ns_local_extensions :: noise_extensions
  ns_remote_extensions :: noise_extensions
  ns_ephemeral :: noise_keypair
  ns_static_key :: noise_keypair
  ns_configured_ephemeral :: "noise_keypair option"
  ns_configured_static :: "noise_keypair option"
  ns_remote_ephemeral_pub :: bytes
  ns_has_remote_ephemeral :: bool
  ns_remote_static_pub :: bytes
  ns_has_remote_static :: bool
  ns_chaining_key :: bytes
  ns_handshake_hash :: bytes
  ns_handshake_cipher :: cipher_state
  ns_cs_send :: cipher_state
  ns_cs_recv :: cipher_state
  ns_handshake_complete :: bool

definition zeros :: "nat \<Rightarrow> bytes" where "zeros n = replicate n 0"

definition empty_keypair :: noise_keypair where
  "empty_keypair = \<lparr>kp_public_key = zeros 32, kp_secret_key = zeros 32\<rparr>"

definition empty_cipher :: cipher_state where
  "empty_cipher = \<lparr>cs_key = zeros 32, cs_nonce = 0, cs_has_key = False\<rparr>"

definition new_noise_session :: noise_session where
  "new_noise_session =
     \<lparr>ns_is_initiator = False, ns_local_identity = None, ns_remote_peer_id = None,
      ns_local_extensions = no_extensions, ns_remote_extensions = no_extensions,
      ns_ephemeral = empty_keypair, ns_static_key = empty_keypair,
      ns_configured_ephemeral = None, ns_configured_static = None,
      ns_remote_ephemeral_pub = zeros 32, ns_has_remote_ephemeral = False,
      ns_remote_static_pub = zeros 32, ns_has_remote_static = False,
      ns_chaining_key = zeros 32, ns_handshake_hash = zeros 32,
      ns_handshake_cipher = empty_cipher, ns_cs_send = empty_cipher, ns_cs_recv = empty_cipher,
      ns_handshake_complete = False\<rparr>"

definition kAeadTagBytes :: nat where "kAeadTagBytes = 16"

definition kProtocolName :: string where
  "kProtocolName = ''Noise_XX_25519_ChaChaPoly_SHA256''"

definition kEncryptedStaticLen :: nat where "kEncryptedStaticLen = 32 + kAeadTagBytes"

definition require :: "string \<Rightarrow> 'a option \<Rightarrow> 'a result" where
  "require message x = (case x of None \<Rightarrow> Inl message | Some v \<Rightarrow> Inr v)"

section \<open>Code: primitives\<close>

definition ensure_sodium_ready :: "crypto \<Rightarrow> unit result" where
  "ensure_sodium_ready C = (if \<not> sodium_ready C then Inl ''sodium_init failed'' else Inr ())"

definition compute_shared_secret :: "crypto \<Rightarrow> noise_keypair \<Rightarrow> bytes \<Rightarrow> bytes result" where
  "compute_shared_secret C local remote_pub =
     require ''curve25519 DH failed'' (x25519 C (kp_secret_key local) remote_pub)"

definition make_nonce :: "u64 \<Rightarrow> bytes" where
  "make_nonce nonce = [0, 0, 0, 0] @ map (\<lambda>index. ucast (drop_bit (index * 8) nonce AND 0xFF)) [0..<8]"

definition hmac_sha256 :: "crypto \<Rightarrow> bytes \<Rightarrow> bytes \<Rightarrow> bytes result" where
  "hmac_sha256 C key data = require ''hmac init failed'' (hmac256 C key data)"

definition hkdf2 :: "crypto \<Rightarrow> bytes \<Rightarrow> bytes \<Rightarrow> (bytes \<times> bytes) result" where
  "hkdf2 C chaining_key input_material =
     bind_result (hmac_sha256 C chaining_key input_material) (\<lambda>temp_key.
     bind_result (hmac_sha256 C temp_key [0x01]) (\<lambda>out1.
     bind_result (hmac_sha256 C temp_key (out1 @ [0x02])) (\<lambda>out2.
       Inr (out1, out2))))"

definition encrypt_with_key :: "crypto \<Rightarrow> bytes \<Rightarrow> u64 \<Rightarrow> bytes \<Rightarrow> bytes \<Rightarrow> bytes result" where
  "encrypt_with_key C key nonce plaintext ad =
     require ''noise::encrypt failed'' (aead_encrypt C key (make_nonce nonce) ad plaintext)"

definition decrypt_with_key :: "crypto \<Rightarrow> bytes \<Rightarrow> u64 \<Rightarrow> bytes \<Rightarrow> bytes \<Rightarrow> bytes result" where
  "decrypt_with_key C key nonce ciphertext ad =
     (if length ciphertext < kAeadTagBytes then Inl ''ciphertext too short''
      else require ''noise::decrypt failed'' (aead_decrypt C key (make_nonce nonce) ad ciphertext))"

section \<open>Code: symmetric state\<close>

definition mix_hash :: "crypto \<Rightarrow> bytes \<Rightarrow> noise_session \<Rightarrow> noise_session" where
  "mix_hash C data s = s\<lparr>ns_handshake_hash := sha256 C (ns_handshake_hash s @ data)\<rparr>"

definition initialize_symmetric :: "crypto \<Rightarrow> noise_session \<Rightarrow> noise_session" where
  "initialize_symmetric C s =
     (let hash = (if length kProtocolName \<le> 32
                  then bytes_of kProtocolName @ zeros (32 - length kProtocolName)
                  else sha256 C (bytes_of kProtocolName));
          s1 = s\<lparr>ns_remote_peer_id := None, ns_remote_extensions := no_extensions,
                 ns_handshake_complete := False, ns_has_remote_ephemeral := False,
                 ns_has_remote_static := False, ns_handshake_cipher := empty_cipher,
                 ns_cs_send := empty_cipher, ns_cs_recv := empty_cipher,
                 ns_handshake_hash := hash, ns_chaining_key := hash\<rparr>
      in mix_hash C [] s1)"

definition mix_key :: "crypto \<Rightarrow> bytes \<Rightarrow> (noise_session, unit) action" where
  "mix_key C input_material = reading (\<lambda>s.
     and_then (return_result (hkdf2 C (ns_chaining_key s) input_material)) (\<lambda>(k1, k2).
       update (\<lambda>s. s\<lparr>ns_chaining_key := k1,
                       ns_handshake_cipher := \<lparr>cs_key = k2, cs_nonce = 0, cs_has_key = True\<rparr>\<rparr>)))"

definition mix_key_dh :: "crypto \<Rightarrow> noise_keypair \<Rightarrow> bytes \<Rightarrow> (noise_session, unit) action" where
  "mix_key_dh C local remote_pub =
     and_then (return_result (compute_shared_secret C local remote_pub)) (mix_key C)"

definition bump_nonce :: "cipher_state \<Rightarrow> cipher_state" where
  "bump_nonce cs = cs\<lparr>cs_nonce := cs_nonce cs + 1\<rparr>"

definition encrypt_and_hash :: "crypto \<Rightarrow> bytes \<Rightarrow> (noise_session, bytes) action" where
  "encrypt_and_hash C plaintext = reading (\<lambda>s.
     let cipher = ns_handshake_cipher s
     in if \<not> cs_has_key cipher then and_then (update (mix_hash C plaintext)) (\<lambda>_. return_ok plaintext)
        else and_then (return_result
               (encrypt_with_key C (cs_key cipher) (cs_nonce cipher) plaintext (ns_handshake_hash s)))
             (\<lambda>ciphertext.
                and_then (update (\<lambda>s. mix_hash C ciphertext
                  (s\<lparr>ns_handshake_cipher := bump_nonce (ns_handshake_cipher s)\<rparr>)))
                (\<lambda>_. return_ok ciphertext)))"

definition decrypt_and_hash :: "crypto \<Rightarrow> bytes \<Rightarrow> (noise_session, bytes) action" where
  "decrypt_and_hash C ciphertext = reading (\<lambda>s.
     let cipher = ns_handshake_cipher s
     in if \<not> cs_has_key cipher then and_then (update (mix_hash C ciphertext)) (\<lambda>_. return_ok ciphertext)
        else and_then (return_result
               (decrypt_with_key C (cs_key cipher) (cs_nonce cipher) ciphertext (ns_handshake_hash s)))
             (\<lambda>plaintext.
                and_then (update (\<lambda>s. mix_hash C ciphertext
                  (s\<lparr>ns_handshake_cipher := bump_nonce (ns_handshake_cipher s)\<rparr>)))
                (\<lambda>_. return_ok plaintext)))"

definition fresh_cipher :: "bytes \<Rightarrow> cipher_state" where
  "fresh_cipher key = \<lparr>cs_key = key, cs_nonce = 0, cs_has_key = True\<rparr>"

definition split_transport :: "crypto \<Rightarrow> (noise_session, unit) action" where
  "split_transport C = reading (\<lambda>s.
     and_then (return_result (hkdf2 C (ns_chaining_key s) [])) (\<lambda>(k1, k2).
       update (\<lambda>s. if ns_is_initiator s
                     then s\<lparr>ns_cs_send := fresh_cipher k1, ns_cs_recv := fresh_cipher k2\<rparr>
                     else s\<lparr>ns_cs_send := fresh_cipher k2, ns_cs_recv := fresh_cipher k1\<rparr>)))"

section \<open>Code: identity payloads\<close>

definition make_handshake_payload ::
    "crypto \<Rightarrow> identity \<Rightarrow> noise_keypair \<Rightarrow> noise_extensions \<Rightarrow> bytes result" where
  "make_handshake_payload C identity static_key ext =
     bind_result (ensure_sodium_ready C) (\<lambda>_.
       let public_key = serialize_public_key_ed25519 (take 32 (drop 32 (id_secret_key identity)));
           message = signature_message (kp_public_key static_key)
       in bind_result (require ''failed to sign noise static key''
                         (sign_detached C (id_secret_key identity) message)) (\<lambda>signature.
            Inr (assemble_payload public_key signature ext)))"

definition verify_handshake_payload ::
    "crypto \<Rightarrow> noise_handshake_payload \<Rightarrow> bytes \<Rightarrow> unit result" where
  "verify_handshake_payload C payload static_pubkey =
     bind_result (ensure_sodium_ready C) (\<lambda>_.
     bind_result (parse_public_key_ed25519 (identity_key payload)) (\<lambda>identity_pub.
       if sign_verify C (take 64 (identity_sig payload)) (signature_message static_pubkey) identity_pub
       then Inr () else Inl ''invalid noise static key signature''))"

definition make_local_payload :: "crypto \<Rightarrow> noise_session \<Rightarrow> bytes result" where
  "make_local_payload C s =
     (case ns_local_identity s of
        None \<Rightarrow> Inr []
      | Some identity \<Rightarrow> make_handshake_payload C identity (ns_static_key s) (ns_local_extensions s))"

definition verify_remote_identity :: "crypto \<Rightarrow> bytes \<Rightarrow> (noise_session, unit) action" where
  "verify_remote_identity C payload_bytes = reading (\<lambda>s.
     if payload_bytes = [] then
       update (\<lambda>s. s\<lparr>ns_remote_peer_id := None, ns_remote_extensions := no_extensions\<rparr>)
     else
       and_then (return_result (parse_handshake_payload payload_bytes)) (\<lambda>payload.
       and_then (return_result (verify_handshake_payload C payload (ns_remote_static_pub s))) (\<lambda>_.
       and_then (return_result (parse_public_key_ed25519 (identity_key payload))) (\<lambda>identity_pub.
         update (\<lambda>s. s\<lparr>ns_remote_peer_id := Some (peer_id_from_bytes identity_pub),
                         ns_remote_extensions := extensions payload\<rparr>)))))"

section \<open>Code: handshake messages\<close>

text \<open>The random secret of the ephemeral and of the static key, drawn when no key pair is
  configured.\<close>

type_synonym draws = "bytes \<times> bytes"

definition generate_keypair :: "crypto \<Rightarrow> bytes \<Rightarrow> noise_keypair" where
  "generate_keypair C random = \<lparr>kp_public_key = x25519_base C random, kp_secret_key = random\<rparr>"

definition take_or_generate_keypair ::
    "crypto \<Rightarrow> bytes \<Rightarrow> noise_keypair option \<Rightarrow> noise_keypair \<times> noise_keypair option" where
  "take_or_generate_keypair C random configured =
     (case configured of
        Some keypair \<Rightarrow> (keypair, None)
      | None \<Rightarrow> (generate_keypair C random, None))"

definition take_keys :: "crypto \<Rightarrow> draws \<Rightarrow> noise_session \<Rightarrow> noise_session" where
  "take_keys C draws s =
     (let (ephemeral, conf_e) = take_or_generate_keypair C (fst draws) (ns_configured_ephemeral s);
          (static, conf_s) = take_or_generate_keypair C (snd draws) (ns_configured_static s)
      in s\<lparr>ns_ephemeral := ephemeral, ns_configured_ephemeral := conf_e,
           ns_static_key := static, ns_configured_static := conf_s\<rparr>)"

text \<open>\<open>write_msg1\<close> returns an empty vector when it fails.\<close>

definition write_msg1 :: "crypto \<Rightarrow> draws \<Rightarrow> noise_session \<Rightarrow> bytes \<times> noise_session" where
  "write_msg1 C draws s =
     (if is_err (ensure_sodium_ready C) then ([], s)
      else
        let s1 = take_keys C draws (initialize_symmetric C (s\<lparr>ns_is_initiator := True\<rparr>));
            out = kp_public_key (ns_ephemeral s1);
            (payload, s2) = encrypt_and_hash C [] (mix_hash C out s1)
        in (case payload of Inl _ \<Rightarrow> ([], s2) | Inr p \<Rightarrow> (out @ p, s2)))"

definition process_msg1 :: "crypto \<Rightarrow> draws \<Rightarrow> bytes \<Rightarrow> (noise_session, bytes) action" where
  "process_msg1 C draws msg1 =
     and_then (return_result (ensure_sodium_ready C)) (\<lambda>_.
     if length msg1 < 32 then return_err ''invalid msg1 size''
     else
       and_then (update (\<lambda>s. mix_hash C (take 32 msg1)
         ((initialize_symmetric C (s\<lparr>ns_is_initiator := False\<rparr>))
            \<lparr>ns_remote_ephemeral_pub := take 32 msg1, ns_has_remote_ephemeral := True\<rparr>))) (\<lambda>_.
       and_then (relabel (\<lambda>e. ''noise msg1 payload decrypt failed: '' @ e)
         (decrypt_and_hash C (drop 32 msg1))) (\<lambda>_.
       and_then (update (\<lambda>s. let s1 = take_keys C draws s
         in mix_hash C (kp_public_key (ns_ephemeral s1)) s1)) (\<lambda>_.
       and_then (reading (\<lambda>s. mix_key_dh C (ns_ephemeral s) (ns_remote_ephemeral_pub s))) (\<lambda>_.
       and_then (reading (\<lambda>s. encrypt_and_hash C (kp_public_key (ns_static_key s)))) (\<lambda>encrypted_static.
       and_then (reading (\<lambda>s. mix_key_dh C (ns_static_key s) (ns_remote_ephemeral_pub s))) (\<lambda>_.
       and_then (reading (\<lambda>s. return_result (make_local_payload C s))) (\<lambda>payload.
       and_then (encrypt_and_hash C payload) (\<lambda>encrypted_payload.
       reading (\<lambda>s. return_ok (kp_public_key (ns_ephemeral s) @ encrypted_static @ encrypted_payload)))))))))))"

definition process_msg2 :: "crypto \<Rightarrow> bytes \<Rightarrow> (noise_session, bytes) action" where
  "process_msg2 C msg2 =
     and_then (return_result (ensure_sodium_ready C)) (\<lambda>_.
     if length msg2 < 32 + kEncryptedStaticLen then return_err ''invalid msg2 size''
     else
       and_then (update (\<lambda>s. mix_hash C (take 32 msg2)
         (s\<lparr>ns_remote_ephemeral_pub := take 32 msg2, ns_has_remote_ephemeral := True\<rparr>))) (\<lambda>_.
       and_then (reading (\<lambda>s. mix_key_dh C (ns_ephemeral s) (ns_remote_ephemeral_pub s))) (\<lambda>_.
       and_then (relabel (\<lambda>e. ''noise msg2 static decrypt failed: '' @ e)
         (decrypt_and_hash C (take kEncryptedStaticLen (drop 32 msg2)))) (\<lambda>remote_static.
       if length remote_static \<noteq> 32 then return_err ''invalid noise static key''
       else
         and_then (update (\<lambda>s. s\<lparr>ns_remote_static_pub := remote_static, ns_has_remote_static := True\<rparr>)) (\<lambda>_.
         and_then (reading (\<lambda>s. mix_key_dh C (ns_ephemeral s) (ns_remote_static_pub s))) (\<lambda>_.
         and_then (relabel (\<lambda>e. ''noise msg2 payload decrypt failed: '' @ e)
           (decrypt_and_hash C (drop (32 + kEncryptedStaticLen) msg2))) (\<lambda>remote_payload.
         and_then (verify_remote_identity C remote_payload) (\<lambda>_.
         and_then (reading (\<lambda>s. encrypt_and_hash C (kp_public_key (ns_static_key s)))) (\<lambda>encrypted_static.
         and_then (reading (\<lambda>s. mix_key_dh C (ns_static_key s) (ns_remote_ephemeral_pub s))) (\<lambda>_.
         and_then (reading (\<lambda>s. return_result (make_local_payload C s))) (\<lambda>payload.
         and_then (encrypt_and_hash C payload) (\<lambda>encrypted_payload.
         and_then (split_transport C) (\<lambda>_.
         and_then (update (\<lambda>s. s\<lparr>ns_handshake_complete := True\<rparr>)) (\<lambda>_.
         return_ok (encrypted_static @ encrypted_payload)))))))))))))))"

definition process_msg3 :: "crypto \<Rightarrow> bytes \<Rightarrow> (noise_session, unit) action" where
  "process_msg3 C msg3 =
     (if length msg3 < kEncryptedStaticLen then return_err ''invalid msg3 size''
      else
        and_then (relabel (\<lambda>e. ''noise msg3 static decrypt failed: '' @ e)
          (decrypt_and_hash C (take kEncryptedStaticLen msg3))) (\<lambda>remote_static.
        if length remote_static \<noteq> 32 then return_err ''invalid noise static key''
        else
          and_then (update (\<lambda>s. s\<lparr>ns_remote_static_pub := remote_static, ns_has_remote_static := True\<rparr>)) (\<lambda>_.
          and_then (reading (\<lambda>s. mix_key_dh C (ns_ephemeral s) (ns_remote_static_pub s))) (\<lambda>_.
          and_then (relabel (\<lambda>e. ''noise msg3 payload decrypt failed: '' @ e)
            (decrypt_and_hash C (drop kEncryptedStaticLen msg3))) (\<lambda>remote_payload.
          and_then (verify_remote_identity C remote_payload) (\<lambda>_.
          and_then (split_transport C) (\<lambda>_.
          update (\<lambda>s. s\<lparr>ns_handshake_complete := True\<rparr>)))))))) "

section \<open>Code: transport messages\<close>

definition u64_max :: u64 where "u64_max = 0xFFFFFFFFFFFFFFFF"

definition encrypt :: "crypto \<Rightarrow> bytes \<Rightarrow> (cipher_state, bytes) action" where
  "encrypt C plaintext = reading (\<lambda>cs.
     and_then (return_result (ensure_sodium_ready C)) (\<lambda>_.
     if \<not> cs_has_key cs then return_err ''noise cipher state is not initialized''
     else if cs_nonce cs = u64_max then return_err ''noise nonce exhausted''
     else and_then (return_result (encrypt_with_key C (cs_key cs) (cs_nonce cs) plaintext [])) (\<lambda>ciphertext.
            and_then (update bump_nonce) (\<lambda>_. return_ok ciphertext))))"

definition decrypt :: "crypto \<Rightarrow> bytes \<Rightarrow> (cipher_state, bytes) action" where
  "decrypt C ciphertext = reading (\<lambda>cs.
     and_then (return_result (ensure_sodium_ready C)) (\<lambda>_.
     if \<not> cs_has_key cs then return_err ''noise cipher state is not initialized''
     else if cs_nonce cs = u64_max then return_err ''noise nonce exhausted''
     else and_then (return_result (decrypt_with_key C (cs_key cs) (cs_nonce cs) ciphertext [])) (\<lambda>plaintext.
            and_then (update bump_nonce) (\<lambda>_. return_ok plaintext))))"

end
