(* ===== verification/ConnectionSession.thy ===== *)
theory ConnectionSession
  imports PeerTypes Multistream YamuxInvariant Noise
begin

text \<open>
  One connection (include/peercore/connection_session.hpp, src/src/connection_session.cpp): the
  socket buffers, the upgrade to a secure and multiplexed channel, the streams and the events.

  The kernel is a script in the socket's state: the results of the coming \<open>recv\<close> and \<open>send\<close>
  calls (an exhausted script answers EAGAIN) and of \<open>shutdown\<close>; \<open>io_sent\<close> collects the bytes
  \<open>send\<close> took.  \<open>SendSome k\<close> takes \<open>k + 1\<close> bytes or all there are, since \<open>send\<close> never
  returns 0 for a non-empty buffer; \<open>RecvData []\<close> is the return value 0, end of stream.  The
  \<open>std::shared_ptr\<close>s to stream states are indices into \<open>cn_streams\<close>.
\<close>

section \<open>Code: data\<close>

datatype connection_state = TcpConnecting | TcpAccepted | Securing | SecureReady | Multiplexing
  | Ready | Closing | Closed | Failed

datatype handshake_state = Idle | AwaitingMsg1 | AwaitingMsg2 | AwaitingMsg3 | Complete

datatype security_stage = NegotiatingProtocol | NoiseHandshake | MuxerNegotiation | StageReady

datatype event_type = EvSecured | EvMultiplexerReady | EvStreamOpened | EvStreamAccepted
  | EvStreamClosed | EvError | EvClosed

record connection_event =
  ev_type :: event_type
  ev_stream_id :: "u32 option"
  ev_detail :: string

datatype send_result = SendSome nat | SendAgain | SendError string
datatype recv_result = RecvData bytes | RecvReset | RecvAgain | RecvError string

record session_io =
  io_fd :: int
  io_socket_open :: bool
  io_write_shutdown :: bool
  io_wire_rx :: bytes
  io_wire_tx :: bytes
  io_recvs :: "recv_result list"
  io_sends :: "send_result list"
  io_shutdown_error :: "string option"
  io_sent :: bytes

record secure_channel =
  sc_noise :: noise_session
  sc_stage :: security_stage
  sc_handshake_state :: handshake_state
  sc_negotiated_muxer :: "string option"
  sc_secure_ready :: bool

record stream_state =
  ss_id :: u32
  ss_connection_id :: u64
  ss_protocol :: "string option"
  ss_rx_buffer :: bytes
  ss_open :: bool
  ss_write_open :: bool
  ss_close_write_pending :: bool

datatype stream_handle = DirectHandle nat | YamuxHandle nat

record connection =
  cn_id :: u64
  cn_state :: connection_state
  cn_remote_addr :: multiaddr
  cn_io :: session_io
  cn_secure :: secure_channel
  cn_streams :: "stream_state list"
  cn_stream_state :: "nat option"
  cn_event_queue :: "connection_event list"
  cn_pending_inbound :: "stream_handle list"
  cn_yamux :: "yamux_session option"
  cn_muxer_buffer :: bytes
  cn_next_stream_id :: u32
  cn_closed_emitted :: bool
  cn_is_initiator :: bool
  cn_create_inbound_on_ready :: bool
  cn_draws :: draws

section \<open>Code: parts of a connection\<close>

definition set_io :: "session_io \<Rightarrow> connection \<Rightarrow> connection" where
  "set_io io c = c\<lparr>cn_io := io\<rparr>"

definition on_io :: "(session_io, 'a) action \<Rightarrow> (connection, 'a) action" where
  "on_io = zoom cn_io set_io"

definition map_secure :: "(secure_channel \<Rightarrow> secure_channel) \<Rightarrow> connection \<Rightarrow> connection" where
  "map_secure f c = c\<lparr>cn_secure := f (cn_secure c)\<rparr>"

definition noise_of :: "connection \<Rightarrow> noise_session" where
  "noise_of c = sc_noise (cn_secure c)"

definition set_noise :: "noise_session \<Rightarrow> connection \<Rightarrow> connection" where
  "set_noise n = map_secure (\<lambda>sc. sc\<lparr>sc_noise := n\<rparr>)"

definition on_noise :: "(noise_session, 'a) action \<Rightarrow> (connection, 'a) action" where
  "on_noise = zoom noise_of set_noise"

definition on_cs_send :: "(cipher_state, 'a) action \<Rightarrow> (connection, 'a) action" where
  "on_cs_send m = on_noise (zoom ns_cs_send (\<lambda>cs n. n\<lparr>ns_cs_send := cs\<rparr>) m)"

definition on_cs_recv :: "(cipher_state, 'a) action \<Rightarrow> (connection, 'a) action" where
  "on_cs_recv m = on_noise (zoom ns_cs_recv (\<lambda>cs n. n\<lparr>ns_cs_recv := cs\<rparr>) m)"

definition map_stream_state :: "nat \<Rightarrow> (stream_state \<Rightarrow> stream_state) \<Rightarrow> connection \<Rightarrow> connection" where
  "map_stream_state p f c = c\<lparr>cn_streams := (cn_streams c)[p := f (cn_streams c ! p)]\<rparr>"

definition push_event :: "event_type \<Rightarrow> u32 option \<Rightarrow> string \<Rightarrow> connection \<Rightarrow> connection" where
  "push_event ty sid detail c =
     c\<lparr>cn_event_queue := cn_event_queue c @ [\<lparr>ev_type = ty, ev_stream_id = sid, ev_detail = detail\<rparr>]\<rparr>"

definition current_stream_id :: "connection \<Rightarrow> u32 option" where
  "current_stream_id c = map_option (\<lambda>p. ss_id (cn_streams c ! p)) (cn_stream_state c)"

section \<open>Code: the socket\<close>

definition new_io :: "int \<Rightarrow> session_io" where
  "new_io raw_fd =
     \<lparr>io_fd = raw_fd, io_socket_open = True, io_write_shutdown = False, io_wire_rx = [], io_wire_tx = [],
      io_recvs = [], io_sends = [], io_shutdown_error = None, io_sent = []\<rparr>"

definition close_socket :: "session_io \<Rightarrow> session_io" where
  "close_socket io =
     (if \<not> io_socket_open io \<or> io_fd io < 0 then io
      else io\<lparr>io_fd := -1, io_socket_open := False, io_write_shutdown := True,
              io_wire_rx := [], io_wire_tx := []\<rparr>)"

definition queue_raw_bytes :: "bytes \<Rightarrow> (session_io, unit) action" where
  "queue_raw_bytes bytes = update (\<lambda>io. io\<lparr>io_wire_tx := io_wire_tx io @ bytes\<rparr>)"

definition queue_wire_message :: "bytes \<Rightarrow> (session_io, unit) action" where
  "queue_wire_message message =
     and_then (return_result (encode_frame message)) (\<lambda>framed. queue_raw_bytes framed)"

fun flush_loop :: "send_result list \<Rightarrow> (session_io, unit) action" where
  "flush_loop sends io =
     (if io_wire_tx io = [] then (Inr (), io\<lparr>io_sends := sends\<rparr>)
      else case sends of
        [] \<Rightarrow> (Inr (), io\<lparr>io_sends := []\<rparr>)
      | SendSome k # rest \<Rightarrow>
          let n = min (k + 1) (length (io_wire_tx io))
          in flush_loop rest (io\<lparr>io_wire_tx := drop n (io_wire_tx io),
                                 io_sent := io_sent io @ take n (io_wire_tx io)\<rparr>)
      | SendAgain # rest \<Rightarrow> (Inr (), io\<lparr>io_sends := rest\<rparr>)
      | SendError e # rest \<Rightarrow> (Inl e, io\<lparr>io_sends := rest\<rparr>))"

declare flush_loop.simps [simp del]

definition flush_wire :: "(session_io, unit) action" where
  "flush_wire = reading (\<lambda>io.
     if \<not> io_socket_open io \<or> io_fd io < 0 then return_err ''socket is closed''
     else flush_loop (io_sends io))"

definition flush_stream :: "nat \<Rightarrow> (connection, unit) action" where
  "flush_stream p = reading (\<lambda>c.
     let fail = (\<lambda>e. and_then (update (map_stream_state p (\<lambda>st. st\<lparr>ss_open := False\<rparr>)))
                       (\<lambda>_. return_err e))
     in if \<not> io_socket_open (cn_io c) \<or> io_fd (cn_io c) < 0 then fail ''socket is closed''
        else (\<lambda>c. case on_io flush_wire c of
          (Inl e, c1) \<Rightarrow> fail e c1
        | (Inr _, c1) \<Rightarrow>
            let io = cn_io c1
            in if ss_close_write_pending (cn_streams c1 ! p) \<and> io_socket_open io
                  \<and> \<not> io_write_shutdown io \<and> io_wire_tx io = []
               then (case io_shutdown_error io of
                       Some e \<Rightarrow> fail e c1
                     | None \<Rightarrow> (Inr (), set_io (io\<lparr>io_write_shutdown := True\<rparr>) c1))
               else (Inr (), c1)))"

definition flush_pending_writes :: "(connection, unit) action" where
  "flush_pending_writes =
     and_then (on_io flush_wire) (\<lambda>_. reading (\<lambda>c.
       case cn_stream_state c of
         Some p \<Rightarrow> if ss_close_write_pending (cn_streams c ! p) then flush_stream p else return_ok ()
       | None \<Rightarrow> return_ok ()))"

section \<open>Code: encrypted output\<close>

definition queue_encrypted_write :: "crypto \<Rightarrow> nat \<Rightarrow> bytes \<Rightarrow> (connection, nat) action" where
  "queue_encrypted_write C p data = reading (\<lambda>c.
     let fail = (\<lambda>e. and_then (update (map_stream_state p (\<lambda>st. st\<lparr>ss_open := False\<rparr>)))
                       (\<lambda>_. return_err e))
     in if \<not> sc_secure_ready (cn_secure c) then return_err ''secure channel is not ready''
        else (\<lambda>c. case on_cs_send (encrypt C data) c of
          (Inl e, c1) \<Rightarrow> fail e c1
        | (Inr ciphertext, c1) \<Rightarrow>
            (case on_io (queue_wire_message ciphertext) c1 of
               (Inl e, c2) \<Rightarrow> fail e c2
             | (Inr _, c2) \<Rightarrow> and_then (flush_stream p) (\<lambda>_. return_ok (length data)) c2)))"

definition queue_encrypted_message :: "crypto \<Rightarrow> bytes \<Rightarrow> (connection, unit) action" where
  "queue_encrypted_message C data =
     and_then (on_cs_send (encrypt C data)) (\<lambda>ciphertext.
     and_then (on_io (queue_wire_message ciphertext)) (\<lambda>_.
     on_io flush_wire))"

definition select_stream_muxer :: "noise_session \<Rightarrow> string option" where
  "select_stream_muxer n =
     (if stream_muxers (ns_local_extensions n) = [] \<or> stream_muxers (ns_remote_extensions n) = [] then None
      else find (\<lambda>muxer. muxer \<in> set (stream_muxers (ns_remote_extensions n)))
             (stream_muxers (ns_local_extensions n)))"

section \<open>Code: streams, events, closing\<close>

definition is_active :: "connection \<Rightarrow> bool" where
  "is_active c \<longleftrightarrow> io_socket_open (cn_io c) \<and> cn_state c \<noteq> Closed \<and> cn_state c \<noteq> Failed"

definition create_stream :: "string option \<Rightarrow> bool \<Rightarrow> connection \<Rightarrow> nat \<times> connection" where
  "create_stream protocol inbound_event c =
     (let p = length (cn_streams c);
          sid = cn_next_stream_id c;
          st = \<lparr>ss_id = sid, ss_connection_id = cn_id c, ss_protocol = protocol, ss_rx_buffer = [],
                ss_open = True, ss_write_open = True, ss_close_write_pending = False\<rparr>;
          c1 = c\<lparr>cn_streams := cn_streams c @ [st], cn_stream_state := Some p,
                 cn_next_stream_id := sid + 1\<rparr>;
          c2 = push_event (if inbound_event then EvStreamAccepted else EvStreamOpened) (Some sid)
                 (if inbound_event then ''inbound stream ready'' else ''outbound stream opened'') c1;
          c3 = (if inbound_event then c2\<lparr>cn_pending_inbound := cn_pending_inbound c2 @ [DirectHandle p]\<rparr>
                else c2)
      in (p, c3))"

definition ensure_inbound_stream :: "connection \<Rightarrow> nat \<times> connection" where
  "ensure_inbound_stream c =
     (case cn_stream_state c of
        Some p \<Rightarrow> if ss_open (cn_streams c ! p) then (p, c) else create_stream None True c
      | None \<Rightarrow> create_stream None True c)"

definition emit_error :: "string \<Rightarrow> connection \<Rightarrow> connection" where
  "emit_error detail c =
     (if cn_state c = Failed \<or> cn_state c = Closed then c
      else push_event EvError (current_stream_id c) detail (c\<lparr>cn_state := Failed\<rparr>))"

definition close :: "connection \<Rightarrow> connection" where
  "close c =
     (if cn_state c = Closed then c
      else
        let c1 = set_io (close_socket (cn_io c)) c;
            c2 = (case cn_stream_state c1 of
                    None \<Rightarrow> c1
                  | Some p \<Rightarrow> map_stream_state p (\<lambda>st. st\<lparr>ss_open := False, ss_write_open := False,
                                ss_close_write_pending := False, ss_rx_buffer := []\<rparr>) c1);
            c3 = c2\<lparr>cn_state := Closed\<rparr>
        in if \<not> cn_closed_emitted c3
           then (push_event EvClosed (current_stream_id c3) ''connection closed'' c3)\<lparr>cn_closed_emitted := True\<rparr>
           else c3)"

section \<open>Code: the stream of a connection without multiplexer\<close>

definition direct_try_read :: "nat \<Rightarrow> nat \<Rightarrow> (connection, bytes) action" where
  "direct_try_read p buf_size = reading (\<lambda>c.
     let st = cn_streams c ! p
     in if \<not> ss_open st \<and> ss_rx_buffer st = [] then return_ok []
        else
          let n = min buf_size (length (ss_rx_buffer st))
          in and_then (update (map_stream_state p (\<lambda>st. st\<lparr>ss_rx_buffer := drop n (ss_rx_buffer st)\<rparr>)))
               (\<lambda>_. return_ok (take n (ss_rx_buffer st))))"

definition direct_try_write :: "crypto \<Rightarrow> nat \<Rightarrow> bytes \<Rightarrow> (connection, nat) action" where
  "direct_try_write C p data = reading (\<lambda>c.
     if \<not> ss_open (cn_streams c ! p) \<or> \<not> ss_write_open (cn_streams c ! p)
     then return_err ''stream is closed for writing''
     else queue_encrypted_write C p data)"

definition direct_close_write :: "nat \<Rightarrow> (connection, unit) action" where
  "direct_close_write p = reading (\<lambda>c.
     if \<not> ss_open (cn_streams c ! p) then return_err ''stream is closed''
     else and_then (update (map_stream_state p (\<lambda>st.
            st\<lparr>ss_write_open := False, ss_close_write_pending := True\<rparr>)))
            (\<lambda>_. flush_stream p))"

definition direct_reset :: "nat \<Rightarrow> (connection, unit) action" where
  "direct_reset p =
     and_then (update (\<lambda>c.
       let c1 = map_stream_state p (\<lambda>st. st\<lparr>ss_open := False, ss_write_open := False,
                  ss_close_write_pending := False, ss_rx_buffer := []\<rparr>) c
       in set_io (close_socket (cn_io c1)) c1))
       (\<lambda>_. return_ok ())"

definition direct_is_open :: "nat \<Rightarrow> connection \<Rightarrow> bool" where
  "direct_is_open p c \<longleftrightarrow> ss_open (cn_streams c ! p) \<and> io_socket_open (cn_io c)"

section \<open>Code: the multiplexer of a connection\<close>

definition kNoiseProtocol :: string where "kNoiseProtocol = ''/noise''"
definition kYamuxProtocol :: string where "kYamuxProtocol = ''/yamux/1.0.0''"

text \<open>\<open>flush_yamux_outgoing\<close>, on the drained output of the session.\<close>

definition flush_yamux_outgoing :: "crypto \<Rightarrow> bytes \<Rightarrow> connection \<Rightarrow> unit result \<times> bytes \<times> connection" where
  "flush_yamux_outgoing C plaintext c =
     (if plaintext = [] then (Inr (), [], c)
      else (case queue_encrypted_message C plaintext c of (r, c') \<Rightarrow> (r, [], c')))"

text \<open>The callbacks \<open>activate_yamux\<close> installs.\<close>

definition yamux_accept :: "nat \<Rightarrow> u32 \<Rightarrow> connection \<Rightarrow> connection" where
  "yamux_accept p sid c =
     push_event EvStreamAccepted (Some sid) ''inbound yamux stream ready''
       (c\<lparr>cn_pending_inbound := cn_pending_inbound c @ [YamuxHandle p]\<rparr>)"

definition yamux_closed :: "u32 \<Rightarrow> string \<Rightarrow> connection \<Rightarrow> connection" where
  "yamux_closed sid detail c = push_event EvStreamClosed (Some sid) detail c"

definition session_callbacks :: "crypto \<Rightarrow> connection yamux_callbacks" where
  "session_callbacks C =
     \<lparr>accept_cb = Some yamux_accept, outgoing_cb = Some (flush_yamux_outgoing C),
      close_cb = Some yamux_closed\<rparr>"

definition activate_yamux :: "connection \<Rightarrow> connection" where
  "activate_yamux c =
     c\<lparr>cn_yamux := Some (new_session (cn_id c) (cn_is_initiator c)), cn_create_inbound_on_ready := False\<rparr>"

text \<open>An operation of the multiplexer, with the rest of the connection as its owner.\<close>

definition with_yamux :: "(connection ystate, 'a) action \<Rightarrow> (connection, 'a) action" where
  "with_yamux m = (\<lambda>c.
     case cn_yamux c of
       None \<Rightarrow> (Inl ''no yamux session'', c)
     | Some ys \<Rightarrow> (let (r, (ys', c')) = m (ys, c) in (r, c'\<lparr>cn_yamux := Some ys'\<rparr>)))"

text \<open>A stream handle dispatches on the class behind it.\<close>

definition stream_try_read :: "crypto \<Rightarrow> stream_handle \<Rightarrow> nat \<Rightarrow> (connection, bytes) action" where
  "stream_try_read C h n =
     (case h of DirectHandle p \<Rightarrow> direct_try_read p n
      | YamuxHandle p \<Rightarrow> with_yamux (try_read (session_callbacks C) p n))"

definition stream_try_write :: "crypto \<Rightarrow> stream_handle \<Rightarrow> bytes \<Rightarrow> (connection, nat) action" where
  "stream_try_write C h data =
     (case h of DirectHandle p \<Rightarrow> direct_try_write C p data
      | YamuxHandle p \<Rightarrow> with_yamux (try_write (session_callbacks C) p data))"

definition stream_close_write :: "crypto \<Rightarrow> stream_handle \<Rightarrow> (connection, unit) action" where
  "stream_close_write C h =
     (case h of DirectHandle p \<Rightarrow> direct_close_write p
      | YamuxHandle p \<Rightarrow> with_yamux (close_write (session_callbacks C) p))"

definition stream_reset :: "crypto \<Rightarrow> stream_handle \<Rightarrow> (connection, unit) action" where
  "stream_reset C h =
     (case h of DirectHandle p \<Rightarrow> direct_reset p
      | YamuxHandle p \<Rightarrow> with_yamux (reset (session_callbacks C) p))"

section \<open>Code: upgrading\<close>

definition new_connection ::
    "u64 \<Rightarrow> int \<Rightarrow> multiaddr \<Rightarrow> bool \<Rightarrow> identity option \<Rightarrow> string list \<Rightarrow> draws \<Rightarrow> connection" where
  "new_connection cid socket_fd remote_addr initiator local_identity local_stream_muxers draws =
     \<lparr>cn_id = cid, cn_state = TcpAccepted, cn_remote_addr = remote_addr, cn_io = new_io socket_fd,
      cn_secure = \<lparr>sc_noise = new_noise_session\<lparr>ns_local_identity := local_identity,
                                 ns_local_extensions := \<lparr>stream_muxers = local_stream_muxers\<rparr>\<rparr>,
                    sc_stage = NegotiatingProtocol, sc_handshake_state = Idle,
                    sc_negotiated_muxer = None, sc_secure_ready = False\<rparr>,
      cn_streams = [], cn_stream_state = None, cn_event_queue = [], cn_pending_inbound = [],
      cn_yamux = None, cn_muxer_buffer = [], cn_next_stream_id = 1, cn_closed_emitted = False,
      cn_is_initiator = initiator, cn_create_inbound_on_ready = False, cn_draws = draws\<rparr>"

definition validate_expected_remote_peer :: "connection \<Rightarrow> unit result" where
  "validate_expected_remote_peer c =
     (if \<not> cn_is_initiator c then Inr ()
      else case parse_ip4_tcp (cn_remote_addr c) of
        Inl _ \<Rightarrow> Inr ()
      | Inr endpoint \<Rightarrow>
          (case ep_peer_id endpoint of
             None \<Rightarrow> Inr ()
           | Some expected_text \<Rightarrow>
               (case ns_remote_peer_id (noise_of c) of
                  None \<Rightarrow> Inl ''missing authenticated remote peer id''
                | Some remote \<Rightarrow>
                    (case peer_id_from_string expected_text of
                       Inl _ \<Rightarrow> Inr ()
                     | Inr expected \<Rightarrow>
                         if expected \<noteq> remote
                         then Inl ''authenticated peer id does not match dial target'' else Inr ()))))"

definition complete_ready_state :: "connection \<Rightarrow> connection" where
  "complete_ready_state c =
     (let c1 = map_secure (\<lambda>sc. sc\<lparr>sc_stage := StageReady, sc_secure_ready := True\<rparr>) c;
          c2 = push_event EvSecured None ''noise handshake complete'' (c1\<lparr>cn_state := SecureReady\<rparr>);
          c3 = push_event EvMultiplexerReady None
                 (case sc_negotiated_muxer (cn_secure c2) of
                    Some muxer \<Rightarrow> ''selected stream muxer: '' @ muxer @
                      (if cn_yamux c2 \<noteq> None then [] else '' (single-stream fallback)'')
                  | None \<Rightarrow> ''noise secure channel ready (single-stream fallback)'')
                 (c2\<lparr>cn_state := Multiplexing\<rparr>);
          c4 = c3\<lparr>cn_state := Ready\<rparr>
      in if cn_yamux c4 = None \<and> cn_create_inbound_on_ready c4 \<and> cn_pending_inbound c4 = []
         then (snd (create_stream None True c4))\<lparr>cn_create_inbound_on_ready := False\<rparr>
         else c4)"

definition activate_if_yamux :: "connection \<Rightarrow> connection" where
  "activate_if_yamux c =
     (if sc_negotiated_muxer (cn_secure c) = Some kYamuxProtocol then activate_yamux c else c)"

definition finish_secure_upgrade :: "crypto \<Rightarrow> (connection, unit) action" where
  "finish_secure_upgrade C = reading (\<lambda>c.
     if sc_secure_ready (cn_secure c) then return_ok ()
     else
       and_then (return_result (validate_expected_remote_peer c)) (\<lambda>_.
       and_then (update (map_secure (\<lambda>sc. sc\<lparr>sc_negotiated_muxer := select_stream_muxer (sc_noise sc)\<rparr>))) (\<lambda>_.
       reading (\<lambda>c.
         if sc_negotiated_muxer (cn_secure c) = Some kYamuxProtocol
         then update (\<lambda>c. complete_ready_state (activate_yamux c))
         else if stream_muxers (ns_local_extensions (noise_of c)) \<noteq> [] then
           and_then (update (map_secure (\<lambda>sc. sc\<lparr>sc_stage := MuxerNegotiation\<rparr>))) (\<lambda>_.
             if cn_is_initiator c then
               and_then (return_result (prepare_outbound (stream_muxers (ns_local_extensions (noise_of c)))))
                 (\<lambda>proposal. queue_encrypted_message C proposal)
             else return_ok ())
         else update complete_ready_state))))"

definition process_handshake_frame :: "crypto \<Rightarrow> bytes \<Rightarrow> (connection, unit) action" where
  "process_handshake_frame C wire_frame = reading (\<lambda>c.
     case sc_handshake_state (cn_secure c) of
       AwaitingMsg1 \<Rightarrow>
         and_then (on_noise (process_msg1 C (cn_draws c) wire_frame)) (\<lambda>msg2.
         and_then (update (map_secure (\<lambda>sc. sc\<lparr>sc_handshake_state := AwaitingMsg3\<rparr>))) (\<lambda>_.
         and_then (on_io (queue_wire_message msg2)) (\<lambda>_. flush_pending_writes)))
     | AwaitingMsg2 \<Rightarrow>
         and_then (on_noise (process_msg2 C wire_frame)) (\<lambda>msg3.
         and_then (update (map_secure (\<lambda>sc. sc\<lparr>sc_handshake_state := Complete\<rparr>))) (\<lambda>_.
         and_then (on_io (queue_wire_message msg3)) (\<lambda>_.
         and_then flush_pending_writes (\<lambda>_. finish_secure_upgrade C))))
     | AwaitingMsg3 \<Rightarrow>
         and_then (on_noise (process_msg3 C wire_frame)) (\<lambda>_.
         and_then (update (map_secure (\<lambda>sc. sc\<lparr>sc_handshake_state := Complete\<rparr>))) (\<lambda>_.
         finish_secure_upgrade C))
     | Idle \<Rightarrow> return_err ''noise handshake has not started''
     | Complete \<Rightarrow> return_err ''unexpected extra noise handshake frame'')"

definition start_noise_handshake :: "crypto \<Rightarrow> (connection, unit) action" where
  "start_noise_handshake C = reading (\<lambda>c.
     let (msg1, n) = write_msg1 C (cn_draws c) (noise_of c)
     in and_then (update (set_noise n)) (\<lambda>_.
        if msg1 = [] then return_err ''failed to start noise handshake''
        else
          and_then (update (map_secure (\<lambda>sc.
            sc\<lparr>sc_stage := NoiseHandshake, sc_handshake_state := AwaitingMsg2\<rparr>))) (\<lambda>_.
          and_then (on_io (queue_wire_message msg1)) (\<lambda>_. flush_pending_writes))))"

definition consume_rx :: "nat \<Rightarrow> (connection, unit) action" where
  "consume_rx n = on_io (update (\<lambda>io. io\<lparr>io_wire_rx := drop n (io_wire_rx io)\<rparr>))"

definition process_protocol_negotiation :: "crypto \<Rightarrow> (connection, unit) action" where
  "process_protocol_negotiation C = reading (\<lambda>c.
     case multistream_exchange_span (io_wire_rx (cn_io c)) of
       Inl e \<Rightarrow> if is_incomplete_multistream_error e then return_ok () else return_err e
     | Inr span \<Rightarrow>
         let incoming = take span (io_wire_rx (cn_io c))
         in if cn_is_initiator c then
              and_then (return_result (read_outbound_response incoming kNoiseProtocol)) (\<lambda>_.
              and_then (consume_rx span) (\<lambda>_.
              start_noise_handshake C))
            else
              and_then (return_result (negotiate_inbound incoming [kNoiseProtocol])) (\<lambda>negotiated.
              if in_protocol negotiated \<noteq> Some kNoiseProtocol
              then return_err ''noise protocol negotiation failed''
              else
                and_then (on_io (queue_raw_bytes (in_outbound negotiated))) (\<lambda>_.
                and_then flush_pending_writes (\<lambda>_.
                and_then (consume_rx span) (\<lambda>_.
                update (map_secure (\<lambda>sc.
                  sc\<lparr>sc_stage := NoiseHandshake, sc_handshake_state := AwaitingMsg1\<rparr>)))))))"

section \<open>Operations that only write\<close>

text \<open>What flushing, encrypting and the multiplexer's callbacks may change of a connection: what is
  waiting to be sent, the sending cipher, stream flags; and the multiplexer may append events of the
  given types and pending streams.\<close>

definition events_in :: "event_type set \<Rightarrow> connection_event list \<Rightarrow> bool" where
  "events_in E evs \<longleftrightarrow> ev_type ` set evs \<subseteq> E"

definition stream_traffic :: "event_type set" where
  "stream_traffic = {EvStreamAccepted, EvStreamClosed}"

definition stream_later :: "stream_state \<Rightarrow> stream_state \<Rightarrow> bool" where
  "stream_later st st' \<longleftrightarrow> ss_id st' = ss_id st \<and> (ss_open st' \<longrightarrow> ss_open st)"

definition calm :: "event_type set \<Rightarrow> connection \<Rightarrow> connection \<Rightarrow> bool" where
  "calm E c c' \<longleftrightarrow>
     (\<exists>evs pend. events_in E evs \<and> (E = {} \<longrightarrow> pend = []) \<and>
        c' = c\<lparr>cn_io := cn_io c', cn_secure := cn_secure c', cn_streams := cn_streams c',
               cn_event_queue := cn_event_queue c @ evs,
               cn_pending_inbound := cn_pending_inbound c @ pend\<rparr>)
     \<and> list_all2 stream_later (cn_streams c) (cn_streams c')
     \<and> io_wire_rx (cn_io c') = io_wire_rx (cn_io c) \<and> io_recvs (cn_io c') = io_recvs (cn_io c)
     \<and> io_socket_open (cn_io c') = io_socket_open (cn_io c) \<and> io_fd (cn_io c') = io_fd (cn_io c)
     \<and> (\<exists>cs. cn_secure c' = (cn_secure c)\<lparr>sc_noise := (noise_of c)\<lparr>ns_cs_send := cs\<rparr>\<rparr>)"

lemma stream_later_refl [simp]: "stream_later st st"
  by (simp add: stream_later_def)

lemma streams_later_refl [simp]: "list_all2 stream_later sts sts"
  by (simp add: list_all2_same)

lemma streams_later_trans:
  "list_all2 stream_later xs ys \<Longrightarrow> list_all2 stream_later ys zs \<Longrightarrow> list_all2 stream_later xs zs"
  by (rule list_all2_trans) (auto simp: stream_later_def)

text \<open>How \<open>calm\<close> is shown: nothing is appended, or one event and pending streams are.\<close>

lemma calmI:
  assumes "c' = c\<lparr>cn_io := cn_io c', cn_secure := cn_secure c', cn_streams := cn_streams c'\<rparr>"
    and "list_all2 stream_later (cn_streams c) (cn_streams c')"
    and "io_wire_rx (cn_io c') = io_wire_rx (cn_io c)" "io_recvs (cn_io c') = io_recvs (cn_io c)"
    and "io_socket_open (cn_io c') = io_socket_open (cn_io c)" "io_fd (cn_io c') = io_fd (cn_io c)"
    and "cn_secure c' = (cn_secure c)\<lparr>sc_noise := (noise_of c)\<lparr>ns_cs_send := cs\<rparr>\<rparr>"
  shows "calm E c c'"
proof -
  have "cn_event_queue c' = cn_event_queue c" "cn_pending_inbound c' = cn_pending_inbound c"
    by (subst assms(1), simp)+
  with assms show ?thesis
    unfolding calm_def by (intro conjI exI [of _ "[]"] exI [of _ cs]) (simp_all add: events_in_def)
qed

lemma calm_unencrypted:
  assumes "c' = c\<lparr>cn_io := cn_io c', cn_streams := cn_streams c'\<rparr>"
    and "list_all2 stream_later (cn_streams c) (cn_streams c')"
    and "io_wire_rx (cn_io c') = io_wire_rx (cn_io c)" "io_recvs (cn_io c') = io_recvs (cn_io c)"
    and "io_socket_open (cn_io c') = io_socket_open (cn_io c)" "io_fd (cn_io c') = io_fd (cn_io c)"
  shows "calm E c c'"
proof -
  have same: "cn_secure c' = cn_secure c" by (subst assms(1)) simp
  have "c' = c\<lparr>cn_io := cn_io c', cn_secure := cn_secure c', cn_streams := cn_streams c'\<rparr>"
    unfolding same by (subst assms(1)) simp
  with same assms(2-) show ?thesis
    by (intro calmI [where cs = "ns_cs_send (noise_of c)"]) (simp_all add: noise_of_def)
qed

lemma calm_refl [simp]: "calm E c c"
  by (rule calm_unencrypted) simp_all

lemma calm_trans:
  assumes "calm E a b" and "calm E b c"
  shows "calm E a c"
proof -
  from assms obtain e1 p1 e2 p2 cs1 cs2 where ev: "events_in E e1" "events_in E e2"
    and pend: "E = {} \<longrightarrow> p1 = []" "E = {} \<longrightarrow> p2 = []"
    and b: "b = a\<lparr>cn_io := cn_io b, cn_secure := cn_secure b, cn_streams := cn_streams b,
      cn_event_queue := cn_event_queue a @ e1, cn_pending_inbound := cn_pending_inbound a @ p1\<rparr>"
    and c: "c = b\<lparr>cn_io := cn_io c, cn_secure := cn_secure c, cn_streams := cn_streams c,
      cn_event_queue := cn_event_queue b @ e2, cn_pending_inbound := cn_pending_inbound b @ p2\<rparr>"
    and cs: "cn_secure b = (cn_secure a)\<lparr>sc_noise := (noise_of a)\<lparr>ns_cs_send := cs1\<rparr>\<rparr>"
      "cn_secure c = (cn_secure b)\<lparr>sc_noise := (noise_of b)\<lparr>ns_cs_send := cs2\<rparr>\<rparr>"
    unfolding calm_def by blast
  have "events_in E (e1 @ e2)" using ev by (auto simp: events_in_def)
  moreover have "c = a\<lparr>cn_io := cn_io c, cn_secure := cn_secure c, cn_streams := cn_streams c,
      cn_event_queue := cn_event_queue a @ e1 @ e2, cn_pending_inbound := cn_pending_inbound a @ p1 @ p2\<rparr>"
    using b c by (cases a; cases b; cases c) simp
  moreover have "cn_secure c = (cn_secure a)\<lparr>sc_noise := (noise_of a)\<lparr>ns_cs_send := cs2\<rparr>\<rparr>"
    using cs by (simp add: noise_of_def)
  moreover have "E = {} \<longrightarrow> p1 @ p2 = []" using pend by simp
  moreover have "list_all2 stream_later (cn_streams a) (cn_streams c)"
    using assms streams_later_trans unfolding calm_def by blast
  ultimately show ?thesis using assms unfolding calm_def by metis
qed

lemma calmD:
  assumes "calm E c c'"
  shows "cn_state c' = cn_state c" "cn_closed_emitted c' = cn_closed_emitted c"
    "cn_id c' = cn_id c" "cn_remote_addr c' = cn_remote_addr c" "cn_is_initiator c' = cn_is_initiator c"
    "cn_yamux c' = cn_yamux c" "cn_muxer_buffer c' = cn_muxer_buffer c"
    "cn_stream_state c' = cn_stream_state c" "length (cn_streams c') = length (cn_streams c)"
    "io_wire_rx (cn_io c') = io_wire_rx (cn_io c)" "io_socket_open (cn_io c') = io_socket_open (cn_io c)"
    "sc_stage (cn_secure c') = sc_stage (cn_secure c)"
    "sc_handshake_state (cn_secure c') = sc_handshake_state (cn_secure c)"
    "sc_secure_ready (cn_secure c') = sc_secure_ready (cn_secure c)"
    "sc_negotiated_muxer (cn_secure c') = sc_negotiated_muxer (cn_secure c)"
    "ns_remote_peer_id (noise_of c') = ns_remote_peer_id (noise_of c)"
    "ns_local_extensions (noise_of c') = ns_local_extensions (noise_of c)"
    "ns_cs_recv (noise_of c') = ns_cs_recv (noise_of c)"
proof -
  from assms obtain evs pend cs
    where c': "c' = c\<lparr>cn_io := cn_io c', cn_secure := cn_secure c', cn_streams := cn_streams c',
      cn_event_queue := cn_event_queue c @ evs, cn_pending_inbound := cn_pending_inbound c @ pend\<rparr>"
    and sec: "cn_secure c' = (cn_secure c)\<lparr>sc_noise := (noise_of c)\<lparr>ns_cs_send := cs\<rparr>\<rparr>"
    unfolding calm_def by blast
  show "cn_state c' = cn_state c" "cn_closed_emitted c' = cn_closed_emitted c"
    "cn_id c' = cn_id c" "cn_remote_addr c' = cn_remote_addr c" "cn_is_initiator c' = cn_is_initiator c"
    "cn_yamux c' = cn_yamux c" "cn_muxer_buffer c' = cn_muxer_buffer c" "cn_stream_state c' = cn_stream_state c"
    by (subst c', simp)+
  show "io_wire_rx (cn_io c') = io_wire_rx (cn_io c)" "io_socket_open (cn_io c') = io_socket_open (cn_io c)"
    using assms unfolding calm_def by simp_all
  have "list_all2 stream_later (cn_streams c) (cn_streams c')" using assms unfolding calm_def by blast
  from list_all2_lengthD [OF this] show "length (cn_streams c') = length (cn_streams c)" by simp
  show "sc_stage (cn_secure c') = sc_stage (cn_secure c)"
    "sc_handshake_state (cn_secure c') = sc_handshake_state (cn_secure c)"
    "sc_secure_ready (cn_secure c') = sc_secure_ready (cn_secure c)"
    "sc_negotiated_muxer (cn_secure c') = sc_negotiated_muxer (cn_secure c)"
    "ns_remote_peer_id (noise_of c') = ns_remote_peer_id (noise_of c)"
    "ns_local_extensions (noise_of c') = ns_local_extensions (noise_of c)"
    "ns_cs_recv (noise_of c') = ns_cs_recv (noise_of c)"
    by (simp_all add: sec noise_of_def)
qed

interpretation calm: change_order "calm E" for E
  by unfold_locales (simp, rule calm_trans)

named_theorems calms \<open>operations that only write\<close>

lemmas calmlyI = staysI [where R = "calm E" for E]
lemmas calmlyD = staysD [where R = "calm E" for E]

declare calm.stays_return [calms] calm.stays_and_then [calms] calm.stays_reading [calms]

lemma calm_map_stream_state:
  assumes "\<And>st. stream_later st (f st)"
  shows "calm E c (map_stream_state p f c)"
proof (rule calm_unencrypted)
  show "list_all2 stream_later (cn_streams c) (cn_streams (map_stream_state p f c))"
    using assms by (simp add: list_all2_conv_all_nth map_stream_state_def nth_list_update_if)
qed (simp_all add: map_stream_state_def)

lemma calm_stream_event:
  assumes "ty \<in> E"
  shows "calm E c (push_event ty sid detail (c\<lparr>cn_pending_inbound := cn_pending_inbound c @ pend\<rparr>))"
  using assms unfolding calm_def push_event_def
  by (intro conjI exI [of _ "[\<lparr>ev_type = ty, ev_stream_id = sid, ev_detail = detail\<rparr>]"] exI [of _ pend]
      exI [of _ "ns_cs_send (noise_of c)"])
     (auto simp: events_in_def noise_of_def)

lemma flush_loop_io:
  "io_wire_rx (snd (flush_loop sends io)) = io_wire_rx io \<and> io_recvs (snd (flush_loop sends io)) = io_recvs io
   \<and> io_socket_open (snd (flush_loop sends io)) = io_socket_open io \<and> io_fd (snd (flush_loop sends io)) = io_fd io"
  by (induction sends io rule: flush_loop.induct)
     (simp add: flush_loop.simps Let_def split: list.splits send_result.splits)

lemma calm_set_io:
  "io_wire_rx io = io_wire_rx (cn_io c) \<Longrightarrow> io_recvs io = io_recvs (cn_io c) \<Longrightarrow>
   io_socket_open io = io_socket_open (cn_io c) \<Longrightarrow> io_fd io = io_fd (cn_io c) \<Longrightarrow> calm E c (set_io io c)"
  by (rule calm_unencrypted) (simp_all add: set_io_def)

lemma calmly_flush_wire [calms]: "stays (calm E) (on_io flush_wire)"
  using flush_loop_io
  by (intro calmlyI) (simp add: on_io_def zoom_def flush_wire_def case_prod_beta Let_def calm_set_io)

lemma calmly_queue [calms]: "stays (calm E) (on_io (queue_raw_bytes bs))" "stays (calm E) (on_io (queue_wire_message bs))"
  by (intro calmlyI; simp add: on_io_def zoom_def queue_wire_message_def queue_raw_bytes_def case_prod_beta
      Let_def calm_set_io split: sum.splits)+

lemma calmly_encrypt [calms]: "stays (calm E) (on_cs_send m)"
proof (rule calmlyI)
  fix c
  let ?cs = "snd (m (ns_cs_send (noise_of c)))"
  have "snd (on_cs_send m c) = set_noise ((noise_of c)\<lparr>ns_cs_send := ?cs\<rparr>) c"
    by (simp add: on_cs_send_def on_noise_def zoom_def case_prod_beta Let_def)
  then show "calm E c (snd (on_cs_send m c))"
    by (intro calmI [where cs = ?cs]) (simp_all add: set_noise_def map_secure_def)
qed

lemma calmly_fail [calms]:
  "stays (calm E) (and_then (update (map_stream_state p (\<lambda>st. st\<lparr>ss_open := False\<rparr>))) (\<lambda>_. return_err e))"
  by (intro calmlyI) (simp add: calm_map_stream_state stream_later_def)

lemma calmly_flush_stream [calms]: "stays (calm E) (flush_stream p)"
proof (rule calmlyI)
  fix c
  obtain r c1 where f: "on_io flush_wire c = (r, c1)" by force
  have c1: "calm E c c1" by (rule calmlyD [OF calmly_flush_wire f])
  have shut: "calm E c (set_io (cn_io c1\<lparr>io_write_shutdown := True\<rparr>) c1)"
    by (rule calm_trans [OF c1], rule calm_set_io) simp_all
  have bad: "calm E c (map_stream_state p (\<lambda>st. st\<lparr>ss_open := False\<rparr>) c1)"
    by (rule calm_trans [OF c1]) (simp add: calm_map_stream_state stream_later_def)
  show "calm E c (snd (flush_stream p c))"
    using c1 shut bad
    by (simp add: flush_stream_def f Let_def calm_map_stream_state stream_later_def split: sum.splits option.splits)
qed

lemma calmly_flush_pending_writes [calms]: "stays (calm E) flush_pending_writes"
  unfolding flush_pending_writes_def by (intro calms) (simp add: calms split: option.splits)

lemma calmly_queue_encrypted [calms]:
  "stays (calm E) (queue_encrypted_message C data)" "stays (calm E) (queue_encrypted_write C p data)"
proof -
  show "stays (calm E) (queue_encrypted_message C data)"
    unfolding queue_encrypted_message_def by (intro calms)
  show "stays (calm E) (queue_encrypted_write C p data)"
  proof (rule calmlyI)
    fix c
    obtain r1 c1 where e: "on_cs_send (encrypt C data) c = (r1, c1)" by force
    have c1: "calm E c c1" by (rule calmlyD [OF calmly_encrypt e])
    have fail: "calm E c x \<Longrightarrow> calm E c (map_stream_state p (\<lambda>st. st\<lparr>ss_open := False\<rparr>) x)" for x
      by (rule calm_trans) (assumption, simp add: calm_map_stream_state stream_later_def)
    have last: "calm E c x \<Longrightarrow> calm E c (snd (flush_stream p x))" for x
      by (rule calm_trans, assumption) (rule stays_apply, rule calmly_flush_stream)
    show "calm E c (snd (queue_encrypted_write C p data c))"
    proof (cases r1)
      case (Inl e1)
      with e c1 show ?thesis by (simp add: queue_encrypted_write_def fail)
    next
      case (Inr ciphertext)
      obtain r2 c2 where q: "on_io (queue_wire_message ciphertext) c1 = (r2, c2)" by force
      have "calm E c c2" by (rule calm_trans [OF c1 calmlyD [OF calmly_queue(2) q]])
      with e Inr q show ?thesis
        by (cases r2) (simp_all add: queue_encrypted_write_def fail last)
    qed
  qed
qed

lemma calm_flush_yamux: "calm E c (snd (snd (flush_yamux_outgoing C plaintext c)))"
  using stays_apply [OF calmly_queue_encrypted(1) [of E C plaintext]]
  by (simp add: flush_yamux_outgoing_def case_prod_beta)

lemma session_outgoing_calm: "outgoing_respects (calm E) (session_callbacks C)"
  by (auto simp: outgoing_respects_def session_callbacks_def reflp_def calm_flush_yamux)

lemma session_owner_calm: "owner_respects (calm stream_traffic) (session_callbacks C)"
  using calm_stream_event [of EvStreamAccepted stream_traffic]
    calm_stream_event [of EvStreamClosed stream_traffic _ _ _ "[]"] session_outgoing_calm [of stream_traffic C]
  by (auto simp: owner_respects_def session_callbacks_def reflp_def transp_def
      yamux_accept_def yamux_closed_def stream_traffic_def intro: calm_trans)

lemma session_outgoing_whole: "outgoing_whole (session_callbacks C)"
  by (simp add: outgoing_whole_def session_callbacks_def flush_yamux_outgoing_def case_prod_beta)

end
