(* ===== verification/ConnectionInput.thy ===== *)
theory ConnectionInput
  imports ConnectionSession
begin

text \<open>
  The handlers of one connection (src/src/connection_session.cpp): what it does with the bytes it
  receives, through negotiation, handshake and data transfer, and what the connection manager
  calls.  Every loop over received frames is total: a step leaves the unread input alone.
\<close>

section \<open>Steps leave the unread input alone\<close>

definition same_rx :: "connection \<Rightarrow> connection \<Rightarrow> bool" where
  "same_rx c c' \<longleftrightarrow> io_wire_rx (cn_io c') = io_wire_rx (cn_io c)"

interpretation rx: change_order same_rx
  by unfold_locales (simp_all add: same_rx_def)

named_theorems rx_keeps \<open>operations that leave the unread input alone\<close>

declare rx.stays_return [rx_keeps] rx.stays_and_then [rx_keeps] rx.stays_reading [rx_keeps]

lemma calm_same_rx: "stays (calm {}) m \<Longrightarrow> stays same_rx m"
  using calmD(10) by (fastforce simp: stays_def same_rx_def)

lemmas calm_rx_keeps [rx_keeps] =
  calm_same_rx [OF calmly_flush_wire] calm_same_rx [OF calmly_queue(1)] calm_same_rx [OF calmly_queue(2)]
  calm_same_rx [OF calmly_flush_pending_writes] calm_same_rx [OF calmly_queue_encrypted(1)]

lemma on_noise_rx [simp]:
  "io_wire_rx (cn_io (snd (on_noise m c))) = io_wire_rx (cn_io c)"
  "io_wire_rx (cn_io (snd (on_cs_recv m' c))) = io_wire_rx (cn_io c)"
  by (simp_all add: on_noise_def on_cs_recv_def zoom_def case_prod_beta Let_def set_noise_def map_secure_def)

lemma on_noise_rx_keeps [rx_keeps]: "stays same_rx (on_noise m)"
  by (simp add: stays_def same_rx_def)

lemma create_stream_rx [simp]: "io_wire_rx (cn_io (snd (create_stream proto b c))) = io_wire_rx (cn_io c)"
  by (simp add: create_stream_def Let_def push_event_def)

lemma upgrade_rx [simp]:
  "io_wire_rx (cn_io (map_secure f c)) = io_wire_rx (cn_io c)"
  "io_wire_rx (cn_io (activate_yamux c)) = io_wire_rx (cn_io c)"
  "io_wire_rx (cn_io (complete_ready_state c)) = io_wire_rx (cn_io c)"
  by (simp_all add: map_secure_def activate_yamux_def complete_ready_state_def push_event_def Let_def)

lemma update_rx_keeps [rx_keeps]:
  "stays same_rx (update (map_secure f))"
  "stays same_rx (update complete_ready_state)"
  "stays same_rx (update (\<lambda>c. complete_ready_state (activate_yamux c)))"
  by (simp_all add: stays_def same_rx_def)

lemma rx_keeps_if [rx_keeps]:
  "stays same_rx m \<Longrightarrow> stays same_rx m' \<Longrightarrow> stays same_rx (if b then m else m')"
  by simp

lemma finish_secure_upgrade_rx [rx_keeps]: "stays same_rx (finish_secure_upgrade C)"
  unfolding finish_secure_upgrade_def by (intro rx_keeps)

lemma process_handshake_frame_rx [rx_keeps]: "stays same_rx (process_handshake_frame C f)"
  unfolding process_handshake_frame_def
proof (rule rx.stays_reading)
  fix c
  show "stays same_rx
     (case sc_handshake_state (cn_secure c) of
       AwaitingMsg1 \<Rightarrow>
         and_then (on_noise (process_msg1 C (cn_draws c) f)) (\<lambda>msg2.
         and_then (update (map_secure (\<lambda>sc. sc\<lparr>sc_handshake_state := AwaitingMsg3\<rparr>))) (\<lambda>_.
         and_then (on_io (queue_wire_message msg2)) (\<lambda>_. flush_pending_writes)))
     | AwaitingMsg2 \<Rightarrow>
         and_then (on_noise (process_msg2 C f)) (\<lambda>msg3.
         and_then (update (map_secure (\<lambda>sc. sc\<lparr>sc_handshake_state := Complete\<rparr>))) (\<lambda>_.
         and_then (on_io (queue_wire_message msg3)) (\<lambda>_.
         and_then flush_pending_writes (\<lambda>_. finish_secure_upgrade C))))
     | AwaitingMsg3 \<Rightarrow>
         and_then (on_noise (process_msg3 C f)) (\<lambda>_.
         and_then (update (map_secure (\<lambda>sc. sc\<lparr>sc_handshake_state := Complete\<rparr>))) (\<lambda>_.
         finish_secure_upgrade C))
     | Idle \<Rightarrow> return_err ''noise handshake has not started''
     | Complete \<Rightarrow> return_err ''unexpected extra noise handshake frame'')"
    by (cases "sc_handshake_state (cn_secure c)"; simp only: handshake_state.case; intro rx_keeps)
qed

lemma with_yamux_rx [rx_keeps]: "stays same_rx (with_yamux (receive (session_callbacks C) data))"
proof (rule staysI)
  fix c
  show "same_rx c (snd (with_yamux (receive (session_callbacks C) data) c))"
  proof (cases "cn_yamux c")
    case (Some ys)
    have "calm stream_traffic c (snd (snd (receive (session_callbacks C) data (ys, c))))"
      using owner_receive [OF session_owner_calm, of "(ys, c)"] by simp
    with Some show ?thesis
      by (simp add: with_yamux_def same_rx_def case_prod_beta Let_def calmD(10))
  qed (simp add: with_yamux_def same_rx_def)
qed

section \<open>Code: received bytes\<close>

definition set_rx :: "bytes \<Rightarrow> connection \<Rightarrow> connection" where
  "set_rx bs c = set_io ((cn_io c)\<lparr>io_wire_rx := bs\<rparr>) c"

lemma rx_set_rx [simp]: "io_wire_rx (cn_io (set_rx bs c)) = bs"
  by (simp add: set_rx_def set_io_def)

lemma popped_shrinks:
  assumes "try_pop_wire_frame (io_wire_rx (cn_io c)) = Popped f rest" and "stays same_rx m"
    and "(r, c1) = m (set_rx rest c)"
  shows "length (io_wire_rx (cn_io c1)) < length (io_wire_rx (cn_io c))"
proof -
  have "same_rx (set_rx rest c) c1" by (rule staysD [OF assms(2) assms(3) [symmetric]])
  then show ?thesis using try_pop_shrinks [OF assms(1)] by (simp add: same_rx_def)
qed

lemma on_cs_recv_rx [rx_keeps]: "stays same_rx (on_cs_recv m)"
  by (simp add: stays_def same_rx_def)

text \<open>The loop of \<open>process_pending_input\<close> over handshake frames.\<close>

function handshake_loop :: "crypto \<Rightarrow> (connection, unit) action" where
  "handshake_loop C c =
     (if sc_secure_ready (cn_secure c) \<or> sc_stage (cn_secure c) \<noteq> NoiseHandshake then (Inr (), c)
      else case try_pop_wire_frame (io_wire_rx (cn_io c)) of
        NoFrame \<Rightarrow> (Inr (), c)
      | PopError e \<Rightarrow> (Inl e, c)
      | Popped wire_frame rest \<Rightarrow>
          (case process_handshake_frame C wire_frame (set_rx rest c) of
             (Inl e, c1) \<Rightarrow> (Inl e, c1)
           | (Inr _, c1) \<Rightarrow> handshake_loop C c1))"
  by pat_completeness auto
termination
  by (relation "measure (\<lambda>(C, c). length (io_wire_rx (cn_io c)))")
     (simp_all add: popped_shrinks [OF _ process_handshake_frame_rx])

declare handshake_loop.simps [simp del]

text \<open>The loop of \<open>process_muxer_negotiation\<close> that decrypts what has arrived.\<close>

function muxer_drain :: "crypto \<Rightarrow> (connection, unit) action" where
  "muxer_drain C c =
     (case try_pop_wire_frame (io_wire_rx (cn_io c)) of
        NoFrame \<Rightarrow> (Inr (), c)
      | PopError e \<Rightarrow> (Inl e, c)
      | Popped wire_frame rest \<Rightarrow>
          (case on_cs_recv (decrypt C wire_frame) (set_rx rest c) of
             (Inl e, c1) \<Rightarrow> (Inl e, c1)
           | (Inr plaintext, c1) \<Rightarrow>
               muxer_drain C (c1\<lparr>cn_muxer_buffer := cn_muxer_buffer c1 @ plaintext\<rparr>)))"
  by pat_completeness auto
termination
  by (relation "measure (\<lambda>(C, c). length (io_wire_rx (cn_io c)))")
     (simp_all add: popped_shrinks [OF _ on_cs_recv_rx])

declare muxer_drain.simps [simp del]

text \<open>The rest of \<open>process_muxer_negotiation\<close>, on the decrypted exchange.\<close>

definition answer_muxer_exchange :: "crypto \<Rightarrow> (connection, unit) action" where
  "answer_muxer_exchange C = reading (\<lambda>c.
       case multistream_exchange_span (cn_muxer_buffer c) of
         Inl e \<Rightarrow> if is_incomplete_multistream_error e then return_ok () else return_err e
       | Inr span \<Rightarrow>
           let exchange = take span (cn_muxer_buffer c);
               muxers = stream_muxers (ns_local_extensions (noise_of c));
               select = (\<lambda>muxer. update (\<lambda>c. activate_if_yamux
                 (map_secure (\<lambda>sc. sc\<lparr>sc_negotiated_muxer := Some muxer\<rparr>) c)))
           in and_then
                (if cn_is_initiator c then
                   (case read_outbound_response exchange (hd muxers) of
                      Inr selected \<Rightarrow> select selected
                    | Inl e \<Rightarrow> if e \<noteq> ''protocol not supported'' then return_err e else return_ok ())
                 else
                   and_then (return_result (negotiate_inbound exchange muxers)) (\<lambda>negotiated.
                   and_then (queue_encrypted_message C (in_outbound negotiated)) (\<lambda>_.
                     case in_protocol negotiated of
                       Some muxer \<Rightarrow> select muxer
                     | None \<Rightarrow> return_ok ())))
                (\<lambda>_. update (\<lambda>c. complete_ready_state
                   (c\<lparr>cn_muxer_buffer := drop span (cn_muxer_buffer c)\<rparr>))))"

definition process_muxer_negotiation :: "crypto \<Rightarrow> (connection, unit) action" where
  "process_muxer_negotiation C = and_then (muxer_drain C) (\<lambda>_. answer_muxer_exchange C)"

text \<open>The data loop of \<open>process_pending_input\<close>.\<close>

definition deliver_direct :: "bytes \<Rightarrow> connection \<Rightarrow> connection" where
  "deliver_direct plaintext c =
     (let (p, c1) = ensure_inbound_stream c
      in map_stream_state p (\<lambda>st. st\<lparr>ss_rx_buffer := ss_rx_buffer st @ plaintext\<rparr>) c1)"

definition deliver :: "crypto \<Rightarrow> bytes \<Rightarrow> (connection, unit) action" where
  "deliver C plaintext = reading (\<lambda>c.
     if cn_yamux c \<noteq> None then with_yamux (receive (session_callbacks C) plaintext)
     else update (deliver_direct plaintext))"

lemma deliver_rx [rx_keeps]: "stays same_rx (deliver C plaintext)"
  unfolding deliver_def
proof (intro rx_keeps)
  fix c
  show "stays same_rx (update (deliver_direct plaintext))"
    by (simp add: stays_def same_rx_def deliver_direct_def ensure_inbound_stream_def case_prod_beta
        Let_def map_stream_state_def split: option.splits)
qed

function data_loop :: "crypto \<Rightarrow> (connection, unit) action" where
  "data_loop C c =
     (case try_pop_wire_frame (io_wire_rx (cn_io c)) of
        NoFrame \<Rightarrow> (Inr (), c)
      | PopError e \<Rightarrow> (Inl e, c)
      | Popped wire_frame rest \<Rightarrow>
          (case and_then (on_cs_recv (decrypt C wire_frame)) (deliver C) (set_rx rest c) of
             (Inl e, c1) \<Rightarrow> (Inl e, c1)
           | (Inr _, c1) \<Rightarrow> data_loop C c1))"
  by pat_completeness auto
termination
  by (relation "measure (\<lambda>(C, c). length (io_wire_rx (cn_io c)))")
     (simp_all add: popped_shrinks [OF _ rx.stays_and_then [OF on_cs_recv_rx deliver_rx]])

declare data_loop.simps [simp del]

definition process_pending_input :: "crypto \<Rightarrow> (connection, unit) action" where
  "process_pending_input C =
     and_then (reading (\<lambda>c. if sc_stage (cn_secure c) = NegotiatingProtocol
       then process_protocol_negotiation C else return_ok ())) (\<lambda>_.
     and_then (reading (\<lambda>c. if \<not> sc_secure_ready (cn_secure c) \<and> sc_stage (cn_secure c) = NoiseHandshake
       then handshake_loop C else return_ok ())) (\<lambda>_.
     and_then (reading (\<lambda>c. if \<not> sc_secure_ready (cn_secure c) \<and> sc_stage (cn_secure c) = MuxerNegotiation
       then process_muxer_negotiation C else return_ok ())) (\<lambda>_.
     reading (\<lambda>c. if \<not> sc_secure_ready (cn_secure c) then return_ok () else data_loop C))))"

section \<open>Code: socket events\<close>

text \<open>\<open>recv_loop\<close> tells whether the handler goes on to the input it has read.\<close>

definition set_recvs :: "recv_result list \<Rightarrow> connection \<Rightarrow> connection" where
  "set_recvs rs c = set_io ((cn_io c)\<lparr>io_recvs := rs\<rparr>) c"

fun recv_loop :: "recv_result list \<Rightarrow> connection \<Rightarrow> bool \<times> connection" where
  "recv_loop [] c = (True, set_recvs [] c)"
| "recv_loop (RecvData bs # rest) c =
     (if bs = [] then (False, close (set_recvs rest c))
      else recv_loop rest (set_rx (io_wire_rx (cn_io c) @ bs) c))"
| "recv_loop (RecvReset # rest) c = (False, close (set_recvs rest c))"
| "recv_loop (RecvAgain # rest) c = (True, set_recvs rest c)"
| "recv_loop (RecvError e # rest) c =
     (False, close (emit_error (''recv failed: '' @ e) (set_recvs rest c)))"

definition on_socket_readable :: "crypto \<Rightarrow> connection \<Rightarrow> connection" where
  "on_socket_readable C c =
     (if \<not> is_active c then c
      else case recv_loop (io_recvs (cn_io c)) c of
        (False, c1) \<Rightarrow> c1
      | (True, c1) \<Rightarrow>
          (case process_pending_input C c1 of
             (Inl e, c2) \<Rightarrow> close (emit_error e c2)
           | (Inr _, c2) \<Rightarrow> c2))"

definition on_socket_writable :: "connection \<Rightarrow> connection" where
  "on_socket_writable c =
     (if \<not> is_active c then c
      else case flush_pending_writes c of
        (Inl e, c1) \<Rightarrow> close (emit_error (''send failed: '' @ e) c1)
      | (Inr _, c1) \<Rightarrow> c1)"

definition on_timeout :: "connection \<Rightarrow> connection" where
  "on_timeout c =
     (if \<not> is_active c then c
      else if cn_state c = Ready then c
      else close (emit_error ''connection timed out'' c))"

section \<open>Code: the connection's owner\<close>

definition begin_upgrade :: "bool \<Rightarrow> connection \<Rightarrow> connection" where
  "begin_upgrade create_inbound c =
     map_secure (\<lambda>sc. sc\<lparr>sc_stage := NegotiatingProtocol, sc_handshake_state := Idle\<rparr>)
       (c\<lparr>cn_state := Securing, cn_create_inbound_on_ready := create_inbound\<rparr>)"

definition begin_outbound_upgrade :: "(connection, unit) action" where
  "begin_outbound_upgrade = reading (\<lambda>c.
     if \<not> is_active c then return_err ''connection is closed''
     else if cn_state c = Ready \<or> sc_secure_ready (cn_secure c) then return_ok ()
     else if \<not> cn_is_initiator c then return_err ''connection is not outbound''
     else
       and_then (update (begin_upgrade False)) (\<lambda>_.
       and_then (return_result (prepare_outbound [kNoiseProtocol])) (\<lambda>proposal.
       and_then (on_io (queue_raw_bytes proposal)) (\<lambda>_. flush_pending_writes))))"

definition begin_inbound_upgrade :: "(connection, unit) action" where
  "begin_inbound_upgrade = reading (\<lambda>c.
     if \<not> is_active c then return_err ''connection is closed''
     else if cn_state c = Ready \<or> sc_secure_ready (cn_secure c) then return_ok ()
     else if cn_is_initiator c then return_err ''connection is not inbound''
     else update (begin_upgrade True))"

definition on_yamux :: "(yamux_session \<Rightarrow> yamux_session) \<Rightarrow> connection \<Rightarrow> connection" where
  "on_yamux f c = c\<lparr>cn_yamux := map_option f (cn_yamux c)\<rparr>"

definition stream_id :: "stream_handle \<Rightarrow> connection \<Rightarrow> u32" where
  "stream_id h c =
     (case h of DirectHandle p \<Rightarrow> ss_id (cn_streams c ! p)
      | YamuxHandle p \<Rightarrow> (case cn_yamux c of None \<Rightarrow> 0 | Some ys \<Rightarrow> st_id (stream_at ys p)))"

definition stream_is_open :: "stream_handle \<Rightarrow> connection \<Rightarrow> bool" where
  "stream_is_open h c =
     (case h of DirectHandle p \<Rightarrow> direct_is_open p c
      | YamuxHandle p \<Rightarrow> (case cn_yamux c of None \<Rightarrow> False | Some ys \<Rightarrow> is_open (stream_at ys p)))"

definition request_open_stream :: "crypto \<Rightarrow> string \<Rightarrow> (connection, stream_handle) action" where
  "request_open_stream C protocol = reading (\<lambda>c.
     if \<not> is_active c then return_err ''connection is closed''
     else if cn_state c \<noteq> Ready then return_err ''connection is not ready''
     else if cn_yamux c \<noteq> None then
       and_then (with_yamux (open_stream (session_callbacks C))) (\<lambda>p.
       and_then (update (\<lambda>c.
         let c1 = on_yamux (map_stream p (set_protocol protocol)) c
         in push_event EvStreamOpened (Some (stream_id (YamuxHandle p) c1))
              ''outbound yamux stream opened'' c1))
         (\<lambda>_. return_ok (YamuxHandle p)))
     else if (case cn_stream_state c of Some p \<Rightarrow> ss_open (cn_streams c ! p) | None \<Rightarrow> False)
     then return_err ''direct connection only supports one open stream''
     else (\<lambda>c. let (p, c1) = create_stream (Some protocol) False c in (Inr (DirectHandle p), c1)))"

definition accept_inbound_stream :: "connection \<Rightarrow> stream_handle option \<times> connection" where
  "accept_inbound_stream c =
     (case cn_pending_inbound c of
        [] \<Rightarrow> (None, c)
      | stream # rest \<Rightarrow> (Some stream, c\<lparr>cn_pending_inbound := rest\<rparr>))"

definition next_event :: "connection \<Rightarrow> connection_event option \<times> connection" where
  "next_event c =
     (case cn_event_queue c of
        [] \<Rightarrow> (None, c)
      | ev # rest \<Rightarrow> (Some ev, c\<lparr>cn_event_queue := rest\<rparr>))"

definition remote_peer :: "connection \<Rightarrow> peer_id option" where
  "remote_peer c = ns_remote_peer_id (noise_of c)"

definition remote_stream_muxers :: "connection \<Rightarrow> string list" where
  "remote_stream_muxers c = stream_muxers (ns_remote_extensions (noise_of c))"

definition make_outbound_connection_session ::
    "u64 \<Rightarrow> int \<Rightarrow> multiaddr \<Rightarrow> identity option \<Rightarrow> string list \<Rightarrow> draws \<Rightarrow> connection" where
  "make_outbound_connection_session cid socket_fd remote_addr local_identity local_stream_muxers draws =
     new_connection cid socket_fd remote_addr True local_identity local_stream_muxers draws"

definition make_inbound_connection_session ::
    "u64 \<Rightarrow> int \<Rightarrow> multiaddr \<Rightarrow> identity option \<Rightarrow> string list \<Rightarrow> draws \<Rightarrow> connection" where
  "make_inbound_connection_session cid socket_fd remote_addr local_identity local_stream_muxers draws =
     new_connection cid socket_fd remote_addr False local_identity local_stream_muxers draws"

end
