(* ===== verification/NoiseHandshake.thy ===== *)
theory NoiseHandshake
  imports Noise
begin

text \<open>
  Correctness of the Noise XX handshake: run against each other, an initiator and a responder
  end with crossed transport keys, the same handshake hash and each other's identity.

  What is used of libsodium is \<open>crypto_ok\<close>: Diffie-Hellman commutes on generated keys, the AEAD
  opens what it sealed and adds a 16-byte tag, HMAC does not fail; and \<open>signing_key\<close>: the
  signatures of an identity key verify under its public half.
\<close>

section \<open>What libsodium documents\<close>

definition crypto_ok :: "crypto \<Rightarrow> bool" where
  "crypto_ok C \<longleftrightarrow>
     sodium_ready C
     \<and> (\<forall>k d. hmac256 C k d \<noteq> None)
     \<and> (\<forall>a. length a = 32 \<longrightarrow> length (x25519_base C a) = 32)
     \<and> (\<forall>a b. length a = 32 \<longrightarrow> length b = 32 \<longrightarrow>
          x25519 C a (x25519_base C b) \<noteq> None
          \<and> x25519 C a (x25519_base C b) = x25519 C b (x25519_base C a))
     \<and> (\<forall>k n ad p. \<exists>c. aead_encrypt C k n ad p = Some c \<and> length c = length p + kAeadTagBytes
          \<and> aead_decrypt C k n ad c = Some p)"

definition signing_key :: "crypto \<Rightarrow> bytes \<Rightarrow> bool" where
  "signing_key C sk \<longleftrightarrow> length sk = 64 \<and>
     (\<forall>m. \<exists>sig. sign_detached C sk m = Some sig \<and> length sig = 64 \<and> sign_verify C sig m (drop 32 sk))"

definition key_pair :: "crypto \<Rightarrow> noise_keypair \<Rightarrow> bool" where
  "key_pair C kp \<longleftrightarrow> length (kp_secret_key kp) = 32 \<and> kp_public_key kp = x25519_base C (kp_secret_key kp)"

lemma key_pair_length: "crypto_ok C \<Longrightarrow> key_pair C kp \<Longrightarrow> length (kp_public_key kp) = 32"
  by (simp add: crypto_ok_def key_pair_def)

lemma shared_secret:
  assumes "crypto_ok C" and "key_pair C a" and "key_pair C b"
  obtains k where "compute_shared_secret C a (kp_public_key b) = Inr k"
    and "compute_shared_secret C b (kp_public_key a) = Inr k"
proof -
  from assms have "x25519 C (kp_secret_key a) (kp_public_key b) \<noteq> None"
    "x25519 C (kp_secret_key a) (kp_public_key b) = x25519 C (kp_secret_key b) (kp_public_key a)"
    by (simp_all add: crypto_ok_def key_pair_def)
  then show ?thesis using that by (auto simp: compute_shared_secret_def require_def)
qed

lemma crypto_ready [simp]: "crypto_ok C \<Longrightarrow> ensure_sodium_ready C = Inr ()"
  by (simp add: crypto_ok_def ensure_sodium_ready_def)

lemma hkdf2_total:
  assumes "crypto_ok C"
  obtains k1 k2 where "hkdf2 C ck x = Inr (k1, k2)"
proof -
  have tot: "\<exists>h. hmac_sha256 C k d = Inr h" for k d
  proof -
    from assms have "hmac256 C k d \<noteq> None" unfolding crypto_ok_def by blast
    then show ?thesis by (auto simp: hmac_sha256_def require_def)
  qed
  obtain t where t: "hmac_sha256 C ck x = Inr t" using tot by blast
  obtain o1 where o1: "hmac_sha256 C t [0x01] = Inr o1" using tot by blast
  obtain o2 where o2: "hmac_sha256 C t (o1 @ [0x02]) = Inr o2" using tot by blast
  show ?thesis by (rule that [of o1 o2]) (simp add: hkdf2_def t o1 o2)
qed

lemma aead_total:
  assumes "crypto_ok C"
  obtains c where "encrypt_with_key C k n p ad = Inr c" and "decrypt_with_key C k n c ad = Inr p"
    and "length c = length p + kAeadTagBytes"
proof -
  from assms obtain c where "aead_encrypt C k (make_nonce n) ad p = Some c"
    "length c = length p + kAeadTagBytes" "aead_decrypt C k (make_nonce n) ad c = Some p"
    unfolding crypto_ok_def by blast
  then show ?thesis
    using that by (simp add: encrypt_with_key_def decrypt_with_key_def require_def)
qed

section \<open>The symmetric state\<close>

text \<open>The part of a session both ends compute alike: chaining key, handshake hash, cipher.\<close>

type_synonym symmetric = "bytes \<times> bytes \<times> cipher_state"

definition sym :: "noise_session \<Rightarrow> symmetric" where
  "sym s = (ns_chaining_key s, ns_handshake_hash s, ns_handshake_cipher s)"

definition put_sym :: "symmetric \<Rightarrow> noise_session \<Rightarrow> noise_session" where
  "put_sym y s = s\<lparr>ns_chaining_key := fst y, ns_handshake_hash := fst (snd y), ns_handshake_cipher := snd (snd y)\<rparr>"

definition has_key :: "symmetric \<Rightarrow> bool" where
  "has_key y \<longleftrightarrow> cs_has_key (snd (snd y))"

lemma sym_put [simp]: "sym (put_sym y s) = y" "put_sym y (put_sym y' s) = put_sym y s" "put_sym (sym s) s = s"
  by (simp_all add: sym_def put_sym_def)

lemma put_sym_fields [simp]:
  "ns_is_initiator (put_sym y s) = ns_is_initiator s"
  "ns_local_identity (put_sym y s) = ns_local_identity s"
  "ns_remote_peer_id (put_sym y s) = ns_remote_peer_id s"
  "ns_local_extensions (put_sym y s) = ns_local_extensions s"
  "ns_remote_extensions (put_sym y s) = ns_remote_extensions s"
  "ns_ephemeral (put_sym y s) = ns_ephemeral s"
  "ns_static_key (put_sym y s) = ns_static_key s"
  "ns_remote_ephemeral_pub (put_sym y s) = ns_remote_ephemeral_pub s"
  "ns_remote_static_pub (put_sym y s) = ns_remote_static_pub s"
  "ns_cs_send (put_sym y s) = ns_cs_send s"
  "ns_cs_recv (put_sym y s) = ns_cs_recv s"
  "ns_handshake_complete (put_sym y s) = ns_handshake_complete s"
  "ns_chaining_key (put_sym y s) = fst y"
  "ns_handshake_hash (put_sym y s) = fst (snd y)"
  by (simp_all add: put_sym_def)

lemma sym_updates [simp]:
  "sym (s\<lparr>ns_is_initiator := b\<rparr>) = sym s"
  "sym (s\<lparr>ns_remote_peer_id := p\<rparr>) = sym s"
  "sym (s\<lparr>ns_remote_extensions := e\<rparr>) = sym s"
  "sym (s\<lparr>ns_remote_ephemeral_pub := k\<rparr>) = sym s"
  "sym (s\<lparr>ns_has_remote_ephemeral := b\<rparr>) = sym s"
  "sym (s\<lparr>ns_remote_static_pub := k\<rparr>) = sym s"
  "sym (s\<lparr>ns_has_remote_static := b\<rparr>) = sym s"
  "sym (s\<lparr>ns_cs_send := c\<rparr>) = sym s"
  "sym (s\<lparr>ns_cs_recv := c\<rparr>) = sym s"
  "sym (s\<lparr>ns_handshake_complete := b\<rparr>) = sym s"
  by (simp_all add: sym_def)

text \<open>From symmetric state \<open>y\<close> the action returns \<open>r\<close> and moves to \<open>y'\<close>, and reads and writes
  nothing else.\<close>

definition runs :: "(noise_session, 'a) action \<Rightarrow> symmetric \<Rightarrow> 'a \<Rightarrow> symmetric \<Rightarrow> bool" where
  "runs m y r y' \<longleftrightarrow> (\<forall>s. sym s = y \<longrightarrow> m s = (Inr r, put_sym y' s))"

lemma runs_and_then: "runs m y r y' \<Longrightarrow> sym s = y \<Longrightarrow> and_then m f s = f r (put_sym y' s)"
  by (simp add: runs_def and_then_def)

lemma runs_relabel: "runs m y r y' \<Longrightarrow> runs (relabel g m) y r y'"
  by (simp add: runs_def relabel_def)

definition hash_sym :: "crypto \<Rightarrow> bytes \<Rightarrow> symmetric \<Rightarrow> symmetric" where
  "hash_sym C data y = (fst y, sha256 C (fst (snd y) @ data), snd (snd y))"

lemma mix_hash_sym: "mix_hash C data s = put_sym (hash_sym C data (sym s)) s"
  by (simp add: mix_hash_def put_sym_def hash_sym_def sym_def)

lemma has_key_hash [simp]: "has_key (hash_sym C data y) = has_key y"
  by (simp add: has_key_def hash_sym_def)

lemma runs_mix_key:
  assumes "crypto_ok C"
  obtains y' where "runs (mix_key C x) y () y'" and "has_key y'"
proof -
  obtain k1 k2 where "hkdf2 C (fst y) x = Inr (k1, k2)" using hkdf2_total [OF assms] by metis
  then have "runs (mix_key C x) y () (k1, fst (snd y), fresh_cipher k2)"
    by (auto simp: runs_def mix_key_def sym_def put_sym_def fresh_cipher_def)
  then show ?thesis by (rule that) (simp add: has_key_def fresh_cipher_def)
qed

lemma mix_key_dh_shared:
  "compute_shared_secret C a pub = Inr k \<Longrightarrow> mix_key_dh C a pub = mix_key C k"
  by (rule ext) (simp add: mix_key_dh_def)

lemma runs_crypt:
  assumes "crypto_ok C" and "has_key y"
  obtains c y' where "runs (encrypt_and_hash C p) y c y'" and "runs (decrypt_and_hash C c) y p y'"
    and "has_key y'" and "length c = length p + kAeadTagBytes"
proof -
  let ?cs = "snd (snd y)"
  obtain c where c: "encrypt_with_key C (cs_key ?cs) (cs_nonce ?cs) p (fst (snd y)) = Inr c"
    "decrypt_with_key C (cs_key ?cs) (cs_nonce ?cs) c (fst (snd y)) = Inr p"
    "length c = length p + kAeadTagBytes"
    by (rule aead_total [OF assms(1)])
  let ?y' = "(fst y, sha256 C (fst (snd y) @ c), bump_nonce ?cs)"
  have "runs (encrypt_and_hash C p) y c ?y'" and "runs (decrypt_and_hash C c) y p ?y'"
    using c(1,2) assms(2)
    by (auto simp: runs_def encrypt_and_hash_def decrypt_and_hash_def sym_def put_sym_def has_key_def
        mix_hash_def Let_def)
  with that c(3) show ?thesis using assms(2) by (simp add: has_key_def bump_nonce_def)
qed

lemma runs_plain:
  assumes "\<not> has_key y"
  shows "runs (encrypt_and_hash C p) y p (hash_sym C p y)" and "runs (decrypt_and_hash C p) y p (hash_sym C p y)"
  using assms by (auto simp: runs_def encrypt_and_hash_def decrypt_and_hash_def mix_hash_sym has_key_def
      sym_def Let_def)

section \<open>Identities\<close>

definition local_payload_ok :: "crypto \<Rightarrow> noise_session \<Rightarrow> bool" where
  "local_payload_ok C s \<longleftrightarrow>
     (case ns_local_identity s of
        None \<Rightarrow> True
      | Some i \<Rightarrow> signing_key C (id_secret_key i) \<and> small_extensions (ns_local_extensions s))"

text \<open>What the peer learns from the payload of \<open>s\<close>.\<close>

definition public_identity :: "noise_session \<Rightarrow> peer_id option" where
  "public_identity s = map_option (\<lambda>i. PeerId (drop 32 (id_secret_key i))) (ns_local_identity s)"

definition public_extensions :: "noise_session \<Rightarrow> noise_extensions" where
  "public_extensions s = (case ns_local_identity s of None \<Rightarrow> no_extensions | Some _ \<Rightarrow> ns_local_extensions s)"

lemma length_serialize_key:
  assumes "length k = 32"
  shows "length (serialize_public_key_ed25519 k) < 2 ^ 64" and "serialize_public_key_ed25519 k \<noteq> []"
    and "length (serialize_public_key_ed25519 k) \<le> 72"
proof -
  have "length (serialize_public_key_ed25519 k) \<le> 72"
    using assms length_encode_uvarint [of 8] length_encode_uvarint [of kKeyTypeEd25519]
      length_encode_uvarint [of 18] length_encode_uvarint [of "32 :: u64"]
    by (simp add: serialize_public_key_ed25519_def append_field_varint_def append_field_bytes_def)
  then show "length (serialize_public_key_ed25519 k) < 2 ^ 64" "length (serialize_public_key_ed25519 k) \<le> 72"
    by simp_all
  show "serialize_public_key_ed25519 k \<noteq> []"
    by (simp add: serialize_public_key_ed25519_def append_field_varint_def append_field_bytes_def)
qed

lemma assemble_nonempty: "assemble_payload k sig ext \<noteq> []"
  by (simp add: assemble_payload_def Let_def append_field_bytes_def)

lemma length_append_field: "length (append_field_bytes out n v) \<le> length out + length v + 20"
  using length_encode_uvarint [of "push_bit 3 (ucast n) OR 2"] length_encode_uvarint [of "of_nat (length v)"]
  by (simp add: append_field_bytes_def)

lemma length_assemble_payload:
  "length (assemble_payload k sig ext) \<le> length k + length sig + length (serialize_extensions ext) + 60"
proof -
  let ?a = "append_field_bytes [] 1 k" let ?b = "append_field_bytes ?a 2 sig"
  have "length (assemble_payload k sig ext) \<le> length ?b + length (serialize_extensions ext) + 20"
    using length_append_field [of ?b 4 "serialize_extensions ext"] by (simp add: assemble_payload_def Let_def)
  with length_append_field [of "[]" 1 k] length_append_field [of ?a 2 sig] show ?thesis by simp
qed

lemma handshake_payload_verifies:
  assumes "crypto_ok C" and "signing_key C (id_secret_key i)" and "small_extensions ext"
  obtains payload where "make_handshake_payload C i kp ext = Inr payload" and "payload \<noteq> []"
    and "length payload \<le> 200 + length (serialize_extensions ext)"
    and "\<And>s. ns_remote_static_pub s = kp_public_key kp \<Longrightarrow>
      verify_remote_identity C payload s = (Inr (), s\<lparr>ns_remote_peer_id := Some (PeerId (drop 32 (id_secret_key i))),
        ns_remote_extensions := ext\<rparr>)"
proof -
  let ?pk = "drop 32 (id_secret_key i)" and ?m = "signature_message (kp_public_key kp)"
  from assms(2) obtain sig where sig: "sign_detached C (id_secret_key i) ?m = Some sig"
    "length sig = 64" "sign_verify C sig ?m ?pk" and sk: "length (id_secret_key i) = 64"
    unfolding signing_key_def by blast
  have pk: "take 32 ?pk = ?pk" "length ?pk = 32" using sk by simp_all
  let ?key = "serialize_public_key_ed25519 ?pk"
  have made: "make_handshake_payload C i kp ext = Inr (assemble_payload ?key sig ext)"
    using sig(1) assms(1) pk by (simp add: make_handshake_payload_def Let_def require_def)
  have "sig \<noteq> []" using sig(2) by auto
  with length_serialize_key [OF pk(2)] assms(3) sig(2)
  have parsed: "parse_handshake_payload (assemble_payload ?key sig ext)
      = Inr \<lparr>identity_key = ?key, identity_sig = sig, extensions = ext\<rparr>"
    by (intro parse_assembled_payload) simp_all
  have "verify_remote_identity C (assemble_payload ?key sig ext) s
      = (Inr (), s\<lparr>ns_remote_peer_id := Some (PeerId ?pk), ns_remote_extensions := ext\<rparr>)"
    if "ns_remote_static_pub s = kp_public_key kp" for s
    using that parsed sig assms(1) parse_public_key_serialize [OF pk(2)]
    by (simp add: verify_remote_identity_def assemble_nonempty verify_handshake_payload_def peer_id_from_bytes_def)
  moreover have "length (assemble_payload ?key sig ext) \<le> 200 + length (serialize_extensions ext)"
    using length_assemble_payload [of ?key sig ext] length_serialize_key(3) [OF pk(2)] sig(2) by simp
  ultimately show ?thesis using that made assemble_nonempty by blast
qed

text \<open>The payload a session \<open>s\<close> with static key \<open>k\<close> sends, and what verifying it does at the peer.\<close>

definition payload_for :: "crypto \<Rightarrow> noise_session \<Rightarrow> noise_keypair \<Rightarrow> bytes \<Rightarrow> bool" where
  "payload_for C s k payload \<longleftrightarrow>
     (\<forall>t. ns_local_identity t = ns_local_identity s \<longrightarrow> ns_static_key t = k \<longrightarrow>
        ns_local_extensions t = ns_local_extensions s \<longrightarrow> make_local_payload C t = Inr payload)
     \<and> (\<forall>t. ns_remote_static_pub t = kp_public_key k \<longrightarrow>
        verify_remote_identity C payload t = (Inr (), t\<lparr>ns_remote_peer_id := public_identity s,
          ns_remote_extensions := public_extensions s\<rparr>))
     \<and> length payload \<le> 200 + length (serialize_extensions (ns_local_extensions s))"

lemma payload_forD:
  assumes "payload_for C s k payload"
  shows "ns_local_identity t = ns_local_identity s \<Longrightarrow> ns_static_key t = k \<Longrightarrow>
      ns_local_extensions t = ns_local_extensions s \<Longrightarrow> make_local_payload C t = Inr payload"
    and "ns_remote_static_pub t = kp_public_key k \<Longrightarrow>
      verify_remote_identity C payload t = (Inr (), t\<lparr>ns_remote_peer_id := public_identity s,
        ns_remote_extensions := public_extensions s\<rparr>)"
    and "length payload \<le> 200 + length (serialize_extensions (ns_local_extensions s))"
  using assms by (simp_all add: payload_for_def)

lemma local_payload_verifies:
  assumes "crypto_ok C" and "local_payload_ok C s"
  obtains payload where "payload_for C s k payload"
proof (cases "ns_local_identity s")
  case None
  then show ?thesis
    by (intro that [of "[]"])
       (simp add: payload_for_def make_local_payload_def verify_remote_identity_def public_identity_def public_extensions_def)
next
  case (Some i)
  with assms(2) have "signing_key C (id_secret_key i)" "small_extensions (ns_local_extensions s)"
    by (simp_all add: local_payload_ok_def)
  from handshake_payload_verifies [OF assms(1) this, of k]
  obtain payload where "make_handshake_payload C i k (ns_local_extensions s) = Inr payload"
    and "length payload \<le> 200 + length (serialize_extensions (ns_local_extensions s))"
    and "\<And>t. ns_remote_static_pub t = kp_public_key k \<Longrightarrow>
      verify_remote_identity C payload t = (Inr (), t\<lparr>ns_remote_peer_id := Some (PeerId (drop 32 (id_secret_key i))),
        ns_remote_extensions := ns_local_extensions s\<rparr>)"
    by metis
  with Some show ?thesis
    by (intro that [of payload])
       (simp add: payload_for_def make_local_payload_def public_identity_def public_extensions_def)
qed

section \<open>The handshake\<close>

definition initial_sym :: "crypto \<Rightarrow> symmetric" where
  "initial_sym C = (let h = bytes_of kProtocolName in (h, sha256 C h, empty_cipher))"

lemma kProtocolName_length: "length kProtocolName = 32"
  by (simp add: kProtocolName_def)

lemma initialize_symmetric_eq:
  "initialize_symmetric C s = put_sym (initial_sym C)
    (s\<lparr>ns_remote_peer_id := None, ns_remote_extensions := no_extensions, ns_handshake_complete := False,
       ns_has_remote_ephemeral := False, ns_has_remote_static := False,
       ns_cs_send := empty_cipher, ns_cs_recv := empty_cipher\<rparr>)"
  by (simp add: initialize_symmetric_def mix_hash_def put_sym_def initial_sym_def kProtocolName_length
      zeros_def Let_def)

lemma initial_no_key [simp]: "\<not> has_key (initial_sym C)"
  by (simp add: has_key_def initial_sym_def empty_cipher_def Let_def)

text \<open>The keys a session will use: the configured pairs, or pairs made of the drawn bytes.\<close>

definition chosen_ephemeral :: "crypto \<Rightarrow> draws \<Rightarrow> noise_session \<Rightarrow> noise_keypair" where
  "chosen_ephemeral C draws s = fst (take_or_generate_keypair C (fst draws) (ns_configured_ephemeral s))"

definition chosen_static :: "crypto \<Rightarrow> draws \<Rightarrow> noise_session \<Rightarrow> noise_keypair" where
  "chosen_static C draws s = fst (take_or_generate_keypair C (snd draws) (ns_configured_static s))"

lemma take_keys_eq:
  "take_keys C draws s = s\<lparr>ns_ephemeral := chosen_ephemeral C draws s, ns_configured_ephemeral := None,
     ns_static_key := chosen_static C draws s, ns_configured_static := None\<rparr>"
  by (simp add: take_keys_def take_or_generate_keypair_def chosen_ephemeral_def chosen_static_def
      split: option.splits)

lemma sym_key_updates [simp]:
  "sym (s\<lparr>ns_ephemeral := e\<rparr>) = sym s" "sym (s\<lparr>ns_configured_ephemeral := c\<rparr>) = sym s"
  "sym (s\<lparr>ns_static_key := e\<rparr>) = sym s" "sym (s\<lparr>ns_configured_static := c\<rparr>) = sym s"
  by (simp_all add: sym_def)

lemma chosen_put_sym [simp]:
  "chosen_ephemeral C draws (put_sym y s) = chosen_ephemeral C draws s"
  "chosen_static C draws (put_sym y s) = chosen_static C draws s"
  by (simp_all add: chosen_ephemeral_def chosen_static_def put_sym_def)

text \<open>Both ends of a session that may start a handshake.\<close>

definition ready_for_handshake :: "crypto \<Rightarrow> draws \<Rightarrow> noise_session \<Rightarrow> bool" where
  "ready_for_handshake C draws s \<longleftrightarrow>
     key_pair C (chosen_ephemeral C draws s) \<and> key_pair C (chosen_static C draws s) \<and> local_payload_ok C s"

text \<open>A session just after \<open>initialize_symmetric\<close> and the choice of its keys, but for the symmetric
  state.\<close>

definition started :: "crypto \<Rightarrow> draws \<Rightarrow> bool \<Rightarrow> noise_session \<Rightarrow> noise_session" where
  "started C draws initiator s =
     s\<lparr>ns_is_initiator := initiator, ns_remote_peer_id := None, ns_remote_extensions := no_extensions,
       ns_handshake_complete := False, ns_has_remote_ephemeral := False, ns_has_remote_static := False,
       ns_cs_send := empty_cipher, ns_cs_recv := empty_cipher,
       ns_ephemeral := chosen_ephemeral C draws s, ns_configured_ephemeral := None,
       ns_static_key := chosen_static C draws s, ns_configured_static := None\<rparr>"

lemma started_fields [simp]:
  "ns_is_initiator (started C draws b s) = b"
  "ns_ephemeral (started C draws b s) = chosen_ephemeral C draws s"
  "ns_static_key (started C draws b s) = chosen_static C draws s"
  "ns_local_identity (started C draws b s) = ns_local_identity s"
  "ns_local_extensions (started C draws b s) = ns_local_extensions s"
  by (simp_all add: started_def)

lemma write_msg1_runs:
  assumes "crypto_ok C"
  shows "write_msg1 C draws s = (kp_public_key (chosen_ephemeral C draws s),
    put_sym (hash_sym C [] (hash_sym C (kp_public_key (chosen_ephemeral C draws s)) (initial_sym C)))
      (started C draws True s))"
proof -
  let ?e = "kp_public_key (chosen_ephemeral C draws s)"
  let ?y1 = "hash_sym C ?e (initial_sym C)"
  have start: "take_keys C draws (initialize_symmetric C (s\<lparr>ns_is_initiator := True\<rparr>))
      = put_sym (initial_sym C) (started C draws True s)"
    by (simp add: take_keys_eq initialize_symmetric_eq started_def put_sym_def chosen_ephemeral_def chosen_static_def)
  have "encrypt_and_hash C [] (put_sym ?y1 (started C draws True s))
      = (Inr [], put_sym (hash_sym C [] ?y1) (started C draws True s))"
    using runs_plain(1) [of ?y1 C "[]"] by (simp add: runs_def)
  then show ?thesis
    using assms by (simp add: write_msg1_def start mix_hash_sym Let_def)
qed

lemma process_msg1_runs:
  assumes ok: "crypto_ok C" and len: "length e = 32"
    and eR: "eR = chosen_ephemeral C draws s" and sR: "sR = chosen_static C draws s"
    and y3: "y3 = hash_sym C (kp_public_key eR) (hash_sym C [] (hash_sym C e (initial_sym C)))"
    and ee: "compute_shared_secret C eR e = Inr kee" "runs (mix_key C kee) y3 () y4"
    and st: "runs (encrypt_and_hash C (kp_public_key sR)) y4 c1 y5"
    and es: "compute_shared_secret C sR e = Inr kes" "runs (mix_key C kes) y5 () y6"
    and pay: "\<And>t. ns_local_identity t = ns_local_identity s \<Longrightarrow> ns_static_key t = sR \<Longrightarrow>
      ns_local_extensions t = ns_local_extensions s \<Longrightarrow> make_local_payload C t = Inr payload"
    and cp: "runs (encrypt_and_hash C payload) y6 c2 y7"
  shows "process_msg1 C draws e s = (Inr (kp_public_key eR @ c1 @ c2),
    put_sym y7 ((started C draws False s)\<lparr>ns_remote_ephemeral_pub := e, ns_has_remote_ephemeral := True\<rparr>))"
proof -
  let ?y1 = "hash_sym C e (initial_sym C)"
  let ?s1 = "(initialize_symmetric C (s\<lparr>ns_is_initiator := False\<rparr>))
      \<lparr>ns_remote_ephemeral_pub := e, ns_has_remote_ephemeral := True\<rparr>"
  let ?t = "(started C draws False s)\<lparr>ns_remote_ephemeral_pub := e, ns_has_remote_ephemeral := True\<rparr>"
  note dec = runs_relabel [OF runs_plain(2) [of ?y1 C "[]"], of "\<lambda>e. ''noise msg1 payload decrypt failed: '' @ e"]
  have sym1: "sym (mix_hash C e ?s1) = ?y1"
    by (simp add: mix_hash_sym initialize_symmetric_eq)
  have keys: "take_keys C draws (put_sym (hash_sym C [] ?y1) (mix_hash C e ?s1)) = put_sym (hash_sym C [] ?y1) ?t"
    by (simp add: take_keys_eq started_def mix_hash_sym put_sym_def initialize_symmetric_eq
        chosen_ephemeral_def chosen_static_def)
  have sy: "sym (put_sym y ?t) = y" for y by simp
  show ?thesis
    using ok len
    by (simp add: process_msg1_def runs_and_then [OF dec] sym1 keys mix_hash_sym [of C _ "put_sym y ?t" for y]
        eR [symmetric] sR [symmetric] y3 [symmetric]
        mix_key_dh_shared [OF ee(1)] runs_and_then [OF ee(2)] runs_and_then [OF st]
        mix_key_dh_shared [OF es(1)] runs_and_then [OF es(2)] pay runs_and_then [OF cp] Let_def)
qed

lemma kEncryptedStaticLen_eq: "kEncryptedStaticLen = 48"
  by (simp add: kEncryptedStaticLen_def kAeadTagBytes_def)

text \<open>The transport keys a session derives from its symmetric state.\<close>

definition with_transport :: "bytes \<times> bytes \<Rightarrow> noise_session \<Rightarrow> noise_session" where
  "with_transport ks s =
     (if ns_is_initiator s
      then s\<lparr>ns_cs_send := fresh_cipher (fst ks), ns_cs_recv := fresh_cipher (snd ks), ns_handshake_complete := True\<rparr>
      else s\<lparr>ns_cs_send := fresh_cipher (snd ks), ns_cs_recv := fresh_cipher (fst ks), ns_handshake_complete := True\<rparr>)"

lemma split_transport_runs:
  assumes "hkdf2 C (fst y) [] = Inr ks"
  shows "and_then (split_transport C) (\<lambda>_. and_then (update (\<lambda>s. s\<lparr>ns_handshake_complete := True\<rparr>)) f) (put_sym y s)
      = f () (with_transport ks (put_sym y s))"
    and "and_then (split_transport C) (\<lambda>_. update (\<lambda>s. s\<lparr>ns_handshake_complete := True\<rparr>)) (put_sym y s)
      = (Inr (), with_transport ks (put_sym y s))"
  using assms by (cases ks; simp add: split_transport_def with_transport_def and_then_def)+

lemma with_transport_fields [simp]:
  "ns_handshake_complete (with_transport ks s)"
  "ns_remote_peer_id (with_transport ks s) = ns_remote_peer_id s"
  "ns_remote_extensions (with_transport ks s) = ns_remote_extensions s"
  "ns_local_extensions (with_transport ks s) = ns_local_extensions s"
  "ns_handshake_hash (with_transport ks s) = ns_handshake_hash s"
  "ns_cs_send (with_transport ks s) = fresh_cipher (if ns_is_initiator s then fst ks else snd ks)"
  "ns_cs_recv (with_transport ks s) = fresh_cipher (if ns_is_initiator s then snd ks else fst ks)"
  by (simp_all add: with_transport_def)

lemma process_msg2_runs:
  assumes ok: "crypto_ok C" and len: "length e = 32" "length c1 = 48" "length rs = 32"
    and y: "sym s = y2" "y3 = hash_sym C e y2"
    and ee: "compute_shared_secret C (ns_ephemeral s) e = Inr kee" "runs (mix_key C kee) y3 () y4"
    and st: "runs (decrypt_and_hash C c1) y4 rs y5"
    and es: "compute_shared_secret C (ns_ephemeral s) rs = Inr kes" "runs (mix_key C kes) y5 () y6"
    and dp: "runs (decrypt_and_hash C c2) y6 rp y7"
    and ver: "\<And>t. ns_remote_static_pub t = rs \<Longrightarrow>
      verify_remote_identity C rp t = (Inr (), t\<lparr>ns_remote_peer_id := who, ns_remote_extensions := ext\<rparr>)"
    and sl: "runs (encrypt_and_hash C (kp_public_key (ns_static_key s))) y7 c3 y8"
    and se: "compute_shared_secret C (ns_static_key s) e = Inr kse" "runs (mix_key C kse) y8 () y9"
    and pay: "\<And>t. ns_local_identity t = ns_local_identity s \<Longrightarrow> ns_static_key t = ns_static_key s \<Longrightarrow>
      ns_local_extensions t = ns_local_extensions s \<Longrightarrow> make_local_payload C t = Inr payload"
    and cp: "runs (encrypt_and_hash C payload) y9 c4 y10"
    and sp: "hkdf2 C (fst y10) [] = Inr ks"
  shows "process_msg2 C (e @ c1 @ c2) s = (Inr (c3 @ c4), with_transport ks (put_sym y10
    (s\<lparr>ns_remote_ephemeral_pub := e, ns_has_remote_ephemeral := True, ns_remote_static_pub := rs,
       ns_has_remote_static := True, ns_remote_peer_id := who, ns_remote_extensions := ext\<rparr>)))"
proof -
  have y3: "sym (mix_hash C e (s\<lparr>ns_remote_ephemeral_pub := e, ns_has_remote_ephemeral := True\<rparr>)) = y3"
    by (simp add: mix_hash_sym y)
  have f: "ns_ephemeral (mix_hash C e t) = ns_ephemeral t" "ns_remote_ephemeral_pub (mix_hash C e t) = ns_remote_ephemeral_pub t"
    "put_sym y (mix_hash C e t) = put_sym y t" for y t
    by (simp_all add: mix_hash_sym)
  have v: "and_then (verify_remote_identity C rp) f t = f () (t\<lparr>ns_remote_peer_id := who, ns_remote_extensions := ext\<rparr>)"
    if "ns_remote_static_pub t = rs" for f t
    using ver [OF that] by (simp add: and_then_def)
  have c: "(put_sym a t)\<lparr>ns_remote_static_pub := k, ns_has_remote_static := b\<rparr>
        = put_sym a (t\<lparr>ns_remote_static_pub := k, ns_has_remote_static := b\<rparr>)"
    "(put_sym a t)\<lparr>ns_remote_peer_id := p, ns_remote_extensions := x\<rparr>
        = put_sym a (t\<lparr>ns_remote_peer_id := p, ns_remote_extensions := x\<rparr>)" for a t k b p x
    by (simp_all add: put_sym_def)
  show ?thesis
    using ok len
    by (simp add: process_msg2_def kEncryptedStaticLen_eq y3 f c
        mix_key_dh_shared [OF ee(1)] runs_and_then [OF ee(2)] runs_and_then [OF runs_relabel [OF st]]
        mix_key_dh_shared [OF es(1)] runs_and_then [OF es(2)] runs_and_then [OF runs_relabel [OF dp]] v
        runs_and_then [OF sl] mix_key_dh_shared [OF se(1)] runs_and_then [OF se(2)] pay
        runs_and_then [OF cp] split_transport_runs [OF sp])
qed

lemma process_msg3_runs:
  assumes len: "length c3 = 48" "length rs = 32" and y: "sym s = y7"
    and st: "runs (decrypt_and_hash C c3) y7 rs y8"
    and se: "compute_shared_secret C (ns_ephemeral s) rs = Inr kse" "runs (mix_key C kse) y8 () y9"
    and dp: "runs (decrypt_and_hash C c4) y9 rp y10"
    and ver: "\<And>t. ns_remote_static_pub t = rs \<Longrightarrow>
      verify_remote_identity C rp t = (Inr (), t\<lparr>ns_remote_peer_id := who, ns_remote_extensions := ext\<rparr>)"
    and sp: "hkdf2 C (fst y10) [] = Inr ks"
  shows "process_msg3 C (c3 @ c4) s = (Inr (), with_transport ks (put_sym y10
    (s\<lparr>ns_remote_static_pub := rs, ns_has_remote_static := True, ns_remote_peer_id := who,
       ns_remote_extensions := ext\<rparr>)))"
proof -
  have v: "and_then (verify_remote_identity C rp) f t = f () (t\<lparr>ns_remote_peer_id := who, ns_remote_extensions := ext\<rparr>)"
    if "ns_remote_static_pub t = rs" for f t
    using ver [OF that] by (simp add: and_then_def)
  have c: "(put_sym a t)\<lparr>ns_remote_static_pub := k, ns_has_remote_static := b\<rparr>
        = put_sym a (t\<lparr>ns_remote_static_pub := k, ns_has_remote_static := b\<rparr>)"
    "(put_sym a t)\<lparr>ns_remote_peer_id := p, ns_remote_extensions := x\<rparr>
        = put_sym a (t\<lparr>ns_remote_peer_id := p, ns_remote_extensions := x\<rparr>)" for a t k b p x
    by (simp_all add: put_sym_def)
  show ?thesis
    using len
    by (simp add: process_msg3_def kEncryptedStaticLen_eq y c runs_and_then [OF runs_relabel [OF st]]
        mix_key_dh_shared [OF se(1)] runs_and_then [OF se(2)] runs_and_then [OF runs_relabel [OF dp]] v
        split_transport_runs [OF sp])
qed

definition agreed :: "noise_session \<Rightarrow> noise_session \<Rightarrow> bool" where
  "agreed a b \<longleftrightarrow>
     ns_handshake_complete a \<and> ns_handshake_complete b
     \<and> ns_cs_send a = ns_cs_recv b \<and> ns_cs_recv a = ns_cs_send b
     \<and> cs_has_key (ns_cs_send a) \<and> cs_nonce (ns_cs_send a) = 0
     \<and> cs_has_key (ns_cs_recv a) \<and> cs_nonce (ns_cs_recv a) = 0
     \<and> ns_handshake_hash a = ns_handshake_hash b"

lemma handshake_completes:
  assumes ok: "crypto_ok C" and I: "ready_for_handshake C dI i" and R: "ready_for_handshake C dR r"
  shows "\<exists>msg1 i1 msg2 r1 msg3 i2 r2.
      write_msg1 C dI i = (msg1, i1) \<and> msg1 \<noteq> []
    \<and> process_msg1 C dR msg1 r = (Inr msg2, r1)
    \<and> process_msg2 C msg2 i1 = (Inr msg3, i2)
    \<and> process_msg3 C msg3 r1 = (Inr (), r2)
    \<and> agreed i2 r2
    \<and> ns_remote_peer_id i2 = public_identity r \<and> ns_remote_extensions i2 = public_extensions r
    \<and> ns_remote_peer_id r2 = public_identity i \<and> ns_remote_extensions r2 = public_extensions i
    \<and> ns_local_extensions i2 = ns_local_extensions i \<and> ns_local_extensions r2 = ns_local_extensions r
    \<and> length msg1 = 32 \<and> length msg2 \<le> 296 + length (serialize_extensions (ns_local_extensions r))
    \<and> length msg3 \<le> 264 + length (serialize_extensions (ns_local_extensions i))"
proof -
  define eI sI eR sR where keys: "eI = chosen_ephemeral C dI i" "sI = chosen_static C dI i"
    "eR = chosen_ephemeral C dR r" "sR = chosen_static C dR r"
  have kp: "key_pair C eI" "key_pair C sI" "key_pair C eR" "key_pair C sR"
    and pay_ok: "local_payload_ok C i" "local_payload_ok C r"
    using I R by (simp_all add: ready_for_handshake_def keys)
  note len = kp [THEN key_pair_length [OF ok]]
  obtain kee where ee: "compute_shared_secret C eR (kp_public_key eI) = Inr kee"
    "compute_shared_secret C eI (kp_public_key eR) = Inr kee" by (rule shared_secret [OF ok kp(3,1)])
  obtain kes where es: "compute_shared_secret C sR (kp_public_key eI) = Inr kes"
    "compute_shared_secret C eI (kp_public_key sR) = Inr kes" by (rule shared_secret [OF ok kp(4,1)])
  obtain kse where se: "compute_shared_secret C sI (kp_public_key eR) = Inr kse"
    "compute_shared_secret C eR (kp_public_key sI) = Inr kse" by (rule shared_secret [OF ok kp(2,3)])
  define y2 where "y2 = hash_sym C [] (hash_sym C (kp_public_key eI) (initial_sym C))"
  define y3 where "y3 = hash_sym C (kp_public_key eR) y2"
  obtain y4 where y4: "runs (mix_key C kee) y3 () y4" "has_key y4" by (rule runs_mix_key [OF ok])
  obtain c1 y5 where y5: "runs (encrypt_and_hash C (kp_public_key sR)) y4 c1 y5"
    "runs (decrypt_and_hash C c1) y4 (kp_public_key sR) y5" and c1: "length c1 = 48"
    by (rule runs_crypt [OF ok y4(2), of "kp_public_key sR"]) (simp_all add: len kAeadTagBytes_def)
  obtain y6 where y6: "runs (mix_key C kes) y5 () y6" "has_key y6" by (rule runs_mix_key [OF ok])
  obtain pR where pR: "payload_for C r sR pR" by (rule local_payload_verifies [OF ok pay_ok(2)])
  obtain c2 y7 where y7: "runs (encrypt_and_hash C pR) y6 c2 y7" "runs (decrypt_and_hash C c2) y6 pR y7" "has_key y7"
    and c2: "length c2 = length pR + kAeadTagBytes"
    by (rule runs_crypt [OF ok y6(2)])
  obtain c3 y8 where y8: "runs (encrypt_and_hash C (kp_public_key sI)) y7 c3 y8"
    "runs (decrypt_and_hash C c3) y7 (kp_public_key sI) y8" and c3: "length c3 = 48"
    by (rule runs_crypt [OF ok y7(3), of "kp_public_key sI"]) (simp_all add: len kAeadTagBytes_def)
  obtain y9 where y9: "runs (mix_key C kse) y8 () y9" "has_key y9" by (rule runs_mix_key [OF ok])
  obtain pI where pI: "payload_for C i sI pI" by (rule local_payload_verifies [OF ok pay_ok(1)])
  obtain c4 y10 where y10: "runs (encrypt_and_hash C pI) y9 c4 y10" "runs (decrypt_and_hash C c4) y9 pI y10"
    and c4: "length c4 = length pI + kAeadTagBytes"
    by (rule runs_crypt [OF ok y9(2)])
  obtain ks where ks: "hkdf2 C (fst y10) [] = Inr ks" by (rule hkdf2_total [OF ok])
  define i1 where "i1 = put_sym y2 (started C dI True i)"
  have i1: "ns_ephemeral i1 = eI" "ns_static_key i1 = sI" "ns_local_identity i1 = ns_local_identity i"
    "ns_local_extensions i1 = ns_local_extensions i" "sym i1 = y2"
    by (simp_all add: i1_def keys)
  have m1: "write_msg1 C dI i = (kp_public_key eI, i1)"
    using write_msg1_runs [OF ok, of dI i] by (simp add: i1_def y2_def keys)
  note m2 = process_msg1_runs [OF ok len(1) keys(3,4) y3_def [unfolded y2_def] ee(1) y4(1) y5(1) es(1) y6(1) payload_forD(1) [OF pR] y7(1)]
  note m3 = process_msg2_runs [OF ok len(3) c1 len(4) i1(5) y3_def ee(2) [folded i1(1)] y4(1) y5(2)
      es(2) [folded i1(1)] y6(1) y7(2) payload_forD(2) [OF pR] y8(1) [folded i1(2)] se(1) [folded i1(2)] y9(1) payload_forD(1) [OF pI, folded i1(2-4)] y10(1) ks]
  define r1 where "r1 = put_sym y7 ((started C dR False r)\<lparr>ns_remote_ephemeral_pub := kp_public_key eI,
      ns_has_remote_ephemeral := True\<rparr>)"
  have r1: "ns_ephemeral r1 = eR" "sym r1 = y7" by (simp_all add: r1_def keys)
  note m4 = process_msg3_runs [OF c3 len(2) r1(2) y8(2) se(2) [folded r1(1)] y9(1) y10(2) payload_forD(2) [OF pI] ks]
  define i2 where "i2 = with_transport ks (put_sym y10
      (i1\<lparr>ns_remote_ephemeral_pub := kp_public_key eR, ns_has_remote_ephemeral := True,
          ns_remote_static_pub := kp_public_key sR, ns_has_remote_static := True,
          ns_remote_peer_id := public_identity r, ns_remote_extensions := public_extensions r\<rparr>))"
  define r2 where "r2 = with_transport ks (put_sym y10
      (r1\<lparr>ns_remote_static_pub := kp_public_key sI, ns_has_remote_static := True,
          ns_remote_peer_id := public_identity i, ns_remote_extensions := public_extensions i\<rparr>))"
  have "ns_is_initiator i1" and "\<not> ns_is_initiator r1" by (simp_all add: i1_def r1_def)
  then have "agreed i2 r2" by (simp add: agreed_def i2_def r2_def fresh_cipher_def)
  moreover have "ns_remote_peer_id i2 = public_identity r" "ns_remote_extensions i2 = public_extensions r"
    "ns_remote_peer_id r2 = public_identity i" "ns_remote_extensions r2 = public_extensions i"
    by (simp_all add: i2_def r2_def)
  moreover have "kp_public_key eI \<noteq> []" using len(1) by auto
  moreover have "ns_local_extensions i2 = ns_local_extensions i" "ns_local_extensions r2 = ns_local_extensions r"
    by (simp_all add: i2_def r2_def i1_def r1_def)
  moreover have "length (kp_public_key eI) = 32"
    "length (kp_public_key eR @ c1 @ c2) \<le> 296 + length (serialize_extensions (ns_local_extensions r))"
    "length (c3 @ c4) \<le> 264 + length (serialize_extensions (ns_local_extensions i))"
    using len c1 c2 c3 c4 payload_forD(3) [OF pR] payload_forD(3) [OF pI] by (simp_all add: kAeadTagBytes_def)
  moreover note m1 m2 [folded r1_def] m3 [folded i2_def] m4 [folded r2_def]
  ultimately show ?thesis by metis
qed

section \<open>An identity is only reported with a valid signature\<close>

definition authentic :: "crypto \<Rightarrow> noise_session \<Rightarrow> bool" where
  "authentic C s \<longleftrightarrow>
     (\<forall>p. ns_remote_peer_id s = Some p \<longrightarrow> wf_peer_id p \<and>
        (\<exists>sig. sign_verify C sig (signature_message (ns_remote_static_pub s)) (peer_bytes p)))"

lemma verify_ensures: "ensures P (verify_remote_identity C payload) (authentic C)"
proof (rule ensuresI)
  fix s r t assume "verify_remote_identity C payload s = (Inr r, t)"
  then consider "ns_remote_peer_id t = None"
    | pl pub where "verify_handshake_payload C pl (ns_remote_static_pub s) = Inr ()"
        "parse_public_key_ed25519 (identity_key pl) = Inr pub"
        "ns_remote_peer_id t = Some (PeerId pub)" "ns_remote_static_pub t = ns_remote_static_pub s"
    by (auto simp: verify_remote_identity_def peer_id_from_bytes_def split: if_splits sum.splits)
  then show "authentic C t"
  proof cases
    case 2
    then have "sign_verify C (take 64 (identity_sig pl)) (signature_message (ns_remote_static_pub s)) pub"
      by (auto simp: verify_handshake_payload_def bind_result_Inr_iff split: if_splits)
    with 2 parse_public_key_length show ?thesis
      by (auto simp: authentic_def wf_peer_id_def)
  qed (simp add: authentic_def)
qed

lemma symmetric_ensures [after_success]:
  "ensures (authentic C) (mix_key C' x) (authentic C)"
  "ensures (authentic C) (mix_key_dh C' kp k) (authentic C)"
  "ensures (authentic C) (encrypt_and_hash C' bs) (authentic C)"
  "ensures (authentic C) (split_transport C') (authentic C)"
  by (auto simp: ensures_def authentic_def mix_key_dh_def mix_key_def encrypt_and_hash_def split_transport_def
      mix_hash_def Let_def split: sum.splits if_splits)

lemma complete_ensures [after_success]:
  "ensures (authentic C) (update (\<lambda>s. s\<lparr>ns_handshake_complete := b\<rparr>)) (authentic C)"
  by (simp add: ensures_def authentic_def)

lemma process_msg_authentic:
  "ensures (\<lambda>_. True) (process_msg2 C m) (authentic C)"
  "ensures (\<lambda>_. True) (process_msg3 C m) (authentic C)"
  unfolding process_msg2_def process_msg3_def
  by (rule ensures_and_then [OF verify_ensures] | rule ensures_skip | rule ensures_if
      | rule ensures_keep | rule after_success)+

section \<open>Transport messages\<close>

lemma bump_nonce_fields [simp]:
  "cs_key (bump_nonce cs) = cs_key cs" "cs_has_key (bump_nonce cs) = cs_has_key cs"
  by (simp_all add: bump_nonce_def)

lemma unat_u64_max: "unat u64_max = 2 ^ 64 - 1"
  by (simp add: u64_max_def)

lemma bump_nonce_value:
  assumes "cs_nonce cs \<noteq> u64_max"
  shows "unat (cs_nonce (bump_nonce cs)) = unat (cs_nonce cs) + 1"
proof -
  have "unat (cs_nonce cs) \<noteq> 2 ^ 64 - 1"
    using assms unat_u64_max by (metis word_unat_eq_iff)
  then have "unat (cs_nonce cs) + 1 < 2 ^ 64"
    using unsigned_less [of "cs_nonce cs", where ?'a = nat] by simp
  then show ?thesis by (simp add: bump_nonce_def unat_word_ariths)
qed

lemma encrypt_cases:
  assumes "encrypt C p cs = (r, cs')"
  shows "case r of Inl _ \<Rightarrow> cs' = cs
    | Inr c \<Rightarrow> cs_has_key cs \<and> cs_nonce cs \<noteq> u64_max \<and> cs' = bump_nonce cs
        \<and> encrypt_with_key C (cs_key cs) (cs_nonce cs) p [] = Inr c"
  using assms by (auto simp: encrypt_def split: if_splits sum.splits)

lemma decrypt_cases:
  assumes "decrypt C c cs = (r, cs')"
  shows "case r of Inl _ \<Rightarrow> cs' = cs
    | Inr p \<Rightarrow> cs_has_key cs \<and> cs_nonce cs \<noteq> u64_max \<and> cs' = bump_nonce cs
        \<and> decrypt_with_key C (cs_key cs) (cs_nonce cs) c [] = Inr p"
  using assms by (auto simp: decrypt_def split: if_splits sum.splits)

lemma encrypt_decrypt:
  assumes "crypto_ok C" and "cs_has_key cs" and "cs_nonce cs \<noteq> u64_max"
  obtains c where "encrypt C p cs = (Inr c, bump_nonce cs)" and "decrypt C c cs = (Inr p, bump_nonce cs)"
    and "length c = length p + kAeadTagBytes"
proof -
  obtain c where "encrypt_with_key C (cs_key cs) (cs_nonce cs) p [] = Inr c"
    "decrypt_with_key C (cs_key cs) (cs_nonce cs) c [] = Inr p" "length c = length p + kAeadTagBytes"
    by (rule aead_total [OF assms(1)])
  with assms show ?thesis by (intro that [of c]) (simp_all add: encrypt_def decrypt_def)
qed

lemma for_each_Cons:
  "f x s = (Inr y, t) \<Longrightarrow> for_each f xs t = (Inr ys, u) \<Longrightarrow> for_each f (x # xs) s = (Inr (y # ys), u)"
  by (simp add: and_then_def)

lemma transport_in_sync:
  assumes "crypto_ok C" and "cs_has_key cs" and "unat (cs_nonce cs) + length msgs < 2 ^ 64"
  shows "\<exists>cts cs'. for_each (encrypt C) msgs cs = (Inr cts, cs') \<and> for_each (decrypt C) cts cs = (Inr msgs, cs')
    \<and> unat (cs_nonce cs') = unat (cs_nonce cs) + length msgs"
  using assms(2,3)
proof (induction msgs arbitrary: cs)
  case (Cons m msgs)
  then have small: "unat (cs_nonce cs) \<noteq> unat u64_max" by (simp add: u64_max_def)
  then have max: "cs_nonce cs \<noteq> u64_max" by auto
  obtain c where c: "encrypt C m cs = (Inr c, bump_nonce cs)" "decrypt C c cs = (Inr m, bump_nonce cs)"
    by (rule encrypt_decrypt [OF assms(1) Cons.prems(1) max])
  obtain cts cs' where "for_each (encrypt C) msgs (bump_nonce cs) = (Inr cts, cs')"
    "for_each (decrypt C) cts (bump_nonce cs) = (Inr msgs, cs')"
    "unat (cs_nonce cs') = unat (cs_nonce (bump_nonce cs)) + length msgs"
    using Cons.IH [of "bump_nonce cs"] Cons.prems bump_nonce_value [OF max] by auto
  with c bump_nonce_value [OF max] show ?case
    by (intro exI [of _ "c # cts"] exI [of _ cs']) (simp add: for_each_Cons del: for_each.simps)
qed simp

section \<open>An instance, for the witnesses\<close>

text \<open>A cipher suite that satisfies the laws (and protects nothing).\<close>

definition toy_crypto :: crypto where
  "toy_crypto =
     \<lparr>sodium_ready = True, sha256 = (\<lambda>bs. take 32 (bs @ zeros 32)), hmac256 = (\<lambda>k d. Some (take 32 (d @ k))),
      x25519 = (\<lambda>a b. Some (map2 (XOR) a b)), x25519_base = (\<lambda>a. a),
      aead_encrypt = (\<lambda>k n ad p. Some (p @ zeros 16)),
      aead_decrypt = (\<lambda>k n ad c. Some (take (length c - 16) c)),
      sign_detached = (\<lambda>sk m. Some (zeros 64)), sign_verify = (\<lambda>sig m pk. True)\<rparr>"

lemma map2_xor_commute: "map2 (XOR) a b = map2 (XOR) b (a :: bytes)"
  by (induction a b rule: list_induct2') (simp_all add: xor.commute)

lemma toy_crypto_ok: "crypto_ok toy_crypto"
  by (auto simp: crypto_ok_def toy_crypto_def zeros_def kAeadTagBytes_def intro: map2_xor_commute)

lemma toy_signing_key: "length sk = 64 \<Longrightarrow> signing_key toy_crypto sk"
  by (simp add: signing_key_def toy_crypto_def zeros_def)

lemma toy_base [simp]: "x25519_base toy_crypto a = a"
  by (simp add: toy_crypto_def)

definition toy_draws :: draws where
  "toy_draws = (replicate 32 1, replicate 32 2)"

definition toy_identity :: identity where
  "toy_identity = \<lparr>id_peer_id = PeerId (replicate 32 9), id_secret_key = replicate 64 9\<rparr>"

definition toy_initiator :: noise_session where
  "toy_initiator = new_noise_session\<lparr>ns_local_identity := Some toy_identity\<rparr>"

lemma toy_ready:
  "ready_for_handshake toy_crypto toy_draws toy_initiator"
  "ready_for_handshake toy_crypto toy_draws new_noise_session"
  by (simp_all add: ready_for_handshake_def key_pair_def chosen_ephemeral_def chosen_static_def
      take_or_generate_keypair_def generate_keypair_def toy_initiator_def new_noise_session_def toy_draws_def
      local_payload_ok_def toy_identity_def toy_signing_key small_extensions_def no_extensions_def
      serialize_extensions_def toy_base)

section \<open>Properties\<close>

text \<open>C3. The Noise XX handshake succeeds between two honest ends and they agree: the sending key of
  each is the receiving key of the other, both start at nonce 0, the handshake hashes are equal,
  and each knows the other's peer id (the public half of its identity key) and its extensions;
  an end without an identity stays anonymous.\<close>

theorem noise_handshake_agreement:
  assumes "crypto_ok C" and "ready_for_handshake C dI i" and "ready_for_handshake C dR r"
  shows "\<exists>msg1 i1 msg2 r1 msg3 i2 r2.
      write_msg1 C dI i = (msg1, i1) \<and> msg1 \<noteq> []
    \<and> process_msg1 C dR msg1 r = (Inr msg2, r1)
    \<and> process_msg2 C msg2 i1 = (Inr msg3, i2)
    \<and> process_msg3 C msg3 r1 = (Inr (), r2)
    \<and> agreed i2 r2
    \<and> ns_remote_peer_id i2 = public_identity r \<and> ns_remote_extensions i2 = public_extensions r
    \<and> ns_remote_peer_id r2 = public_identity i \<and> ns_remote_extensions r2 = public_extensions i"
  using handshake_completes [OF assms] by metis

theorem noise_handshake_agreement_witness:
  "\<exists>msg1 i1 msg2 r1 msg3 i2 r2.
      write_msg1 toy_crypto toy_draws toy_initiator = (msg1, i1)
    \<and> process_msg1 toy_crypto toy_draws msg1 new_noise_session = (Inr msg2, r1)
    \<and> process_msg2 toy_crypto msg2 i1 = (Inr msg3, i2)
    \<and> process_msg3 toy_crypto msg3 r1 = (Inr (), r2)
    \<and> agreed i2 r2 \<and> ns_remote_peer_id i2 = None
    \<and> ns_remote_peer_id r2 = Some (PeerId (replicate 32 9))"
proof -
  have "public_identity toy_initiator = Some (PeerId (replicate 32 9))"
    and "public_identity new_noise_session = None"
    by (simp_all add: public_identity_def toy_initiator_def toy_identity_def new_noise_session_def)
  with noise_handshake_agreement [OF toy_crypto_ok toy_ready] show ?thesis by metis
qed

text \<open>C8. A session that has processed the peer's static key (message 2 at the initiator, message 3 at
  the responder) names a remote peer only if that 32-byte key verified a signature of the Noise
  static key the peer proved to hold.\<close>

theorem remote_peer_is_authenticated:
  assumes "process_msg2 C m s = (Inr out, t) \<or> process_msg3 C m s = (Inr (), t)"
    and "ns_remote_peer_id t = Some p"
  shows "wf_peer_id p \<and>
    (\<exists>sig. sign_verify C sig (signature_message (ns_remote_static_pub t)) (peer_bytes p))"
proof -
  have "authentic C t"
    using assms(1) process_msg_authentic [THEN ensuresD] by blast
  with assms(2) show ?thesis by (simp add: authentic_def)
qed

theorem remote_peer_is_authenticated_witness:
  "\<exists>m r1 r2. process_msg3 toy_crypto m r1 = (Inr (), r2)
    \<and> ns_remote_peer_id r2 = Some (PeerId (replicate 32 9)) \<and> wf_peer_id (PeerId (replicate 32 9))"
proof -
  have "public_identity toy_initiator = Some (PeerId (replicate 32 9))"
    by (simp add: public_identity_def toy_initiator_def toy_identity_def)
  with handshake_completes [OF toy_crypto_ok toy_ready] obtain m r1 r2
    where run: "process_msg3 toy_crypto m r1 = (Inr (), r2)" "ns_remote_peer_id r2 = Some (PeerId (replicate 32 9))"
    by metis
  from remote_peer_is_authenticated [OF disjI2 [OF run(1)] run(2)] run show ?thesis by blast
qed

text \<open>C14. After the handshake any number of messages sent in order are received in order and
  unchanged, and both nonces stay equal, up to the last nonce.\<close>

theorem transport_messages_in_order:
  assumes "crypto_ok C" and "cs_has_key cs" and "unat (cs_nonce cs) + length msgs < 2 ^ 64"
  shows "\<exists>cts cs'. for_each (encrypt C) msgs cs = (Inr cts, cs') \<and> for_each (decrypt C) cts cs = (Inr msgs, cs')
    \<and> unat (cs_nonce cs') = unat (cs_nonce cs) + length msgs"
  using assms by (rule transport_in_sync)

theorem transport_messages_in_order_witness:
  "\<exists>cts cs'. for_each (encrypt toy_crypto) [[1], [2, 3]] (fresh_cipher (zeros 32)) = (Inr cts, cs')
    \<and> for_each (decrypt toy_crypto) cts (fresh_cipher (zeros 32)) = (Inr [[1], [2, 3]], cs')
    \<and> unat (cs_nonce cs') = 0 + length [[1], [2, 3 :: byte]]"
  using transport_messages_in_order [OF toy_crypto_ok, of "fresh_cipher (zeros 32)" "[[1], [2, 3]]"]
  by (simp add: fresh_cipher_def del: for_each.simps)

text \<open>What is encrypted under one cipher state: for each message that is not refused its nonce and its
  ciphertext.\<close>

fun encryptions :: "crypto \<Rightarrow> bytes list \<Rightarrow> cipher_state \<Rightarrow> (u64 \<times> bytes) list" where
  "encryptions C [] cs = []"
| "encryptions C (p # ps) cs =
     (case encrypt C p cs of
        (Inl _, cs') \<Rightarrow> encryptions C ps cs'
      | (Inr ct, cs') \<Rightarrow> (cs_nonce cs, ct) # encryptions C ps cs')"

lemma make_nonce_inj: "make_nonce m = make_nonce n \<Longrightarrow> m = n"
proof (rule bit_word_eqI)
  fix k
  assume eq: "make_nonce m = make_nonce n" and "k < LENGTH(64)"
  then have k: "k < 64" "k div 8 < 8" by simp_all
  have byte: "make_nonce w ! (4 + k div 8) = ucast (drop_bit (k div 8 * 8) w AND 0xFF)" for w
    using k(2) by (simp add: make_nonce_def nth_append)
  have "bit (make_nonce w ! (4 + k div 8)) (k mod 8) = bit w k" for w
  proof -
    have mask: "(255 :: u64) = mask 8" by (simp add: mask_eq_exp_minus_1)
    have "bit (255 :: u64) (k mod 8)" by (simp only: mask bit_mask_iff) simp
    with k(1) show ?thesis by (simp add: byte bit_simps)
  qed
  with eq show "bit m k = bit n k" by metis
qed

lemma encryptions_nonces:
  "set (map fst (encryptions C ps cs)) \<subseteq> {n. cs_nonce cs \<le> n \<and> n \<noteq> u64_max} \<and> distinct (map fst (encryptions C ps cs))"
proof (induction ps arbitrary: cs)
  case (Cons p ps)
  obtain r cs' where e: "encrypt C p cs = (r, cs')" by force
  show ?case
  proof (cases r)
    case (Inl err)
    with encrypt_cases [OF e] have "cs' = cs" by simp
    with Cons [of cs] e Inl show ?thesis by simp
  next
    case (Inr ct)
    with encrypt_cases [OF e] have cs': "cs_nonce cs \<noteq> u64_max" "cs' = bump_nonce cs" by simp_all
    then have "cs_nonce cs < cs_nonce cs'" using bump_nonce_value [of cs] by (simp add: word_less_nat_alt)
    with Cons [of cs'] e Inr cs'(1) show ?thesis by fastforce
  qed
qed simp


text \<open>The handshake payload a node makes is what its peer parses, and it verifies for the static
  key it was made for: the identity key, the signature and the list of stream muxers survive
  the protobuf encoding.\<close>

theorem handshake_payload_round_trip:
  assumes "length k = 32" and "length sig = 64" and "small_extensions ext"
  shows "parse_handshake_payload (assemble_payload (serialize_public_key_ed25519 k) sig ext)
      = Inr \<lparr>identity_key = serialize_public_key_ed25519 k, identity_sig = sig, extensions = ext\<rparr>
    \<and> parse_public_key_ed25519 (serialize_public_key_ed25519 k) = Inr k"
proof -
  have "sig \<noteq> []" using assms(2) by auto
  with assms length_serialize_key [OF assms(1)] show ?thesis
    by (simp add: parse_assembled_payload parse_public_key_serialize)
qed

theorem handshake_payload_round_trip_witness:
  "parse_handshake_payload (assemble_payload (serialize_public_key_ed25519 (replicate 32 5)) (replicate 64 6)
        \<lparr>stream_muxers = [''/yamux/1.0.0'']\<rparr>)
      = Inr \<lparr>identity_key = serialize_public_key_ed25519 (replicate 32 5), identity_sig = replicate 64 6,
          extensions = \<lparr>stream_muxers = [''/yamux/1.0.0'']\<rparr>\<rparr>"
proof -
  have "length (serialize_extensions \<lparr>stream_muxers = [''/yamux/1.0.0'']\<rparr>) \<le> 32"
    using length_encode_uvarint [of 18] length_encode_uvarint [of "12 :: u64"]
    by (simp add: serialize_extensions_def field_bytes)
  then have "small_extensions \<lparr>stream_muxers = [''/yamux/1.0.0'']\<rparr>"
    by (simp add: small_extensions_def)
  then show ?thesis
    using handshake_payload_round_trip [of "replicate 32 5" "replicate 64 6"] by simp
qed

text \<open>Wire frames: a message of at most 65535 bytes is framed and popped back whatever follows it,
  a longer one is refused, an incomplete frame stays in the buffer, and popping never reports
  an error.\<close>

theorem wire_frame_round_trip:
  "(if length m \<le> 65535
    then \<exists>frame. encode_frame m = Inr frame \<and> try_pop_wire_frame (frame @ rest) = Popped m rest
           \<and> list_all (\<lambda>n. try_pop_wire_frame (take n frame) = NoFrame) [0..<length frame]
    else encode_frame m = Inl ''noise frame too large'')
   \<and> try_pop_wire_frame buffer \<noteq> PopError e"
proof -
  have "try_pop_wire_frame (take n (framed m)) = NoFrame" if "fits_frame m" "n < length (framed m)" for n
  proof -
    have "wire_parse (take n (framed m)) = None"
      using wire.parse_strict_prefix [OF that(1) take_strict_prefix [OF that(2)]] .
    with try_pop_no_error show ?thesis
      by (cases "try_pop_wire_frame (take n (framed m))") (auto simp: wire_parse_def)
  qed
  then show ?thesis
    using try_pop_framed [of m rest] try_pop_no_error
    by (auto simp: encode_frame_eq fits_frame_def list_all_iff)
qed

end
