(* ===== verification/ConnectionLifecycle.thy ===== *)
theory ConnectionLifecycle
  imports ConnectionInput NoiseHandshake
begin

text \<open>
  The life of a connection: the order of its events, what holds between its states, its upgrade
  stages and its streams, in every state the handlers and the application can reach.
\<close>

section \<open>The order of events\<close>

text \<open>The log of a connection is read by an automaton: nothing but an error or the end before the
  secure channel is ready, then stream events, then at most one error, and the end is final.\<close>

datatype log_phase = LogUpgrading | LogSecured | LogUsable | LogFailed | LogOver

fun log_step :: "log_phase \<Rightarrow> event_type \<Rightarrow> log_phase option" where
  "log_step LogUpgrading EvSecured = Some LogSecured"
| "log_step LogSecured EvMultiplexerReady = Some LogUsable"
| "log_step LogUsable EvStreamOpened = Some LogUsable"
| "log_step LogUsable EvStreamAccepted = Some LogUsable"
| "log_step LogUsable EvStreamClosed = Some LogUsable"
| "log_step LogUpgrading EvError = Some LogFailed"
| "log_step LogUsable EvError = Some LogFailed"
| "log_step LogUpgrading EvClosed = Some LogOver"
| "log_step LogUsable EvClosed = Some LogOver"
| "log_step LogFailed EvClosed = Some LogOver"
| "log_step _ _ = None"

fun log_run :: "log_phase \<Rightarrow> connection_event list \<Rightarrow> log_phase option" where
  "log_run ph [] = Some ph"
| "log_run ph (ev # evs) =
     (case log_step ph (ev_type ev) of None \<Rightarrow> None | Some ph' \<Rightarrow> log_run ph' evs)"

fun phase_of :: "connection_state \<Rightarrow> log_phase" where
  "phase_of Ready = LogUsable"
| "phase_of Multiplexing = LogUsable"
| "phase_of SecureReady = LogSecured"
| "phase_of Failed = LogFailed"
| "phase_of Closed = LogOver"
| "phase_of _ = LogUpgrading"

lemma log_run_append:
  "log_run ph (evs @ evs') = (case log_run ph evs of None \<Rightarrow> None | Some ph' \<Rightarrow> log_run ph' evs')"
  by (induction evs arbitrary: ph) (simp_all split: option.splits)

lemma log_continue: "log_run s (log @ q) = Some ph \<Longrightarrow> log_run s (log @ q @ evs) = log_run ph evs"
  by (auto simp: log_run_append split: option.splits)

lemma log_run_usable:
  "events_in stream_traffic evs \<Longrightarrow> log_run LogUsable evs = Some LogUsable"
  by (induction evs) (auto simp: events_in_def stream_traffic_def)

section \<open>The invariant\<close>

definition log_inv :: "connection_event list \<Rightarrow> connection \<Rightarrow> bool" where
  "log_inv log c \<longleftrightarrow>
     log_run LogUpgrading (log @ cn_event_queue c) = Some (phase_of (cn_state c))
     \<and> (cn_closed_emitted c \<longleftrightarrow> cn_state c = Closed)"

definition upgrade_inv :: "connection \<Rightarrow> bool" where
  "upgrade_inv c \<longleftrightarrow>
     cn_state c \<in> {TcpAccepted, Securing, Ready, Failed, Closed}
     \<and> (cn_state c = Ready \<longrightarrow> sc_secure_ready (cn_secure c))
     \<and> (cn_state c \<in> {TcpAccepted, Securing} \<longrightarrow> \<not> sc_secure_ready (cn_secure c))
     \<and> (sc_secure_ready (cn_secure c) \<longleftrightarrow> sc_stage (cn_secure c) = StageReady)
     \<and> (sc_stage (cn_secure c) \<in> {MuxerNegotiation, StageReady} \<longrightarrow> validate_expected_remote_peer c = Inr ())"

definition streams_inv :: "connection \<Rightarrow> bool" where
  "streams_inv c \<longleftrightarrow>
     (case cn_stream_state c of None \<Rightarrow> cn_streams c = [] | Some p \<Rightarrow> length (cn_streams c) = p + 1)
     \<and> (\<forall>i. i + 1 < length (cn_streams c) \<longrightarrow> \<not> ss_open (cn_streams c ! i))
     \<and> (\<forall>i < length (cn_streams c). ss_id (cn_streams c ! i) = of_nat (i + 1))
     \<and> cn_next_stream_id c = of_nat (length (cn_streams c) + 1)
     \<and> (\<forall>ys. cn_yamux c = Some ys \<longrightarrow> yamux_inv ys \<and> cn_streams c = [])
     \<and> (\<not> sc_secure_ready (cn_secure c) \<longrightarrow>
          cn_yamux c = None \<and> cn_streams c = [] \<and> cn_pending_inbound c = [])"

definition socket_inv :: "connection \<Rightarrow> bool" where
  "socket_inv c \<longleftrightarrow>
     (io_socket_open (cn_io c) \<longleftrightarrow> 0 \<le> io_fd (cn_io c))
     \<and> (cn_state c = Closed \<longrightarrow> \<not> io_socket_open (cn_io c))"

definition conn_inv :: "connection_event list \<Rightarrow> connection \<Rightarrow> bool" where
  "conn_inv log c \<longleftrightarrow> log_inv log c \<and> upgrade_inv c \<and> streams_inv c \<and> socket_inv c"

definition live :: "connection_event list \<Rightarrow> connection \<Rightarrow> bool" where
  "live log c \<longleftrightarrow> conn_inv log c \<and> cn_state c \<in> {TcpAccepted, Securing, Ready}"

definition settled :: "connection_event list \<Rightarrow> connection \<Rightarrow> bool" where
  "settled log c \<longleftrightarrow> conn_inv log c \<and> cn_state c \<noteq> Failed"

lemmas inv_defs = conn_inv_def log_inv_def upgrade_inv_def streams_inv_def socket_inv_def

lemma live_settled: "live log c \<Longrightarrow> settled log c"
  by (auto simp: live_def settled_def)

lemma live_inv: "live log c \<Longrightarrow> conn_inv log c"
  by (simp add: live_def)

lemma settled_live:
  "settled log c \<Longrightarrow> cn_state c \<noteq> Closed \<Longrightarrow> live log c"
  by (auto simp: settled_def live_def inv_defs)

lemma live_secure: "live log c \<Longrightarrow> sc_secure_ready (cn_secure c) \<longleftrightarrow> cn_state c = Ready"
  by (auto simp: live_def inv_defs)

lemma new_connection_inv:
  assumes "0 \<le> socket_fd"
  shows "live [] (new_connection cid socket_fd remote_addr initiator identity muxers draws)"
  using assms by (simp add: live_def inv_defs new_connection_def new_io_def)

section \<open>Writing and closing keep it\<close>

lemma calm_shape:
  assumes "calm E c c'"
  shows "\<exists>evs. cn_event_queue c' = cn_event_queue c @ evs \<and> events_in E evs"
    and "E = {} \<Longrightarrow> cn_pending_inbound c' = cn_pending_inbound c"
    and "cn_next_stream_id c' = cn_next_stream_id c"
    and "list_all2 stream_later (cn_streams c) (cn_streams c')"
    and "io_fd (cn_io c') = io_fd (cn_io c)"
proof -
  from assms obtain evs pend
    where c': "c' = c\<lparr>cn_io := cn_io c', cn_secure := cn_secure c', cn_streams := cn_streams c',
      cn_event_queue := cn_event_queue c @ evs, cn_pending_inbound := cn_pending_inbound c @ pend\<rparr>"
    and "events_in E evs" and "E = {} \<longrightarrow> pend = []"
    unfolding calm_def by blast
  moreover have "cn_event_queue c' = cn_event_queue c @ evs" "cn_pending_inbound c' = cn_pending_inbound c @ pend"
    by (subst c', simp)+
  moreover show "cn_next_stream_id c' = cn_next_stream_id c" by (subst c', simp)
  ultimately show "\<exists>evs. cn_event_queue c' = cn_event_queue c @ evs \<and> events_in E evs"
    "E = {} \<Longrightarrow> cn_pending_inbound c' = cn_pending_inbound c" by auto
  show "list_all2 stream_later (cn_streams c) (cn_streams c')" "io_fd (cn_io c') = io_fd (cn_io c)"
    using assms unfolding calm_def by blast+
qed

lemma validate_cong:
  "cn_is_initiator c' = cn_is_initiator c \<Longrightarrow> cn_remote_addr c' = cn_remote_addr c \<Longrightarrow>
   ns_remote_peer_id (noise_of c') = ns_remote_peer_id (noise_of c) \<Longrightarrow>
   validate_expected_remote_peer c' = validate_expected_remote_peer c"
  by (simp add: validate_expected_remote_peer_def cong: sum.case_cong option.case_cong)

lemma calm_validate: "calm E c c' \<Longrightarrow> validate_expected_remote_peer c' = validate_expected_remote_peer c"
  by (rule validate_cong) (simp_all add: calmD)

lemma streams_inv_later:
  assumes "streams_inv c" and later: "list_all2 stream_later (cn_streams c) (cn_streams c')"
    and "cn_stream_state c' = cn_stream_state c" and "cn_next_stream_id c' = cn_next_stream_id c"
    and "cn_yamux c' = cn_yamux c" and "sc_secure_ready (cn_secure c') = sc_secure_ready (cn_secure c)"
    and "cn_pending_inbound c' = cn_pending_inbound c \<or> sc_secure_ready (cn_secure c)"
  shows "streams_inv c'"
proof -
  note len = list_all2_lengthD [OF later]
  have each: "ss_id (cn_streams c' ! i) = ss_id (cn_streams c ! i)
      \<and> (ss_open (cn_streams c' ! i) \<longrightarrow> ss_open (cn_streams c ! i))" if "i < length (cn_streams c)" for i
    using list_all2_nthD [OF later that] by (simp add: stream_later_def)
  have "cn_streams c' = [] \<longleftrightarrow> cn_streams c = []" using len by (metis length_0_conv)
  with assms each len show ?thesis
    unfolding streams_inv_def by (auto split: option.splits)
qed

lemma calm_streams:
  assumes "calm E c c'" and "streams_inv c" and "E = {} \<or> sc_secure_ready (cn_secure c)"
  shows "streams_inv c'"
  by (rule streams_inv_later [OF assms(2) calm_shape(4) [OF assms(1)]])
     (use assms(3) calm_shape [OF assms(1)] calmD [OF assms(1)] in auto)

lemma calm_inv:
  assumes "calm E c c'" and "conn_inv log c" and "E = {} \<or> (E = stream_traffic \<and> cn_state c = Ready)"
  shows "conn_inv log c'"
proof -
  from assms(1) obtain evs where evs: "cn_event_queue c' = cn_event_queue c @ evs" "events_in E evs"
    using calm_shape(1) [OF assms(1)] by blast
  have "log_run (phase_of (cn_state c)) evs = Some (phase_of (cn_state c))"
    using assms(3) evs(2) log_run_usable [of evs] by (auto simp: events_in_def)
  with assms(2) evs(1) have "log_inv log c'"
    by (auto simp: conn_inv_def log_inv_def log_continue calmD [OF assms(1)])
  moreover have "upgrade_inv c'" using assms(2)
    unfolding conn_inv_def upgrade_inv_def calmD [OF assms(1)] calm_validate [OF assms(1)] by blast
  moreover have "streams_inv c'"
    by (rule calm_streams [OF assms(1)]) (use assms(2,3) in \<open>auto simp: inv_defs\<close>)
  moreover have "socket_inv c'"
    using assms(2) by (auto simp: conn_inv_def socket_inv_def calm_shape(5) [OF assms(1)] calmD [OF assms(1)])
  ultimately show ?thesis by (simp add: conn_inv_def)
qed

lemma calm_preserves [keeps]:
  assumes "stays (calm {}) m"
  shows "preserves (conn_inv log) m" and "preserves (live log) m"
proof -
  have calm: "calm {} s (snd (m s))" for s by (rule stays_apply [OF assms])
  show "preserves (conn_inv log) m"
    by (intro preservesI) (rule calm_inv [OF calm], simp_all)
  show "preserves (live log) m"
    by (intro preservesI) (auto simp: live_def calmD [OF calm] intro: calm_inv [OF calm])
qed

lemma close_socket_shut: "(io_socket_open io \<longleftrightarrow> 0 \<le> io_fd io) \<Longrightarrow> \<not> io_socket_open (close_socket io) \<and> io_fd (close_socket io) < 0"
  by (auto simp: close_socket_def)

lemma close_fields:
  assumes "cn_state c \<noteq> Closed" and "\<not> cn_closed_emitted c"
  shows "cn_event_queue (close c) = cn_event_queue c @
      [\<lparr>ev_type = EvClosed, ev_stream_id = current_stream_id (close c), ev_detail = ''connection closed''\<rparr>]"
    and "cn_io (close c) = close_socket (cn_io c)" and "cn_closed_emitted (close c)"
    and "cn_secure (close c) = cn_secure c" and "cn_yamux (close c) = cn_yamux c"
    and "cn_stream_state (close c) = cn_stream_state c"
    and "cn_next_stream_id (close c) = cn_next_stream_id c"
    and "cn_pending_inbound (close c) = cn_pending_inbound c"
    and "cn_is_initiator (close c) = cn_is_initiator c" and "cn_remote_addr (close c) = cn_remote_addr c"
    and "list_all2 stream_later (cn_streams c) (cn_streams (close c))"
  using assms
  by (auto simp: close_def Let_def push_event_def set_io_def map_stream_state_def current_stream_id_def
      list_all2_conv_all_nth nth_list_update_if stream_later_def split: option.splits)

lemma close_inv:
  assumes "conn_inv log c"
  shows "settled log (close c)" and "cn_state (close c) = Closed"
proof -
  show closed: "cn_state (close c) = Closed"
    by (simp add: close_def Let_def push_event_def set_io_def)
  show "settled log (close c)"
  proof (cases "cn_state c = Closed")
    case True
    with assms show ?thesis by (simp add: settled_def close_def)
  next
    case False
    then have ev: "\<not> cn_closed_emitted c" using assms by (simp add: conn_inv_def log_inv_def)
    note fields = close_fields [OF False ev]
    have "log_step (phase_of (cn_state c)) EvClosed = Some LogOver"
      using assms False by (auto simp: conn_inv_def upgrade_inv_def)
    then have "log_inv log (close c)"
      using assms by (simp add: conn_inv_def log_inv_def fields closed log_continue)
    moreover have "validate_expected_remote_peer (close c) = validate_expected_remote_peer c"
      by (rule validate_cong) (simp_all add: fields noise_of_def)
    with assms have "upgrade_inv (close c)"
      by (auto simp: conn_inv_def upgrade_inv_def fields closed)
    moreover have "streams_inv (close c)"
      by (rule streams_inv_later [of c]) (use assms fields in \<open>auto simp: conn_inv_def\<close>)
    moreover have "socket_inv (close c)"
      using close_socket_shut [of "cn_io c"] assms
      by (simp add: conn_inv_def socket_inv_def fields closed)
    ultimately show ?thesis using closed by (simp add: settled_def conn_inv_def)
  qed
qed

lemma emit_error_inv:
  assumes "settled log c"
  shows "conn_inv log (emit_error detail c)"
proof (cases "cn_state c = Closed")
  case True
  with assms show ?thesis by (simp add: settled_def emit_error_def)
next
  case False
  have live: "live log c" by (rule settled_live [OF assms False])
  define c' where "c' = emit_error detail c"
  have fields: "cn_state c' = Failed" "cn_io c' = cn_io c" "cn_secure c' = cn_secure c" "cn_streams c' = cn_streams c"
      "cn_event_queue c' = cn_event_queue c @
        [\<lparr>ev_type = EvError, ev_stream_id = current_stream_id c, ev_detail = detail\<rparr>]"
      "cn_closed_emitted c' = cn_closed_emitted c" "cn_is_initiator c' = cn_is_initiator c"
      "cn_remote_addr c' = cn_remote_addr c"
    using live
    by (auto simp: c'_def live_def emit_error_def push_event_def current_stream_id_def)
  have "log_step (phase_of (cn_state c)) EvError = Some LogFailed"
    using live by (auto simp: live_def)
  with live have "log_inv log c'"
    by (auto simp: live_def conn_inv_def log_inv_def fields log_continue)
  moreover have "validate_expected_remote_peer c' = validate_expected_remote_peer c"
    by (rule validate_cong) (simp_all add: fields noise_of_def)
  with live have "upgrade_inv c'"
    by (auto simp: live_def conn_inv_def upgrade_inv_def fields)
  moreover have "streams_inv c'"
    by (rule streams_inv_later [of c])
       (use live in \<open>auto simp: live_def conn_inv_def c'_def emit_error_def push_event_def\<close>)
  moreover have "socket_inv c'" using live by (simp add: live_def conn_inv_def socket_inv_def fields)
  ultimately show ?thesis by (simp add: conn_inv_def c'_def)
qed

lemma fail_and_close:
  "settled log c \<Longrightarrow> settled log (close (emit_error detail c))"
  by (intro close_inv emit_error_inv)

section \<open>Input processing keeps it\<close>

lemma conn_inv_cong:
  assumes "conn_inv log c"
    and "cn_event_queue c' = cn_event_queue c" "cn_closed_emitted c' = cn_closed_emitted c"
    and "cn_state c' = cn_state c" "cn_streams c' = cn_streams c" "cn_stream_state c' = cn_stream_state c"
    and "cn_next_stream_id c' = cn_next_stream_id c" "cn_yamux c' = cn_yamux c"
    and "cn_pending_inbound c' = cn_pending_inbound c"
    and "sc_secure_ready (cn_secure c') = sc_secure_ready (cn_secure c)"
    and "sc_stage (cn_secure c') = sc_stage (cn_secure c)"
    and "io_fd (cn_io c') = io_fd (cn_io c)" "io_socket_open (cn_io c') = io_socket_open (cn_io c)"
    and "validate_expected_remote_peer c' = validate_expected_remote_peer c
      \<or> sc_stage (cn_secure c) \<notin> {MuxerNegotiation, StageReady}"
  shows "conn_inv log c'"
proof -
  have "log_inv log c'" using assms by (simp add: conn_inv_def log_inv_def)
  moreover have "upgrade_inv c'" using assms(1,4,10,11,14) unfolding conn_inv_def upgrade_inv_def by auto
  moreover have "streams_inv c'"
    by (rule streams_inv_later [of c]) (use assms in \<open>simp_all add: conn_inv_def\<close>)
  moreover have "socket_inv c'" using assms(1,4,12,13) unfolding conn_inv_def socket_inv_def by auto
  ultimately show ?thesis by (simp add: conn_inv_def)
qed

lemma inv_set_io:
  assumes "conn_inv log c" and "io_fd io = io_fd (cn_io c)" and "io_socket_open io = io_socket_open (cn_io c)"
  shows "conn_inv log (set_io io c)"
proof (rule conn_inv_cong [OF assms(1)])
  have "validate_expected_remote_peer (set_io io c) = validate_expected_remote_peer c"
    by (rule validate_cong) (simp_all add: set_io_def noise_of_def)
  then show "validate_expected_remote_peer (set_io io c) = validate_expected_remote_peer c
      \<or> sc_stage (cn_secure c) \<notin> {MuxerNegotiation, StageReady}" ..
qed (use assms(2,3) in \<open>simp_all add: set_io_def\<close>)

lemma inv_set_noise:
  assumes "conn_inv log c"
    and "ns_remote_peer_id n = ns_remote_peer_id (noise_of c)
      \<or> sc_stage (cn_secure c) \<notin> {MuxerNegotiation, StageReady}"
  shows "conn_inv log (set_noise n c)"
proof (rule conn_inv_cong [OF assms(1)])
  have "validate_expected_remote_peer (set_noise n c) = validate_expected_remote_peer c"
    if "ns_remote_peer_id n = ns_remote_peer_id (noise_of c)"
    by (rule validate_cong) (simp_all add: that set_noise_def noise_of_def map_secure_def)
  with assms(2) show "validate_expected_remote_peer (set_noise n c) = validate_expected_remote_peer c
      \<or> sc_stage (cn_secure c) \<notin> {MuxerNegotiation, StageReady}" by auto
qed (simp_all add: set_noise_def map_secure_def)

lemma live_set_io:
  "live log c \<Longrightarrow> io_fd io = io_fd (cn_io c) \<Longrightarrow> io_socket_open io = io_socket_open (cn_io c) \<Longrightarrow>
   live log (set_io io c)"
  using inv_set_io [of log c io] by (simp add: live_def) (simp add: set_io_def)

lemma set_rx_live: "live log c \<Longrightarrow> live log (set_rx bs c)"
  unfolding set_rx_def by (rule live_set_io) simp_all

lemma consume_rx_live [keeps]: "preserves (live log) (consume_rx n)"
  by (intro preservesI)
     (simp add: consume_rx_def on_io_def zoom_def Let_def live_set_io)

lemma on_cs_recv_live [keeps]: "preserves (live log) (on_cs_recv m)"
proof (intro preservesI)
  fix c assume c: "live log c"
  have "snd (on_cs_recv m c) = set_noise ((noise_of c)\<lparr>ns_cs_recv := snd (m (ns_cs_recv (noise_of c)))\<rparr>) c"
    by (simp add: on_cs_recv_def on_noise_def zoom_def case_prod_beta Let_def)
  moreover have "conn_inv log \<dots>" by (rule inv_set_noise) (use c in \<open>simp_all add: live_def\<close>)
  ultimately show "live log (snd (on_cs_recv m c))"
    using c by (simp add: live_def set_noise_def map_secure_def)
qed

text \<open>Before the handshake is over.\<close>

definition early :: "connection_event list \<Rightarrow> connection \<Rightarrow> bool" where
  "early log c \<longleftrightarrow> live log c \<and> sc_stage (cn_secure c) \<in> {NegotiatingProtocol, NoiseHandshake}"

lemma early_live: "early log c \<Longrightarrow> live log c"
  by (simp add: early_def)

lemma early_not_ready: "early log c \<Longrightarrow> \<not> sc_secure_ready (cn_secure c)"
  by (auto simp: early_def live_def inv_defs)

lemma calm_early [keeps]:
  assumes "stays (calm {}) m"
  shows "preserves (early log) m"
proof (rule preservesI)
  fix c assume "early log c"
  with stays_apply [OF assms, of c] calm_preserves(2) [OF assms, of log]
  show "early log (snd (m c))" by (auto simp: early_def calmD(12) preserves_def)
qed

lemma early_noise: "early log c \<Longrightarrow> early log (set_noise n c)"
  using inv_set_noise [of log c n]
  by (auto simp: early_def live_def) (simp_all add: set_noise_def map_secure_def)

lemma on_noise_early [keeps]: "preserves (early log) (on_noise m)"
  by (intro preservesI) (simp add: on_noise_def zoom_def case_prod_beta Let_def early_noise)

lemma early_stage:
  assumes "early log c" and "sc_secure_ready (f (cn_secure c)) = sc_secure_ready (cn_secure c)"
    and "sc_stage (f (cn_secure c)) \<in> {NegotiatingProtocol, NoiseHandshake}"
  shows "early log (map_secure f c)"
proof -
  have nr: "\<not> sc_secure_ready (cn_secure c)" by (rule early_not_ready [OF assms(1)])
  have c: "conn_inv log c" "cn_state c \<in> {TcpAccepted, Securing, Ready}"
    using assms(1) by (simp_all add: early_def live_def)
  have "log_inv log (map_secure f c)" "socket_inv (map_secure f c)"
    using c by (auto simp: conn_inv_def log_inv_def socket_inv_def map_secure_def)
  moreover have "upgrade_inv (map_secure f c)"
    using c nr assms(2,3) by (auto simp: conn_inv_def upgrade_inv_def map_secure_def)
  moreover have "streams_inv (map_secure f c)"
    by (rule streams_inv_later [of c]) (use c assms(2) in \<open>simp_all add: conn_inv_def map_secure_def\<close>)
  ultimately show ?thesis using c assms(3) by (simp add: early_def live_def conn_inv_def map_secure_def)
qed

lemma early_consume_rx [keeps]: "preserves (early log) (consume_rx n)"
  using consume_rx_live [of log n]
  by (auto simp: early_def preserves_def consume_rx_def on_io_def zoom_def Let_def set_io_def)

lemma start_noise_handshake_early [keeps]: "preserves (early log) (start_noise_handshake C)"
  unfolding start_noise_handshake_def case_prod_beta Let_def
  by (intro keeps calms preserves_if) (auto intro: early_noise early_stage)

lemma process_protocol_negotiation_early [keeps]: "preserves (early log) (process_protocol_negotiation C)"
  unfolding process_protocol_negotiation_def Let_def
  by (intro keeps calms preserves_if preserves_sum_case) (auto intro: early_stage)

section \<open>Completing the upgrade\<close>

definition at_completion :: "connection \<Rightarrow> connection \<Rightarrow> bool" where
  "at_completion c c' \<longleftrightarrow>
     cn_event_queue c' = cn_event_queue c \<and> cn_closed_emitted c' = cn_closed_emitted c
     \<and> cn_state c' = cn_state c \<and> cn_streams c' = cn_streams c \<and> cn_stream_state c' = cn_stream_state c
     \<and> cn_next_stream_id c' = cn_next_stream_id c \<and> cn_pending_inbound c' = cn_pending_inbound c
     \<and> cn_io c' = cn_io c \<and> cn_is_initiator c' = cn_is_initiator c \<and> cn_remote_addr c' = cn_remote_addr c
     \<and> noise_of c' = noise_of c
     \<and> (\<forall>ys. cn_yamux c' = Some ys \<longrightarrow> yamux_inv ys)"

lemma complete_ready_live:
  assumes c: "live log c" "\<not> sc_secure_ready (cn_secure c)" "validate_expected_remote_peer c = Inr ()"
    and c': "at_completion c c'"
  shows "live log (complete_ready_state c')" and "cn_state (complete_ready_state c') = Ready"
proof -
  define d where "d = complete_ready_state c'"
  have st: "cn_state c \<in> {TcpAccepted, Securing}" using c by (auto simp: live_def conn_inv_def upgrade_inv_def)
  have none: "cn_streams c = []" "cn_stream_state c = None" "cn_next_stream_id c = 1"
    using c by (auto simp: live_def conn_inv_def streams_inv_def split: option.splits)
  have d: "cn_closed_emitted d = cn_closed_emitted c" "cn_state d = Ready" "cn_io d = cn_io c"
    "cn_yamux d = cn_yamux c'" "sc_secure_ready (cn_secure d)" "sc_stage (cn_secure d) = StageReady"
    "cn_is_initiator d = cn_is_initiator c" "cn_remote_addr d = cn_remote_addr c" "noise_of d = noise_of c"
    using c' by (simp_all add: d_def complete_ready_state_def at_completion_def Let_def push_event_def
        create_stream_def map_secure_def noise_of_def)
  show "cn_state (complete_ready_state c') = Ready" using d(2) by (simp add: d_def)
  have "log_run LogUpgrading (log @ cn_event_queue c) = Some LogUpgrading"
    using c(1) st by (auto simp: live_def conn_inv_def log_inv_def)
  moreover have "\<exists>evs. cn_event_queue d = cn_event_queue c @ evs \<and> log_run LogUpgrading evs = Some LogUsable"
    using c' by (simp add: d_def complete_ready_state_def at_completion_def Let_def push_event_def
        create_stream_def map_secure_def noise_of_def)
  ultimately have "log_inv log d"
    using d c(1) by (auto simp: live_def conn_inv_def log_inv_def log_continue)
  moreover have "validate_expected_remote_peer d = validate_expected_remote_peer c"
    by (rule validate_cong) (simp_all add: d)
  with c(3) have "upgrade_inv d" by (simp add: upgrade_inv_def d)
  moreover have "streams_inv d"
  proof (cases "cn_yamux c'")
    case None
    then show ?thesis using c' none
      by (simp add: streams_inv_def d) (simp add: d_def complete_ready_state_def at_completion_def Let_def
          push_event_def create_stream_def map_secure_def)
  next
    case (Some ys)
    then have "cn_streams d = []" "cn_stream_state d = None" "cn_next_stream_id d = 1"
      using c' none by (simp_all add: d_def complete_ready_state_def at_completion_def Let_def
          push_event_def map_secure_def)
    with Some c' show ?thesis by (simp add: streams_inv_def d at_completion_def)
  qed
  moreover have "socket_inv d" using c(1) by (simp add: live_def conn_inv_def socket_inv_def d)
  ultimately show "live log (complete_ready_state c')"
    using d(2) by (simp add: live_def conn_inv_def flip: d_def)
qed

lemma at_completion_activate:
  assumes "cn_yamux c = None"
  shows "at_completion c (activate_yamux (map_secure (\<lambda>sc. sc\<lparr>sc_negotiated_muxer := m\<rparr>) (c\<lparr>cn_muxer_buffer := bs\<rparr>)))"
    and "at_completion c (activate_if_yamux (map_secure (\<lambda>sc. sc\<lparr>sc_negotiated_muxer := m\<rparr>) (c\<lparr>cn_muxer_buffer := bs\<rparr>)))"
    and "at_completion c (map_secure (\<lambda>sc. sc\<lparr>sc_negotiated_muxer := m\<rparr>) (c\<lparr>cn_muxer_buffer := bs\<rparr>))"
    and "at_completion c (c\<lparr>cn_muxer_buffer := bs\<rparr>)"
  using assms
  by (simp_all add: at_completion_def activate_if_yamux_def activate_yamux_def map_secure_def noise_of_def
      inv_new_session)

lemma live_no_yamux: "live log c \<Longrightarrow> \<not> sc_secure_ready (cn_secure c) \<Longrightarrow> cn_yamux c = None"
  by (simp add: live_def conn_inv_def streams_inv_def)

lemma enter_muxer_negotiation:
  assumes "live log c" and "\<not> sc_secure_ready (cn_secure c)" and "validate_expected_remote_peer c = Inr ()"
  shows "live log (map_secure (\<lambda>sc. sc\<lparr>sc_negotiated_muxer := m, sc_stage := MuxerNegotiation\<rparr>) c)"
proof -
  define d where "d = map_secure (\<lambda>sc. sc\<lparr>sc_negotiated_muxer := m, sc_stage := MuxerNegotiation\<rparr>) c"
  have "validate_expected_remote_peer d = validate_expected_remote_peer c"
    by (rule validate_cong) (simp_all add: d_def map_secure_def noise_of_def)
  with assms have "upgrade_inv d"
    by (auto simp: live_def conn_inv_def upgrade_inv_def d_def map_secure_def)
  moreover have "streams_inv d"
    by (rule streams_inv_later [of c]) (use assms in \<open>simp_all add: live_def conn_inv_def d_def map_secure_def\<close>)
  moreover have "log_inv log d" "socket_inv d"
    using assms by (auto simp: live_def conn_inv_def log_inv_def socket_inv_def d_def map_secure_def)
  ultimately show ?thesis using assms(1) by (simp add: live_def conn_inv_def flip: d_def) (simp add: d_def map_secure_def)
qed

lemma same_muxer_buffer [simp]: "c\<lparr>cn_muxer_buffer := cn_muxer_buffer c\<rparr> = c"
  by (cases c) simp

lemma map_secure_twice: "map_secure f (map_secure g c) = map_secure (\<lambda>sc. f (g sc)) c"
  by (simp add: map_secure_def)

lemma queue_encrypted_live: "live log c \<Longrightarrow> live log (snd (queue_encrypted_message C data c))"
  using calm_preserves(2) [OF calmly_queue_encrypted(1), of log C data] by (simp add: preserves_def)

lemma finish_secure_upgrade_live: "leads (early log) (finish_secure_upgrade C) (live log)"
proof (rule leadsI)
  fix c assume early: "early log c"
  then have c: "live log c" and nr: "\<not> sc_secure_ready (cn_secure c)"
    by (simp_all add: early_live early_not_ready)
  note no_yamux = live_no_yamux [OF c nr]
  show "live log (snd (finish_secure_upgrade C c))"
  proof (cases "validate_expected_remote_peer c")
    case (Inl e)
    with c nr show ?thesis by (simp add: finish_secure_upgrade_def)
  next
    case (Inr u)
    then have valid: "validate_expected_remote_peer c = Inr ()" by simp
    define m where "m = select_stream_muxer (noise_of c)"
    define c1 where "c1 = map_secure (\<lambda>sc. sc\<lparr>sc_negotiated_muxer := m\<rparr>) c"
    have c1': "c1 = map_secure (\<lambda>sc. sc\<lparr>sc_negotiated_muxer := select_stream_muxer (sc_noise sc)\<rparr>) c"
      by (simp add: c1_def m_def map_secure_def noise_of_def)
    have fin: "live log (complete_ready_state (activate_yamux c1))" "live log (complete_ready_state c1)"
      unfolding c1_def
      using complete_ready_live(1) [OF c nr valid] at_completion_activate(1,3) [OF no_yamux, of m "cn_muxer_buffer c"]
      by simp_all
    have mux: "live log (map_secure (\<lambda>sc. sc\<lparr>sc_stage := MuxerNegotiation\<rparr>) c1)"
      using enter_muxer_negotiation [OF c nr valid, of m] by (simp add: c1_def map_secure_twice)
    have init: "cn_is_initiator (map_secure (\<lambda>sc. sc\<lparr>sc_stage := MuxerNegotiation\<rparr>) c1) = cn_is_initiator c1"
      by (simp add: map_secure_def)
    show ?thesis
      using fin mux nr valid
      by (simp add: finish_secure_upgrade_def c1' [symmetric] queue_encrypted_live split: sum.splits)
  qed
qed

lemma map_secure_handshake_early [keeps]:
  "preserves (early log) (update (map_secure (\<lambda>sc. sc\<lparr>sc_handshake_state := h\<rparr>)))"
  by (intro keeps early_stage) (auto simp: early_def)

lemma early_calm_leads: "stays (calm {}) m \<Longrightarrow> leads (early log) m (live log)"
  by (rule leads_weaken [OF calm_early early_live])

lemma process_handshake_frame_live: "leads (early log) (process_handshake_frame C f) (live log)"
proof (rule leadsI)
  fix c assume c: "early log c"
  note rules = leads_and_then finish_secure_upgrade_live early_calm_leads calmly_flush_pending_writes
    on_noise_early map_secure_handshake_early calm_early [OF calmly_queue(2)]
    calm_early [OF calmly_flush_pending_writes] early_live
  show "live log (snd (process_handshake_frame C f c))"
  proof (cases "sc_handshake_state (cn_secure c)")
    case AwaitingMsg1
    have "leads (early log) (and_then (on_noise (process_msg1 C (cn_draws c) f)) (\<lambda>msg2.
         and_then (update (map_secure (\<lambda>sc. sc\<lparr>sc_handshake_state := AwaitingMsg3\<rparr>))) (\<lambda>_.
         and_then (on_io (queue_wire_message msg2)) (\<lambda>_. flush_pending_writes)))) (live log)"
      by (intro rules)
    with AwaitingMsg1 show ?thesis using leadsD c by (fastforce simp: process_handshake_frame_def)
  next
    case AwaitingMsg2
    have "leads (early log) (and_then (on_noise (process_msg2 C f)) (\<lambda>msg3.
         and_then (update (map_secure (\<lambda>sc. sc\<lparr>sc_handshake_state := Complete\<rparr>))) (\<lambda>_.
         and_then (on_io (queue_wire_message msg3)) (\<lambda>_.
         and_then flush_pending_writes (\<lambda>_. finish_secure_upgrade C))))) (live log)"
      by (intro rules)
    with AwaitingMsg2 show ?thesis using leadsD c by (fastforce simp: process_handshake_frame_def)
  next
    case AwaitingMsg3
    have "leads (early log) (and_then (on_noise (process_msg3 C f)) (\<lambda>_.
         and_then (update (map_secure (\<lambda>sc. sc\<lparr>sc_handshake_state := Complete\<rparr>))) (\<lambda>_.
         finish_secure_upgrade C))) (live log)"
      by (intro rules)
    with AwaitingMsg3 show ?thesis using leadsD c by (fastforce simp: process_handshake_frame_def)
  qed (use c in \<open>simp_all add: process_handshake_frame_def early_live\<close>)
qed

lemma set_rx_early: "early log c \<Longrightarrow> early log (set_rx bs c)"
  using set_rx_live [of log c bs] by (simp add: early_def) (simp add: set_rx_def set_io_def)

lemma live_early:
  "live log c \<Longrightarrow> sc_stage (cn_secure c) = NoiseHandshake \<Longrightarrow> early log c"
  by (simp add: early_def)

lemma handshake_loop_live: "live log c \<Longrightarrow> live log (snd (handshake_loop C c))"
proof (induction C c rule: handshake_loop.induct)
  case (1 C c)
  show ?case
  proof (cases "sc_secure_ready (cn_secure c) \<or> sc_stage (cn_secure c) \<noteq> NoiseHandshake")
    case True
    with 1 show ?thesis by (subst handshake_loop.simps) simp
  next
    case False
    then have "early log c" using 1 by (simp add: live_early)
    then have step: "process_handshake_frame C f (set_rx rest c) = (r, c1) \<Longrightarrow> live log c1" for f rest r c1
      using leadsD [OF process_handshake_frame_live set_rx_early, of log c C f rest] by simp
    show ?thesis
    proof (cases "try_pop_wire_frame (io_wire_rx (cn_io c))")
      case (Popped f rest)
      obtain r c1 where s: "process_handshake_frame C f (set_rx rest c) = (r, c1)" by force
      with False Popped step [OF s] 1(1) [OF False Popped s [symmetric]] show ?thesis
        by (subst handshake_loop.simps) (auto split: sum.splits)
    qed (use 1 False in \<open>simp_all add: handshake_loop.simps\<close>)
  qed
qed

section \<open>The other stages\<close>

text \<open>During the muxer negotiation.\<close>

definition mid :: "connection_event list \<Rightarrow> connection \<Rightarrow> bool" where
  "mid log c \<longleftrightarrow> live log c \<and> sc_stage (cn_secure c) = MuxerNegotiation"

lemma mid_facts:
  assumes "mid log c"
  shows "live log c" and "\<not> sc_secure_ready (cn_secure c)" and "validate_expected_remote_peer c = Inr ()"
    and "cn_yamux c = None"
proof -
  show c: "live log c" using assms by (simp add: mid_def)
  show "validate_expected_remote_peer c = Inr ()"
    using assms by (simp add: mid_def live_def conn_inv_def upgrade_inv_def)
  show nr: "\<not> sc_secure_ready (cn_secure c)"
    using assms by (auto simp: mid_def live_def conn_inv_def upgrade_inv_def)
  show "cn_yamux c = None" by (rule live_no_yamux [OF c nr])
qed

lemma mid_keep: "mid log c \<Longrightarrow> live log c' \<Longrightarrow> sc_stage (cn_secure c') = sc_stage (cn_secure c) \<Longrightarrow> mid log c'"
  by (simp add: mid_def)

lemma on_cs_recv_stage [simp]:
  "sc_stage (cn_secure (snd (on_cs_recv m c))) = sc_stage (cn_secure c)"
  "cn_state (snd (on_cs_recv m c)) = cn_state c"
  by (simp_all add: on_cs_recv_def on_noise_def zoom_def case_prod_beta Let_def set_noise_def map_secure_def)

lemma on_cs_recv_step:
  assumes "live log c" and "on_cs_recv m (set_rx rest c) = (r, c1)"
  shows "live log c1" and "sc_stage (cn_secure c1) = sc_stage (cn_secure c)" and "cn_state c1 = cn_state c"
proof -
  have c1: "c1 = snd (on_cs_recv m (set_rx rest c))" using assms(2) by simp
  show "live log c1" unfolding c1
    using on_cs_recv_live [of log m] set_rx_live [OF assms(1), of rest] by (simp add: preserves_def)
  show "sc_stage (cn_secure c1) = sc_stage (cn_secure c)" "cn_state c1 = cn_state c"
    unfolding c1 by (simp_all add: set_rx_def set_io_def)
qed

lemma live_muxer_buffer: "live log c \<Longrightarrow> live log (c\<lparr>cn_muxer_buffer := bs\<rparr>)"
  using conn_inv_cong [of log c "c\<lparr>cn_muxer_buffer := bs\<rparr>"] validate_cong [of "c\<lparr>cn_muxer_buffer := bs\<rparr>" c]
  by (simp add: live_def noise_of_def)

lemma muxer_drain_mid: "mid log c \<Longrightarrow> mid log (snd (muxer_drain C c))"
proof (induction C c rule: muxer_drain.induct)
  case (1 C c)
  show ?case
  proof (cases "try_pop_wire_frame (io_wire_rx (cn_io c))")
    case (Popped f rest)
    obtain r c1 where s: "on_cs_recv (decrypt C f) (set_rx rest c) = (r, c1)" by force
    note step = on_cs_recv_step [OF mid_facts(1) [OF 1(2)] s]
    have c1: "mid log c1" by (rule mid_keep [OF 1(2) step(1,2)])
    have "mid log (c1\<lparr>cn_muxer_buffer := bs\<rparr>)" for bs
      by (rule mid_keep [OF c1 live_muxer_buffer [OF step(1)]]) simp
    with Popped s c1 1(1) [OF Popped s [symmetric]] show ?thesis
      by (subst muxer_drain.simps) (auto split: sum.splits)
  qed (use 1 in \<open>simp_all add: muxer_drain.simps\<close>)
qed

lemma complete_from_mid:
  assumes "mid log c"
  shows "live log (complete_ready_state ((activate_if_yamux
      (map_secure (\<lambda>sc. sc\<lparr>sc_negotiated_muxer := m\<rparr>) c))\<lparr>cn_muxer_buffer := bs\<rparr>))"
    and "live log (complete_ready_state (c\<lparr>cn_muxer_buffer := bs\<rparr>))"
proof -
  have swap: "(activate_if_yamux (map_secure f c))\<lparr>cn_muxer_buffer := bs\<rparr>
      = activate_if_yamux (map_secure f (c\<lparr>cn_muxer_buffer := bs\<rparr>))" for f
    by (simp add: activate_if_yamux_def activate_yamux_def map_secure_def)
  note c = complete_ready_live(1) [OF mid_facts(1-3) [OF assms]]
  note at = at_completion_activate [OF mid_facts(4) [OF assms]]
  show "live log (complete_ready_state ((activate_if_yamux
      (map_secure (\<lambda>sc. sc\<lparr>sc_negotiated_muxer := m\<rparr>) c))\<lparr>cn_muxer_buffer := bs\<rparr>))"
    unfolding swap by (rule c [OF at(2)])
  show "live log (complete_ready_state (c\<lparr>cn_muxer_buffer := bs\<rparr>))"
    by (rule c [OF at(4)])
qed

lemma queue_encrypted_mid:
  assumes "mid log c" and "queue_encrypted_message C data c = (r, c')"
  shows "mid log c'"
proof -
  have "calm {} c c'" using calmlyD [OF calmly_queue_encrypted(1) assms(2)] .
  moreover have "live log c'" using queue_encrypted_live [OF mid_facts(1) [OF assms(1)], of C data] assms(2) by simp
  ultimately show ?thesis by (intro mid_keep [OF assms(1)]) (simp_all add: calmD(12))
qed

lemma answer_muxer_exchange_live:
  assumes "mid log c"
  shows "live log (snd (answer_muxer_exchange C c))"
proof -
  note facts = mid_facts [OF assms]
  note complete = complete_from_mid [OF assms] complete_from_mid [OF queue_encrypted_mid [OF assms]]
  show ?thesis
    using facts(1) complete queue_encrypted_mid [OF assms, THEN mid_facts(1)]
    by (auto simp: answer_muxer_exchange_def Let_def and_then_def update_def return_result_def
        return_err_def return_ok_def split: sum.splits option.splits prod.splits)
qed

lemma process_muxer_negotiation_live:
  assumes "mid log c"
  shows "live log (snd (process_muxer_negotiation C c))"
proof -
  obtain r c1 where d: "muxer_drain C c = (r, c1)" by force
  with muxer_drain_mid [OF assms, of C] have c1: "mid log c1" by simp
  from d mid_facts(1) [OF c1] answer_muxer_exchange_live [OF c1] show ?thesis
    by (cases r) (simp_all add: process_muxer_negotiation_def and_then_def)
qed

section \<open>A ready connection\<close>

definition ready :: "connection_event list \<Rightarrow> connection \<Rightarrow> bool" where
  "ready log c \<longleftrightarrow> conn_inv log c \<and> cn_state c = Ready"

lemma ready_live: "ready log c \<Longrightarrow> live log c"
  by (simp add: ready_def live_def)

lemma ready_facts:
  assumes "ready log c"
  shows "sc_secure_ready (cn_secure c)" "sc_stage (cn_secure c) = StageReady"
    "log_run LogUpgrading (log @ cn_event_queue c) = Some LogUsable"
  using assms by (auto simp: ready_def conn_inv_def upgrade_inv_def log_inv_def)

text \<open>A change of a ready connection that appends stream events.\<close>

lemma ready_change:
  assumes "ready log c" and "cn_event_queue c' = cn_event_queue c @ evs"
    and "log_run LogUsable evs = Some LogUsable"
    and "cn_closed_emitted c' = cn_closed_emitted c" "cn_state c' = cn_state c"
    and "cn_is_initiator c' = cn_is_initiator c" "cn_remote_addr c' = cn_remote_addr c"
    and "ns_remote_peer_id (noise_of c') = ns_remote_peer_id (noise_of c)"
    and "sc_secure_ready (cn_secure c')" "sc_stage (cn_secure c') = StageReady"
    and "io_fd (cn_io c') = io_fd (cn_io c)" "io_socket_open (cn_io c') = io_socket_open (cn_io c)"
    and "streams_inv c'"
  shows "ready log c'"
proof -
  note facts = ready_facts [OF assms(1)]
  have "validate_expected_remote_peer c' = validate_expected_remote_peer c"
    by (rule validate_cong) (use assms in simp_all)
  then have "upgrade_inv c'" using assms facts by (auto simp: ready_def conn_inv_def upgrade_inv_def)
  moreover have "log_inv log c'"
    using assms facts by (auto simp: ready_def conn_inv_def log_inv_def log_continue)
  moreover have "socket_inv c'" using assms by (auto simp: ready_def conn_inv_def socket_inv_def)
  ultimately show ?thesis using assms by (simp add: ready_def conn_inv_def)
qed

lemma ready_streams: "ready log c \<Longrightarrow> streams_inv c"
  by (simp add: ready_def conn_inv_def)

lemma create_stream_inv:
  assumes "streams_inv c" and "cn_yamux c = None" and "sc_secure_ready (cn_secure c)"
    and free: "case cn_stream_state c of None \<Rightarrow> True | Some p \<Rightarrow> \<not> ss_open (cn_streams c ! p)"
  shows "streams_inv (snd (create_stream proto b c))"
proof -
  have "\<not> ss_open (cn_streams c ! i)" if "i < length (cn_streams c)" for i
  proof (cases "i + 1 < length (cn_streams c)")
    case True
    then show ?thesis using assms(1) by (auto simp: streams_inv_def)
  next
    case False
    with that have "length (cn_streams c) = i + 1" by simp
    then show ?thesis using assms(1) free by (auto simp: streams_inv_def split: option.splits)
  qed
  with assms(1-3) show ?thesis
    by (auto simp: streams_inv_def create_stream_def Let_def push_event_def nth_append less_Suc_eq)
qed

lemma create_stream_ready:
  assumes "ready log c" and "cn_yamux c = None"
    and "case cn_stream_state c of None \<Rightarrow> True | Some p \<Rightarrow> \<not> ss_open (cn_streams c ! p)"
  shows "ready log (snd (create_stream proto b c))"
proof (rule ready_change [OF assms(1)])
  show "streams_inv (snd (create_stream proto b c))"
    by (rule create_stream_inv [OF ready_streams [OF assms(1)] assms(2) ready_facts(1) [OF assms(1)] assms(3)])
  show "cn_event_queue (snd (create_stream proto b c)) = cn_event_queue c @
      [\<lparr>ev_type = (if b then EvStreamAccepted else EvStreamOpened), ev_stream_id = Some (cn_next_stream_id c),
        ev_detail = (if b then ''inbound stream ready'' else ''outbound stream opened'')\<rparr>]"
    by (simp add: create_stream_def Let_def push_event_def)
qed (use ready_facts [OF assms(1)] in \<open>simp_all add: create_stream_def Let_def push_event_def noise_of_def\<close>)

lemma ready_calm:
  assumes "ready log c" and "calm E c c'" and "E = {} \<or> E = stream_traffic"
  shows "ready log c'"
  using calm_inv [OF assms(2)] assms by (auto simp: ready_def calmD(1))

lemma ready_yamux:
  assumes "ready log c" and "cn_yamux c = Some ys" and "yamux_inv ys'"
  shows "ready log (c\<lparr>cn_yamux := Some ys'\<rparr>)"
  by (rule ready_change [OF assms(1), where evs = "[]"])
     (use assms ready_facts [OF assms(1)] ready_streams [OF assms(1)] in
       \<open>auto simp: streams_inv_def noise_of_def split: option.splits\<close>)

lemma deliver_ready:
  assumes "ready log c"
  shows "ready log (snd (deliver C plaintext c))"
proof (cases "cn_yamux c")
  case None
  obtain p c1 where e: "ensure_inbound_stream c = (p, c1)" by force
  have "ready log (snd (ensure_inbound_stream c))"
    using create_stream_ready [OF assms None, of None True] assms
    by (auto simp: ensure_inbound_stream_def split: option.splits)
  with e have "ready log c1" by simp
  then have "ready log (map_stream_state p f c1)" if "\<And>st. stream_later st (f st)" for f
    by (rule ready_calm [OF _ calm_map_stream_state [OF that, where E = "{}"]]) simp
  with None e show ?thesis by (simp add: deliver_def deliver_direct_def stream_later_def)
next
  case (Some ys)
  let ?t = "snd (receive (session_callbacks C) plaintext (ys, c))"
  have calm: "calm stream_traffic c (snd ?t)"
    using owner_receive [OF session_owner_calm, of "(ys, c)"] by simp
  have inv: "yamux_inv (fst ?t)"
    by (rule inv_receive [OF session_outgoing_whole])
       (use ready_streams [OF assms] Some in \<open>simp add: streams_inv_def\<close>)
  have "ready log (snd ?t)" by (rule ready_calm [OF assms calm]) simp
  then have "ready log ((snd ?t)\<lparr>cn_yamux := Some (fst ?t)\<rparr>)"
    by (rule ready_yamux [where ys = ys]) (simp_all add: calmD(6) [OF calm] Some inv)
  with Some show ?thesis by (simp add: deliver_def with_yamux_def case_prod_beta Let_def)
qed

lemma data_loop_ready: "ready log c \<Longrightarrow> ready log (snd (data_loop C c))"
proof (induction C c rule: data_loop.induct)
  case (1 C c)
  show ?case
  proof (cases "try_pop_wire_frame (io_wire_rx (cn_io c))")
    case (Popped f rest)
    let ?m = "and_then (on_cs_recv (decrypt C f)) (deliver C)"
    obtain r c1 where s: "?m (set_rx rest c) = (r, c1)" by force
    have "ready log c1"
    proof -
      obtain r2 c2 where d: "on_cs_recv (decrypt C f) (set_rx rest c) = (r2, c2)" by force
      have "ready log c2" using on_cs_recv_step [OF ready_live [OF 1(2)] d] 1(2)
        by (simp add: ready_def live_def)
      then have "ready log (snd (deliver C plaintext c2))" for plaintext by (rule deliver_ready)
      with \<open>ready log c2\<close> s d show ?thesis
        by (cases r2) (simp_all add: and_then_def, metis snd_conv)
    qed
    with Popped s 1(1) [OF Popped s [symmetric]] show ?thesis
      by (subst data_loop.simps) (auto split: sum.splits)
  qed (use 1 in \<open>simp_all add: data_loop.simps\<close>)
qed

lemma process_pending_input_live: "preserves (live log) (process_pending_input C)"
  unfolding process_pending_input_def
proof (intro preserves_and_then)
  show "preserves (live log) (reading (\<lambda>c. if sc_stage (cn_secure c) = NegotiatingProtocol
       then process_protocol_negotiation C else return_ok ()))"
    using process_protocol_negotiation_early [of log C]
    by (auto simp: preserves_def early_def)
  show "preserves (live log) (reading (\<lambda>c. if \<not> sc_secure_ready (cn_secure c) \<and> sc_stage (cn_secure c) = NoiseHandshake
       then handshake_loop C else return_ok ()))"
    by (intro preservesI) (simp add: handshake_loop_live)
  show "preserves (live log) (reading (\<lambda>c. if \<not> sc_secure_ready (cn_secure c) \<and> sc_stage (cn_secure c) = MuxerNegotiation
       then process_muxer_negotiation C else return_ok ()))"
    by (intro preservesI) (simp add: process_muxer_negotiation_live mid_def)
  show "preserves (live log) (reading (\<lambda>c. if \<not> sc_secure_ready (cn_secure c) then return_ok () else data_loop C))"
    using data_loop_ready live_secure ready_live
    by (intro preservesI) (fastforce simp: live_def ready_def)
qed

section \<open>The handlers and the application\<close>

lemma recv_loop_settled:
  assumes "live log c" and "recv_loop rs c = (b, c')"
  shows "settled log c' \<and> (b \<longrightarrow> live log c')"
  using assms
proof (induction rs c rule: recv_loop.induct)
  case (2 bs rest c)
  then show ?case
    by (auto split: if_splits simp: set_rx_live close_inv live_inv set_recvs_def live_set_io)
next
  case (5 e rest c)
  then have "settled log (set_recvs rest c)" by (simp add: set_recvs_def live_settled live_set_io)
  then have "settled log (close (emit_error (''recv failed: '' @ e) (set_recvs rest c)))"
    by (rule fail_and_close)
  with 5 show ?case by simp
qed (auto simp: set_recvs_def live_settled live_set_io intro!: close_inv live_inv)

lemma active_live: "settled log c \<Longrightarrow> is_active c \<Longrightarrow> live log c"
  by (simp add: settled_live is_active_def)

lemma handlers_settled:
  assumes "settled log c"
  shows "settled log (on_socket_readable C c)" and "settled log (on_socket_writable c)"
    and "settled log (on_timeout c)" and "settled log (close c)"
proof -
  show "settled log (close c)" by (rule close_inv(1)) (use assms in \<open>simp add: settled_def\<close>)
  show "settled log (on_timeout c)" using assms by (simp add: on_timeout_def fail_and_close)
  show "settled log (on_socket_writable c)"
  proof (cases "is_active c")
    case True
    obtain r c1 where f: "flush_pending_writes c = (r, c1)" by force
    have "live log c1"
      by (rule preservesD [OF calm_preserves(2) [OF calmly_flush_pending_writes] active_live [OF assms True] f])
    with f assms show ?thesis
      by (simp add: on_socket_writable_def fail_and_close live_settled split: sum.splits)
  qed (simp add: on_socket_writable_def assms)
  show "settled log (on_socket_readable C c)"
  proof (cases "is_active c")
    case True
    obtain b c1 where rl: "recv_loop (io_recvs (cn_io c)) c = (b, c1)" by force
    note rs = recv_loop_settled [OF active_live [OF assms True] rl]
    obtain r c2 where pp: "process_pending_input C c1 = (r, c2)" by force
    have "live log c2" if b using preservesD [OF process_pending_input_live _ pp] rs that by blast
    with True rl rs pp show ?thesis
      by (cases b) (auto simp: on_socket_readable_def fail_and_close live_settled split: sum.splits)
  qed (simp add: on_socket_readable_def assms)
qed

lemma settled_calm: "settled log c \<Longrightarrow> calm {} c c' \<Longrightarrow> settled log c'"
  using calm_inv [of "{}" c c' log] by (auto simp: settled_def calmD(1))

lemma begin_upgrade_live:
  assumes "live log c" and "\<not> sc_secure_ready (cn_secure c)"
  shows "live log (begin_upgrade b c)"
proof -
  have st: "cn_state c \<in> {TcpAccepted, Securing}"
    using assms live_secure [OF assms(1)] by (auto simp: live_def)
  define d where "d = begin_upgrade b c"
  have "log_inv log d" "socket_inv d" "upgrade_inv d"
    using assms st by (auto simp: live_def conn_inv_def log_inv_def socket_inv_def upgrade_inv_def d_def
        begin_upgrade_def map_secure_def)
  moreover have "streams_inv d"
    by (rule streams_inv_later [of c])
       (use assms in \<open>simp_all add: live_def conn_inv_def d_def begin_upgrade_def map_secure_def\<close>)
  moreover have "cn_state d = Securing" by (simp add: d_def begin_upgrade_def map_secure_def)
  ultimately show ?thesis by (simp add: live_def conn_inv_def flip: d_def)
qed

lemma live_after_calm:
  assumes "live log c" and "stays (calm {}) m"
  shows "live log (snd (m c))"
  using calm_preserves(2) [OF assms(2), of log] assms(1) by (simp add: preserves_def)

lemma begin_settled:
  assumes "settled log c"
  shows "settled log (snd (begin_outbound_upgrade c))" and "settled log (snd (begin_inbound_upgrade c))"
proof -
  have begun: "live log (begin_upgrade b c)" if "is_active c" "\<not> sc_secure_ready (cn_secure c)" for b
    by (rule begin_upgrade_live [OF active_live [OF assms that(1)] that(2)])
  show "settled log (snd (begin_inbound_upgrade c))"
    using begun assms by (simp add: begin_inbound_upgrade_def live_settled)
  have "stays (calm {}) (and_then (on_io (queue_raw_bytes p)) (\<lambda>_. flush_pending_writes))" for p
    by (intro calms)
  then have "live log (snd (and_then (on_io (queue_raw_bytes p)) (\<lambda>_. flush_pending_writes) (begin_upgrade False c)))"
    if "is_active c" "\<not> sc_secure_ready (cn_secure c)" for p
    using begun [OF that] live_after_calm by blast
  then show "settled log (snd (begin_outbound_upgrade c))"
    using begun assms by (simp add: begin_outbound_upgrade_def live_settled split: sum.splits)
qed

lemma ready_stream_event:
  assumes "ready log c" and "log_step LogUsable ty = Some LogUsable"
  shows "ready log (push_event ty sid d c)"
proof (rule ready_change [OF assms(1)])
  show "cn_event_queue (push_event ty sid d c) =
      cn_event_queue c @ [\<lparr>ev_type = ty, ev_stream_id = sid, ev_detail = d\<rparr>]"
    by (simp add: push_event_def)
  show "streams_inv (push_event ty sid d c)"
    by (rule streams_inv_later [OF ready_streams [OF assms(1)]]) (simp_all add: push_event_def)
qed (use assms(2) ready_facts [OF assms(1)] in \<open>simp_all add: push_event_def noise_of_def\<close>)

lemma request_open_stream_settled:
  assumes "settled log c"
  shows "settled log (snd (request_open_stream C protocol c))"
proof (cases "is_active c \<and> cn_state c = Ready")
  case True
  then have ready: "ready log c" using assms by (simp add: settled_def ready_def)
  then have fin: "ready log c' \<Longrightarrow> settled log c'" for c' by (simp add: settled_def ready_def)
  show ?thesis
  proof (cases "cn_yamux c")
    case None
    have "settled log (snd (create_stream (Some protocol) False c))"
      if "case cn_stream_state c of None \<Rightarrow> True | Some p \<Rightarrow> \<not> ss_open (cn_streams c ! p)"
      by (rule fin, rule create_stream_ready [OF ready None that])
    with True None assms show ?thesis
      by (simp add: request_open_stream_def case_prod_beta Let_def split: option.splits)
  next
    case (Some ys)
    let ?t = "snd (open_stream (session_callbacks C) (ys, c))"
    have calm: "calm {} c (snd ?t)"
      using owner_operations(1) [OF session_outgoing_calm, of "{}" "(ys, c)"] by simp
    have inv: "yamux_inv (fst ?t)"
      by (rule inv_open_stream [OF session_outgoing_whole])
         (use ready_streams [OF ready] Some in \<open>simp add: streams_inv_def\<close>)
    have ready': "ready log ((snd ?t)\<lparr>cn_yamux := Some (fst ?t)\<rparr>)"
      by (rule ready_yamux [OF ready_calm [OF ready calm], where ys = ys])
         (simp_all add: calmD(6) [OF calm] Some inv)
    have opened: "ready log (push_event EvStreamOpened sid d (on_yamux (map_stream p (set_protocol protocol)) c'))"
      if c': "ready log c'" "cn_yamux c' = Some ys'" for sid d p c' ys'
    proof -
      have "yamux_inv (map_stream p (set_protocol protocol) ys')"
        using ready_streams [OF c'(1)] c'(2) by (simp add: streams_inv_def inv_map_stream set_protocol_def)
      then have r: "ready log (on_yamux (map_stream p (set_protocol protocol)) c')"
        using ready_yamux [OF c'] c'(2) by (simp add: on_yamux_def)
      show ?thesis by (rule ready_stream_event [OF r]) simp
    qed
    obtain r ys' c' where o: "open_stream (session_callbacks C) (ys, c) = (r, (ys', c'))" by (metis prod_cases3)
    with ready' have "ready log (c'\<lparr>cn_yamux := Some ys'\<rparr>)" by simp
    with True Some o show ?thesis
      using fin opened [of "c'\<lparr>cn_yamux := Some ys'\<rparr>" ys']
      by (simp add: request_open_stream_def with_yamux_def and_then_def Let_def split: sum.splits)
  qed
next
  case False
  with assms show ?thesis by (auto simp: request_open_stream_def)
qed

section \<open>Stream handles\<close>

lemma direct_calm:
  "stays (calm {}) (direct_try_read p n)" "stays (calm {}) (direct_try_write C p data)"
  "stays (calm {}) (direct_close_write p)"
proof -
  show "stays (calm {}) (direct_try_read p n)"
    by (intro calmlyI) (simp add: direct_try_read_def Let_def calm_map_stream_state stream_later_def)
  show "stays (calm {}) (direct_try_write C p data)"
    using calmly_queue_encrypted(2) [of "{}" C p data]
    by (intro calmlyI) (simp add: direct_try_write_def stays_def)
  show "stays (calm {}) (direct_close_write p)"
  proof (rule calmlyI)
    fix c
    let ?c1 = "map_stream_state p (\<lambda>st. st\<lparr>ss_write_open := False, ss_close_write_pending := True\<rparr>) c"
    have "calm {} c ?c1" by (rule calm_map_stream_state) (simp add: stream_later_def)
    from calm_trans [OF this stays_apply [OF calmly_flush_stream]]
    show "calm {} c (snd (direct_close_write p c))"
      by (simp add: direct_close_write_def)
  qed
qed

lemma direct_reset_settled:
  assumes "settled log c"
  shows "settled log (snd (direct_reset p c))"
proof -
  define c1 where "c1 = map_stream_state p (\<lambda>st. st\<lparr>ss_open := False, ss_write_open := False,
    ss_close_write_pending := False, ss_rx_buffer := []\<rparr>) c"
  have "settled log c1"
    unfolding c1_def by (rule settled_calm [OF assms calm_map_stream_state]) (simp add: stream_later_def)
  then have c1: "conn_inv log c1" "cn_state c1 \<noteq> Failed" by (simp_all add: settled_def)
  define d where "d = set_io (close_socket (cn_io c1)) c1"
  have "validate_expected_remote_peer d = validate_expected_remote_peer c1"
    by (rule validate_cong) (simp_all add: d_def set_io_def noise_of_def)
  with c1 have "upgrade_inv d" by (auto simp: conn_inv_def upgrade_inv_def d_def set_io_def)
  moreover have "socket_inv d"
    using close_socket_shut [of "cn_io c1"] c1 by (simp add: conn_inv_def socket_inv_def d_def set_io_def)
  moreover have "log_inv log d" using c1 by (simp add: conn_inv_def log_inv_def d_def set_io_def)
  moreover have "streams_inv d"
    by (rule streams_inv_later [of c1]) (use c1 in \<open>simp_all add: conn_inv_def d_def set_io_def\<close>)
  moreover have "cn_state d \<noteq> Failed" using c1 by (simp add: d_def set_io_def)
  ultimately have "settled log d" by (simp add: settled_def conn_inv_def)
  then show ?thesis by (simp add: direct_reset_def Let_def d_def c1_def)
qed

lemma settled_yamux:
  assumes "settled log c" and "cn_yamux c = Some ys" and "yamux_inv ys'"
  shows "settled log (c\<lparr>cn_yamux := Some ys'\<rparr>)"
proof -
  have c: "conn_inv log c" "cn_state c \<noteq> Failed" using assms(1) by (simp_all add: settled_def)
  define d where "d = c\<lparr>cn_yamux := Some ys'\<rparr>"
  have "validate_expected_remote_peer d = validate_expected_remote_peer c"
    by (rule validate_cong) (simp_all add: d_def noise_of_def)
  with c have "upgrade_inv d" by (auto simp: conn_inv_def upgrade_inv_def d_def)
  moreover have "log_inv log d" "socket_inv d"
    using c by (auto simp: conn_inv_def log_inv_def socket_inv_def d_def)
  moreover have "streams_inv d"
    using c assms(2,3) by (auto simp: conn_inv_def streams_inv_def d_def split: option.splits)
  ultimately show ?thesis using c by (simp add: settled_def conn_inv_def flip: d_def) (simp add: d_def)
qed

lemma with_yamux_settled:
  assumes "settled log c"
    and owner: "\<And>ys. calm {} c (snd (snd (m (ys, c))))"
    and inv: "\<And>ys. yamux_inv ys \<Longrightarrow> yamux_inv (fst (snd (m (ys, c))))"
  shows "settled log (snd (with_yamux m c))"
proof (cases "cn_yamux c")
  case (Some ys)
  note calm = owner [of ys]
  have "yamux_inv ys"
    using assms(1) Some by (simp add: settled_def conn_inv_def streams_inv_def)
  then have "settled log ((snd (snd (m (ys, c))))\<lparr>cn_yamux := Some (fst (snd (m (ys, c))))\<rparr>)"
    by (intro settled_yamux [OF settled_calm [OF assms(1) calm], where ys = ys])
       (simp_all add: calmD(6) [OF calm] Some inv)
  with Some show ?thesis by (simp add: with_yamux_def case_prod_beta Let_def)
qed (simp add: with_yamux_def assms)

lemma handle_settled:
  assumes "settled log c"
  shows "settled log (snd (stream_try_read C h n c))" and "settled log (snd (stream_try_write C h data c))"
    and "settled log (snd (stream_close_write C h c))" and "settled log (snd (stream_reset C h c))"
proof -
  note own = owner_operations [OF session_outgoing_calm, of "{}" "(ys, c)" C for ys, simplified]
  note inv = inv_stream_operations [OF session_outgoing_whole, of "(ys, c)" C for ys, simplified]
  note direct = settled_calm [OF assms stays_apply [OF direct_calm(1)]]
    settled_calm [OF assms stays_apply [OF direct_calm(2)]]
    settled_calm [OF assms stays_apply [OF direct_calm(3)]] direct_reset_settled [OF assms]
  show "settled log (snd (stream_try_read C h n c))"
    by (cases h) (auto simp: stream_try_read_def direct own inv intro!: with_yamux_settled [OF assms])
  show "settled log (snd (stream_try_write C h data c))"
    by (cases h) (auto simp: stream_try_write_def direct own inv intro!: with_yamux_settled [OF assms])
  show "settled log (snd (stream_close_write C h c))"
    by (cases h) (auto simp: stream_close_write_def direct own inv intro!: with_yamux_settled [OF assms])
  show "settled log (snd (stream_reset C h c))"
    by (cases h) (auto simp: stream_reset_def direct own inv intro!: with_yamux_settled [OF assms])
qed

lemma accept_settled:
  assumes "settled log c"
  shows "settled log (snd (accept_inbound_stream c))"
proof (cases "cn_pending_inbound c")
  case (Cons h hs)
  have c: "conn_inv log c" "cn_state c \<noteq> Failed" using assms by (simp_all add: settled_def)
  define d where "d = c\<lparr>cn_pending_inbound := hs\<rparr>"
  have sr: "sc_secure_ready (cn_secure c)"
    using c Cons by (auto simp: conn_inv_def streams_inv_def)
  have "validate_expected_remote_peer d = validate_expected_remote_peer c"
    by (rule validate_cong) (simp_all add: d_def noise_of_def)
  with c have "upgrade_inv d" by (auto simp: conn_inv_def upgrade_inv_def d_def)
  moreover have "log_inv log d" "socket_inv d"
    using c by (auto simp: conn_inv_def log_inv_def socket_inv_def d_def)
  moreover have "streams_inv d"
    by (rule streams_inv_later [of c]) (use c sr in \<open>simp_all add: conn_inv_def d_def\<close>)
  ultimately have "settled log d" using c by (simp add: settled_def conn_inv_def d_def)
  with Cons show ?thesis by (simp add: accept_inbound_stream_def d_def)
qed (simp add: accept_inbound_stream_def assms)

lemma next_event_settled:
  assumes "settled log c" and "next_event c = (Some ev, c')"
  shows "settled (log @ [ev]) c'"
proof -
  have c: "conn_inv log c" "cn_state c \<noteq> Failed" using assms by (simp_all add: settled_def)
  from assms(2) obtain rest where q: "cn_event_queue c = ev # rest" and c': "c' = c\<lparr>cn_event_queue := rest\<rparr>"
    by (auto simp: next_event_def split: list.splits)
  have "validate_expected_remote_peer c' = validate_expected_remote_peer c"
    by (rule validate_cong) (simp_all add: c' noise_of_def)
  with c have "upgrade_inv c'" by (auto simp: conn_inv_def upgrade_inv_def c')
  moreover have "log_inv (log @ [ev]) c'" "socket_inv c'"
    using c q by (auto simp: conn_inv_def log_inv_def socket_inv_def c')
  moreover have "streams_inv c'"
    by (rule streams_inv_later [of c]) (use c in \<open>simp_all add: conn_inv_def c'\<close>)
  ultimately show ?thesis using c by (simp add: settled_def conn_inv_def c')
qed

section \<open>Reachable connections\<close>

text \<open>The kernel may change the results of its coming calls at any time.\<close>

definition set_kernel :: "recv_result list \<Rightarrow> send_result list \<Rightarrow> string option \<Rightarrow> connection \<Rightarrow> connection" where
  "set_kernel rs ss err c = set_io ((cn_io c)\<lparr>io_recvs := rs, io_sends := ss, io_shutdown_error := err\<rparr>) c"

text \<open>A connection with the events its owner has taken so far.\<close>

inductive conn_step ::
    "crypto \<Rightarrow> connection_event list \<times> connection \<Rightarrow> connection_event list \<times> connection \<Rightarrow> bool" for C where
  kernel: "conn_step C (log, c) (log, set_kernel rs ss err c)"
| readable: "conn_step C (log, c) (log, on_socket_readable C c)"
| writable: "conn_step C (log, c) (log, on_socket_writable c)"
| timeout: "conn_step C (log, c) (log, on_timeout c)"
| outbound: "conn_step C (log, c) (log, snd (begin_outbound_upgrade c))"
| inbound: "conn_step C (log, c) (log, snd (begin_inbound_upgrade c))"
| opens: "conn_step C (log, c) (log, snd (request_open_stream C protocol c))"
| accepts: "conn_step C (log, c) (log, snd (accept_inbound_stream c))"
| reads: "conn_step C (log, c) (log, snd (stream_try_read C h n c))"
| writes: "conn_step C (log, c) (log, snd (stream_try_write C h data c))"
| closes_write: "conn_step C (log, c) (log, snd (stream_close_write C h c))"
| resets: "conn_step C (log, c) (log, snd (stream_reset C h c))"
| takes: "next_event c = (Some ev, c') \<Longrightarrow> conn_step C (log, c) (log @ [ev], c')"
| closes: "conn_step C (log, c) (log, close c)"

definition initial_connection :: "connection \<Rightarrow> bool" where
  "initial_connection c \<longleftrightarrow>
     (\<exists>cid socket_fd remote_addr initiator identity muxers draws. 0 \<le> socket_fd \<and>
        c = new_connection cid socket_fd remote_addr initiator identity muxers draws)"

definition conn_reachable :: "crypto \<Rightarrow> connection_event list \<Rightarrow> connection \<Rightarrow> bool" where
  "conn_reachable C log c \<longleftrightarrow> (\<exists>c0. initial_connection c0 \<and> (conn_step C)\<^sup>*\<^sup>* ([], c0) (log, c))"

lemma settled_kernel: "settled log c \<Longrightarrow> settled log (set_kernel rs ss err c)"
  using inv_set_io [of log c "(cn_io c)\<lparr>io_recvs := rs, io_sends := ss, io_shutdown_error := err\<rparr>"]
  by (simp add: settled_def set_kernel_def) (simp add: set_io_def)

lemma conn_step_settled:
  assumes "conn_step C x y" and "settled (fst x) (snd x)"
  shows "settled (fst y) (snd y)"
  using assms
  by (induction rule: conn_step.induct)
     (simp_all add: settled_kernel handlers_settled begin_settled request_open_stream_settled
        accept_settled handle_settled next_event_settled)

lemma conn_reachable_settled:
  assumes "conn_reachable C log c"
  shows "settled log c"
proof -
  from assms obtain c0 where c0: "initial_connection c0" and steps: "(conn_step C)\<^sup>*\<^sup>* ([], c0) (log, c)"
    by (auto simp: conn_reachable_def)
  from c0 have start: "settled [] c0"
    by (auto simp: initial_connection_def intro: live_settled [OF new_connection_inv])
  from steps have "settled (fst (log, c)) (snd (log, c))"
    by (induction rule: rtranclp_induct) (use start in \<open>auto intro: conn_step_settled\<close>)
  then show ?thesis by simp
qed

section \<open>A closed connection stays closed\<close>

definition same_history :: "connection \<Rightarrow> connection \<Rightarrow> bool" where
  "same_history c c' \<longleftrightarrow> cn_state c' = cn_state c \<and> cn_event_queue c' = cn_event_queue c"

lemma calm_same_history: "calm {} c c' \<Longrightarrow> same_history c c'"
  using calm_shape(1) [of "{}" c c'] by (auto simp: same_history_def calmD(1) events_in_def)

lemma with_yamux_same_history:
  assumes "\<And>ys. calm {} c (snd (snd (m (ys, c))))"
  shows "same_history c (snd (with_yamux m c))"
proof (cases "cn_yamux c")
  case (Some ys)
  with calm_same_history [OF assms, of ys] show ?thesis
    by (simp add: with_yamux_def case_prod_beta Let_def same_history_def)
qed (simp add: with_yamux_def same_history_def)

lemma handle_same_history:
  "same_history c (snd (stream_try_read C h n c))" "same_history c (snd (stream_try_write C h data c))"
  "same_history c (snd (stream_close_write C h c))" "same_history c (snd (stream_reset C h c))"
proof -
  note own = owner_operations [OF session_outgoing_calm, of "{}" "(ys, c)" C for ys, simplified]
  note direct = calm_same_history [OF stays_apply [OF direct_calm(1)]]
    calm_same_history [OF stays_apply [OF direct_calm(2)]] calm_same_history [OF stays_apply [OF direct_calm(3)]]
  have reset: "same_history c (snd (direct_reset p c))" for p
    by (simp add: same_history_def direct_reset_def Let_def set_io_def map_stream_state_def)
  show "same_history c (snd (stream_try_read C h n c))"
    by (cases h) (auto simp: stream_try_read_def direct own intro!: with_yamux_same_history)
  show "same_history c (snd (stream_try_write C h data c))"
    by (cases h) (auto simp: stream_try_write_def direct own intro!: with_yamux_same_history)
  show "same_history c (snd (stream_close_write C h c))"
    by (cases h) (auto simp: stream_close_write_def direct own intro!: with_yamux_same_history)
  show "same_history c (snd (stream_reset C h c))"
    by (cases h) (auto simp: stream_reset_def reset own intro!: with_yamux_same_history)
qed

lemma closed_step:
  assumes "conn_step C x y" and "cn_state (snd x) = Closed"
  shows "cn_state (snd y) = Closed \<and> fst y @ cn_event_queue (snd y) = fst x @ cn_event_queue (snd x)"
  using assms
proof (induction rule: conn_step.induct)
  case (accepts log c)
  then show ?case by (auto simp: accept_inbound_stream_def split: list.splits)
next
  case (takes c ev c' log)
  then show ?case by (auto simp: next_event_def split: list.splits)
next
  case (reads log c h n)
  then show ?case using handle_same_history(1) [of c C h n] by (simp add: same_history_def)
next
  case (writes log c h data)
  then show ?case using handle_same_history(2) [of c C h data] by (simp add: same_history_def)
next
  case (closes_write log c h)
  then show ?case using handle_same_history(3) [of c C h] by (simp add: same_history_def)
next
  case (resets log c h)
  then show ?case using handle_same_history(4) [of c C h] by (simp add: same_history_def)
qed (simp_all add: set_kernel_def set_io_def on_socket_readable_def on_socket_writable_def on_timeout_def
      is_active_def begin_outbound_upgrade_def begin_inbound_upgrade_def request_open_stream_def close_def)

section \<open>Properties\<close>

definition toy_connection :: "bool \<Rightarrow> connection" where
  "toy_connection initiator =
     new_connection 7 3 (multiaddr_of_text ''/ip4/1.2.3.4/tcp/4001'') initiator (Some toy_identity) [kYamuxProtocol] toy_draws"

lemma toy_connection_reachable: "conn_reachable C [] (toy_connection initiator)"
proof -
  have "(0 :: int) \<le> 3" by simp
  then have "initial_connection (toy_connection initiator)"
    unfolding initial_connection_def toy_connection_def by blast
  then show ?thesis unfolding conn_reachable_def by blast
qed

text \<open>C10. In every state a connection can reach, whatever the peer, the kernel and the application do:
  the events emitted so far, taken or not, follow the protocol of the log automaton (secured,
  then multiplexer ready, then stream events, at most one error, at most one end and nothing
  after it), the connection is only ever seen accepted, securing, ready or closed, and it is
  closed exactly when the end was emitted, with the socket released.\<close>

theorem connection_log_ordered:
  assumes "conn_reachable C log c"
  shows "log_run LogUpgrading (log @ cn_event_queue c) = Some (phase_of (cn_state c))
    \<and> cn_state c \<in> {TcpAccepted, Securing, Ready, Closed}
    \<and> (cn_closed_emitted c \<longleftrightarrow> cn_state c = Closed)
    \<and> (cn_state c = Closed \<longrightarrow> \<not> io_socket_open (cn_io c))"
  using conn_reachable_settled [OF assms]
  by (auto simp: settled_def conn_inv_def log_inv_def upgrade_inv_def socket_inv_def)

theorem connection_log_ordered_witness:
  "log_run LogUpgrading ([] @ cn_event_queue (on_timeout (toy_connection True)))
     = Some (phase_of (cn_state (on_timeout (toy_connection True))))
   \<and> map ev_type (cn_event_queue (on_timeout (toy_connection True))) = [EvError, EvClosed]"
proof -
  have step: "conn_reachable toy_crypto [] (on_timeout (toy_connection True))"
    using toy_connection_reachable [of toy_crypto True] conn_step.timeout [of toy_crypto "[]" "toy_connection True"]
    unfolding conn_reachable_def by (meson rtranclp.rtrancl_into_rtrancl)
  have "map ev_type (cn_event_queue (on_timeout (toy_connection True))) = [EvError, EvClosed]"
    by (simp add: toy_connection_def new_connection_def new_io_def on_timeout_def is_active_def emit_error_def
        close_def push_event_def set_io_def Let_def)
  with connection_log_ordered [OF step] show ?thesis by simp
qed

text \<open>C24. A closed connection stays closed and silent: after any number of further handler calls,
  kernel results and uses of old handles it is still closed, and the events emitted, taken or
  not, are the same.\<close>

theorem closed_is_final:
  assumes "(conn_step C)\<^sup>*\<^sup>* (log, c) (log', c')" and "cn_state c = Closed"
  shows "cn_state c' = Closed \<and> log' @ cn_event_queue c' = log @ cn_event_queue c"
proof -
  from assms have "cn_state (snd (log', c')) = Closed
      \<and> fst (log', c') @ cn_event_queue (snd (log', c')) = fst (log, c) @ cn_event_queue (snd (log, c))"
    by (induction rule: rtranclp_induct) (use closed_step [of C] in force)+
  then show ?thesis by simp
qed

theorem closed_is_final_witness:
  "let c = close (toy_connection True)
   in cn_state (on_socket_readable toy_crypto c) = Closed
      \<and> cn_event_queue (on_socket_readable toy_crypto c) = cn_event_queue c"
proof -
  have closed: "cn_state (close (toy_connection True)) = Closed"
    by (simp add: close_def Let_def push_event_def set_io_def)
  have "(conn_step toy_crypto)\<^sup>*\<^sup>* ([], close (toy_connection True))
      ([], on_socket_readable toy_crypto (close (toy_connection True)))"
    by (rule r_into_rtranclp, rule conn_step.readable)
  from closed_is_final [OF this closed] show ?thesis by (simp add: Let_def)
qed

text \<open>Without a multiplexer a connection has at most one open stream, the newest one; its streams
  are numbered from 1 in the order of their creation; a multiplexed connection has none, and
  before the channel is secure there is neither a stream nor a multiplexer.\<close>

theorem fallback_streams:
  assumes "conn_reachable C log c"
  shows "(\<forall>i < length (cn_streams c). ss_open (cn_streams c ! i) \<longrightarrow> cn_stream_state c = Some i)
    \<and> map ss_id (cn_streams c) = map (\<lambda>i. of_nat (i + 1)) [0..<length (cn_streams c)]
    \<and> (cn_yamux c \<noteq> None \<longrightarrow> cn_streams c = [])
    \<and> (\<not> sc_secure_ready (cn_secure c) \<longrightarrow> cn_yamux c = None \<and> cn_streams c = [] \<and> cn_pending_inbound c = [])"
proof -
  from conn_reachable_settled [OF assms] have inv: "streams_inv c"
    by (simp add: settled_def conn_inv_def)
  have "cn_stream_state c = Some i" if "i < length (cn_streams c)" "ss_open (cn_streams c ! i)" for i
  proof -
    have "\<not> i + 1 < length (cn_streams c)" using inv that(2) by (auto simp: streams_inv_def)
    with that(1) have "length (cn_streams c) = i + 1" by simp
    with inv show ?thesis by (auto simp: streams_inv_def split: option.splits)
  qed
  moreover have "map ss_id (cn_streams c) = map (\<lambda>i. of_nat (i + 1)) [0..<length (cn_streams c)]"
    using inv by (intro nth_equalityI) (simp_all add: streams_inv_def)
  ultimately show ?thesis using inv by (auto simp: streams_inv_def)
qed

theorem fallback_streams_witness: "cn_streams (toy_connection False) = []"
  using fallback_streams [OF toy_connection_reachable [of toy_crypto False]]
  by (simp add: toy_connection_def new_connection_def)

text \<open>C33. End of stream discards what came with it: bytes received in the same burst as the peer's
  close are thrown away unprocessed, exactly as if they had not been received.\<close>

theorem end_of_stream_discards_burst:
  assumes "is_active c" and "0 \<le> io_fd (cn_io c)" and "bs \<noteq> []"
  shows "on_socket_readable C (set_recvs [RecvData bs, RecvData []] c)
    = on_socket_readable C (set_recvs [RecvData []] c)
    \<and> cn_state (on_socket_readable C (set_recvs [RecvData bs, RecvData []] c)) = Closed"
  using assms
  by (simp add: on_socket_readable_def is_active_def set_recvs_def set_rx_def set_io_def close_def close_socket_def
      Let_def push_event_def)

theorem end_of_stream_discards_burst_witness:
  "on_socket_readable toy_crypto (set_recvs [RecvData [1, 2, 3], RecvData []] (toy_connection False))
    = on_socket_readable toy_crypto (set_recvs [RecvData []] (toy_connection False))"
  by (rule end_of_stream_discards_burst [THEN conjunct1])
     (simp_all add: toy_connection_def new_connection_def new_io_def is_active_def)

text \<open>C34. A reset of the stream of a connection without multiplexer releases the socket but leaves
  the connection as it was: it is no longer active, no event tells the owner, and from then on
  the socket handlers and the timer change nothing.\<close>

theorem reset_strands_connection:
  assumes "io_socket_open (cn_io c)" and "0 \<le> io_fd (cn_io c)"
  shows "let c' = snd (stream_reset C (DirectHandle p) c)
    in cn_state c' = cn_state c \<and> cn_event_queue c' = cn_event_queue c \<and> \<not> is_active c'
       \<and> on_socket_readable C c' = c' \<and> on_socket_writable c' = c' \<and> on_timeout c' = c'"
  using assms
  by (simp add: stream_reset_def direct_reset_def Let_def close_socket_def set_io_def map_stream_state_def
      is_active_def on_socket_readable_def on_socket_writable_def on_timeout_def)

theorem reset_strands_connection_witness:
  "let c' = snd (stream_reset toy_crypto (DirectHandle 0) (snd (create_stream None True (toy_connection False))))
    in cn_event_queue c' = cn_event_queue (snd (create_stream None True (toy_connection False))) \<and> \<not> is_active c'"
  using reset_strands_connection [of "snd (create_stream None True (toy_connection False))" toy_crypto 0]
  by (simp add: Let_def) (simp add: toy_connection_def new_connection_def new_io_def create_stream_def
      Let_def push_event_def)

end
