(* ===== verification/ConnectionUpgrade.thy ===== *)
theory ConnectionUpgrade
  imports ConnectionLifecycle
begin

text \<open>
  Two connections of this program joined by a network that delivers what is sent: the upgrade from
  a plain socket to an authenticated, multiplexed channel, from both ends.
\<close>

section \<open>Carrying bytes from one end to the other\<close>

text \<open>The kernel takes everything end \<open>a\<close> has pending, then end \<open>b\<close> is told it is readable.\<close>

definition carry :: "crypto \<Rightarrow> connection \<Rightarrow> connection \<Rightarrow> connection \<times> connection" where
  "carry C a b =
     (let a1 = on_socket_writable (set_kernel [] [SendSome (length (io_wire_tx (cn_io a)))] None a);
          sent = drop (length (io_sent (cn_io a))) (io_sent (cn_io a1))
      in (a1, on_socket_readable C (set_kernel [RecvData sent] [] None b)))"

text \<open>The first three flights: the two sides of the protocol negotiation, and message 1.\<close>

definition first_flights :: "crypto \<Rightarrow> connection \<Rightarrow> connection \<Rightarrow> connection \<times> connection" where
  "first_flights C a b =
     (let a1 = snd (begin_outbound_upgrade a); b1 = snd (begin_inbound_upgrade b);
          (a2, b2) = carry C a1 b1;
          (b3, a3) = carry C b2 a2
      in carry C a3 b3)"

text \<open>The upgrade as a schedule of five whole flights.  The sends an end makes while it reads find the
  socket not ready, and what it queued leaves with its next flight.\<close>

definition establish :: "crypto \<Rightarrow> connection \<Rightarrow> connection \<Rightarrow> connection \<times> connection" where
  "establish C a b =
     (let (a4, b4) = first_flights C a b;
          (b5, a5) = carry C b4 a4
      in carry C a5 b5)"

text \<open>The same flights, but with the kernel of the initiator giving any \<open>answers\<close> to the sends it makes
  while it reads message 2.  The responder then gets what was sent of message 3, if anything, and
  after that the end of the stream; it is shown before and after that end.\<close>

definition decide :: "crypto \<Rightarrow> send_result list \<Rightarrow> connection \<Rightarrow> connection \<Rightarrow> connection \<times> connection \<times> connection" where
  "decide C answers a b =
     (let (a4, b4) = first_flights C a b;
          b5 = on_socket_writable (set_kernel [] [SendSome (length (io_wire_tx (cn_io b4)))] None b4);
          a5 = on_socket_readable C
                 (set_kernel [RecvData (drop (length (io_sent (cn_io b4))) (io_sent (cn_io b5)))] answers None a4);
          sent = drop (length (io_sent (cn_io a4))) (io_sent (cn_io a5));
          b6 = (if sent = [] then b5 else on_socket_readable C (set_kernel [RecvData sent] [] None b5))
      in (a5, b6, on_socket_readable C (set_kernel [RecvData []] [] None b6)))"

text \<open>A connection \<open>c\<close> in the middle of its upgrade: everything but the buffers and the secure channel
  is as in \<open>base\<close>.\<close>

definition channel :: "noise_session \<Rightarrow> security_stage \<Rightarrow> handshake_state \<Rightarrow> secure_channel" where
  "channel n st hs = \<lparr>sc_noise = n, sc_stage = st, sc_handshake_state = hs, sc_negotiated_muxer = None,
     sc_secure_ready = False\<rparr>"

definition upgrading :: "connection \<Rightarrow> noise_session \<Rightarrow> security_stage \<Rightarrow> handshake_state \<Rightarrow> session_io \<Rightarrow> connection" where
  "upgrading base n st hs io =
     base\<lparr>cn_io := io, cn_state := Securing, cn_create_inbound_on_ready := \<not> cn_is_initiator base,
          cn_secure := channel n st hs\<rparr>"

definition fresh :: "connection \<Rightarrow> bool" where
  "fresh base \<longleftrightarrow> cn_stream_state base = None \<and> cn_streams base = [] \<and> cn_event_queue base = []
     \<and> cn_pending_inbound base = [] \<and> cn_yamux base = None"

text \<open>A usable socket with nothing to read, \<open>tx\<close> to send and no kernel result scripted.\<close>

definition idle_io :: "bytes \<Rightarrow> session_io \<Rightarrow> bool" where
  "idle_io tx io \<longleftrightarrow> io_socket_open io \<and> 0 \<le> io_fd io \<and> io_wire_rx io = [] \<and> io_wire_tx io = tx
     \<and> io_sends io = [] \<and> io_recvs io = []"

definition upgrading_at ::
    "connection \<Rightarrow> connection \<Rightarrow> noise_session \<Rightarrow> security_stage \<Rightarrow> handshake_state \<Rightarrow> bytes \<Rightarrow> bool" where
  "upgrading_at base c n st hs tx \<longleftrightarrow> (\<exists>io. idle_io tx io \<and> c = upgrading base n st hs io)"

lemma upgrading_atI: "idle_io tx io \<Longrightarrow> upgrading_at base (upgrading base n st hs io) n st hs tx"
  unfolding upgrading_at_def by blast

lemma upgrading_simps [simp]:
  "cn_io (upgrading base n st hs io) = io" "cn_state (upgrading base n st hs io) = Securing"
  "cn_secure (upgrading base n st hs io) = channel n st hs"
  "cn_is_initiator (upgrading base n st hs io) = cn_is_initiator base"
  "cn_draws (upgrading base n st hs io) = cn_draws base"
  "noise_of (upgrading base n st hs io) = n"
  "cn_stream_state (upgrading base n st hs io) = cn_stream_state base"
  "set_io io' (upgrading base n st hs io) = upgrading base n st hs io'"
  "is_active (upgrading base n st hs io) = io_socket_open io"
  "set_noise n' (upgrading base n st hs io) = upgrading base n' st hs io"
  by (simp_all add: upgrading_def noise_of_def channel_def set_io_def is_active_def set_noise_def map_secure_def)

lemma channel_simps [simp]:
  "sc_noise (channel n st hs) = n" "sc_stage (channel n st hs) = st"
  "sc_handshake_state (channel n st hs) = hs" "\<not> sc_secure_ready (channel n st hs)"
  by (simp_all add: channel_def)

lemma upgrading_stage [simp]:
  "map_secure (\<lambda>sc. sc\<lparr>sc_stage := st', sc_handshake_state := hs'\<rparr>) (upgrading base n st hs io)
    = upgrading base n st' hs' io"
  "map_secure (\<lambda>sc. sc\<lparr>sc_handshake_state := hs'\<rparr>) (upgrading base n st hs io) = upgrading base n st hs' io"
  by (simp_all add: upgrading_def map_secure_def channel_def)

text \<open>Without a scripted result, flushing leaves everything as it is.\<close>

lemma flush_loop_blocked: "io_sends io = [] \<Longrightarrow> flush_loop [] io = (Inr (), io)"
  by (cases io) (simp add: flush_loop.simps)

lemma flush_blocked:
  assumes "io_sends io = []" and "io_socket_open io" and "0 \<le> io_fd io"
  shows "flush_wire io = (Inr (), io)"
  using assms by (simp add: flush_wire_def flush_loop_blocked)

lemma flush_pending_blocked:
  assumes "io_sends (cn_io c) = []" and "io_socket_open (cn_io c)" and "0 \<le> io_fd (cn_io c)"
    and "cn_stream_state c = None"
  shows "flush_pending_writes c = (Inr (), c)"
proof -
  have "set_io (cn_io c) c = c" by (simp add: set_io_def)
  with assms show ?thesis
    by (simp add: flush_pending_writes_def on_io_def zoom_def flush_blocked and_then_def)
qed

lemma flush_loop_all:
  "io_wire_tx io \<noteq> [] \<Longrightarrow> flush_loop [SendSome (length (io_wire_tx io))] io
    = (Inr (), io\<lparr>io_wire_tx := [], io_sent := io_sent io @ io_wire_tx io, io_sends := []\<rparr>)"
  by (cases io) (simp add: flush_loop.simps [of "[_]"] flush_loop.simps [of "[]"] Let_def)

lemma writable_all:
  assumes "is_active c" and "0 \<le> io_fd (cn_io c)" and "cn_stream_state c = None"
    and "io_wire_tx (cn_io c) \<noteq> []"
  shows "on_socket_writable (set_kernel [] [SendSome (length (io_wire_tx (cn_io c)))] None c)
    = set_io ((cn_io c)\<lparr>io_recvs := [], io_sends := [], io_shutdown_error := None, io_wire_tx := [],
        io_sent := io_sent (cn_io c) @ io_wire_tx (cn_io c)\<rparr>) c"
proof -
  let ?io = "(cn_io c)\<lparr>io_recvs := [], io_sends := [SendSome (length (io_wire_tx (cn_io c)))], io_shutdown_error := None\<rparr>"
  have "io_wire_tx ?io \<noteq> []" using assms(4) by simp
  from flush_loop_all [OF this]
  have "flush_wire ?io = (Inr (), ?io\<lparr>io_wire_tx := [], io_sent := io_sent ?io @ io_wire_tx ?io, io_sends := []\<rparr>)"
    using assms(1,2) by (simp add: flush_wire_def is_active_def)
  with assms show ?thesis
    by (simp add: on_socket_writable_def set_kernel_def set_io_def is_active_def flush_pending_writes_def
        on_io_def zoom_def and_then_def)
qed

text \<open>What the receiver processes: the delivered bytes, with no further kernel result.\<close>

definition given :: "bytes \<Rightarrow> session_io \<Rightarrow> session_io" where
  "given bs io = io\<lparr>io_recvs := [], io_sends := [], io_shutdown_error := None, io_wire_rx := io_wire_rx io @ bs\<rparr>"

lemma readable_answered:
  assumes "is_active c" and "bs \<noteq> []"
  shows "on_socket_readable C (set_kernel [RecvData bs] ss None c) =
    (case process_pending_input C (set_io ((given bs (cn_io c))\<lparr>io_sends := ss\<rparr>) c) of
       (Inl e, c2) \<Rightarrow> close (emit_error e c2) | (Inr _, c2) \<Rightarrow> c2)"
proof -
  have "is_active (set_kernel [RecvData bs] ss None c)"
    using assms(1) by (simp add: set_kernel_def set_io_def is_active_def)
  moreover have "recv_loop [RecvData bs] (set_kernel [RecvData bs] ss None c)
      = (True, set_io ((given bs (cn_io c))\<lparr>io_sends := ss\<rparr>) c)"
    using assms(2) by (simp add: set_kernel_def set_io_def given_def set_rx_def set_recvs_def)
  moreover have "io_recvs (cn_io (set_kernel [RecvData bs] ss None c)) = [RecvData bs]"
    by (simp add: set_kernel_def set_io_def)
  ultimately show ?thesis by (simp add: on_socket_readable_def)
qed

lemma readable_given:
  assumes "is_active c" and "bs \<noteq> []"
  shows "on_socket_readable C (set_kernel [RecvData bs] [] None c) =
    (case process_pending_input C (set_io (given bs (cn_io c)) c) of
       (Inl e, c2) \<Rightarrow> close (emit_error e c2) | (Inr _, c2) \<Rightarrow> c2)"
proof -
  have "(given bs (cn_io c))\<lparr>io_sends := []\<rparr> = given bs (cn_io c)" by (simp add: given_def)
  with readable_answered [OF assms, of C "[]"] show ?thesis by simp
qed

lemma readable_end:
  assumes "is_active c"
  shows "on_socket_readable C (set_kernel [RecvData []] [] None c) = close (set_recvs [] (set_kernel [RecvData []] [] None c))"
proof -
  have "is_active (set_kernel [RecvData []] [] None c)" "io_recvs (cn_io (set_kernel [RecvData []] [] None c)) = [RecvData []]"
    using assms by (simp_all add: set_kernel_def set_io_def is_active_def)
  then show ?thesis by (simp add: on_socket_readable_def)
qed

lemma given_simps [simp]:
  "io_socket_open (given bs io) = io_socket_open io" "io_fd (given bs io) = io_fd io"
  "io_wire_rx (given bs io) = io_wire_rx io @ bs" "io_wire_tx (given bs io) = io_wire_tx io"
  "io_sends (given bs io) = []" "io_recvs (given bs io) = []"
  by (simp_all add: given_def)

text \<open>One carrying step.\<close>

lemma carry_any:
  assumes "idle_io tx (cn_io a)" and "is_active a" and "cn_stream_state a = None" and "tx \<noteq> []" and "is_active b"
  shows "\<exists>io'. idle_io [] io' \<and> carry C a b = (set_io io' a, case process_pending_input C (set_io (given tx (cn_io b)) b) of
       (Inl e, c2) \<Rightarrow> close (emit_error e c2) | (Inr _, c2) \<Rightarrow> c2)"
proof -
  let ?io = "(cn_io a)\<lparr>io_recvs := [], io_sends := [], io_shutdown_error := None, io_wire_tx := [],
    io_sent := io_sent (cn_io a) @ tx\<rparr>"
  have w: "on_socket_writable (set_kernel [] [SendSome (length (io_wire_tx (cn_io a)))] None a) = set_io ?io a"
    using writable_all [of a] assms by (simp add: idle_io_def)
  have "idle_io [] ?io" using assms(1) by (simp add: idle_io_def)
  moreover have "carry C a b = (set_io ?io a, case process_pending_input C (set_io (given tx (cn_io b)) b) of
       (Inl e, c2) \<Rightarrow> close (emit_error e c2) | (Inr _, c2) \<Rightarrow> c2)"
    using readable_given [OF assms(5,4)] w by (simp add: carry_def Let_def) (simp add: set_io_def)
  ultimately show ?thesis by blast
qed

lemma carry_step:
  assumes "upgrading_at base a n st hs tx" and "fresh base" and "tx \<noteq> []" and "is_active b"
    and "process_pending_input C (set_io (given tx (cn_io b)) b) = (r, b1)"
  obtains a' where "upgrading_at base a' n st hs []"
    and "carry C a b = (a', case r of Inl e \<Rightarrow> close (emit_error e b1) | Inr _ \<Rightarrow> b1)"
proof -
  from assms(1) obtain io where io: "idle_io tx io" and a: "a = upgrading base n st hs io"
    by (auto simp: upgrading_at_def)
  have "is_active a" "cn_stream_state a = None" "idle_io tx (cn_io a)"
    using io assms(2) by (simp_all add: a idle_io_def fresh_def)
  from carry_any [OF this(3,1,2) assms(3,4)] obtain io'
    where "idle_io [] io'" and "carry C a b = (upgrading base n st hs io',
      case process_pending_input C (set_io (given tx (cn_io b)) b) of
       (Inl e, c2) \<Rightarrow> close (emit_error e c2) | (Inr _, c2) \<Rightarrow> c2)"
    by (auto simp: a)
  with that [OF upgrading_atI] assms(5) show ?thesis by (cases r) simp_all
qed

lemma upgrading_active: "upgrading_at base c n st hs tx \<Longrightarrow> is_active c"
  by (auto simp: upgrading_at_def idle_io_def)

section \<open>The stages of the upgrade\<close>

definition hello :: bytes where
  "hello = encode_message kHeader @ encode_message kNoiseProtocol"

lemma plain_noise [simp]: "plain kNoiseProtocol"
  by (simp add: plain_def kNoiseProtocol_def newline_def)

lemma hello_exchange:
  "hello \<noteq> []" "multistream_exchange_span hello = Inr (length hello)"
  "prepare_outbound [kNoiseProtocol] = Inr hello"
  "read_outbound_response hello kNoiseProtocol = Inr kNoiseProtocol"
  "negotiate_inbound hello [kNoiseProtocol] = Inr \<lparr>in_outbound = hello, in_protocol = Some kNoiseProtocol\<rparr>"
proof -
  show "multistream_exchange_span hello = Inr (length hello)"
    using exchange_span_encode [OF plain_kHeader plain_noise, of "[]"] by (simp add: hello_def)
  show "prepare_outbound [kNoiseProtocol] = Inr hello" by (simp add: prepare_outbound_ok hello_def)
  show "read_outbound_response hello kNoiseProtocol = Inr kNoiseProtocol"
    using read_outbound_response_token [OF plain_noise, of "[]" kNoiseProtocol] by (simp add: hello_def)
  show "negotiate_inbound hello [kNoiseProtocol] = Inr \<lparr>in_outbound = hello, in_protocol = Some kNoiseProtocol\<rparr>"
    using negotiate_inbound_request [OF plain_noise, of "[]" "[kNoiseProtocol]"] by (simp add: hello_def)
  show "hello \<noteq> []" by (simp add: hello_def encode_message_def ensure_newline_def Let_def)
qed

lemma pop_empty [simp]: "try_pop_wire_frame [] = NoFrame"
  by (simp add: try_pop_wire_frame_def)

lemma loops_idle:
  "io_wire_rx (cn_io c) = [] \<Longrightarrow> handshake_loop C c = (Inr (), c)"
  "io_wire_rx (cn_io c) = [] \<Longrightarrow> data_loop C c = (Inr (), c)"
  by (simp_all add: handshake_loop.simps data_loop.simps)

text \<open>Queueing and flushing at an end in the middle of its upgrade.\<close>

definition queued :: "bytes \<Rightarrow> session_io \<Rightarrow> session_io" where
  "queued bs io = io\<lparr>io_wire_tx := io_wire_tx io @ bs\<rparr>"

lemma queued_simps [simp]:
  "io_socket_open (queued bs io) = io_socket_open io" "io_fd (queued bs io) = io_fd io"
  "io_wire_rx (queued bs io) = io_wire_rx io" "io_wire_tx (queued bs io) = io_wire_tx io @ bs"
  "io_sends (queued bs io) = io_sends io" "io_recvs (queued bs io) = io_recvs io"
  by (simp_all add: queued_def)

lemma queue_raw_then:
  "and_then (on_io (queue_raw_bytes bs)) f c = f () (set_io (queued bs (cn_io c)) c)"
  by (simp add: on_io_def zoom_def queue_raw_bytes_def and_then_def queued_def)

lemma queue_wire_then:
  "fits_frame m \<Longrightarrow> and_then (on_io (queue_wire_message m)) f c = f () (set_io (queued (framed m) (cn_io c)) c)"
  by (simp add: on_io_def zoom_def queue_wire_message_def queue_raw_bytes_def and_then_def encode_frame_eq
      return_result_def update_def queued_def)

lemma flush_then:
  assumes "io_sends (cn_io c) = []" and "io_socket_open (cn_io c)" and "0 \<le> io_fd (cn_io c)"
    and "cn_stream_state c = None"
  shows "and_then flush_pending_writes f c = f () c"
  by (simp add: and_then_def flush_pending_blocked [OF assms])

lemma consume_then:
  "and_then (consume_rx n) f c = f () (set_io ((cn_io c)\<lparr>io_wire_rx := drop n (io_wire_rx (cn_io c))\<rparr>) c)"
  by (simp add: consume_rx_def on_io_def zoom_def and_then_def)

lemma begin_upgrades:
  assumes base: "base = new_connection cid fd addr initiator ident muxers draws" and "0 \<le> fd"
  shows "initiator \<Longrightarrow> upgrading_at base (snd (begin_outbound_upgrade base)) (noise_of base) NegotiatingProtocol Idle hello"
    and "\<not> initiator \<Longrightarrow> upgrading_at base (snd (begin_inbound_upgrade base)) (noise_of base) NegotiatingProtocol Idle []"
proof -
  have begun: "begin_upgrade (\<not> initiator) base = upgrading base (noise_of base) NegotiatingProtocol Idle (cn_io base)"
    by (simp add: base begin_upgrade_def upgrading_def new_connection_def map_secure_def channel_def noise_of_def)
  have io: "idle_io [] (cn_io base)" using assms by (simp add: base idle_io_def new_connection_def new_io_def)
  have start: "is_active base" "\<not> sc_secure_ready (cn_secure base)" "cn_state base \<noteq> Ready"
      "cn_is_initiator base = initiator" "cn_stream_state base = None"
    by (simp_all add: base new_connection_def new_io_def is_active_def)
  have io': "idle_io hello (queued hello (cn_io base))" using io by (simp add: idle_io_def)
  show "upgrading_at base (snd (begin_outbound_upgrade base)) (noise_of base) NegotiatingProtocol Idle hello" if initiator
    using begun start io' that
    by (simp add: begin_outbound_upgrade_def hello_exchange(3) queue_raw_then flush_pending_blocked idle_io_def
        upgrading_atI)
  show "upgrading_at base (snd (begin_inbound_upgrade base)) (noise_of base) NegotiatingProtocol Idle []" if "\<not> initiator"
    using begun start io that by (simp add: begin_inbound_upgrade_def upgrading_atI)
qed

lemma handshake_step:
  assumes "process_handshake_frame C m (upgrading base n st hs (io\<lparr>io_wire_rx := []\<rparr>)) = (Inr (), c1)"
    and "st = NoiseHandshake" and "fits_frame m" and "io_wire_rx io = framed m" and "io_wire_rx (cn_io c1) = []"
  shows "handshake_loop C (upgrading base n st hs io) = (Inr (), c1)"
proof -
  have "try_pop_wire_frame (io_wire_rx io) = Popped m []"
    using try_pop_framed [OF assms(3), of "[]"] assms(4) by simp
  with assms show ?thesis
    by (subst handshake_loop.simps) (simp add: set_rx_def loops_idle)
qed

lemma on_noise_then:
  "m (noise_of c) = (Inr r, n') \<Longrightarrow> and_then (on_noise m) f c = f r (set_noise n' c)"
  by (simp add: on_noise_def zoom_def and_then_def)

lemma process_pending_from:
  assumes "sc_stage (cn_secure c) = NegotiatingProtocol \<Longrightarrow> process_protocol_negotiation C c = (Inr (), c1)"
    and "sc_stage (cn_secure c) \<noteq> NegotiatingProtocol \<Longrightarrow> c1 = c"
    and "\<not> sc_secure_ready (cn_secure c1)" and "sc_stage (cn_secure c1) = NoiseHandshake"
    and "handshake_loop C c1 = (Inr (), c2)" and "sc_stage (cn_secure c2) \<noteq> MuxerNegotiation"
    and "sc_secure_ready (cn_secure c2) \<Longrightarrow> io_wire_rx (cn_io c2) = []"
  shows "process_pending_input C c = (Inr (), c2)"
proof (cases "sc_stage (cn_secure c) = NegotiatingProtocol")
  case True
  with assms show ?thesis by (simp add: process_pending_input_def and_then_def loops_idle)
next
  case False
  with assms show ?thesis by (simp add: process_pending_input_def and_then_def loops_idle)
qed

lemma responder_accepts_noise:
  assumes c: "upgrading_at base c n NegotiatingProtocol Idle []" and base: "fresh base" "\<not> cn_is_initiator base"
  shows "\<exists>c'. process_pending_input C (set_io (given hello (cn_io c)) c) = (Inr (), c')
    \<and> upgrading_at base c' n NoiseHandshake AwaitingMsg1 hello"
proof -
  from c obtain io where io: "idle_io [] io" and c: "c = upgrading base n NegotiatingProtocol Idle io"
    by (auto simp: upgrading_at_def)
  let ?io = "(queued hello (given hello io))\<lparr>io_wire_rx := []\<rparr>"
  have "process_protocol_negotiation C (upgrading base n NegotiatingProtocol Idle (given hello io))
      = (Inr (), upgrading base n NoiseHandshake AwaitingMsg1 ?io)"
    using io base
    by (simp add: process_protocol_negotiation_def idle_io_def fresh_def hello_exchange queue_raw_then flush_then
        consume_then)
  then have "process_pending_input C (set_io (given hello (cn_io c)) c)
      = (Inr (), upgrading base n NoiseHandshake AwaitingMsg1 ?io)"
    by (intro process_pending_from [where ?c1.0 = "upgrading base n NoiseHandshake AwaitingMsg1 ?io"])
       (simp_all add: c loops_idle)
  moreover have "idle_io hello ?io" using io by (simp add: idle_io_def)
  ultimately show ?thesis using upgrading_atI by blast
qed

lemma initiator_starts_noise:
  assumes c: "upgrading_at base c n NegotiatingProtocol Idle []" and base: "fresh base" "cn_is_initiator base"
    and m: "write_msg1 C (cn_draws base) n = (msg1, n1)" "msg1 \<noteq> []" "fits_frame msg1"
  shows "\<exists>c'. process_pending_input C (set_io (given hello (cn_io c)) c) = (Inr (), c')
    \<and> upgrading_at base c' n1 NoiseHandshake AwaitingMsg2 (framed msg1)"
proof -
  from c obtain io where io: "idle_io [] io" and c: "c = upgrading base n NegotiatingProtocol Idle io"
    by (auto simp: upgrading_at_def)
  let ?io = "queued (framed msg1) ((given hello io)\<lparr>io_wire_rx := []\<rparr>)"
  have "process_protocol_negotiation C (upgrading base n NegotiatingProtocol Idle (given hello io))
      = (Inr (), upgrading base n1 NoiseHandshake AwaitingMsg2 ?io)"
    using io base m
    by (simp add: process_protocol_negotiation_def start_noise_handshake_def idle_io_def fresh_def
        hello_exchange queue_wire_then flush_pending_blocked consume_then)
  then have "process_pending_input C (set_io (given hello (cn_io c)) c)
      = (Inr (), upgrading base n1 NoiseHandshake AwaitingMsg2 ?io)"
    by (intro process_pending_from [where ?c1.0 = "upgrading base n1 NoiseHandshake AwaitingMsg2 ?io"])
       (simp_all add: c loops_idle)
  moreover have "idle_io (framed msg1) ?io" using io by (simp add: idle_io_def)
  ultimately show ?thesis using upgrading_atI by blast
qed

lemma responder_answers:
  assumes c: "upgrading_at base c n NoiseHandshake AwaitingMsg1 []" and base: "fresh base"
    and m: "process_msg1 C (cn_draws base) msg1 n = (Inr msg2, n1)" "fits_frame msg1" "fits_frame msg2"
  shows "\<exists>c'. process_pending_input C (set_io (given (framed msg1) (cn_io c)) c) = (Inr (), c')
    \<and> upgrading_at base c' n1 NoiseHandshake AwaitingMsg3 (framed msg2)"
proof -
  from c obtain io where io: "idle_io [] io" and c: "c = upgrading base n NoiseHandshake AwaitingMsg1 io"
    by (auto simp: upgrading_at_def)
  let ?io = "queued (framed msg2) ((given (framed msg1) io)\<lparr>io_wire_rx := []\<rparr>)"
  have "process_handshake_frame C msg1 (upgrading base n NoiseHandshake AwaitingMsg1 ((given (framed msg1) io)\<lparr>io_wire_rx := []\<rparr>))
      = (Inr (), upgrading base n1 NoiseHandshake AwaitingMsg3 ?io)"
    using io base m
    by (simp add: process_handshake_frame_def idle_io_def fresh_def queue_wire_then flush_pending_blocked
        on_noise_then [where m = "process_msg1 C (cn_draws base) msg1"])
  from handshake_step [OF this refl m(2)]
  have "handshake_loop C (upgrading base n NoiseHandshake AwaitingMsg1 (given (framed msg1) io))
      = (Inr (), upgrading base n1 NoiseHandshake AwaitingMsg3 ?io)"
    using io by (simp add: idle_io_def)
  then have "process_pending_input C (set_io (given (framed msg1) (cn_io c)) c)
      = (Inr (), upgrading base n1 NoiseHandshake AwaitingMsg3 ?io)"
    by (intro process_pending_from [where ?c1.0 = "upgrading base n NoiseHandshake AwaitingMsg1 (given (framed msg1) io)"])
       (simp_all add: c)
  moreover have "idle_io (framed msg2) ?io" using io by (simp add: idle_io_def)
  ultimately show ?thesis using upgrading_atI by blast
qed

section \<open>The end of the upgrade\<close>

definition upgraded :: "connection \<Rightarrow> connection \<Rightarrow> noise_session \<Rightarrow> bytes \<Rightarrow> bool" where
  "upgraded base c n tx \<longleftrightarrow>
     cn_state c = Ready \<and> noise_of c = n \<and> sc_secure_ready (cn_secure c)
     \<and> sc_negotiated_muxer (cn_secure c) = Some kYamuxProtocol
     \<and> cn_yamux c = Some (new_session (cn_id base) (cn_is_initiator base))
     \<and> idle_io tx (cn_io c) \<and> cn_stream_state c = None
     \<and> map ev_type (cn_event_queue c) = [EvSecured, EvMultiplexerReady]
     \<and> cn_is_initiator c = cn_is_initiator base \<and> cn_remote_addr c = cn_remote_addr base
     \<and> cn_closed_emitted c = cn_closed_emitted base"

lemma upgraded_set_io: "upgraded base c n tx \<Longrightarrow> idle_io tx' io \<Longrightarrow> upgraded base (set_io io c) n tx'"
  by (simp add: upgraded_def set_io_def noise_of_def)

lemma upgraded_active: "upgraded base c n tx \<Longrightarrow> is_active c"
  by (simp add: upgraded_def idle_io_def is_active_def)

lemma finish_with_yamux:
  assumes "fresh base" and "idle_io tx io" and "select_stream_muxer n = Some kYamuxProtocol"
    and "validate_expected_remote_peer (upgrading base n NoiseHandshake Complete io) = Inr ()"
  shows "\<exists>c'. finish_secure_upgrade C (upgrading base n NoiseHandshake Complete io) = (Inr (), c')
    \<and> upgraded base c' n tx \<and> io_wire_rx (cn_io c') = [] \<and> sc_stage (cn_secure c') = StageReady"
proof -
  let ?c = "upgrading base n NoiseHandshake Complete io"
  let ?d = "complete_ready_state (activate_yamux (map_secure (\<lambda>sc. sc\<lparr>sc_negotiated_muxer := Some kYamuxProtocol\<rparr>) ?c))"
  have m: "map_secure (\<lambda>sc. sc\<lparr>sc_negotiated_muxer := select_stream_muxer (sc_noise sc)\<rparr>) ?c
      = map_secure (\<lambda>sc. sc\<lparr>sc_negotiated_muxer := Some kYamuxProtocol\<rparr>) ?c"
    using assms(3) by (simp add: map_secure_def)
  have "sc_negotiated_muxer (cn_secure (map_secure (\<lambda>sc. sc\<lparr>sc_negotiated_muxer := Some kYamuxProtocol\<rparr>) ?c))
      = Some kYamuxProtocol"
    by (simp add: map_secure_def)
  then have "finish_secure_upgrade C ?c = (Inr (), ?d)"
    using assms(4) by (simp add: finish_secure_upgrade_def m)
  moreover have "upgraded base ?d n tx" "io_wire_rx (cn_io ?d) = []" "sc_stage (cn_secure ?d) = StageReady"
    using assms(1,2)
    by (simp_all add: upgraded_def complete_ready_state_def activate_yamux_def map_secure_def push_event_def
        upgrading_def fresh_def noise_of_def channel_def idle_io_def)
  ultimately show ?thesis by blast
qed

lemma initiator_finishes:
  assumes c: "upgrading_at base c n NoiseHandshake AwaitingMsg2 []" and base: "fresh base"
    and m: "process_msg2 C msg2 n = (Inr msg3, n2)" "fits_frame msg2" "fits_frame msg3"
    and sel: "select_stream_muxer n2 = Some kYamuxProtocol"
    and valid: "\<And>io. validate_expected_remote_peer (upgrading base n2 NoiseHandshake Complete io) = Inr ()"
  shows "\<exists>c'. process_pending_input C (set_io (given (framed msg2) (cn_io c)) c) = (Inr (), c')
    \<and> upgraded base c' n2 (framed msg3)"
proof -
  from c obtain io where io: "idle_io [] io" and c: "c = upgrading base n NoiseHandshake AwaitingMsg2 io"
    by (auto simp: upgrading_at_def)
  let ?io = "queued (framed msg3) ((given (framed msg2) io)\<lparr>io_wire_rx := []\<rparr>)"
  have "idle_io (framed msg3) ?io" using io by (simp add: idle_io_def)
  from finish_with_yamux [OF base this sel valid] obtain c'
    where fin: "finish_secure_upgrade C (upgrading base n2 NoiseHandshake Complete ?io) = (Inr (), c')"
      and c': "upgraded base c' n2 (framed msg3)" "io_wire_rx (cn_io c') = []" "sc_stage (cn_secure c') = StageReady"
    by blast
  have "process_handshake_frame C msg2 (upgrading base n NoiseHandshake AwaitingMsg2 ((given (framed msg2) io)\<lparr>io_wire_rx := []\<rparr>))
      = (Inr (), c')"
    using io base m fin
    by (simp add: process_handshake_frame_def idle_io_def fresh_def queue_wire_then flush_then
        on_noise_then [where m = "process_msg2 C msg2"])
  from handshake_step [OF this refl m(2)]
  have "handshake_loop C (upgrading base n NoiseHandshake AwaitingMsg2 (given (framed msg2) io)) = (Inr (), c')"
    using io c' by (simp add: idle_io_def)
  then have "process_pending_input C (set_io (given (framed msg2) (cn_io c)) c) = (Inr (), c')"
    by (intro process_pending_from [where ?c1.0 = "upgrading base n NoiseHandshake AwaitingMsg2 (given (framed msg2) io)"])
       (simp_all add: c c')
  with c' show ?thesis by blast
qed

lemma responder_finishes:
  assumes c: "upgrading_at base c n NoiseHandshake AwaitingMsg3 []" and base: "fresh base"
    and m: "process_msg3 C msg3 n = (Inr (), n2)" "fits_frame msg3"
    and sel: "select_stream_muxer n2 = Some kYamuxProtocol"
    and valid: "\<And>io. validate_expected_remote_peer (upgrading base n2 NoiseHandshake Complete io) = Inr ()"
  shows "\<exists>c'. process_pending_input C (set_io (given (framed msg3) (cn_io c)) c) = (Inr (), c')
    \<and> upgraded base c' n2 []"
proof -
  from c obtain io where io: "idle_io [] io" and c: "c = upgrading base n NoiseHandshake AwaitingMsg3 io"
    by (auto simp: upgrading_at_def)
  let ?io = "(given (framed msg3) io)\<lparr>io_wire_rx := []\<rparr>"
  have "idle_io [] ?io" using io by (simp add: idle_io_def)
  from finish_with_yamux [OF base this sel valid] obtain c'
    where fin: "finish_secure_upgrade C (upgrading base n2 NoiseHandshake Complete ?io) = (Inr (), c')"
      and c': "upgraded base c' n2 []" "io_wire_rx (cn_io c') = []" "sc_stage (cn_secure c') = StageReady"
    by blast
  have "process_handshake_frame C msg3 (upgrading base n NoiseHandshake AwaitingMsg3 ?io) = (Inr (), c')"
    using m fin
    by (simp add: process_handshake_frame_def on_noise_then [where m = "process_msg3 C msg3"])
  from handshake_step [OF this refl m(2)]
  have "handshake_loop C (upgrading base n NoiseHandshake AwaitingMsg3 (given (framed msg3) io)) = (Inr (), c')"
    using io c' by (simp add: idle_io_def)
  then have "process_pending_input C (set_io (given (framed msg3) (cn_io c)) c) = (Inr (), c')"
    by (intro process_pending_from [where ?c1.0 = "upgrading base n NoiseHandshake AwaitingMsg3 (given (framed msg3) io)"])
       (simp_all add: c c')
  with c' show ?thesis by blast
qed

section \<open>Both ends together\<close>

definition offered :: "connection \<Rightarrow> string list" where
  "offered c = stream_muxers (ns_local_extensions (noise_of c))"

definition identity_peer :: "identity \<Rightarrow> peer_id" where
  "identity_peer i = PeerId (drop 32 (id_secret_key i))"

text \<open>A connection as the factory makes it, with an identity, usable keys and extensions that fit a
  handshake frame.\<close>

definition honest_end :: "crypto \<Rightarrow> connection \<Rightarrow> identity \<Rightarrow> bool" where
  "honest_end C base ident \<longleftrightarrow>
     (\<exists>cid fd addr initiator muxers draws.
        base = new_connection cid fd addr initiator (Some ident) muxers draws \<and> 0 \<le> fd
        \<and> ready_for_handshake C draws (noise_of base))
     \<and> length (serialize_extensions (ns_local_extensions (noise_of base))) \<le> 60000"

text \<open>The peer a dial address names, when the text is one this program can read.  An address whose
  peer id it cannot read names nobody: the code then accepts any peer, and says so in a comment.\<close>

definition names_peer :: "multiaddr \<Rightarrow> peer_id \<Rightarrow> bool" where
  "names_peer addr p \<longleftrightarrow>
     (case parse_ip4_tcp addr of
        Inl _ \<Rightarrow> False
      | Inr endpoint \<Rightarrow>
          (case ep_peer_id endpoint of
             None \<Rightarrow> False
           | Some txt \<Rightarrow> peer_id_from_string txt = Inr p))"

lemma honest_fresh: "honest_end C base ident \<Longrightarrow> fresh base"
  by (auto simp: honest_end_def fresh_def new_connection_def)

lemma honest_noise:
  assumes "honest_end C base ident"
  shows "public_identity (noise_of base) = Some (identity_peer ident)"
    and "stream_muxers (public_extensions (noise_of base)) = offered base"
    and "ready_for_handshake C (cn_draws base) (noise_of base)"
  using assms by (auto simp: honest_end_def public_identity_def public_extensions_def identity_peer_def
      offered_def noise_of_def new_connection_def)

lemma honest_starts:
  assumes "honest_end C base ident"
  shows "cn_is_initiator base \<Longrightarrow>
      upgrading_at base (snd (begin_outbound_upgrade base)) (noise_of base) NegotiatingProtocol Idle hello"
    and "\<not> cn_is_initiator base \<Longrightarrow>
      upgrading_at base (snd (begin_inbound_upgrade base)) (noise_of base) NegotiatingProtocol Idle []"
proof -
  from assms obtain cid fd addr initiator muxers draws
    where b: "base = new_connection cid fd addr initiator (Some ident) muxers draws" "0 \<le> fd"
    by (auto simp: honest_end_def)
  then have "cn_is_initiator base = initiator" by (simp add: new_connection_def)
  with begin_upgrades [OF b] show "cn_is_initiator base \<Longrightarrow>
      upgrading_at base (snd (begin_outbound_upgrade base)) (noise_of base) NegotiatingProtocol Idle hello"
    "\<not> cn_is_initiator base \<Longrightarrow>
      upgrading_at base (snd (begin_inbound_upgrade base)) (noise_of base) NegotiatingProtocol Idle []"
    by simp_all
qed

lemma select_first_common:
  "find (\<lambda>m. m \<in> set (stream_muxers (ns_remote_extensions n))) (stream_muxers (ns_local_extensions n)) = Some m
   \<Longrightarrow> select_stream_muxer n = Some m"
  by (auto simp: select_stream_muxer_def find_Some_iff)

lemma validate_upgrading:
  "\<not> cn_is_initiator base \<Longrightarrow> validate_expected_remote_peer (upgrading base n st hs io) = Inr ()"
  "ns_remote_peer_id n = Some p \<Longrightarrow> \<forall>q. names_peer (cn_remote_addr base) q \<longrightarrow> q = p \<Longrightarrow>
    validate_expected_remote_peer (upgrading base n st hs io) = Inr ()"
  "ns_remote_peer_id n = Some p \<Longrightarrow> names_peer (cn_remote_addr base) q \<Longrightarrow> q \<noteq> p \<Longrightarrow> cn_is_initiator base \<Longrightarrow>
    validate_expected_remote_peer (upgrading base n st hs io) = Inl ''authenticated peer id does not match dial target''"
proof -
  have addr: "cn_remote_addr (upgrading base n st hs io) = cn_remote_addr base" by (simp add: upgrading_def)
  show "\<not> cn_is_initiator base \<Longrightarrow> validate_expected_remote_peer (upgrading base n st hs io) = Inr ()"
    by (simp add: validate_expected_remote_peer_def)
  show "ns_remote_peer_id n = Some p \<Longrightarrow> \<forall>q. names_peer (cn_remote_addr base) q \<longrightarrow> q = p \<Longrightarrow>
    validate_expected_remote_peer (upgrading base n st hs io) = Inr ()"
    by (auto simp: validate_expected_remote_peer_def names_peer_def addr split: sum.splits option.splits)
  show "ns_remote_peer_id n = Some p \<Longrightarrow> names_peer (cn_remote_addr base) q \<Longrightarrow> q \<noteq> p \<Longrightarrow> cn_is_initiator base \<Longrightarrow>
    validate_expected_remote_peer (upgrading base n st hs io) = Inl ''authenticated peer id does not match dial target''"
    by (auto simp: validate_expected_remote_peer_def names_peer_def addr split: sum.splits option.splits)
qed

text \<open>The first four steps, up to the initiator that waits for message 2.\<close>

lemma upgrade_prefix:
  assumes C: "crypto_ok C" and a: "honest_end C a idA" "cn_is_initiator a"
    and b: "honest_end C b idB" "\<not> cn_is_initiator b"
  obtains a4 b4 msg2 msg3 nA nB nA' nB'
  where "first_flights C a b = (a4, b4)"
    and "upgrading_at a a4 nA NoiseHandshake AwaitingMsg2 []"
    and "upgrading_at b b4 nB NoiseHandshake AwaitingMsg3 (framed msg2)"
    and "process_msg2 C msg2 nA = (Inr msg3, nA')" and "process_msg3 C msg3 nB = (Inr (), nB')"
    and "fits_frame msg2" and "fits_frame msg3" and "agreed nA' nB'"
    and "ns_remote_peer_id nA' = Some (identity_peer idB)" and "ns_remote_peer_id nB' = Some (identity_peer idA)"
    and "stream_muxers (ns_local_extensions nA') = offered a" and "stream_muxers (ns_remote_extensions nA') = offered b"
    and "stream_muxers (ns_local_extensions nB') = offered b" and "stream_muxers (ns_remote_extensions nB') = offered a"
proof -
  note fa = honest_fresh [OF a(1)] and fb = honest_fresh [OF b(1)]
  note na = honest_noise [OF a(1)] and nb = honest_noise [OF b(1)]
  from handshake_completes [OF C na(3) nb(3)] obtain msg1 nA msg2 nB msg3 nA' nB' where
    m: "write_msg1 C (cn_draws a) (noise_of a) = (msg1, nA)" "msg1 \<noteq> []"
      "process_msg1 C (cn_draws b) msg1 (noise_of b) = (Inr msg2, nB)"
      "process_msg2 C msg2 nA = (Inr msg3, nA')" "process_msg3 C msg3 nB = (Inr (), nB')"
    and agree: "agreed nA' nB'"
    and who: "ns_remote_peer_id nA' = public_identity (noise_of b)" "ns_remote_extensions nA' = public_extensions (noise_of b)"
      "ns_remote_peer_id nB' = public_identity (noise_of a)" "ns_remote_extensions nB' = public_extensions (noise_of a)"
      "ns_local_extensions nA' = ns_local_extensions (noise_of a)" "ns_local_extensions nB' = ns_local_extensions (noise_of b)"
    and len: "length msg1 = 32" "length msg2 \<le> 296 + length (serialize_extensions (ns_local_extensions (noise_of b)))"
      "length msg3 \<le> 264 + length (serialize_extensions (ns_local_extensions (noise_of a)))"
    by metis
  have fits: "fits_frame msg1" "fits_frame msg2" "fits_frame msg3"
    using len a(1) b(1) by (simp_all add: fits_frame_def honest_end_def)
  note a1 = honest_starts(1) [OF a] and b1 = honest_starts(2) [OF b]
  from responder_accepts_noise [OF b1 fb b(2), of C] obtain b2
    where s1: "process_pending_input C (set_io (given hello (cn_io (snd (begin_inbound_upgrade b)))) (snd (begin_inbound_upgrade b))) = (Inr (), b2)"
      and b2: "upgrading_at b b2 (noise_of b) NoiseHandshake AwaitingMsg1 hello" by blast
  obtain a2 where a2: "upgrading_at a a2 (noise_of a) NegotiatingProtocol Idle []"
    and c1: "carry C (snd (begin_outbound_upgrade a)) (snd (begin_inbound_upgrade b)) = (a2, b2)"
    by (rule carry_step [OF a1 fa hello_exchange(1) upgrading_active [OF b1] s1]) simp
  from initiator_starts_noise [OF a2 fa a(2) m(1,2) fits(1)] obtain a3
    where s2: "process_pending_input C (set_io (given hello (cn_io a2)) a2) = (Inr (), a3)"
      and a3: "upgrading_at a a3 nA NoiseHandshake AwaitingMsg2 (framed msg1)" by blast
  obtain b3 where b3: "upgrading_at b b3 (noise_of b) NoiseHandshake AwaitingMsg1 []" and c2: "carry C b2 a2 = (b3, a3)"
    by (rule carry_step [OF b2 fb hello_exchange(1) upgrading_active [OF a2] s2]) simp
  from responder_answers [OF b3 fb m(3) fits(1,2)] obtain b4
    where s3: "process_pending_input C (set_io (given (framed msg1) (cn_io b3)) b3) = (Inr (), b4)"
      and b4: "upgrading_at b b4 nB NoiseHandshake AwaitingMsg3 (framed msg2)" by blast
  have "framed msg1 \<noteq> []" by (simp add: framed_def)
  then obtain a4 where a4: "upgrading_at a a4 nA NoiseHandshake AwaitingMsg2 []" and c3: "carry C a3 b3 = (a4, b4)"
    by (rule carry_step [OF a3 fa _ upgrading_active [OF b3] s3]) simp
  have first: "first_flights C a b = (a4, b4)" by (simp add: first_flights_def c1 c2 c3)
  show ?thesis
    by (rule that [OF first a4 b4 m(4,5) fits(2,3) agree]) (simp_all add: who na nb offered_def [symmetric])
qed

text \<open>The channel two ends share once both are ready: what one seals the other opens.\<close>

definition linked :: "connection \<Rightarrow> connection \<Rightarrow> bool" where
  "linked a b \<longleftrightarrow>
     ns_cs_send (noise_of a) = ns_cs_recv (noise_of b) \<and> ns_cs_recv (noise_of a) = ns_cs_send (noise_of b)
     \<and> cs_has_key (ns_cs_send (noise_of a)) \<and> cs_has_key (ns_cs_send (noise_of b))
     \<and> io_wire_rx (cn_io a) = [] \<and> io_wire_rx (cn_io b) = [] \<and> io_wire_tx (cn_io a) = [] \<and> io_wire_tx (cn_io b) = []"

text \<open>A connection that came to be ready out of \<open>base\<close>, knowing its peer.\<close>

definition established :: "connection \<Rightarrow> peer_id \<Rightarrow> connection \<Rightarrow> bool" where
  "established base p c \<longleftrightarrow>
     cn_state c = Ready \<and> is_active c \<and> sc_secure_ready (cn_secure c) \<and> remote_peer c = Some p
     \<and> sc_negotiated_muxer (cn_secure c) = Some kYamuxProtocol
     \<and> cn_yamux c = Some (new_session (cn_id base) (cn_is_initiator base))
     \<and> map ev_type (cn_event_queue c) = [EvSecured, EvMultiplexerReady]"

lemma upgraded_established:
  "upgraded base c n [] \<Longrightarrow> ns_remote_peer_id n = Some p \<Longrightarrow> established base p c"
  using upgraded_active [of base c n "[]"] by (auto simp: established_def upgraded_def remote_peer_def)

lemma upgraded_linked:
  "upgraded a a' nA [] \<Longrightarrow> upgraded b b' nB [] \<Longrightarrow> agreed nA nB \<Longrightarrow> linked a' b'"
  by (auto simp: upgraded_def linked_def agreed_def idle_io_def)

lemma upgrade_succeeds:
  assumes C: "crypto_ok C" and a: "honest_end C a idA" "cn_is_initiator a"
    and b: "honest_end C b idB" "\<not> cn_is_initiator b"
    and sel: "find (\<lambda>m. m \<in> set (offered b)) (offered a) = Some kYamuxProtocol"
      "find (\<lambda>m. m \<in> set (offered a)) (offered b) = Some kYamuxProtocol"
    and dial: "\<forall>p. names_peer (cn_remote_addr a) p \<longrightarrow> p = identity_peer idB"
  obtains a' b' nA' nB' where "establish C a b = (a', b')" and "upgraded a a' nA' []" and "upgraded b b' nB' []"
    and "agreed nA' nB'"
    and "ns_remote_peer_id nA' = Some (identity_peer idB)" and "ns_remote_peer_id nB' = Some (identity_peer idA)"
proof -
  from upgrade_prefix [OF C a b] obtain a4 b4 msg2 msg3 nA nB nA' nB'
    where first: "first_flights C a b = (a4, b4)"
    and a4: "upgrading_at a a4 nA NoiseHandshake AwaitingMsg2 []"
    and b4: "upgrading_at b b4 nB NoiseHandshake AwaitingMsg3 (framed msg2)"
    and m: "process_msg2 C msg2 nA = (Inr msg3, nA')" "process_msg3 C msg3 nB = (Inr (), nB')"
    and fits: "fits_frame msg2" "fits_frame msg3" and agree: "agreed nA' nB'"
    and who: "ns_remote_peer_id nA' = Some (identity_peer idB)" "ns_remote_peer_id nB' = Some (identity_peer idA)"
    and mux: "stream_muxers (ns_local_extensions nA') = offered a" "stream_muxers (ns_remote_extensions nA') = offered b"
      "stream_muxers (ns_local_extensions nB') = offered b" "stream_muxers (ns_remote_extensions nB') = offered a"
    by metis
  note fa = honest_fresh [OF a(1)] and fb = honest_fresh [OF b(1)]
  have selA: "select_stream_muxer nA' = Some kYamuxProtocol" and selB: "select_stream_muxer nB' = Some kYamuxProtocol"
    by (rule select_first_common, simp add: mux sel)+
  note ne = framed_def [of msg2] framed_def [of msg3]
  from initiator_finishes [OF a4 fa m(1) fits selA validate_upgrading(2) [OF who(1) dial]] obtain a5
    where s4: "process_pending_input C (set_io (given (framed msg2) (cn_io a4)) a4) = (Inr (), a5)"
      and a5: "upgraded a a5 nA' (framed msg3)" by blast
  obtain b5 where b5: "upgrading_at b b5 nB NoiseHandshake AwaitingMsg3 []" and c4: "carry C b4 a4 = (b5, a5)"
    by (rule carry_step [OF b4 fb _ upgrading_active [OF a4] s4]) (simp_all add: ne)
  from responder_finishes [OF b5 fb m(2) fits(2) selB validate_upgrading(1) [OF b(2)]] obtain b6
    where s5: "process_pending_input C (set_io (given (framed msg3) (cn_io b5)) b5) = (Inr (), b6)"
      and b6: "upgraded b b6 nB' []" by blast
  have "idle_io (framed msg3) (cn_io a5)" "cn_stream_state a5 = None" using a5 by (simp_all add: upgraded_def)
  from carry_any [OF this(1) upgraded_active [OF a5] this(2) _ upgrading_active [OF b5], of C] s5
  obtain io where io: "idle_io [] io" and c5: "carry C a5 b5 = (set_io io a5, b6)" by (auto simp: ne)
  show ?thesis
    by (rule that [OF _ upgraded_set_io [OF a5 io] b6 agree who]) (simp add: establish_def first c4 c5)
qed

section \<open>Carrying is made of handler calls\<close>

lemma reachable_step: "conn_reachable C log c \<Longrightarrow> conn_step C (log, c) (log', c') \<Longrightarrow> conn_reachable C log' c'"
  unfolding conn_reachable_def by (meson rtranclp.rtrancl_into_rtrancl)

lemma carry_reachable:
  assumes "conn_reachable C la a" and "conn_reachable C lb b" and "carry C a b = (a', b')"
  shows "conn_reachable C la a'" and "conn_reachable C lb b'"
  using assms(3) reachable_step [OF reachable_step [OF assms(1) conn_step.kernel] conn_step.writable]
    reachable_step [OF reachable_step [OF assms(2) conn_step.kernel] conn_step.readable]
  by (auto simp: carry_def Let_def)

lemma establish_reachable:
  assumes "conn_reachable C la a" and "conn_reachable C lb b" and "establish C a b = (a', b')"
  shows "conn_reachable C la a'" and "conn_reachable C lb b'"
proof -
  let ?a1 = "snd (begin_outbound_upgrade a)" and ?b1 = "snd (begin_inbound_upgrade b)"
  have s: "conn_reachable C la ?a1" "conn_reachable C lb ?b1"
    using assms(1,2) by (auto intro: reachable_step conn_step.outbound conn_step.inbound)
  obtain a2 b2 where c1: "carry C ?a1 ?b1 = (a2, b2)" by force
  obtain b3 a3 where c2: "carry C b2 a2 = (b3, a3)" by force
  obtain a4 b4 where c3: "carry C a3 b3 = (a4, b4)" by force
  obtain b5 a5 where c4: "carry C b4 a4 = (b5, a5)" by force
  have c5: "carry C a5 b5 = (a', b')" using assms(3) by (simp add: establish_def first_flights_def c1 c2 c3 c4)
  note r1 = carry_reachable [OF s c1]
  note r2 = carry_reachable [OF r1(2,1) c2]
  note r3 = carry_reachable [OF r2(2,1) c3]
  note r4 = carry_reachable [OF r3(2,1) c4]
  show "conn_reachable C la a'" "conn_reachable C lb b'"
    by (rule carry_reachable [OF r4(2,1) c5])+
qed

lemma honest_reachable: "honest_end C base ident \<Longrightarrow> conn_reachable C [] base"
  unfolding honest_end_def conn_reachable_def initial_connection_def by blast

section \<open>A peer that is not the one dialled\<close>

lemma close_upgrading:
  assumes "fresh base" and "io_socket_open io" and "0 \<le> io_fd io"
  shows "cn_event_queue (close (emit_error e (upgrading base n st hs io))) =
      [\<lparr>ev_type = EvError, ev_stream_id = None, ev_detail = e\<rparr>,
       \<lparr>ev_type = EvClosed, ev_stream_id = None, ev_detail = ''connection closed''\<rparr>]
      \<or> cn_closed_emitted base"
    and "cn_state (close (emit_error e (upgrading base n st hs io))) = Closed"
    and "\<not> sc_secure_ready (cn_secure (close (emit_error e (upgrading base n st hs io))))"
    and "\<not> io_socket_open (cn_io (close (emit_error e (upgrading base n st hs io))))"
  using assms
  by (simp_all add: close_def emit_error_def upgrading_def fresh_def push_event_def set_io_def close_socket_def
      current_stream_id_def channel_def Let_def)

text \<open>Whatever the kernel answers, a flush sends the first bytes of what is pending, and it fails only
  with an error the kernel gave.\<close>

lemma flush_loop_takes:
  "\<exists>k. io_sent (snd (flush_loop ss io)) = io_sent io @ take k (io_wire_tx io)
    \<and> (\<forall>e. fst (flush_loop ss io) = Inl e \<longrightarrow> SendError e \<in> set ss)"
proof (induction ss arbitrary: io)
  case Nil
  show ?case by (intro exI [of _ 0]) (simp add: flush_loop.simps)
next
  case (Cons a ss)
  show ?case
  proof (cases "io_wire_tx io = [] \<or> (\<forall>k. a \<noteq> SendSome k)")
    case True
    then show ?thesis
      by (intro exI [of _ 0]) (cases a; cases "io_wire_tx io = []"; simp add: flush_loop.simps [of "_ # ss"])
  next
    case False
    then obtain k where k: "a = SendSome k" and tx: "io_wire_tx io \<noteq> []" by blast
    define n where "n = min (k + 1) (length (io_wire_tx io))"
    define io' where "io' = io\<lparr>io_wire_tx := drop n (io_wire_tx io), io_sent := io_sent io @ take n (io_wire_tx io)\<rparr>"
    have step: "flush_loop (a # ss) io = flush_loop ss io'"
      unfolding k using tx by (simp add: flush_loop.simps [of "SendSome k # ss"] Let_def n_def io'_def)
    from Cons.IH [of io'] obtain m where m: "io_sent (snd (flush_loop ss io')) = io_sent io' @ take m (io_wire_tx io')"
      and err: "\<forall>e. fst (flush_loop ss io') = Inl e \<longrightarrow> SendError e \<in> set ss" by blast
    have "io_sent io' @ take m (io_wire_tx io') = io_sent io @ take (n + m) (io_wire_tx io)"
      by (simp add: io'_def take_add)
    with m err show ?thesis unfolding step by (metis list.set_intros(2))
  qed
qed

lemma flush_loop_one:
  "length (io_wire_tx io) \<le> k + 1 \<Longrightarrow> io_wire_tx io \<noteq> [] \<Longrightarrow> flush_loop [SendSome k] io
    = (Inr (), io\<lparr>io_wire_tx := [], io_sent := io_sent io @ io_wire_tx io, io_sends := []\<rparr>)"
  by (cases io) (simp add: flush_loop.simps [of "[_]"] flush_loop.simps [of "[]"] Let_def)

text \<open>An initiator that reads message 2 of another peer than the one it dialled.\<close>

lemma initiator_refuses:
  assumes c: "upgrading_at base c n NoiseHandshake AwaitingMsg2 []" and base: "fresh base"
    and m: "process_msg2 C msg2 n = (Inr msg3, n2)" "fits_frame msg2" "fits_frame msg3"
    and invalid: "\<And>io. validate_expected_remote_peer (upgrading base n2 NoiseHandshake Complete io) = Inl e"
  obtains r io k where "process_pending_input C (set_io ((given (framed msg2) (cn_io c))\<lparr>io_sends := ss\<rparr>) c)
      = (Inl r, upgrading base n2 NoiseHandshake Complete io)"
    and "io_socket_open io" and "0 \<le> io_fd io" and "io_sent io = io_sent (cn_io c) @ take k (framed msg3)"
    and "r = e \<or> SendError r \<in> set ss" and "ss = [] \<Longrightarrow> k = 0"
    and "\<And>j. ss = [SendSome j] \<Longrightarrow> 65537 \<le> j \<Longrightarrow> take k (framed msg3) = framed msg3"
proof -
  from c obtain io where io: "idle_io [] io" and c: "c = upgrading base n NoiseHandshake AwaitingMsg2 io"
    by (auto simp: upgrading_at_def)
  let ?io = "queued (framed msg3) ((given (framed msg2) io)\<lparr>io_sends := ss, io_wire_rx := []\<rparr>)"
  have tx: "io_wire_tx ?io = framed msg3" "io_sent ?io = io_sent io" using io by (simp_all add: idle_io_def queued_def given_def)
  obtain q io' where q: "flush_loop ss ?io = (q, io')" by force
  from flush_loop_io [of ss ?io] io have io': "io_socket_open io'" "0 \<le> io_fd io'" by (simp_all add: q idle_io_def)
  from flush_loop_takes [of ss ?io] obtain k
    where k: "io_sent io' = io_sent io @ take k (framed msg3)" and err: "\<And>r. q = Inl r \<Longrightarrow> SendError r \<in> set ss"
    unfolding q tx by auto
  define k' where "k' = (if ss = [] then 0 else k)"
  have none: "io' = ?io" if "ss = []" using q that by (auto simp: flush_loop.simps queued_def given_def split: if_splits)
  have k': "io_sent io' = io_sent io @ take k' (framed msg3)"
  proof (cases "ss = []")
    case True
    then show ?thesis using none tx by (simp add: k'_def)
  qed (simp add: k k'_def)
  have len: "length (framed msg3) \<le> 65537" "framed msg3 \<noteq> []" using m(3) by (simp_all add: framed_def fits_frame_def)
  have whole: "take k' (framed msg3) = framed msg3" if "ss = [SendSome j]" "65537 \<le> j" for j
  proof -
    have "flush_loop ss ?io = (Inr (), ?io\<lparr>io_wire_tx := [], io_sent := io_sent ?io @ io_wire_tx ?io, io_sends := []\<rparr>)"
      using that len io by (simp add: flush_loop_one idle_io_def)
    then have "io_sent io' = io_sent io @ framed msg3" using q io by (auto simp: queued_def given_def idle_io_def)
    with k' show ?thesis by simp
  qed
  have fl: "flush_pending_writes (upgrading base n2 NoiseHandshake Complete ?io)
      = (case q of Inl r \<Rightarrow> (Inl r, upgrading base n2 NoiseHandshake Complete io')
          | Inr _ \<Rightarrow> (Inr (), upgrading base n2 NoiseHandshake Complete io'))"
    using io base q by (simp add: flush_pending_writes_def on_io_def zoom_def flush_wire_def and_then_def idle_io_def
        fresh_def split: sum.splits)
  define r where "r = (case q of Inl r \<Rightarrow> r | Inr _ \<Rightarrow> e)"
  have "try_pop_wire_frame (framed msg2) = Popped msg2 []" using try_pop_framed [OF m(2), of "[]"] by simp
  moreover have "process_handshake_frame C msg2
        (upgrading base n NoiseHandshake AwaitingMsg2 ((given (framed msg2) io)\<lparr>io_sends := ss, io_wire_rx := []\<rparr>))
      = (Inl r, upgrading base n2 NoiseHandshake Complete io')"
    using io base m invalid fl
    by (simp add: process_handshake_frame_def queue_wire_then on_noise_then [where m = "process_msg2 C msg2"]
        finish_secure_upgrade_def and_then_def [of flush_pending_writes] r_def split: sum.splits)
  ultimately have "handshake_loop C (upgrading base n NoiseHandshake AwaitingMsg2 ((given (framed msg2) io)\<lparr>io_sends := ss\<rparr>))
      = (Inl r, upgrading base n2 NoiseHandshake Complete io')"
    using io by (subst handshake_loop.simps) (simp add: idle_io_def set_rx_def)
  then have "process_pending_input C (set_io ((given (framed msg2) (cn_io c))\<lparr>io_sends := ss\<rparr>) c)
      = (Inl r, upgrading base n2 NoiseHandshake Complete io')"
    by (simp add: c process_pending_input_def and_then_def)
  moreover have "r = e \<or> SendError r \<in> set ss" using err by (simp add: r_def split: sum.splits)
  ultimately show ?thesis using that io' k' whole by (simp add: c k'_def)
qed

text \<open>A responder that gets a part of message 3 waits for the rest.\<close>

lemma responder_waits:
  assumes c: "upgrading_at base c n NoiseHandshake AwaitingMsg3 []" and "fits_frame msg3"
    and "strict_prefix bs (framed msg3)"
  shows "\<exists>io. process_pending_input C (set_io (given bs (cn_io c)) c) = (Inr (), upgrading base n NoiseHandshake AwaitingMsg3 io)
    \<and> io_socket_open io \<and> 0 \<le> io_fd io"
proof -
  from c obtain io where io: "idle_io [] io" and c: "c = upgrading base n NoiseHandshake AwaitingMsg3 io"
    by (auto simp: upgrading_at_def)
  from wire.parse_strict_prefix [OF assms(2,3)] try_pop_no_error have "try_pop_wire_frame bs = NoFrame"
    by (cases "try_pop_wire_frame bs") (auto simp: wire_parse_def)
  then have "handshake_loop C (upgrading base n NoiseHandshake AwaitingMsg3 (given bs io))
      = (Inr (), upgrading base n NoiseHandshake AwaitingMsg3 (given bs io))"
    using io by (subst handshake_loop.simps) (simp add: idle_io_def)
  then have "process_pending_input C (set_io (given bs (cn_io c)) c)
      = (Inr (), upgrading base n NoiseHandshake AwaitingMsg3 (given bs io))"
    by (simp add: c process_pending_input_def and_then_def)
  with io show ?thesis by (auto simp: idle_io_def)
qed

text \<open>The end of the stream, at a responder in the middle of its upgrade and at one that is ready.\<close>

lemma end_while_upgrading:
  assumes "fresh base" and "io_socket_open io" and "\<not> cn_closed_emitted base"
  shows "cn_state (on_socket_readable C (set_kernel [RecvData []] [] None (upgrading base n st hs io))) = Closed"
    and "map ev_type (cn_event_queue (on_socket_readable C (set_kernel [RecvData []] [] None (upgrading base n st hs io)))) = [EvClosed]"
  using assms readable_end [of "upgrading base n st hs io" C]
  by (simp_all add: close_def set_recvs_def set_kernel_def set_io_def push_event_def fresh_def Let_def)
     (simp_all add: upgrading_def)

lemma end_when_upgraded:
  assumes "upgraded base c n tx" and "\<not> cn_closed_emitted base"
  shows "cn_state (on_socket_readable C (set_kernel [RecvData []] [] None c)) = Closed"
    and "map ev_type (cn_event_queue (on_socket_readable C (set_kernel [RecvData []] [] None c)))
      = map ev_type (cn_event_queue c) @ [EvClosed]"
  using assms readable_end [OF upgraded_active [OF assms(1)], of C]
  by (simp_all add: close_def set_recvs_def set_kernel_def set_io_def push_event_def Let_def upgraded_def)

lemma responder_after:
  assumes b5: "upgrading_at b b5 n NoiseHandshake AwaitingMsg3 []" and base: "fresh b" "\<not> cn_is_initiator b"
      "\<not> cn_closed_emitted b"
    and m: "process_msg3 C msg3 n = (Inr (), n2)" "fits_frame msg3" "ns_remote_peer_id n2 = Some p"
    and sel: "select_stream_muxer n2 = Some kYamuxProtocol"
    and b6: "b6 = (if take k (framed msg3) = [] then b5
      else on_socket_readable C (set_kernel [RecvData (take k (framed msg3))] [] None b5))"
    and b7: "b7 = on_socket_readable C (set_kernel [RecvData []] [] None b6)"
  shows "if take k (framed msg3) = framed msg3 then established b p b6
      else \<not> sc_secure_ready (cn_secure b6) \<and> cn_event_queue b6 = []"
    and "cn_state b7 = Closed \<and> map ev_type (cn_event_queue b7) = map ev_type (cn_event_queue b6) @ [EvClosed]"
proof -
  let ?bs = "take k (framed msg3)"
  have "(if ?bs = framed msg3 then established b p b6 else \<not> sc_secure_ready (cn_secure b6) \<and> cn_event_queue b6 = [])
    \<and> cn_state b7 = Closed \<and> map ev_type (cn_event_queue b7) = map ev_type (cn_event_queue b6) @ [EvClosed]"
  proof (cases "?bs = framed msg3")
    case True
    from responder_finishes [OF b5 base(1) m(1,2) sel validate_upgrading(1) [OF base(2)]] obtain c
      where c: "process_pending_input C (set_io (given (framed msg3) (cn_io b5)) b5) = (Inr (), c)" "upgraded b c n2 []"
      by blast
    have "b6 = c" using readable_given [OF upgrading_active [OF b5], of "framed msg3" C] c(1) True
      by (simp add: b6 framed_def)
    with True end_when_upgraded [OF c(2) base(3), of C] upgraded_established [OF c(2) m(3)] show ?thesis by (simp add: b7)
  next
    case False
    then have pre: "strict_prefix ?bs (framed msg3)" by (simp add: take_is_prefix strict_prefix_def)
    obtain io where io: "b6 = upgrading b n NoiseHandshake AwaitingMsg3 io" "io_socket_open io"
    proof (cases "?bs = []")
      case True
      with b5 that show ?thesis by (auto simp: b6 upgrading_at_def idle_io_def)
    next
      case ne: False
      from responder_waits [OF b5 m(2) pre, of C] readable_given [OF upgrading_active [OF b5] ne, of C] that ne
      show ?thesis by (auto simp: b6)
    qed
    have "cn_event_queue b6 = []" "\<not> sc_secure_ready (cn_secure b6)" using base(1) by (simp_all add: io(1) fresh_def upgrading_def channel_def)
    with end_while_upgrading [OF base(1) io(2) base(3), of C] False show ?thesis by (simp add: b7 io(1))
  qed
  then show "if ?bs = framed msg3 then established b p b6 else \<not> sc_secure_ready (cn_secure b6) \<and> cn_event_queue b6 = []"
    and "cn_state b7 = Closed \<and> map ev_type (cn_event_queue b7) = map ev_type (cn_event_queue b6) @ [EvClosed]"
    by blast+
qed

text \<open>The two ends together.\<close>

lemma decided:
  assumes C: "crypto_ok C" and a: "honest_end C a idA" "cn_is_initiator a"
    and b: "honest_end C b idB" "\<not> cn_is_initiator b"
    and dial: "names_peer (cn_remote_addr a) p" "p \<noteq> identity_peer idB"
    and sel: "find (\<lambda>m. m \<in> set (offered a)) (offered b) = Some kYamuxProtocol"
  obtains a' b1 b2 e k m3 where "decide C answers a b = (a', b1, b2)"
    and "cn_state a' = Closed" and "\<not> sc_secure_ready (cn_secure a')"
    and "cn_event_queue a' = [\<lparr>ev_type = EvError, ev_stream_id = None, ev_detail = e\<rparr>,
          \<lparr>ev_type = EvClosed, ev_stream_id = None, ev_detail = ''connection closed''\<rparr>]"
    and "e = ''authenticated peer id does not match dial target'' \<or> SendError e \<in> set answers"
    and "if take k (framed m3) = framed m3 then established b (identity_peer idA) b1
        else \<not> sc_secure_ready (cn_secure b1) \<and> cn_event_queue b1 = []"
    and "answers = [] \<Longrightarrow> k = 0" and "\<And>j. answers = [SendSome j] \<Longrightarrow> 65537 \<le> j \<Longrightarrow> take k (framed m3) = framed m3"
    and "cn_state b2 = Closed \<and> map ev_type (cn_event_queue b2) = map ev_type (cn_event_queue b1) @ [EvClosed]"
proof -
  from upgrade_prefix [OF C a b] obtain a4 b4 msg2 msg3 nA nB nA' nB'
    where first: "first_flights C a b = (a4, b4)"
    and a4: "upgrading_at a a4 nA NoiseHandshake AwaitingMsg2 []"
    and b4: "upgrading_at b b4 nB NoiseHandshake AwaitingMsg3 (framed msg2)"
    and m: "process_msg2 C msg2 nA = (Inr msg3, nA')" "process_msg3 C msg3 nB = (Inr (), nB')"
    and fits: "fits_frame msg2" "fits_frame msg3"
    and who: "ns_remote_peer_id nA' = Some (identity_peer idB)" "ns_remote_peer_id nB' = Some (identity_peer idA)"
    and mux: "stream_muxers (ns_local_extensions nB') = offered b" "stream_muxers (ns_remote_extensions nB') = offered a"
    by metis
  note fa = honest_fresh [OF a(1)] and fb = honest_fresh [OF b(1)]
  have open_a: "\<not> cn_closed_emitted a" and open_b: "\<not> cn_closed_emitted b"
    using a(1) b(1) by (auto simp: honest_end_def new_connection_def)
  let ?e = "''authenticated peer id does not match dial target''"
  from b4 obtain iob where iob: "idle_io (framed msg2) iob" and b4': "b4 = upgrading b nB NoiseHandshake AwaitingMsg3 iob"
    by (auto simp: upgrading_at_def)
  define io5 where "io5 = iob\<lparr>io_recvs := [], io_sends := [], io_shutdown_error := None, io_wire_tx := [],
      io_sent := io_sent iob @ framed msg2\<rparr>"
  define b5 where "b5 = upgrading b nB NoiseHandshake AwaitingMsg3 io5"
  have b5': "on_socket_writable (set_kernel [] [SendSome (length (io_wire_tx (cn_io b4)))] None b4) = b5"
    using writable_all [of b4] iob fb by (simp add: b4' b5_def io5_def idle_io_def fresh_def framed_def)
  have b5: "upgrading_at b b5 nB NoiseHandshake AwaitingMsg3 []"
    unfolding b5_def by (rule upgrading_atI) (use iob in \<open>simp add: io5_def idle_io_def\<close>)
  obtain r io k where run: "process_pending_input C (set_io ((given (framed msg2) (cn_io a4))\<lparr>io_sends := answers\<rparr>) a4)
      = (Inl r, upgrading a nA' NoiseHandshake Complete io)"
    and io: "io_socket_open io" "0 \<le> io_fd io" "io_sent io = io_sent (cn_io a4) @ take k (framed msg3)"
    and r: "r = ?e \<or> SendError r \<in> set answers" and k: "answers = [] \<Longrightarrow> k = 0"
      "\<And>j. answers = [SendSome j] \<Longrightarrow> 65537 \<le> j \<Longrightarrow> take k (framed msg3) = framed msg3"
    by (rule initiator_refuses [OF a4 fa m(1) fits validate_upgrading(3) [OF who(1) dial a(2)]]) blast
  define a5 where "a5 = close (emit_error r (upgrading a nA' NoiseHandshake Complete io))"
  have a5': "on_socket_readable C (set_kernel [RecvData (framed msg2)] answers None a4) = a5"
    using readable_answered [OF upgrading_active [OF a4], of "framed msg2" C answers] run
    by (simp add: a5_def framed_def)
  have sent: "io_sent (cn_io a5) = io_sent (cn_io a4) @ take k (framed msg3)"
    using io fa by (simp add: a5_def close_def emit_error_def push_event_def set_io_def close_socket_def Let_def
        upgrading_def fresh_def)
  define b6 where "b6 = (if take k (framed msg3) = [] then b5
      else on_socket_readable C (set_kernel [RecvData (take k (framed msg3))] [] None b5))"
  define b7 where "b7 = on_socket_readable C (set_kernel [RecvData []] [] None b6)"
  have dec: "decide C answers a b = (a5, b6, b7)"
  proof -
    have "drop (length (io_sent (cn_io b4))) (io_sent (cn_io b5)) = framed msg2"
      "drop (length (io_sent (cn_io a4))) (io_sent (cn_io a5)) = take k (framed msg3)"
      by (simp_all add: sent) (simp add: b4' b5_def io5_def)
    then show ?thesis
      by (simp only: decide_def first Let_def prod.case b5' a5' b6_def [symmetric] b7_def [symmetric])
  qed
  have selB: "select_stream_muxer nB' = Some kYamuxProtocol"
    by (rule select_first_common, simp add: mux sel)
  note after = responder_after [OF b5 fb b(2) open_b m(2) fits(2) who(2) selB b6_def b7_def]
  note shut = close_upgrading [OF fa io(1,2), of r nA' NoiseHandshake Complete, folded a5_def]
  show ?thesis by (rule that [OF dec shut(2,3) _ r after(1) k after(2)]) (use shut(1) open_a in simp_all)
qed

section \<open>Two ends, for the witnesses\<close>

lemma toy_honest:
  assumes "base = new_connection cid fd addr initiator (Some toy_identity) [kYamuxProtocol] toy_draws" and "0 \<le> fd"
  shows "honest_end toy_crypto base toy_identity" and "offered base = [kYamuxProtocol]"
proof -
  show "offered base = [kYamuxProtocol]" by (simp add: assms offered_def noise_of_def new_connection_def)
  have len: "length (serialize_extensions \<lparr>stream_muxers = [kYamuxProtocol]\<rparr>) \<le> 60"
    using length_append_field [of "[]" 2 "bytes_of kYamuxProtocol"]
    by (simp add: serialize_extensions_def kYamuxProtocol_def)
  have small: "small_extensions \<lparr>stream_muxers = [kYamuxProtocol]\<rparr>"
    using len by (simp add: small_extensions_def kYamuxProtocol_def)
  have "ready_for_handshake toy_crypto toy_draws (noise_of base)"
    using small by (simp add: assms noise_of_def new_connection_def ready_for_handshake_def key_pair_def
        chosen_ephemeral_def chosen_static_def take_or_generate_keypair_def generate_keypair_def
        new_noise_session_def toy_draws_def local_payload_ok_def toy_identity_def toy_signing_key toy_base)
  moreover have "length (serialize_extensions (ns_local_extensions (noise_of base))) \<le> 60000"
    using len by (simp add: assms noise_of_def new_connection_def)
  ultimately show "honest_end toy_crypto base toy_identity"
    using assms unfolding honest_end_def by blast
qed

lemma names_published_peer:
  assumes "ip \<noteq> []" and "CHR ''/'' \<notin> set ip" and "wf_peer_id p"
  shows "names_peer (from_ip4_tcp_peer ip port (peer_id_to_string p)) q \<longleftrightarrow> q = p"
  using parse_from_ip4_tcp_peer [OF assms(1,2) peer_id_text_plain [OF assms(3)]] peer_id_from_to_string [OF assms(3)]
  by (auto simp: names_peer_def)

definition toy_target :: "peer_id \<Rightarrow> multiaddr" where
  "toy_target p = from_ip4_tcp_peer ''10.0.0.1'' 4001 (peer_id_to_string p)"

definition toy_dialer :: "peer_id \<Rightarrow> connection" where
  "toy_dialer p = new_connection 1 3 (toy_target p) True (Some toy_identity) [kYamuxProtocol] toy_draws"

definition toy_listener :: connection where
  "toy_listener = new_connection 2 4 (from_ip4_tcp ''10.0.0.2'' 50000) False (Some toy_identity) [kYamuxProtocol] toy_draws"

lemma toy_ends:
  "honest_end toy_crypto (toy_dialer p) toy_identity" "cn_is_initiator (toy_dialer p)"
  "honest_end toy_crypto toy_listener toy_identity" "\<not> cn_is_initiator toy_listener"
  "find (\<lambda>m. m \<in> set (offered toy_listener)) (offered (toy_dialer p)) = Some kYamuxProtocol"
  "find (\<lambda>m. m \<in> set (offered (toy_dialer p))) (offered toy_listener) = Some kYamuxProtocol"
  "cn_remote_addr (toy_dialer p) = toy_target p"
proof -
  note d = toy_honest [OF toy_dialer_def [of p]] and l = toy_honest [OF toy_listener_def]
  show "honest_end toy_crypto (toy_dialer p) toy_identity" "honest_end toy_crypto toy_listener toy_identity"
    using d l by simp_all
  show "cn_is_initiator (toy_dialer p)" "\<not> cn_is_initiator toy_listener" "cn_remote_addr (toy_dialer p) = toy_target p"
    by (simp_all add: toy_dialer_def toy_listener_def new_connection_def)
  show "find (\<lambda>m. m \<in> set (offered toy_listener)) (offered (toy_dialer p)) = Some kYamuxProtocol"
    "find (\<lambda>m. m \<in> set (offered (toy_dialer p))) (offered toy_listener) = Some kYamuxProtocol"
    using d l by simp_all
qed

lemma toy_target_names: "wf_peer_id p \<Longrightarrow> names_peer (toy_target p) q \<longleftrightarrow> q = p"
  unfolding toy_target_def by (rule names_published_peer) simp_all

section \<open>Properties\<close>

text \<open>C6. Two honest ends that prefer the same multiplexer complete the upgrade over a network that
  delivers what is sent, one whole flight after the other: both become ready with one Yamux session of opposite roles, each knows
  the other's authenticated peer id, the keys of the two directions agree, nothing is left in
  the buffers, and each has emitted exactly secured and multiplexer ready.  The dial address may
  name the responder's peer id or no readable one.\<close>

theorem upgrade_completes:
  assumes "crypto_ok C" and "honest_end C a idA" "cn_is_initiator a" and "honest_end C b idB" "\<not> cn_is_initiator b"
    and "find (\<lambda>m. m \<in> set (offered b)) (offered a) = Some kYamuxProtocol"
    and "find (\<lambda>m. m \<in> set (offered a)) (offered b) = Some kYamuxProtocol"
    and "\<forall>p. names_peer (cn_remote_addr a) p \<longrightarrow> p = identity_peer idB"
  shows "\<exists>a' b'. establish C a b = (a', b') \<and> established a (identity_peer idB) a'
    \<and> established b (identity_peer idA) b' \<and> linked a' b'"
proof -
  obtain a' b' nA nB where "establish C a b = (a', b')" "upgraded a a' nA []" "upgraded b b' nB []" "agreed nA nB"
    "ns_remote_peer_id nA = Some (identity_peer idB)" "ns_remote_peer_id nB = Some (identity_peer idA)"
    by (rule upgrade_succeeds [OF assms])
  then show ?thesis by (auto intro: upgraded_established upgraded_linked)
qed

theorem upgrade_completes_witness:
  "\<exists>a' b'. establish toy_crypto (toy_dialer (PeerId (replicate 32 9))) toy_listener = (a', b')
    \<and> cn_state a' = Ready \<and> cn_state b' = Ready \<and> remote_peer b' = Some (PeerId (replicate 32 9)) \<and> linked a' b'"
proof -
  let ?p = "PeerId (replicate 32 9)"
  have p: "identity_peer toy_identity = ?p" by (simp add: identity_peer_def toy_identity_def)
  have "\<forall>q. names_peer (cn_remote_addr (toy_dialer ?p)) q \<longrightarrow> q = identity_peer toy_identity"
    by (simp add: toy_ends toy_target_names wf_peer_id_def p)
  from upgrade_completes [OF toy_crypto_ok toy_ends(1-4) toy_ends(5,6) this] show ?thesis
    by (auto simp: established_def p)
qed



text \<open>C12. In every state a dialled connection can reach, whatever the other side does: when its
  channel is secure and the dial address names a peer, that peer's identity key is the one
  authenticated by the handshake.\<close>

theorem dialed_peer_is_authenticated:
  assumes "conn_reachable C log c" and "sc_secure_ready (cn_secure c)" and "cn_is_initiator c"
    and "names_peer (cn_remote_addr c) p"
  shows "remote_peer c = Some p"
proof -
  from conn_reachable_settled [OF assms(1)] assms(2) have "validate_expected_remote_peer c = Inr ()"
    by (auto simp: settled_def conn_inv_def upgrade_inv_def)
  with assms(3,4) show ?thesis
    by (auto simp: validate_expected_remote_peer_def names_peer_def remote_peer_def
        split: sum.splits option.splits if_splits)
qed

theorem dialed_peer_is_authenticated_witness:
  "\<exists>a'. sc_secure_ready (cn_secure a') \<and> cn_is_initiator a' \<and> names_peer (cn_remote_addr a') (PeerId (replicate 32 9))
    \<and> remote_peer a' = Some (PeerId (replicate 32 9))"
proof -
  let ?p = "PeerId (replicate 32 9)"
  have p: "identity_peer toy_identity = ?p" by (simp add: identity_peer_def toy_identity_def)
  have "\<forall>q. names_peer (cn_remote_addr (toy_dialer ?p)) q \<longrightarrow> q = identity_peer toy_identity"
    by (simp add: toy_ends toy_target_names wf_peer_id_def p)
  from upgrade_succeeds [OF toy_crypto_ok toy_ends(1-4) toy_ends(5,6) this] obtain a' b' nA
    where e: "establish toy_crypto (toy_dialer ?p) toy_listener = (a', b')" and up: "upgraded (toy_dialer ?p) a' nA []"
    by metis
  have r: "conn_reachable toy_crypto [] a'"
    by (rule establish_reachable(1) [OF honest_reachable [OF toy_ends(1)] honest_reachable [OF toy_ends(3)] e])
  have same: "cn_is_initiator a' = cn_is_initiator (toy_dialer ?p)" "cn_remote_addr a' = cn_remote_addr (toy_dialer ?p)"
    using up by (simp_all add: upgraded_def)
  have "names_peer (cn_remote_addr a') ?p" using same by (simp add: toy_ends toy_target_names wf_peer_id_def)
  with dialed_peer_is_authenticated [OF r, of ?p] up same toy_ends(2) show ?thesis
    by (auto simp: upgraded_def)
qed

end
