(* ===== verification/ConnectionTransfer.thy ===== *)
theory ConnectionTransfer
  imports ConnectionUpgrade
begin

text \<open>
  What the application writes on a ready connection and what its peer gets: messages that fit a
  noise frame, and messages that do not.
\<close>

section \<open>Encrypting a message\<close>

text \<open>The longest plaintext whose ciphertext fits a frame.\<close>

definition max_plaintext :: nat where "max_plaintext = 65519"

lemma tag_bytes: "kAeadTagBytes = 16"
  by (simp add: kAeadTagBytes_def)

definition writable_channel :: "connection \<Rightarrow> bool" where
  "writable_channel c \<longleftrightarrow> sc_secure_ready (cn_secure c) \<and> cs_has_key (ns_cs_send (noise_of c))
     \<and> cs_nonce (ns_cs_send (noise_of c)) \<noteq> u64_max"

text \<open>A usable socket whose kernel takes nothing for now.\<close>

definition blocked_socket :: "session_io \<Rightarrow> bool" where
  "blocked_socket io \<longleftrightarrow> io_socket_open io \<and> 0 \<le> io_fd io \<and> io_sends io = []"

definition bump_send :: "connection \<Rightarrow> connection" where
  "bump_send c = set_noise ((noise_of c)\<lparr>ns_cs_send := bump_nonce (ns_cs_send (noise_of c))\<rparr>) c"

definition sent_frame :: "bytes \<Rightarrow> connection \<Rightarrow> connection" where
  "sent_frame ct c = set_io (queued (framed ct) (cn_io c)) (bump_send c)"

lemma bump_send_simps [simp]:
  "cn_io (bump_send c) = cn_io c" "cn_streams (bump_send c) = cn_streams c" "cn_yamux (bump_send c) = cn_yamux c"
  "sc_secure_ready (cn_secure (bump_send c)) = sc_secure_ready (cn_secure c)"
  "ns_cs_send (noise_of (bump_send c)) = bump_nonce (ns_cs_send (noise_of c))"
  "ns_cs_recv (noise_of (bump_send c)) = ns_cs_recv (noise_of c)"
  "cn_stream_state (bump_send c) = cn_stream_state c" "cn_state (bump_send c) = cn_state c"
  by (simp_all add: bump_send_def set_noise_def map_secure_def noise_of_def)

lemma sent_frame_simps [simp]:
  "cn_io (sent_frame ct c) = queued (framed ct) (cn_io c)" "cn_streams (sent_frame ct c) = cn_streams c"
  "cn_yamux (sent_frame ct c) = cn_yamux c"
  "sc_secure_ready (cn_secure (sent_frame ct c)) = sc_secure_ready (cn_secure c)"
  "ns_cs_send (noise_of (sent_frame ct c)) = bump_nonce (ns_cs_send (noise_of c))"
  "ns_cs_recv (noise_of (sent_frame ct c)) = ns_cs_recv (noise_of c)"
  "cn_stream_state (sent_frame ct c) = cn_stream_state c" "cn_state (sent_frame ct c) = cn_state c"
  by (simp_all add: sent_frame_def set_io_def) (simp_all add: noise_of_def bump_send_def set_noise_def map_secure_def)

lemma encrypts:
  assumes "crypto_ok C" and "writable_channel c"
  obtains ct where "on_cs_send (encrypt C data) c = (Inr ct, bump_send c)"
    and "decrypt C ct (ns_cs_send (noise_of c)) = (Inr data, bump_nonce (ns_cs_send (noise_of c)))"
    and "length ct = length data + 16"
proof -
  from assms(2) have cs: "cs_has_key (ns_cs_send (noise_of c))" "cs_nonce (ns_cs_send (noise_of c)) \<noteq> u64_max"
    by (simp_all add: writable_channel_def)
  obtain ct where "encrypt C data (ns_cs_send (noise_of c)) = (Inr ct, bump_nonce (ns_cs_send (noise_of c)))"
    "decrypt C ct (ns_cs_send (noise_of c)) = (Inr data, bump_nonce (ns_cs_send (noise_of c)))"
    "length ct = length data + kAeadTagBytes"
    by (rule encrypt_decrypt [OF assms(1) cs])
  then show ?thesis
    by (intro that [of ct]) (simp_all add: on_cs_send_def on_noise_def zoom_def bump_send_def tag_bytes)
qed

lemma fits_max: "length ct = length data + 16 \<Longrightarrow> fits_frame ct \<longleftrightarrow> length data \<le> max_plaintext"
  by (auto simp: fits_frame_def max_plaintext_def)

lemma queue_wire_ok: "fits_frame m \<Longrightarrow> on_io (queue_wire_message m) c = (Inr (), set_io (queued (framed m) (cn_io c)) c)"
  using queue_wire_then [of m return_ok c] by (simp add: and_then_def split: prod.splits sum.splits)

lemma queue_wire_too_large:
  "\<not> fits_frame m \<Longrightarrow> on_io (queue_wire_message m) c = (Inl ''noise frame too large'', c)"
  by (simp add: on_io_def zoom_def queue_wire_message_def and_then_def return_result_def encode_frame_def
      fits_frame_def set_io_def)

lemma flush_stream_blocked:
  assumes "blocked_socket (cn_io c)" and "\<not> ss_close_write_pending (cn_streams c ! p)"
  shows "flush_stream p c = (Inr (), c)"
proof -
  have "set_io (cn_io c) c = c" by (simp add: set_io_def)
  with assms show ?thesis
    by (simp add: flush_stream_def blocked_socket_def on_io_def zoom_def flush_blocked)
qed

text \<open>A write to the stream of a connection without multiplexer.\<close>

lemma encrypted_write:
  assumes "crypto_ok C" and "writable_channel c" and "length data \<le> max_plaintext"
    and "blocked_socket (cn_io c)" and "\<not> ss_close_write_pending (cn_streams c ! p)"
  obtains ct where "queue_encrypted_write C p data c = (Inr (length data), sent_frame ct c)"
    and "decrypt C ct (ns_cs_send (noise_of c)) = (Inr data, bump_nonce (ns_cs_send (noise_of c)))"
    and "fits_frame ct"
proof -
  obtain ct where ct: "on_cs_send (encrypt C data) c = (Inr ct, bump_send c)"
    "decrypt C ct (ns_cs_send (noise_of c)) = (Inr data, bump_nonce (ns_cs_send (noise_of c)))"
    "length ct = length data + 16" by (rule encrypts [OF assms(1,2)])
  then have fits: "fits_frame ct" using assms(3) by (simp add: fits_max)
  have "flush_stream p (sent_frame ct c) = (Inr (), sent_frame ct c)"
    by (rule flush_stream_blocked) (use assms(4,5) in \<open>simp_all add: blocked_socket_def\<close>)
  then have "queue_encrypted_write C p data c = (Inr (length data), sent_frame ct c)"
    using assms(2) ct(1) queue_wire_ok [OF fits, of "bump_send c"]
    by (simp add: queue_encrypted_write_def writable_channel_def and_then_def Let_def) (simp add: sent_frame_def)
  with ct fits that show ?thesis by blast
qed

lemma encrypted_message:
  assumes "crypto_ok C" and "writable_channel c" and "length data \<le> max_plaintext" and "blocked_socket (cn_io c)"
  obtains ct where "queue_encrypted_message C data c = (Inr (), sent_frame ct c)"
    and "decrypt C ct (ns_cs_send (noise_of c)) = (Inr data, bump_nonce (ns_cs_send (noise_of c)))"
    and "fits_frame ct"
proof -
  obtain ct where ct: "on_cs_send (encrypt C data) c = (Inr ct, bump_send c)"
    "decrypt C ct (ns_cs_send (noise_of c)) = (Inr data, bump_nonce (ns_cs_send (noise_of c)))"
    "length ct = length data + 16" by (rule encrypts [OF assms(1,2)])
  then have fits: "fits_frame ct" using assms(3) by (simp add: fits_max)
  have "set_io (cn_io c') c' = c'" for c' by (simp add: set_io_def)
  then have "on_io flush_wire (sent_frame ct c) = (Inr (), sent_frame ct c)"
    using assms(4) by (simp add: on_io_def zoom_def flush_blocked blocked_socket_def)
       (metis sent_frame_simps(1))
  then have "queue_encrypted_message C data c = (Inr (), sent_frame ct c)"
    using ct(1) queue_wire_ok [OF fits, of "bump_send c"]
    by (simp add: queue_encrypted_message_def and_then_def) (simp add: sent_frame_def)
  with ct fits that show ?thesis by blast
qed

lemma oversize_message:
  assumes "crypto_ok C" and "writable_channel c" and "max_plaintext < length data"
  shows "queue_encrypted_message C data c = (Inl ''noise frame too large'', bump_send c)"
proof -
  obtain ct where ct: "on_cs_send (encrypt C data) c = (Inr ct, bump_send c)" "length ct = length data + 16"
    by (rule encrypts [OF assms(1,2)])
  then have "\<not> fits_frame ct" using assms(3) by (simp add: fits_max)
  with ct queue_wire_too_large [of ct "bump_send c"] show ?thesis
    by (simp add: queue_encrypted_message_def and_then_def)
qed

text \<open>A connection with a key, for examples: nothing else has happened to it.\<close>

definition keyed :: "connection \<Rightarrow> connection" where
  "keyed c = set_noise ((noise_of c)\<lparr>ns_cs_send := fresh_cipher (replicate 32 1), ns_cs_recv := fresh_cipher (replicate 32 2)\<rparr>)
     (map_secure (\<lambda>sc. sc\<lparr>sc_stage := StageReady, sc_secure_ready := True\<rparr>) (c\<lparr>cn_state := Ready\<rparr>))"

lemma keyed_toy:
  "writable_channel (keyed (toy_connection b))" "blocked_socket (cn_io (keyed (toy_connection b)))"
  "cn_streams (keyed (toy_connection b)) = []"
  by (simp_all add: keyed_def toy_connection_def new_connection_def new_io_def set_noise_def map_secure_def
      noise_of_def writable_channel_def blocked_socket_def fresh_cipher_def u64_max_def)

lemma frame_bytes_length: "length (frame_bytes (hdr, payload)) = 12 + length payload"
  by (simp add: frame_bytes_def be16_def be32_def)

section \<open>Messages under a later nonce\<close>

text \<open>What an AEAD is used for: a message sealed under one nonce is not accepted under another one
  (of the 12 bytes the cipher takes).  The bundled toy functions of the other examples do not have
  this; \<open>bound_crypto\<close> does, its tag is the nonce.\<close>

definition nonce_bound :: "crypto \<Rightarrow> bool" where
  "nonce_bound C \<longleftrightarrow> (\<forall>k n n' ad p ct. aead_encrypt C k n ad p = Some ct \<longrightarrow> length n = 12 \<longrightarrow> length n' = 12
     \<longrightarrow> n \<noteq> n' \<longrightarrow> aead_decrypt C k n' ad ct = None)"

definition bound_crypto :: crypto where
  "bound_crypto = toy_crypto\<lparr>aead_encrypt := (\<lambda>k n ad p. Some (p @ take 16 (n @ zeros 16))),
     aead_decrypt := (\<lambda>k n ad c. if drop (length c - 16) c = take 16 (n @ zeros 16)
       then Some (take (length c - 16) c) else None)\<rparr>"

lemma bound_crypto_ok: "crypto_ok bound_crypto" and bound_crypto_bound: "nonce_bound bound_crypto"
  using toy_crypto_ok
  by (auto simp: crypto_ok_def bound_crypto_def nonce_bound_def zeros_def kAeadTagBytes_def)

lemma length_make_nonce: "length (make_nonce n) = 12"
  by (simp add: make_nonce_def)

lemma encryptions_sealed:
  assumes "(n, ct) \<in> set (encryptions C ps cs)"
  shows "\<exists>p. aead_encrypt C (cs_key cs) (make_nonce n) [] p = Some ct"
  using assms
proof (induction ps arbitrary: cs)
  case (Cons p ps)
  obtain r cs' where e: "encrypt C p cs = (r, cs')" by force
  show ?case
  proof (cases r)
    case (Inl err)
    with encrypt_cases [OF e] Cons e show ?thesis by simp
  next
    case (Inr ct')
    have "aead_encrypt C (cs_key cs) (make_nonce (cs_nonce cs)) [] p = Some ct'"
      using e Inr by (auto simp: encrypt_def and_then_def encrypt_with_key_def require_def ensure_sodium_ready_def
          split: if_splits option.splits sum.splits prod.splits)
    moreover have "cs_key cs' = cs_key cs" using encrypt_cases [OF e] Inr by (simp add: bump_nonce_def)
    ultimately show ?thesis using Cons.IH [of cs'] Cons.prems e Inr by auto
  qed
qed simp

text \<open>A receiver that is behind refuses whatever the sender still sends, and stays behind.\<close>

lemma left_behind:
  assumes "crypto_ok C" and "nonce_bound C" and "(n, ct) \<in> set (encryptions C ps cs)"
    and "cs_key r = cs_key cs" and "cs_has_key r" and "cs_nonce r < cs_nonce cs"
  shows "decrypt C ct r = (Inl ''noise::decrypt failed'', r)"
proof -
  obtain p where p: "aead_encrypt C (cs_key cs) (make_nonce n) [] p = Some ct"
    using encryptions_sealed [OF assms(3)] by blast
  have "n \<in> set (map fst (encryptions C ps cs))" using assms(3) by force
  then have "cs_nonce cs \<le> n" using encryptions_nonces [of C ps cs] by blast
  with assms(6) have "n \<noteq> cs_nonce r" by auto
  then have "make_nonce n \<noteq> make_nonce (cs_nonce r)" using make_nonce_inj by blast
  with assms(2) p have none: "aead_decrypt C (cs_key r) (make_nonce (cs_nonce r)) [] ct = None"
    unfolding nonce_bound_def assms(4) using length_make_nonce by blast
  have sodium: "sodium_ready C" using assms(1) by (simp add: crypto_ok_def)
  obtain ct' where "aead_encrypt C (cs_key cs) (make_nonce n) [] p = Some ct'" "length ct' = length p + kAeadTagBytes"
    using assms(1) unfolding crypto_ok_def by blast
  with p have "\<not> length ct < kAeadTagBytes" by simp
  moreover have "unat (cs_nonce cs) < 2 ^ LENGTH(64)" by (rule unsigned_less)
  then have "cs_nonce r \<noteq> u64_max" using assms(6) by (auto simp: u64_max_def word_less_nat_alt)
  ultimately show ?thesis
    using sodium assms(5) none
    by (simp add: decrypt_def and_then_def ensure_sodium_ready_def decrypt_with_key_def require_def return_result_def)
qed

section \<open>Properties\<close>

text \<open>C35. A write on a multiplexed stream that puts more than 65507 bytes into one Yamux frame fails
  with \<open>noise frame too large\<close> after the damage is done: the frame is dropped, its bytes are
  charged to the peer's window, and the sending nonce is used up although nothing was sent.  If the
  AEAD binds its nonce, a peer whose receiving cipher matched the sending one before the write
  decrypts none of the messages this end encrypts afterwards, however many, and each attempt leaves
  its cipher as it was.  The connection stays in its state and reports nothing.\<close>

theorem oversize_write_breaks_channel:
  assumes "crypto_ok C" and "nonce_bound C" and "writable_channel c" and "cn_yamux c = Some ys" and "ys_send_buf ys = []"
    and "\<not> st_write_closed (stream_at ys p)" and "\<not> st_reset (stream_at ys p)"
    and "ys_send_windows ys (st_id (stream_at ys p)) = Some w" and "n = min (length data) (unat w)" and "65507 < n"
    and "ns_cs_send (noise_of c) = ns_cs_recv (noise_of peer)"
  shows "\<exists>c' ys'. stream_try_write C (YamuxHandle p) data c = (Inl ''noise frame too large'', c')
    \<and> cn_io c' = cn_io c \<and> cn_state c' = cn_state c \<and> cn_event_queue c' = cn_event_queue c
    \<and> cn_yamux c' = Some ys' \<and> ys_send_buf ys' = []
    \<and> ys_send_windows ys' (st_id (stream_at ys p)) = Some (w - of_nat n)
    \<and> ns_cs_send (noise_of c') = bump_nonce (ns_cs_send (noise_of c))
    \<and> (\<forall>ps. \<forall>(k, ct) \<in> set (encryptions C ps (ns_cs_send (noise_of c'))).
         decrypt C ct (ns_cs_recv (noise_of peer)) = (Inl ''noise::decrypt failed'', ns_cs_recv (noise_of peer)))"
proof -
  let ?sid = "st_id (stream_at ys p)"
  let ?ys1 = "(write_frame (frame Data 0 ?sid (of_nat n)) (take n data) ys)
    \<lparr>ys_send_windows := (ys_send_windows ys)(?sid \<mapsto> w - of_nat n)\<rparr>"
  have n0: "n \<noteq> 0" using assms(10) by simp
  have "length (ys_send_buf ?ys1) = 12 + n"
    using assms(9) by (simp add: write_frame_def assms(5) frame_bytes_length kHeaderSize_def)
  then have big: "max_plaintext < length (ys_send_buf ?ys1)" "ys_send_buf ?ys1 \<noteq> []"
    using assms(10) by (auto simp: max_plaintext_def)
  have out: "run_outgoing (session_callbacks C) (?ys1, c) = (Inl ''noise frame too large'', (?ys1\<lparr>ys_send_buf := []\<rparr>, bump_send c))"
    using oversize_message [OF assms(1,3) big(1)] big(2)
    by (simp add: run_outgoing_def session_callbacks_def flush_yamux_outgoing_def)
  have "try_write (session_callbacks C) p data (ys, c)
      = (Inl ''noise frame too large'', (?ys1\<lparr>ys_send_buf := []\<rparr>, bump_send c))"
    using assms(6-9) n0 out
    by (simp add: try_write_def write_stream_data_def Let_def and_then_def on_session_def del: min_less_iff_conj)
  then have w: "stream_try_write C (YamuxHandle p) data c
      = (Inl ''noise frame too large'', (bump_send c)\<lparr>cn_yamux := Some (?ys1\<lparr>ys_send_buf := []\<rparr>)\<rparr>)"
    by (simp add: stream_try_write_def with_yamux_def assms(4))
  let ?c' = "(bump_send c)\<lparr>cn_yamux := Some (?ys1\<lparr>ys_send_buf := []\<rparr>)\<rparr>"
  have send: "ns_cs_send (noise_of ?c') = bump_nonce (ns_cs_send (noise_of c))"
    by (simp add: noise_of_def) (simp add: noise_of_def bump_send_def set_noise_def map_secure_def)
  have key: "cs_has_key (ns_cs_send (noise_of c))" "cs_nonce (ns_cs_send (noise_of c)) \<noteq> u64_max"
    using assms(3) by (simp_all add: writable_channel_def)
  then have "cs_nonce (ns_cs_send (noise_of c)) < cs_nonce (bump_nonce (ns_cs_send (noise_of c)))"
    using bump_nonce_value by (simp add: word_less_nat_alt)
  then have lost: "decrypt C ct (ns_cs_recv (noise_of peer)) = (Inl ''noise::decrypt failed'', ns_cs_recv (noise_of peer))"
    if "(k, ct) \<in> set (encryptions C ps (ns_cs_send (noise_of ?c')))" for k ct ps
    using left_behind [OF assms(1,2) that] key(1) unfolding send assms(11) by (simp add: bump_nonce_def)
  have same: "cn_state ?c' = cn_state c" "cn_io ?c' = cn_io c" "cn_event_queue ?c' = cn_event_queue c"
    by simp_all (simp add: bump_send_def set_noise_def map_secure_def)
  show ?thesis
    by (intro exI [of _ ?c'] exI [of _ "?ys1\<lparr>ys_send_buf := []\<rparr>"] conjI w same send allI ballI)
       (use lost in auto)
qed

theorem oversize_write_breaks_channel_witness:
  "let ys = snd (get_or_create_stream 1 True (new_session 7 True));
       c = (keyed (toy_connection True))\<lparr>cn_yamux := Some ys\<rparr>
   in \<exists>c' ys'. stream_try_write bound_crypto (YamuxHandle 0) (replicate 65508 0) c = (Inl ''noise frame too large'', c')
      \<and> cn_io c' = cn_io c \<and> cn_yamux c' = Some ys' \<and> ys_send_windows ys' 1 = Some (262144 - 65508)
      \<and> (\<exists>ct. encryptions bound_crypto [[9]] (ns_cs_send (noise_of c')) = [(1, ct)]
           \<and> fst (decrypt bound_crypto ct (ns_cs_send (noise_of c))) = Inl ''noise::decrypt failed'')"
proof -
  let ?ys = "snd (get_or_create_stream 1 True (new_session 7 True))"
  let ?c = "(keyed (toy_connection True))\<lparr>cn_yamux := Some ?ys\<rparr>"
  have n: "noise_of ?c = noise_of (keyed (toy_connection True))" "cn_secure ?c = cn_secure (keyed (toy_connection True))"
    by (simp_all add: noise_of_def)
  have w: "writable_channel ?c" using keyed_toy(1) by (simp add: writable_channel_def n)
  let ?peer = "set_noise ((noise_of ?c)\<lparr>ns_cs_recv := ns_cs_send (noise_of ?c)\<rparr>) ?c"
  have peer: "ns_cs_send (noise_of ?c) = ns_cs_recv (noise_of ?peer)"
    by (simp add: set_noise_def map_secure_def noise_of_def)
  have send: "ns_cs_send (noise_of ?c) = fresh_cipher (replicate 32 1)"
    by (simp add: n) (simp add: keyed_def set_noise_def map_secure_def noise_of_def)
  have ys: "ys_send_buf ?ys = []" "\<not> st_write_closed (stream_at ?ys 0)" "\<not> st_reset (stream_at ?ys 0)"
    "st_id (stream_at ?ys 0) = 1" "ys_send_windows ?ys 1 = Some 262144"
    by (simp_all add: get_or_create_stream_def new_session_def new_stream_def stream_at_def kInitialStreamWindow_def)
  have "\<exists>c' ys'. stream_try_write bound_crypto (YamuxHandle 0) (replicate 65508 0) ?c = (Inl ''noise frame too large'', c')
    \<and> cn_io c' = cn_io ?c \<and> cn_state c' = cn_state ?c \<and> cn_event_queue c' = cn_event_queue ?c
    \<and> cn_yamux c' = Some ys' \<and> ys_send_buf ys' = []
    \<and> ys_send_windows ys' (st_id (stream_at ?ys 0)) = Some (262144 - of_nat 65508)
    \<and> ns_cs_send (noise_of c') = bump_nonce (ns_cs_send (noise_of ?c))
    \<and> (\<forall>ps. \<forall>(k, ct) \<in> set (encryptions bound_crypto ps (ns_cs_send (noise_of c'))).
         decrypt bound_crypto ct (ns_cs_recv (noise_of ?peer)) = (Inl ''noise::decrypt failed'', ns_cs_recv (noise_of ?peer)))"
    by (rule oversize_write_breaks_channel [OF bound_crypto_ok bound_crypto_bound w _ ys(1-3) _ _ _ peer])
       (simp_all add: ys)
  then obtain c' ys' where c': "stream_try_write bound_crypto (YamuxHandle 0) (replicate 65508 0) ?c
        = (Inl ''noise frame too large'', c')"
      "cn_io c' = cn_io ?c" "cn_yamux c' = Some ys'" "ys_send_windows ys' 1 = Some (262144 - of_nat 65508)"
      "ns_cs_send (noise_of c') = bump_nonce (ns_cs_send (noise_of ?c))"
    and lost: "\<forall>ps. \<forall>(k, ct) \<in> set (encryptions bound_crypto ps (ns_cs_send (noise_of c'))).
         decrypt bound_crypto ct (ns_cs_send (noise_of ?c)) = (Inl ''noise::decrypt failed'', ns_cs_send (noise_of ?c))"
    unfolding ys(4) peer [symmetric] by (elim exE conjE) (rule that)
  have next_state: "cs_has_key (ns_cs_send (noise_of c'))" "cs_nonce (ns_cs_send (noise_of c')) = 1"
    by (simp_all add: c'(5) send bump_nonce_def fresh_cipher_def)
  then have "cs_nonce (ns_cs_send (noise_of c')) \<noteq> u64_max" by (simp add: u64_max_def)
  from encrypt_decrypt [OF bound_crypto_ok next_state(1) this] obtain ct
    where "encrypt bound_crypto [9] (ns_cs_send (noise_of c')) = (Inr ct, bump_nonce (ns_cs_send (noise_of c')))" by metis
  then have enc: "encryptions bound_crypto [[9]] (ns_cs_send (noise_of c')) = [(1, ct)]" by (simp add: next_state(2))
  have "\<forall>(k, ct) \<in> set (encryptions bound_crypto [[9]] (ns_cs_send (noise_of c'))).
      decrypt bound_crypto ct (ns_cs_send (noise_of ?c)) = (Inl ''noise::decrypt failed'', ns_cs_send (noise_of ?c))"
    using lost by (rule spec)
  then have "fst (decrypt bound_crypto ct (ns_cs_send (noise_of ?c))) = Inl ''noise::decrypt failed''"
    unfolding enc list.set ball_simps case_prod_conv by simp
  moreover have "ys_send_windows ys' 1 = Some (262144 - 65508)" using c'(4) by simp
  ultimately show ?thesis unfolding Let_def using c'(1-3) enc by blast
qed

end
