(* ===== verification/ConnectionHandles.thy ===== *)
theory ConnectionHandles
  imports ConnectionTransfer
begin

text \<open>
  The streams that a connection hands out: each is announced by one event and given to the owner once,
  in the order of the events, and a handle denotes the same stream as long as the connection
  lives, whatever happens to it.
\<close>

section \<open>What a handle denotes\<close>

definition handle_valid :: "connection \<Rightarrow> stream_handle \<Rightarrow> bool" where
  "handle_valid c h = (case h of DirectHandle p \<Rightarrow> p < length (cn_streams c)
     | YamuxHandle p \<Rightarrow> (case cn_yamux c of None \<Rightarrow> False | Some ys \<Rightarrow> p < length (ys_heap ys)))"

definition extends :: "('x \<Rightarrow> 'k) \<Rightarrow> 'x list \<Rightarrow> 'x list \<Rightarrow> bool" where
  "extends key xs ys \<longleftrightarrow> (\<exists>zs. map key ys = map key xs @ zs)"

lemma extends_refl [simp]: "extends key xs xs"
  by (simp add: extends_def)

lemma extends_trans: "extends key xs ys \<Longrightarrow> extends key ys zs \<Longrightarrow> extends key xs zs"
  by (auto simp: extends_def)

lemma extends_same: "map key ys = map key xs \<Longrightarrow> extends key xs ys"
  by (simp add: extends_def)

lemma extends_append [simp]: "extends key xs (xs @ ys)"
  by (simp add: extends_def)

lemma extends_update: "(\<And>x. key (f x) = key x) \<Longrightarrow> extends key xs (xs[p := f (xs ! p)])"
  by (rule extends_same) (simp add: map_update list_update_id nth_list_update_eq list_eq_iff_nth_eq nth_list_update_if)

lemma extends_length: "extends key xs ys \<Longrightarrow> length xs \<le> length ys"
  unfolding extends_def by (metis le_add1 length_append length_map)

lemma extends_nth:
  assumes "extends key xs ys" and "p < length xs"
  shows "p < length ys" and "key (ys ! p) = key (xs ! p)"
proof -
  from assms(1) obtain zs where m: "map key ys = map key xs @ zs" by (auto simp: extends_def)
  then have "length (map key ys) = length (map key xs @ zs)" by simp
  with assms(2) show p: "p < length ys" by simp
  from m have "map key ys ! p = (map key xs @ zs) ! p" by simp
  with p assms(2) show "key (ys ! p) = key (xs ! p)" by (simp add: nth_append)
qed

section \<open>The multiplexer\<close>

text \<open>The ids that the events of one type announce.\<close>

definition announced :: "event_type \<Rightarrow> connection_event list \<Rightarrow> u32 option list" where
  "announced ty evs = map ev_stream_id (filter (\<lambda>e. ev_type e = ty) evs)"

lemma announced_simps [simp]:
  "announced ty [] = []" "announced ty (evs @ evs') = announced ty evs @ announced ty evs'"
  "announced ty (e # evs) = (if ev_type e = ty then [ev_stream_id e] else []) @ announced ty evs"
  by (simp_all add: announced_def)

text \<open>No stream appears under an id of this end, and its next id stays.\<close>

definition own_kept :: "yamux_session \<Rightarrow> yamux_session \<Rightarrow> bool" where
  "own_kept s s' \<longleftrightarrow> ys_is_client s' = ys_is_client s \<and> ys_next_stream_id s' = ys_next_stream_id s
     \<and> (\<forall>sid. \<not> is_remote_stream_id s sid \<longrightarrow> ys_streams s' sid \<noteq> None \<longrightarrow> ys_streams s sid \<noteq> None)"

lemma own_kept_refl [simp]: "own_kept s s"
  by (simp add: own_kept_def)

lemma own_kept_trans: "own_kept s t \<Longrightarrow> own_kept t u \<Longrightarrow> own_kept s u"
  unfolding own_kept_def is_remote_stream_id_def by metis

lemma own_kept_fields [simp]:
  "own_kept s (s'\<lparr>ys_send_windows := w\<rparr>) = own_kept s s'" "own_kept s (s'\<lparr>ys_send_buf := bs\<rparr>) = own_kept s s'"
  "own_kept s (s'\<lparr>ys_recv_buf := bs\<rparr>) = own_kept s s'" "own_kept s (s'\<lparr>ys_remote_go_away := b\<rparr>) = own_kept s s'"
  "own_kept s (s'\<lparr>ys_heap := hs\<rparr>) = own_kept s s'"
  by (simp_all add: own_kept_def)

lemma own_kept_same:
  "ys_streams s' = ys_streams s \<Longrightarrow> ys_is_client s' = ys_is_client s \<Longrightarrow> ys_next_stream_id s' = ys_next_stream_id s
     \<Longrightarrow> own_kept s s'"
  by (simp add: own_kept_def)

text \<open>Old streams stay, and what is newly pending was just announced and is new in the heap.\<close>

definition issued :: "connection ystate \<Rightarrow> connection ystate \<Rightarrow> bool" where
  "issued t t' \<longleftrightarrow> extends st_id (ys_heap (fst t)) (ys_heap (fst t')) \<and> own_kept (fst t) (fst t')
     \<and> extends ss_id (cn_streams (snd t)) (cn_streams (snd t'))
     \<and> (\<exists>ps evs. cn_pending_inbound (snd t') = cn_pending_inbound (snd t) @ map YamuxHandle ps
          \<and> cn_event_queue (snd t') = cn_event_queue (snd t) @ evs \<and> announced EvStreamOpened evs = []
          \<and> announced EvStreamAccepted evs = map (\<lambda>p. Some (st_id (stream_at (fst t') p))) ps
          \<and> distinct ps \<and> (\<forall>p \<in> set ps. length (ys_heap (fst t)) \<le> p \<and> p < length (ys_heap (fst t'))))"

lemma issued_quiet:
  assumes "extends st_id (ys_heap (fst t)) (ys_heap (fst t'))" and "own_kept (fst t) (fst t')"
    and "extends ss_id (cn_streams (snd t)) (cn_streams (snd t'))"
    and "cn_pending_inbound (snd t') = cn_pending_inbound (snd t)" and "cn_event_queue (snd t') = cn_event_queue (snd t) @ evs"
    and "announced EvStreamOpened evs = []" and "announced EvStreamAccepted evs = []"
  shows "issued t t'"
  using assms unfolding issued_def by (intro conjI exI [of _ "[]"] exI [of _ evs]) simp_all

lemma issued_trans:
  assumes "issued t u" and "issued u v"
  shows "issued t v"
proof -
  from assms(1) obtain ps evs where u: "cn_pending_inbound (snd u) = cn_pending_inbound (snd t) @ map YamuxHandle ps"
      "cn_event_queue (snd u) = cn_event_queue (snd t) @ evs" "announced EvStreamOpened evs = []"
      "announced EvStreamAccepted evs = map (\<lambda>p. Some (st_id (stream_at (fst u) p))) ps"
      "distinct ps" "\<forall>p \<in> set ps. length (ys_heap (fst t)) \<le> p \<and> p < length (ys_heap (fst u))"
    and tu: "extends st_id (ys_heap (fst t)) (ys_heap (fst u))" unfolding issued_def by blast
  from assms(2) obtain qs evs' where v: "cn_pending_inbound (snd v) = cn_pending_inbound (snd u) @ map YamuxHandle qs"
      "cn_event_queue (snd v) = cn_event_queue (snd u) @ evs'" "announced EvStreamOpened evs' = []"
      "announced EvStreamAccepted evs' = map (\<lambda>p. Some (st_id (stream_at (fst v) p))) qs"
      "distinct qs" "\<forall>p \<in> set qs. length (ys_heap (fst u)) \<le> p \<and> p < length (ys_heap (fst v))"
    and uv: "extends st_id (ys_heap (fst u)) (ys_heap (fst v))" unfolding issued_def by blast
  have grows: "length (ys_heap (fst t)) \<le> length (ys_heap (fst u))" "length (ys_heap (fst u)) \<le> length (ys_heap (fst v))"
    using extends_length [OF tu] extends_length [OF uv] by simp_all
  have "st_id (stream_at (fst v) p) = st_id (stream_at (fst u) p)" if "p \<in> set ps" for p
    using extends_nth(2) [OF uv] u(6) that by (simp add: stream_at_def)
  then have "announced EvStreamAccepted (evs @ evs') = map (\<lambda>p. Some (st_id (stream_at (fst v) p))) (ps @ qs)"
    using u(4) v(4) by simp
  moreover have "distinct (ps @ qs)" using u(5,6) v(5,6) by fastforce
  moreover have "\<forall>p \<in> set (ps @ qs). length (ys_heap (fst t)) \<le> p \<and> p < length (ys_heap (fst v))"
    using u(6) v(6) grows by fastforce
  ultimately show ?thesis
    using assms u v unfolding issued_def
    by (intro conjI exI [of _ "ps @ qs"] exI [of _ "evs @ evs'"]) (auto intro: extends_trans own_kept_trans)
qed

interpretation issuing: change_order issued
proof
  show "issued t t" for t by (rule issued_quiet [where evs = "[]"]) simp_all
qed (rule issued_trans)

lemma calm_stream_ids: "calm E c c' \<Longrightarrow> map ss_id (cn_streams c') = map ss_id (cn_streams c)"
proof -
  assume "calm E c c'"
  then have "list_all2 stream_later (cn_streams c) (cn_streams c')" unfolding calm_def by blast
  then show ?thesis by (induction rule: list_all2_induct) (simp_all add: stream_later_def)
qed

lemma calm_pending:
  assumes "calm {} c c'"
  shows "cn_pending_inbound c' = cn_pending_inbound c" and "cn_event_queue c' = cn_event_queue c"
proof -
  from assms obtain evs pend where "pend = []" "events_in {} evs"
    and c': "c' = c\<lparr>cn_io := cn_io c', cn_secure := cn_secure c', cn_streams := cn_streams c',
      cn_event_queue := cn_event_queue c @ evs, cn_pending_inbound := cn_pending_inbound c @ pend\<rparr>"
    unfolding calm_def by blast
  then have "pend = []" "evs = []" by (simp_all add: events_in_def)
  then show "cn_pending_inbound c' = cn_pending_inbound c" "cn_event_queue c' = cn_event_queue c"
    by (subst c', simp)+
qed

lemma issued_session:
  "extends st_id (ys_heap (fst t)) (ys_heap (f (fst t))) \<Longrightarrow> own_kept (fst t) (f (fst t)) \<Longrightarrow> issued t (on_session f t)"
  by (rule issued_quiet [where evs = "[]"]) simp_all

lemma issued_outgoing: "stays issued (run_outgoing (session_callbacks C))"
proof (rule staysI, unfold split_paired_all)
  fix ys :: yamux_session and c
  let ?c = "snd (snd (flush_yamux_outgoing C (ys_send_buf ys) c))"
  have "calm {} c ?c" by (rule calm_flush_yamux)
  from calm_stream_ids [OF this] calm_pending [OF this]
  have "issued (ys, c) (ys\<lparr>ys_send_buf := buf\<rparr>, ?c)" for buf
    by (intro issued_quiet [where evs = "[]"]) (simp_all add: extends_same own_kept_same)
  then show "issued (ys, c) (snd (run_outgoing (session_callbacks C) (ys, c)))"
    by (simp add: run_outgoing_def session_callbacks_def case_prod_beta Let_def)
qed

lemma heap_kept:
  "ys_heap (write_frame hdr payload s) = ys_heap s" "ys_heap (erase_stream sid s) = ys_heap s"
  "ys_heap (grow_window sid delta s) = ys_heap s"
  by (simp_all add: erase_stream_def grow_window_def Let_def split: option.split)

lemma own_ids_kept [simp]:
  "own_kept s (write_frame hdr payload s') = own_kept s s'" "own_kept s (map_stream p f s') = own_kept s s'"
  "own_kept s (grow_window sid delta s') = own_kept s s'" "own_kept s (erase_stream sid s)"
  by (simp_all add: own_kept_def erase_stream_def grow_window_def write_frame_def map_stream_def Let_def split: option.split)

lemma heap_mapped:
  "(\<And>st. st_id (f st) = st_id st) \<Longrightarrow> extends st_id (ys_heap s) (ys_heap (map_stream p f s))"
  by (simp add: map_stream_def extends_update)

lemma heap_found: "extends st_id (ys_heap s) (ys_heap (snd (get_or_create_stream sid b s)))"
  by (simp add: get_or_create_stream_def Let_def split: option.split)

lemma stream_marks:
  "st_id (receive_data data st) = st_id st" "st_id (receive_fin st) = st_id st" "st_id (receive_rst st) = st_id st"
  "st_id (close_local_write st) = st_id st" "st_id (set_protocol proto st) = st_id st"
  by (simp_all add: receive_data_def receive_fin_def receive_rst_def close_local_write_def set_protocol_def)

lemma issued_closed: "issued t (on_owner (map_option (\<lambda>cb. cb sid d) (close_cb (session_callbacks C))) t)"
  by (rule issued_quiet [where evs = "[\<lparr>ev_type = EvStreamClosed, ev_stream_id = Some sid, ev_detail = d\<rparr>]"])
     (cases t; simp add: on_owner_def session_callbacks_def yamux_closed_def push_event_def)+

text \<open>A new stream of the peer is announced with its id.\<close>

lemma issued_accepted:
  assumes "get_or_create_stream sid b s = (Some p, s1)" and "ys_streams s sid = None" and "is_remote_stream_id s sid"
  shows "issued (s, c) (on_owner (map_option (\<lambda>cb. cb p sid) (accept_cb (session_callbacks C))) (s1, c))"
proof -
  let ?ev = "\<lparr>ev_type = EvStreamAccepted, ev_stream_id = Some sid, ev_detail = ''inbound yamux stream ready''\<rparr>"
  from assms(1,2) have p: "p = length (ys_heap s)" and heap: "ys_heap s1 = ys_heap s @ [new_stream sid (ys_conn_id s)]"
    and streams: "ys_streams s1 = (ys_streams s)(sid \<mapsto> p)" and same: "ys_is_client s1 = ys_is_client s"
      "ys_next_stream_id s1 = ys_next_stream_id s"
    by (auto simp: get_or_create_stream_def Let_def split: if_splits)
  have own: "own_kept s s1" using assms(3) same by (auto simp: own_kept_def streams)
  have "st_id (stream_at s1 p) = sid" by (simp add: stream_at_def heap p new_stream_def)
  then show ?thesis
    unfolding issued_def
    by (intro conjI exI [of _ "[p]"] exI [of _ "[?ev]"])
       (simp_all add: on_owner_def session_callbacks_def yamux_accept_def push_event_def own, simp_all add: heap p)
qed

lemma issued_sends: "(\<And>s. extends st_id (ys_heap s) (ys_heap (f s))) \<Longrightarrow> (\<And>s. own_kept s (f s))
    \<Longrightarrow> stays issued (and_then (update (on_session f)) (\<lambda>_. run_outgoing (session_callbacks C)))"
  by (intro issuing.stays_and_then issuing.stays_update issued_session issued_outgoing)

lemma issued_stages:
  "issued t (apply_window hdr t)" "issued t (apply_payload p payload t)"
  "issued t (apply_fin (session_callbacks C) p hdr t)" "issued t (apply_rst (session_callbacks C) p hdr t)"
proof -
  show "issued t (apply_window hdr t)" "issued t (apply_payload p payload t)"
    by (simp_all add: apply_window_def apply_payload_def issuing.unchanged issued_session heap_kept heap_mapped stream_marks)
  have fin: "issued t (on_session (map_stream p receive_fin) t)" and rst: "issued t (on_session (map_stream p receive_rst) t)"
    by (simp_all add: issued_session heap_mapped stream_marks)
  show "issued t (apply_fin (session_callbacks C) p hdr t)"
    using fin issuing.later [OF fin issued_closed] by (simp add: apply_fin_def Let_def issuing.unchanged)
  have "issued u (on_session (erase_stream sid) u)" for sid u by (simp add: issued_session heap_kept)
  from issuing.later [OF issuing.later [OF rst issued_closed] this]
  show "issued t (apply_rst (session_callbacks C) p hdr t)" by (simp add: apply_rst_def issuing.unchanged)
qed

lemma accept_not: "accept_new cbs p sid False t = t"
  by (simp add: accept_new_def)

lemma issued_stream_frame:
  assumes "has_flag (hdr_flags hdr) SYN \<Longrightarrow> is_remote_stream_id (fst t) (hdr_stream_id hdr)"
  shows "issued t (handle_stream_frame (session_callbacks C) hdr payload t)"
proof -
  obtain s c where t: "t = (s, c)" by force
  let ?sid = "hdr_stream_id hdr" and ?open = "has_flag (hdr_flags hdr) SYN"
  obtain q s1 where g: "get_or_create_stream ?sid ?open s = (q, s1)" by force
  show ?thesis
  proof (cases q)
    case None
    with g have "s1 = s" by (auto simp: get_or_create_stream_def Let_def split: option.splits if_splits)
    with g None show ?thesis by (simp add: handle_stream_frame_def t issuing.unchanged)
  next
    case (Some p)
    let ?new = "?open \<and> ys_streams s ?sid = None"
    have "issued t (accept_new (session_callbacks C) p ?sid ?new (s1, c))"
    proof (cases ?new)
      case True
      then have "issued t (on_owner (map_option (\<lambda>cb. cb p ?sid) (accept_cb (session_callbacks C))) (s1, c))"
        using issued_accepted [of ?sid ?open s p s1 c C] g Some assms by (simp add: t)
      moreover have "stays issued (acknowledge_stream (session_callbacks C) ?sid)"
        unfolding acknowledge_stream_def by (rule issued_sends) (simp_all add: heap_kept)
      ultimately have "issued t (snd (acknowledge_stream (session_callbacks C) ?sid
          (on_owner (map_option (\<lambda>cb. cb p ?sid) (accept_cb (session_callbacks C))) (s1, c))))"
        using issuing.later stays_apply by metis
      with True show ?thesis by (simp add: accept_new_def)
    next
      case False
      with g Some have "s1 = s" by (auto simp: get_or_create_stream_def Let_def split: option.splits if_splits)
      with False show ?thesis by (simp only: if_False accept_not issuing.unchanged t)
    qed
    note this [THEN issuing.later, OF issued_stages(1), THEN issuing.later, OF issued_stages(2),
        THEN issuing.later, OF issued_stages(3), THEN issuing.later, OF issued_stages(4)]
    with g Some show ?thesis by (simp add: handle_stream_frame_def t Let_def)
  qed
qed

lemma issued_frame: "issued t (handle_frame (session_callbacks C) hdr payload t)"
proof -
  have "stays issued (send_ping_ack (session_callbacks C) v)" "stays issued (send_go_away (session_callbacks C) code)" for v code
    unfolding send_ping_ack_def send_go_away_def by (intro issued_sends; simp add: heap_kept)+
  note sent = this [THEN stays_apply [where R = issued]]
  have away: "issued t (on_session (\<lambda>s. s\<lparr>ys_remote_go_away := True\<rparr>) t)"
    by (rule issued_session) (simp_all add: own_kept_same)
  have choice: "issued t x \<Longrightarrow> issued t y \<Longrightarrow> issued t (if b then x else y)" for x y b by simp
  have last: "issued t (if has_flag (hdr_flags hdr) SYN \<and> \<not> is_remote_stream_id (fst t) (hdr_stream_id hdr)
      then snd (send_go_away (session_callbacks C) ProtocolError t)
      else handle_stream_frame (session_callbacks C) hdr payload t)"
    using sent(2) issued_stream_frame by simp
  show ?thesis
    unfolding handle_frame_def by (intro choice issuing.unchanged sent away last)
qed

lemma issued_receive: "stays issued (receive (session_callbacks C) data)"
proof (rule staysI)
  fix t :: "connection ystate"
  have frames: "issued u (handle_frames (session_callbacks C) fs u)" for fs u
  proof (induction fs arbitrary: u)
    case (Cons f fs)
    from issuing.later [OF issued_frame Cons.IH] show ?case by (simp add: handle_frames_def case_prod_beta)
  qed (simp add: handle_frames_def issuing.unchanged)
  have "issued u (set_recv bs u)" for bs u
    unfolding set_recv_def by (rule issued_session) (simp_all add: own_kept_same)
  from issuing.later [OF frames this] show "issued t (snd (receive (session_callbacks C) data t))"
    by (simp add: receive_frames case_prod_beta Let_def)
qed

lemma stays_choice: "stays R m \<Longrightarrow> stays R m' \<Longrightarrow> stays R (if b then m else m')"
  by simp

text \<open>The operations read the session first.\<close>

lemma issued_reading: "(\<And>s e. stays issued (f s e)) \<Longrightarrow> stays issued (reading (\<lambda>(s, e). f s e))"
  by (intro issuing.stays_reading) (simp add: case_prod_beta)

lemma issued_cases:
  "stays issued m \<Longrightarrow> stays issued m' \<Longrightarrow> stays issued (if b then m else m')"
  "stays issued m \<Longrightarrow> (\<And>w. stays issued (f w)) \<Longrightarrow> stays issued (case x of None \<Rightarrow> m | Some w \<Rightarrow> f w)"
  by (simp_all split: option.split)

lemma issued_writes:
  "stays issued (write_stream_data (session_callbacks C) sid data)"
  "stays issued (close_stream_write (session_callbacks C) sid)"
  "stays issued (reset_stream (session_callbacks C) sid)"
  "stays issued (update_receive_window (session_callbacks C) sid n)"
proof -
  show "stays issued (write_stream_data (session_callbacks C) sid data)"
    unfolding write_stream_data_def Let_def
    by (intro issued_reading issued_cases issuing.stays_and_then issuing.stays_return issuing.stays_update issued_session
        issued_outgoing) (simp_all add: heap_kept)
  show "stays issued (close_stream_write (session_callbacks C) sid)"
    unfolding close_stream_write_def
    by (rule issued_sends) (simp_all add: heap_kept stream_marks Let_def map_stream_def extends_update split: option.split)
  show "stays issued (reset_stream (session_callbacks C) sid)"
    unfolding reset_stream_def
    by (rule issued_sends) (simp_all add: heap_kept own_kept_trans [OF _ own_ids_kept(4)])
  show "stays issued (update_receive_window (session_callbacks C) sid n)"
    unfolding update_receive_window_def by (intro issued_cases issuing.stays_return issued_sends) (simp_all add: heap_kept)
qed

lemma issued_operations:
  "stays issued (try_read (session_callbacks C) p n)"
  "stays issued (try_write (session_callbacks C) p data)" "stays issued (close_write (session_callbacks C) p)"
  "stays issued (reset (session_callbacks C) p)"
proof -
  show "stays issued (try_read (session_callbacks C) p n)"
    unfolding try_read_def Let_def
    by (intro issued_reading issued_cases issuing.stays_and_then issuing.stays_return issuing.stays_update issued_session
        heap_mapped, simp, simp) (simp add: stays_def stays_apply [OF issued_writes(4)])
  show "stays issued (try_write (session_callbacks C) p data)"
    unfolding try_write_def Let_def by (intro issued_reading issued_cases issuing.stays_return issued_writes)
  show "stays issued (close_write (session_callbacks C) p)"
    unfolding close_write_def Let_def
    by (intro issued_reading issued_cases issuing.stays_and_then issuing.stays_return issuing.stays_update issued_session
        issued_writes heap_mapped stream_marks) simp
  show "stays issued (reset (session_callbacks C) p)"
    unfolding reset_def
    by (intro issued_reading issuing.stays_and_then issuing.stays_update issued_session issued_writes heap_mapped
        stream_marks) simp
qed

text \<open>Opening a stream: a new one, unless the next id of this end is still in use.\<close>

lemma open_effect:
  assumes "yamux_inv s" and "open_stream (session_callbacks C) (s, c) = (r, s', c')"
  shows "calm {} c c' \<and> extends st_id (ys_heap s) (ys_heap s') \<and> ys_is_client s' = ys_is_client s
    \<and> (case r of Inl e \<Rightarrow> True | Inr p \<Rightarrow> p < length (ys_heap s'))
    \<and> (s' = s \<and> (\<forall>p. r \<noteq> Inr p)
       \<or> ys_next_stream_id s' = ys_next_stream_id s + 2 \<and> dom (ys_streams s') = insert (ys_next_stream_id s) (dom (ys_streams s))
         \<and> (\<forall>p. r = Inr p \<longrightarrow> ys_streams s (ys_next_stream_id s) = None \<longrightarrow> p = length (ys_heap s)))"
proof (cases "ys_remote_go_away s")
  case True
  with assms(2) show ?thesis by (auto simp: open_stream_def return_err_def)
next
  case False
  let ?sid = "ys_next_stream_id s"
  obtain q s1 where g: "get_or_create_stream ?sid True (s\<lparr>ys_next_stream_id := ?sid + 2\<rparr>) = (q, s1)" by force
  have s1: "ys_next_stream_id s1 = ?sid + 2" "ys_is_client s1 = ys_is_client s"
      "dom (ys_streams s1) = insert ?sid (dom (ys_streams s))" "extends st_id (ys_heap s) (ys_heap s1)"
    using g heap_found [of "s\<lparr>ys_next_stream_id := ?sid + 2\<rparr>" ?sid True]
    by (cases "ys_streams s ?sid"; auto simp: get_or_create_stream_def Let_def insert_absorb [OF domI])+
  have q: "\<exists>p. q = Some p \<and> p < length (ys_heap s1) \<and> (ys_streams s ?sid = None \<longrightarrow> p = length (ys_heap s))"
  proof (cases "ys_streams s ?sid")
    case None
    with g show ?thesis by (auto simp: get_or_create_stream_def Let_def)
  next
    case (Some p)
    with g have "q = Some p" "ys_heap s1 = ys_heap s" by (auto simp: get_or_create_stream_def)
    with Some assms(1) show ?thesis by (simp add: yamux_inv_def)
  qed
  let ?s2 = "write_frame (frame Data (flag_value SYN) ?sid 0) [] s1"
  obtain r1 s2 c2 where out: "run_outgoing (session_callbacks C) (?s2, c) = (r1, s2, c2)" by (rule prod_cases3)
  have c2: "calm {} c c2"
    using out calm_flush_yamux [of "{}" c C "ys_send_buf ?s2"]
    by (auto simp: run_outgoing_def session_callbacks_def case_prod_beta Let_def split: if_splits)
  obtain buf where s2: "s2 = ?s2\<lparr>ys_send_buf := buf\<rparr>"
    using run_outgoing_session [of "session_callbacks C" "(?s2, c)"] unfolding out by auto
  have "(r, s', c') = (case r1 of Inl e \<Rightarrow> Inl e | Inr _ \<Rightarrow> Inr (the q), s2, c2)"
    using assms(2) False g out by (cases r1) (simp_all add: open_stream_def and_then_def Let_def)
  with c2 q s1 show ?thesis by (cases r1) (auto simp: s2 heap_kept write_frame_def)
qed

section \<open>The connection\<close>

text \<open>After at most \<open>n\<close> calls that open a stream the ids of this end are below the next one.\<close>

definition owns_below :: "nat \<Rightarrow> connection \<Rightarrow> bool" where
  "owns_below n c \<longleftrightarrow> (\<forall>ys. cn_yamux c = Some ys \<longrightarrow> unat (ys_next_stream_id ys) \<le> 2 + 2 * n
     \<and> (\<forall>sid. ys_streams ys sid \<noteq> None \<longrightarrow> \<not> is_remote_stream_id ys sid \<longrightarrow> sid < ys_next_stream_id ys))"

text \<open>What was handed out stays valid and keeps its id; what becomes pending is new, and was announced
  by events in the same order.\<close>

definition same_handles :: "connection \<Rightarrow> connection \<Rightarrow> bool" where
  "same_handles c c' \<longleftrightarrow> (\<forall>h. handle_valid c h \<longrightarrow> handle_valid c' h \<and> stream_id h c' = stream_id h c)"

definition keeps_handles :: "connection \<Rightarrow> connection \<Rightarrow> bool" where
  "keeps_handles c c' \<longleftrightarrow> same_handles c c' \<and> (\<forall>n. owns_below n c \<longrightarrow> owns_below n c')
     \<and> (\<exists>hs evs. cn_pending_inbound c' = cn_pending_inbound c @ hs \<and> cn_event_queue c' = cn_event_queue c @ evs
          \<and> announced EvStreamOpened evs = [] \<and> announced EvStreamAccepted evs = map (\<lambda>h. Some (stream_id h c')) hs
          \<and> distinct hs \<and> (\<forall>h \<in> set hs. handle_valid c' h \<and> \<not> handle_valid c h))"

lemma keeps_handlesI:
  assumes "same_handles c c'" and "\<And>n. owns_below n c \<Longrightarrow> owns_below n c'"
    and "cn_pending_inbound c' = cn_pending_inbound c @ hs" and "cn_event_queue c' = cn_event_queue c @ evs"
    and "announced EvStreamOpened evs = []" and "announced EvStreamAccepted evs = map (\<lambda>h. Some (stream_id h c')) hs"
    and "distinct hs" and "\<And>h. h \<in> set hs \<Longrightarrow> handle_valid c' h \<and> \<not> handle_valid c h"
  shows "keeps_handles c c'"
  using assms unfolding keeps_handles_def by blast

lemma same_streams:
  assumes "extends ss_id (cn_streams c) (cn_streams c')" and "cn_yamux c' = cn_yamux c"
  shows "same_handles c c'" and "owns_below n c \<Longrightarrow> owns_below n c'"
proof -
  show "same_handles c c'"
    unfolding same_handles_def
  proof (intro allI impI)
    fix h assume "handle_valid c h"
    then show "handle_valid c' h \<and> stream_id h c' = stream_id h c"
      using extends_nth [OF assms(1)] assms(2) by (cases h) (auto simp: handle_valid_def stream_id_def)
  qed
qed (simp add: owns_below_def assms(2))

lemma keeps_quiet:
  assumes "extends ss_id (cn_streams c) (cn_streams c')" and "cn_yamux c' = cn_yamux c"
    and "cn_pending_inbound c' = cn_pending_inbound c" and "cn_event_queue c' = cn_event_queue c @ evs"
    and "announced EvStreamOpened evs = []" and "announced EvStreamAccepted evs = []"
  shows "keeps_handles c c'"
  using same_streams [OF assms(1,2)] assms(3-) by (intro keeps_handlesI [where hs = "[]" and evs = evs]) simp_all

lemma keeps_trans:
  assumes "keeps_handles a b" and "keeps_handles b c"
  shows "keeps_handles a c"
proof -
  from assms(1) obtain hs evs where ab: "same_handles a b" "\<forall>n. owns_below n a \<longrightarrow> owns_below n b"
      "cn_pending_inbound b = cn_pending_inbound a @ hs" "cn_event_queue b = cn_event_queue a @ evs"
      "announced EvStreamOpened evs = []" "announced EvStreamAccepted evs = map (\<lambda>h. Some (stream_id h b)) hs"
      "distinct hs" "\<forall>h \<in> set hs. handle_valid b h \<and> \<not> handle_valid a h" unfolding keeps_handles_def by blast
  from assms(2) obtain hs' evs' where bc: "same_handles b c" "\<forall>n. owns_below n b \<longrightarrow> owns_below n c"
      "cn_pending_inbound c = cn_pending_inbound b @ hs'" "cn_event_queue c = cn_event_queue b @ evs'"
      "announced EvStreamOpened evs' = []" "announced EvStreamAccepted evs' = map (\<lambda>h. Some (stream_id h c)) hs'"
      "distinct hs'" "\<forall>h \<in> set hs'. handle_valid c h \<and> \<not> handle_valid b h" unfolding keeps_handles_def by blast
  show ?thesis
  proof (rule keeps_handlesI [where hs = "hs @ hs'" and evs = "evs @ evs'"])
    show "same_handles a c" using ab(1) bc(1) by (simp add: same_handles_def)
    show "announced EvStreamAccepted (evs @ evs') = map (\<lambda>h. Some (stream_id h c)) (hs @ hs')"
      using ab(6,8) bc(1,6) by (auto simp: same_handles_def)
    show "distinct (hs @ hs')" using ab(7,8) bc(7,8) by auto
    show "handle_valid c h \<and> \<not> handle_valid a h" if "h \<in> set (hs @ hs')" for h
      using that ab(1,8) bc(1,8) by (auto simp: same_handles_def)
  qed (use ab bc in auto)
qed

interpretation handing: change_order keeps_handles
proof
  show "keeps_handles c c" for c by (rule keeps_quiet [where evs = "[]"]) simp_all
qed (rule keeps_trans)

lemma keeps_same:
  "cn_streams c' = cn_streams c \<Longrightarrow> cn_yamux c' = cn_yamux c \<Longrightarrow> cn_pending_inbound c' = cn_pending_inbound c
     \<Longrightarrow> cn_event_queue c' = cn_event_queue c \<Longrightarrow> keeps_handles c c'"
  by (rule keeps_quiet [where evs = "[]"]) simp_all

lemma calm_keeps: "stays (calm {}) m \<Longrightarrow> stays keeps_handles m"
proof (rule staysI)
  fix c assume "stays (calm {}) m"
  then have m: "calm {} c (snd (m c))" by (rule stays_apply)
  show "keeps_handles c (snd (m c))"
    by (rule keeps_quiet [where evs = "[]"]) (simp_all add: extends_same calm_stream_ids [OF m] calmD(6) [OF m] calm_pending [OF m])
qed

lemma with_yamux_keeps:
  assumes "stays issued m"
  shows "stays keeps_handles (with_yamux m)"
proof (rule staysI)
  fix c
  show "keeps_handles c (snd (with_yamux m c))"
  proof (cases "cn_yamux c")
    case (Some ys)
    obtain r ys' c' where m: "m (ys, c) = (r, ys', c')" by (rule prod_cases3)
    from stays_apply [OF assms, of "(ys, c)"] m have "issued (ys, c) (ys', c')" by simp
    then obtain ps evs where i: "extends st_id (ys_heap ys) (ys_heap ys')" "own_kept ys ys'"
        "extends ss_id (cn_streams c) (cn_streams c')"
      and pend: "cn_pending_inbound c' = cn_pending_inbound c @ map YamuxHandle ps" "cn_event_queue c' = cn_event_queue c @ evs"
        "announced EvStreamOpened evs = []" "announced EvStreamAccepted evs = map (\<lambda>p. Some (st_id (stream_at ys' p))) ps"
        "distinct ps" "\<forall>p \<in> set ps. length (ys_heap ys) \<le> p \<and> p < length (ys_heap ys')"
      unfolding issued_def by auto
    let ?c = "c'\<lparr>cn_yamux := Some ys'\<rparr>"
    have "keeps_handles c ?c"
    proof (rule keeps_handlesI [where hs = "map YamuxHandle ps" and evs = evs])
      have "handle_valid ?c h \<and> stream_id h ?c = stream_id h c" if "handle_valid c h" for h
        using that Some extends_nth [OF i(1)] extends_nth [OF i(3)]
        by (cases h) (auto simp: handle_valid_def stream_id_def stream_at_def)
      then show "same_handles c ?c" by (simp add: same_handles_def)
      have "is_remote_stream_id ys' = is_remote_stream_id ys" using i(2) by (auto simp: own_kept_def is_remote_stream_id_def fun_eq_iff)
      then show "owns_below n ?c" if "owns_below n c" for n
        using that i(2) Some by (auto simp: owns_below_def own_kept_def)
      show "announced EvStreamAccepted evs = map (\<lambda>h. Some (stream_id h ?c)) (map YamuxHandle ps)"
        by (simp add: pend(4) stream_id_def)
      show "distinct (map YamuxHandle ps)" using pend(5) by (simp add: distinct_map inj_on_def)
      show "handle_valid ?c h \<and> \<not> handle_valid c h" if "h \<in> set (map YamuxHandle ps)" for h
        using that pend(6) Some by (fastforce simp: handle_valid_def)
    qed (simp_all add: pend)
    with Some m show ?thesis by (simp add: with_yamux_def)
  qed (simp add: with_yamux_def handing.unchanged)
qed

lemma create_stream_keeps: "keeps_handles c (snd (create_stream proto True c))"
proof (rule keeps_handlesI [where hs = "[DirectHandle (length (cn_streams c))]"])
  show "same_handles c (snd (create_stream proto True c))"
    by (rule same_streams) (simp_all add: create_stream_def Let_def push_event_def)
  show "owns_below n (snd (create_stream proto True c))" if "owns_below n c" for n
    using that by (simp add: owns_below_def create_stream_def Let_def push_event_def)
  show "cn_event_queue (snd (create_stream proto True c)) = cn_event_queue c
      @ [\<lparr>ev_type = EvStreamAccepted, ev_stream_id = Some (cn_next_stream_id c), ev_detail = ''inbound stream ready''\<rparr>]"
    by (simp add: create_stream_def Let_def push_event_def)
qed (simp_all add: create_stream_def Let_def push_event_def handle_valid_def stream_id_def)

lemma keeps_mark: "(\<And>st. ss_id (f st) = ss_id st) \<Longrightarrow> keeps_handles c (map_stream_state p f c)"
  by (rule keeps_quiet [where evs = "[]"]) (simp_all add: map_stream_state_def extends_update)

lemma keeps_parts:
  "keeps_handles c (set_io io c)" "keeps_handles c (map_secure f c)"
  "keeps_handles c (snd (on_cs_recv m c))" "keeps_handles c (set_rx bs c)"
  "keeps_handles c (set_recvs rs c)" "keeps_handles c (set_kernel xs ys err c)"
  "keeps_handles c (snd (on_noise m' c))" "keeps_handles c (snd (consume_rx n c))" "keeps_handles c (set_noise ns c)"
  by (rule keeps_same; simp add: set_io_def map_secure_def on_cs_recv_def on_noise_def zoom_def consume_rx_def on_io_def
      set_noise_def set_rx_def set_recvs_def set_kernel_def case_prod_beta Let_def)+

lemma keeps_event: "ty \<notin> {EvStreamAccepted, EvStreamOpened} \<Longrightarrow> keeps_handles c (push_event ty sid d c)"
  by (rule keeps_quiet [where evs = "[\<lparr>ev_type = ty, ev_stream_id = sid, ev_detail = d\<rparr>]"]) (simp_all add: push_event_def)

lemma emit_error_keeps: "keeps_handles c (emit_error d c)"
proof -
  have "keeps_handles c (c\<lparr>cn_state := Failed\<rparr>)" by (rule keeps_same) simp_all
  from handing.later [OF this keeps_event] show ?thesis by (simp add: emit_error_def handing.unchanged)
qed

lemma close_keeps: "keeps_handles c (close c)"
proof -
  let ?mark = "\<lambda>st. st\<lparr>ss_open := False, ss_write_open := False, ss_close_write_pending := False, ss_rx_buffer := []\<rparr>"
  have marked: "extends ss_id sts (sts[p := ?mark (sts ! p)])" for sts :: "stream_state list" and p
    by (rule extends_update [where f = ?mark]) simp
  have "\<exists>evs. cn_event_queue (close c) = cn_event_queue c @ evs \<and> announced EvStreamOpened evs = []
      \<and> announced EvStreamAccepted evs = []"
    by (auto simp: close_def set_io_def map_stream_state_def push_event_def Let_def split: option.split)
  then obtain evs where "cn_event_queue (close c) = cn_event_queue c @ evs" "announced EvStreamOpened evs = []"
    "announced EvStreamAccepted evs = []" by blast
  moreover have "extends ss_id (cn_streams c) (cn_streams (close c))" "cn_yamux (close c) = cn_yamux c"
    "cn_pending_inbound (close c) = cn_pending_inbound c"
    using marked by (simp_all add: close_def set_io_def map_stream_state_def push_event_def Let_def split: option.split)
  ultimately show ?thesis by (intro keeps_quiet)
qed

lemma close_error_keeps: "keeps_handles c (close (emit_error d c))"
  by (rule handing.later [OF emit_error_keeps close_keeps])

section \<open>Input on a secure connection\<close>

lemma deliver_keeps: "stays keeps_handles (deliver C plaintext)"
proof -
  have ensure: "keeps_handles c (snd (ensure_inbound_stream c))" for c
    using create_stream_keeps by (simp add: ensure_inbound_stream_def handing.unchanged split: option.split)
  have "keeps_handles c (deliver_direct plaintext c)" for c
    using handing.later [OF ensure keeps_mark] by (simp add: deliver_direct_def case_prod_beta Let_def)
  then show ?thesis
    unfolding deliver_def
    by (intro handing.stays_reading stays_choice with_yamux_keeps issued_receive handing.stays_update)
qed

lemma data_loop_keeps: "keeps_handles c (snd (data_loop C c))"
proof (induction C c rule: data_loop.induct)
  case (1 C c)
  show ?case
  proof (cases "try_pop_wire_frame (io_wire_rx (cn_io c))")
    case (Popped f rest)
    let ?m = "and_then (on_cs_recv (decrypt C f)) (deliver C)"
    obtain r c1 where s: "?m (set_rx rest c) = (r, c1)" by force
    have "stays keeps_handles ?m"
      by (intro handing.stays_and_then deliver_keeps staysI keeps_parts)
    from handing.later [OF keeps_parts(4) stays_apply [OF this]] s have c1: "keeps_handles c c1" by (metis snd_conv)
    with Popped s handing.later [OF c1 1(1) [OF Popped s [symmetric]]] show ?thesis
      by (subst data_loop.simps) (auto split: sum.splits)
  qed (use 1 in \<open>simp_all add: data_loop.simps handing.unchanged\<close>)
qed

section \<open>Input during the upgrade\<close>

text \<open>Seen from the connection \<open>c0\<close> that got the input: until the upgrade is finished there is no
  multiplexer.\<close>

definition awaiting :: "connection \<Rightarrow> connection \<Rightarrow> bool" where
  "awaiting c0 c \<longleftrightarrow> keeps_handles c0 c \<and> cn_yamux c = None"

definition upgraded_from :: "connection \<Rightarrow> connection \<Rightarrow> bool" where
  "upgraded_from c0 c \<longleftrightarrow> keeps_handles c0 c \<and> (\<not> sc_secure_ready (cn_secure c) \<longrightarrow> cn_yamux c = None)"

lemma awaiting_upgraded: "awaiting c0 c \<Longrightarrow> upgraded_from c0 c"
  by (simp add: awaiting_def upgraded_from_def)

lemma completed_keeps: "keeps_handles c (complete_ready_state c)"
proof -
  let ?ready = "\<lambda>d. c\<lparr>cn_secure := (cn_secure c)\<lparr>sc_stage := StageReady, sc_secure_ready := True\<rparr>,
    cn_event_queue := cn_event_queue c @ [\<lparr>ev_type = EvSecured, ev_stream_id = None, ev_detail = ''noise handshake complete''\<rparr>,
      \<lparr>ev_type = EvMultiplexerReady, ev_stream_id = None, ev_detail = d\<rparr>], cn_state := Ready\<rparr>"
  have ready: "keeps_handles c (?ready d)" for d by (rule keeps_quiet, simp_all) simp_all
  have "keeps_handles x (x\<lparr>cn_create_inbound_on_ready := b\<rparr>)" for x b by (rule keeps_same) simp_all
  from handing.later [OF handing.later [OF ready create_stream_keeps] this]
  have "keeps_handles c ((snd (create_stream None True (?ready d)))\<lparr>cn_create_inbound_on_ready := b\<rparr>)" for d b .
  with ready show ?thesis by (simp add: complete_ready_state_def Let_def push_event_def map_secure_def)
qed

lemma activated_keeps: "cn_yamux c = None \<Longrightarrow> keeps_handles c (activate_yamux c)"
proof (rule keeps_handlesI [where hs = "[]" and evs = "[]"])
  assume none: "cn_yamux c = None"
  have "handle_valid (activate_yamux c) h \<and> stream_id h (activate_yamux c) = stream_id h c" if "handle_valid c h" for h
    using that none by (cases h) (simp_all add: handle_valid_def stream_id_def activate_yamux_def)
  then show "same_handles c (activate_yamux c)" by (simp add: same_handles_def)
qed (simp_all add: activate_yamux_def owns_below_def new_session_def)

named_theorems pends \<open>operations of the upgrade\<close>

lemma awaiting_stays:
  assumes "stays keeps_handles m" and "\<And>c. cn_yamux (snd (m c)) = cn_yamux c"
  shows "preserves (awaiting c0) m"
  using handing.later [OF _ stays_apply [OF assms(1)]] assms(2) by (auto simp: preserves_def awaiting_def)

lemma awaiting_calm: "stays (calm {}) m \<Longrightarrow> preserves (awaiting c0) m"
  by (rule awaiting_stays [OF calm_keeps]) (auto dest: stays_apply calmD(6))

lemma awaiting_parts [pends]:
  "preserves (awaiting c0) (on_noise m)" "preserves (awaiting c0) (on_cs_recv m')"
  "preserves (awaiting c0) (update (map_secure f))" "preserves (awaiting c0) (consume_rx n)"
  "preserves (awaiting c0) (update (set_noise ns))"
proof -
  note untouched = on_noise_def on_cs_recv_def zoom_def set_noise_def map_secure_def consume_rx_def on_io_def set_io_def
  show "preserves (awaiting c0) (on_noise m)" "preserves (awaiting c0) (on_cs_recv m')"
    "preserves (awaiting c0) (update (map_secure f))" "preserves (awaiting c0) (consume_rx n)"
    "preserves (awaiting c0) (update (set_noise ns))"
    by (rule awaiting_stays, simp add: stays_def keeps_parts, simp add: untouched case_prod_beta Let_def)+
qed

declare keeps [pends] awaiting_calm [OF calmly_queue(1), pends] awaiting_calm [OF calmly_queue(2), pends]
  awaiting_calm [OF calmly_flush_pending_writes, pends] awaiting_calm [OF calmly_queue_encrypted(1), pends]

lemma upgrade_leads:
  "preserves (awaiting c0) m \<Longrightarrow> leads (awaiting c0) m (upgraded_from c0)"
  "preserves (awaiting c0) m \<Longrightarrow> (\<And>x. leads (awaiting c0) (f x) (upgraded_from c0))
     \<Longrightarrow> leads (awaiting c0) (and_then m f) (upgraded_from c0)"
  by (simp_all add: leads_weaken leads_and_then awaiting_upgraded)

lemma upgrade_leads_reading: "(\<And>c. leads P (f c) Q) \<Longrightarrow> leads P (reading f) Q"
  by (simp add: leads_def)

lemma upgrade_leads_if: "leads P m Q \<Longrightarrow> leads P m' Q \<Longrightarrow> leads P (if b then m else m') Q"
  by simp

lemma complete_secure: "sc_secure_ready (cn_secure (complete_ready_state c))"
  by (simp add: complete_ready_state_def push_event_def map_secure_def create_stream_def Let_def)

lemma finish_leads: "leads (awaiting c0) (finish_secure_upgrade C) (upgraded_from c0)"
proof -
  have ready: "leads (awaiting c0) (update complete_ready_state) (upgraded_from c0)"
    "leads (awaiting c0) (update (\<lambda>c. complete_ready_state (activate_yamux c))) (upgraded_from c0)"
    using handing.later [OF _ completed_keeps] handing.later [OF _ handing.later [OF activated_keeps completed_keeps]]
    by (auto simp: leads_def awaiting_def upgraded_from_def complete_secure)
  then show ?thesis
    unfolding finish_secure_upgrade_def
    by (intro upgrade_leads(2) upgrade_leads_reading upgrade_leads_if ready pends; intro upgrade_leads(1) pends)
qed

lemma handshake_frame_leads: "leads (awaiting c0) (process_handshake_frame C f) (upgraded_from c0)"
proof (rule leadsI)
  fix c assume c: "awaiting c0 c"
  have go: "leads (awaiting c0) m (upgraded_from c0) \<Longrightarrow> upgraded_from c0 (snd (m c))" for m :: "(connection, unit) action"
    using c by (simp add: leads_def)
  show "upgraded_from c0 (snd (process_handshake_frame C f c))"
    by (cases "sc_handshake_state (cn_secure c)"; simp only: process_handshake_frame_def reading_def handshake_state.case; rule go)
       (intro upgrade_leads(2) finish_leads pends | intro upgrade_leads(1) pends)+
qed

lemma handshake_loop_from: "upgraded_from c0 c \<Longrightarrow> upgraded_from c0 (snd (handshake_loop C c))"
proof (induction C c rule: handshake_loop.induct)
  case (1 C c)
  show ?case
  proof (cases "sc_secure_ready (cn_secure c) \<or> sc_stage (cn_secure c) \<noteq> NoiseHandshake")
    case True
    with 1 show ?thesis by (subst handshake_loop.simps) simp
  next
    case False
    with 1(2) have "keeps_handles c0 c" "cn_yamux c = None" by (auto simp: upgraded_from_def)
    then have "awaiting c0 (set_rx rest c)" for rest
      using handing.later [OF _ keeps_parts(4)] by (simp add: awaiting_def set_rx_def set_io_def)
    then have step: "process_handshake_frame C f (set_rx rest c) = (r, c1) \<Longrightarrow> upgraded_from c0 c1" for f rest r c1
      using leadsD [OF handshake_frame_leads, of c0 "set_rx rest c" C f] by simp
    show ?thesis
    proof (cases "try_pop_wire_frame (io_wire_rx (cn_io c))")
      case (Popped f rest)
      obtain r c1 where s: "process_handshake_frame C f (set_rx rest c) = (r, c1)" by force
      with False Popped step [OF s] 1(1) [OF False Popped s [symmetric]] show ?thesis
        by (subst handshake_loop.simps) (auto split: sum.splits)
    qed (use 1 False in \<open>simp_all add: handshake_loop.simps\<close>)
  qed
qed

lemma protocol_negotiation_awaiting: "preserves (awaiting c0) (process_protocol_negotiation C)"
proof -
  have start: "preserves (awaiting c0) (start_noise_handshake C)"
    unfolding start_noise_handshake_def case_prod_beta Let_def
    by (intro preserves_reading preserves_and_then preserves_if pends)
  show ?thesis
    unfolding process_protocol_negotiation_def Let_def
    by (intro pends start preserves_sum_case preserves_if)
qed

lemma muxer_drain_awaiting: "awaiting c0 c \<Longrightarrow> awaiting c0 (snd (muxer_drain C c))"
proof (induction C c rule: muxer_drain.induct)
  case (1 C c)
  show ?case
  proof (cases "try_pop_wire_frame (io_wire_rx (cn_io c))")
    case (Popped f rest)
    obtain r c1 where s: "on_cs_recv (decrypt C f) (set_rx rest c) = (r, c1)" by force
    have "awaiting c0 (set_rx rest c)" using 1(2) handing.later [OF _ keeps_parts(4)] by (simp add: awaiting_def set_rx_def set_io_def)
    from preservesD [OF awaiting_parts(2) this s] have c1: "awaiting c0 c1" .
    have "keeps_handles c1 (c1\<lparr>cn_muxer_buffer := bs\<rparr>)" for bs by (rule keeps_same) simp_all
    with c1 have "awaiting c0 (c1\<lparr>cn_muxer_buffer := bs\<rparr>)" for bs
      using handing.later [of c0 c1] by (auto simp: awaiting_def)
    with c1 Popped s 1(1) [OF Popped s [symmetric]] show ?thesis
      by (subst muxer_drain.simps) (auto split: sum.splits)
  qed (use 1 in \<open>simp_all add: muxer_drain.simps\<close>)
qed

lemma leads_stays:
  assumes "leads P m (keeps_handles c0)" and "\<And>x. stays keeps_handles (f x)"
  shows "leads P (and_then m f) (keeps_handles c0)"
proof (rule leadsI)
  fix c assume c: "P c"
  obtain r c1 where m: "m c = (r, c1)" by force
  with leadsD [OF assms(1) c] have c1: "keeps_handles c0 c1" by simp
  show "keeps_handles c0 (snd (and_then m f c))"
    using c1 m handing.later [OF c1 stays_apply [OF assms(2)]] by (cases r) (auto simp: and_then_def)
qed

lemma muxer_negotiation_leads: "leads (awaiting c0) (process_muxer_negotiation C) (keeps_handles c0)"
proof -
  have weak: "awaiting c0 c \<Longrightarrow> keeps_handles c0 c" for c by (simp add: awaiting_def)
  note on = leads_weaken [OF _ weak] and next_step = leads_and_then [OF _ _ weak]
  have drain: "preserves (awaiting c0) (muxer_drain C)"
    by (simp add: preserves_def muxer_drain_awaiting)
  have select: "leads (awaiting c0) (update (\<lambda>c. activate_if_yamux (map_secure f c))) (keeps_handles c0)" for f
  proof (rule leadsI)
    fix c assume "awaiting c0 c"
    then have "awaiting c0 (map_secure f c)" using preservesD [OF awaiting_parts(3)] by auto
    then have "keeps_handles c0 (activate_if_yamux (map_secure f c))"
      using handing.later [OF _ activated_keeps] by (auto simp: awaiting_def activate_if_yamux_def)
    then show "keeps_handles c0 (snd (update (\<lambda>c. activate_if_yamux (map_secure f c)) c))" by simp
  qed
  have last: "stays keeps_handles (update (\<lambda>c. complete_ready_state (c\<lparr>cn_muxer_buffer := g c\<rparr>)))" for g
  proof -
    have "keeps_handles c (c\<lparr>cn_muxer_buffer := g c\<rparr>)" for c by (rule keeps_same) simp_all
    from handing.later [OF this completed_keeps] show ?thesis by (simp add: stays_def)
  qed
  have opt: "leads P m Q \<Longrightarrow> (\<And>w. leads P (f w) Q) \<Longrightarrow> leads P (case x of None \<Rightarrow> m | Some w \<Rightarrow> f w) Q"
    for P Q :: "connection \<Rightarrow> bool" and m :: "(connection, unit) action" and f :: "string \<Rightarrow> (connection, unit) action" and x
    by (simp split: option.split)
  have sum: "(\<And>e. leads P (f e) Q) \<Longrightarrow> (\<And>x. leads P (g x) Q) \<Longrightarrow> leads P (case r of Inl e \<Rightarrow> f e | Inr x \<Rightarrow> g x) Q"
    for P Q :: "connection \<Rightarrow> bool" and f :: "string \<Rightarrow> (connection, unit) action" and g :: "'z \<Rightarrow> (connection, unit) action" and r
    by (cases r) simp_all
  have "leads (awaiting c0) (answer_muxer_exchange C) (keeps_handles c0)"
    unfolding answer_muxer_exchange_def Let_def
    by (intro upgrade_leads_reading sum upgrade_leads_if leads_stays last opt select on next_step pends)
  with drain show ?thesis unfolding process_muxer_negotiation_def by (intro next_step)
qed

lemma pending_input_awaiting:
  assumes "cn_yamux c0 = None"
  shows "keeps_handles c0 (snd (process_pending_input C c0))"
proof -
  let ?one = "reading (\<lambda>c. if sc_stage (cn_secure c) = NegotiatingProtocol then process_protocol_negotiation C else return_ok ())"
  have start: "awaiting c0 c0" by (simp add: awaiting_def assms handing.unchanged)
  have one: "preserves (awaiting c0) ?one"
    by (intro keeps preserves_if protocol_negotiation_awaiting)
  have two: "preserves (upgraded_from c0) (reading (\<lambda>c. if \<not> sc_secure_ready (cn_secure c) \<and> sc_stage (cn_secure c) = NoiseHandshake
       then handshake_loop C else return_ok ()))"
    using handshake_loop_from by (auto simp: preserves_def)
  have three: "leads (upgraded_from c0) (reading (\<lambda>c. if \<not> sc_secure_ready (cn_secure c) \<and> sc_stage (cn_secure c) = MuxerNegotiation
       then process_muxer_negotiation C else return_ok ())) (keeps_handles c0)"
    using leadsD [OF muxer_negotiation_leads] by (auto simp: leads_def upgraded_from_def awaiting_def)
  have four: "stays keeps_handles (reading (\<lambda>c. if \<not> sc_secure_ready (cn_secure c) then return_ok () else data_loop C))"
    using data_loop_keeps by (auto simp: stays_def handing.unchanged)
  have weak: "upgraded_from c0 c \<Longrightarrow> keeps_handles c0 c" "awaiting c0 c \<Longrightarrow> keeps_handles c0 c" for c
    by (simp_all add: upgraded_from_def awaiting_def)
  have later: "leads (awaiting c0) m (keeps_handles c0)" if "leads (upgraded_from c0) m (keeps_handles c0)"
    for m :: "(connection, unit) action"
    using that by (simp add: leads_def awaiting_upgraded)
  have "leads (awaiting c0) (process_pending_input C) (keeps_handles c0)"
    unfolding process_pending_input_def
    by (rule leads_and_then [OF one _ weak(2)], rule later, rule leads_and_then [OF two _ weak(1)], rule leads_stays [OF three four])
  from leadsD [OF this start] show ?thesis .
qed

section \<open>Every step\<close>

lemma recv_loop_keeps: "keeps_handles c (snd (recv_loop rs c))"
proof (induction rs c rule: recv_loop.induct)
  case (2 bs rest c)
  show ?case
  proof (cases "bs = []")
    case True
    from handing.later [OF keeps_parts(5) close_keeps] True show ?thesis by simp
  next
    case False
    from handing.later [OF keeps_parts(4) 2(1) [OF False]] False show ?thesis by simp
  qed
next
  case (5 e rest c)
  from handing.later [OF keeps_parts(5) close_error_keeps] show ?case by simp
qed (simp_all add: keeps_parts handing.later [OF keeps_parts(5) close_keeps])

lemma pending_input_keeps:
  assumes "settled log c"
  shows "keeps_handles c (snd (process_pending_input C c))"
proof (cases "sc_secure_ready (cn_secure c)")
  case True
  with assms have "sc_stage (cn_secure c) = StageReady" by (simp add: settled_def inv_defs)
  with True have "process_pending_input C c = data_loop C c"
    by (simp add: process_pending_input_def and_then_def)
  then show ?thesis by (simp add: data_loop_keeps)
next
  case False
  with assms have "cn_yamux c = None" by (auto simp: settled_def inv_defs)
  then show ?thesis by (rule pending_input_awaiting)
qed

lemma readable_keeps:
  assumes "settled log c"
  shows "keeps_handles c (on_socket_readable C c)"
proof (cases "is_active c")
  case active: True
  obtain b c1 where r: "recv_loop (io_recvs (cn_io c)) c = (b, c1)" by force
  have c1: "keeps_handles c c1" using recv_loop_keeps [of c "io_recvs (cn_io c)"] r by simp
  show ?thesis
  proof (cases b)
    case True
    have s1: "settled log c1" using recv_loop_settled [OF active_live [OF assms active] r] by simp
    obtain q c2 where p: "process_pending_input C c1 = (q, c2)" by force
    have c2: "keeps_handles c c2" using handing.later [OF c1 pending_input_keeps [OF s1, of C]] p by simp
    from handing.later [OF this close_error_keeps] c2 p r True show ?thesis
      by (simp add: on_socket_readable_def handing.unchanged split: sum.split)
  qed (use r c1 in \<open>simp add: on_socket_readable_def handing.unchanged\<close>)
qed (simp add: on_socket_readable_def handing.unchanged)

lemma writable_keeps: "keeps_handles c (on_socket_writable c)"
proof -
  obtain r c1 where f: "flush_pending_writes c = (r, c1)" by force
  have c1: "keeps_handles c c1"
    using stays_apply [OF calm_keeps [OF calmly_flush_pending_writes], of c] f by simp
  from c1 handing.later [OF c1 close_error_keeps] f show ?thesis
    by (simp add: on_socket_writable_def handing.unchanged split: sum.split)
qed

lemma begin_keeps: "keeps_handles c (snd (begin_outbound_upgrade c))" "keeps_handles c (snd (begin_inbound_upgrade c))"
proof -
  have begun: "keeps_handles c (begin_upgrade b c)" for b and c
    by (rule keeps_same) (simp_all add: begin_upgrade_def map_secure_def)
  have "stays keeps_handles begin_outbound_upgrade" "stays keeps_handles begin_inbound_upgrade"
    unfolding begin_outbound_upgrade_def begin_inbound_upgrade_def
    by (intro handing.stays_reading stays_choice handing.stays_return handing.stays_and_then handing.stays_update begun
        calm_keeps calmly_queue calmly_flush_pending_writes)+
  then show "keeps_handles c (snd (begin_outbound_upgrade c))" "keeps_handles c (snd (begin_inbound_upgrade c))"
    by (simp_all add: stays_apply [where R = keeps_handles])
qed

lemma handle_keeps:
  "keeps_handles c (snd (stream_try_read C h n c))" "keeps_handles c (snd (stream_try_write C h data c))"
  "keeps_handles c (snd (stream_close_write C h c))" "keeps_handles c (snd (stream_reset C h c))"
proof -
  note direct = calm_keeps [OF direct_calm(1)] calm_keeps [OF direct_calm(2)] calm_keeps [OF direct_calm(3)]
  have "keeps_handles c (snd (direct_reset p c))" for p
    using handing.later [OF keeps_mark keeps_parts(1)] by (simp add: direct_reset_def Let_def)
  then show "keeps_handles c (snd (stream_reset C h c))"
    by (cases h) (simp_all add: stream_reset_def stays_apply [OF with_yamux_keeps [OF issued_operations(4)]])
  show "keeps_handles c (snd (stream_try_read C h n c))" "keeps_handles c (snd (stream_try_write C h data c))"
    "keeps_handles c (snd (stream_close_write C h c))"
    by (cases h; simp add: stream_try_read_def stream_try_write_def stream_close_write_def
        stays_apply [where R = keeps_handles] direct with_yamux_keeps issued_operations)+
qed

section \<open>Opening a stream\<close>

text \<open>The handle that opening returns is valid, announced by the one event it appends, and, if the ids of
  this end are not used up, new.\<close>

lemma owns_later: "owns_below n c \<Longrightarrow> owns_below (Suc n) c"
  by (fastforce simp: owns_below_def)

lemma next_id_unused:
  assumes "yamux_inv ys" and "owns_below n c" and "cn_yamux c = Some ys"
  shows "ys_streams ys (ys_next_stream_id ys) = None"
proof (rule ccontr)
  assume used: "ys_streams ys (ys_next_stream_id ys) \<noteq> None"
  have "\<not> is_remote_stream_id ys (ys_next_stream_id ys)"
    using assms(1) by (auto simp: yamux_inv_def is_remote_stream_id_def)
  with used assms(2,3) have "ys_next_stream_id ys < ys_next_stream_id ys" unfolding owns_below_def by blast
  then show False by simp
qed

definition opens_one :: "nat \<Rightarrow> connection \<Rightarrow> stream_handle result \<Rightarrow> connection \<Rightarrow> bool" where
  "opens_one n c r c' \<longleftrightarrow> same_handles c c' \<and> cn_pending_inbound c' = cn_pending_inbound c
     \<and> (case r of Inl e \<Rightarrow> cn_event_queue c' = cn_event_queue c
        | Inr h \<Rightarrow> handle_valid c' h \<and> (\<exists>d. cn_event_queue c' = cn_event_queue c
            @ [\<lparr>ev_type = EvStreamOpened, ev_stream_id = Some (stream_id h c'), ev_detail = d\<rparr>]))
     \<and> (owns_below n c \<and> n < 2 ^ 30 \<longrightarrow> owns_below (Suc n) c' \<and> (\<forall>h. r = Inr h \<longrightarrow> \<not> handle_valid c h))"

lemma opens_one_error: "opens_one n c (Inl e) c"
  by (simp add: opens_one_def same_handles_def owns_later)

lemma open_yamux_one:
  assumes ys: "cn_yamux c = Some ys" and inv: "yamux_inv ys"
    and o: "open_stream (session_callbacks C) (ys, c) = (r, ys', c')"
  shows "case r of Inl e \<Rightarrow> opens_one n c (Inl e) (c'\<lparr>cn_yamux := Some ys'\<rparr>)
    | Inr p \<Rightarrow> opens_one n c (Inr (YamuxHandle p)) (push_event EvStreamOpened (Some (stream_id (YamuxHandle p)
          (on_yamux (map_stream p (set_protocol proto)) (c'\<lparr>cn_yamux := Some ys'\<rparr>)))) d
        (on_yamux (map_stream p (set_protocol proto)) (c'\<lparr>cn_yamux := Some ys'\<rparr>)))"
proof -
  note e = open_effect [OF inv o]
  then have calm: "calm {} c c'" and heap: "extends st_id (ys_heap ys) (ys_heap ys')" by blast+
  note ids = calm_stream_ids [OF calm] and kept = calm_pending [OF calm]
  have named: "map st_id (ys_heap (map_stream p (set_protocol proto) ys')) = map st_id (ys_heap ys')" for p
    by (simp add: map_stream_def map_update stream_marks) (metis list_update_beyond list_update_id map_update not_le_imp_less nth_map)
  have same: "same_handles c (c1\<lparr>cn_yamux := Some ys1\<rparr>)"
    if "map st_id (ys_heap ys1) = map st_id (ys_heap ys')" "cn_streams c1 = cn_streams c'" for c1 ys1
  proof -
    have h: "extends st_id (ys_heap ys) (ys_heap ys1)" using heap that(1) by (simp add: extends_def)
    have s: "extends ss_id (cn_streams c) (cn_streams c1)" using ids that(2) by (simp add: extends_same)
    have "handle_valid (c1\<lparr>cn_yamux := Some ys1\<rparr>) h \<and> stream_id h (c1\<lparr>cn_yamux := Some ys1\<rparr>) = stream_id h c"
      if "handle_valid c h" for h
      using that ys extends_nth [OF h] extends_nth [OF s]
      by (cases h) (auto simp: handle_valid_def stream_id_def stream_at_def)
    then show ?thesis by (simp add: same_handles_def)
  qed
  have own: "owns_below (Suc n) (c1\<lparr>cn_yamux := Some ys1\<rparr>)"
    if below: "owns_below n c" "n < 2 ^ 30" and ys1: "ys_next_stream_id ys1 = ys_next_stream_id ys'"
      "ys_streams ys1 = ys_streams ys'" "ys_is_client ys1 = ys_is_client ys'" for c1 ys1
  proof -
    have old: "unat (ys_next_stream_id ys) \<le> 2 + 2 * n"
      "\<And>sid. ys_streams ys sid \<noteq> None \<Longrightarrow> \<not> is_remote_stream_id ys sid \<Longrightarrow> sid < ys_next_stream_id ys"
      using below(1) ys by (simp_all add: owns_below_def)
    have remote: "is_remote_stream_id ys1 = is_remote_stream_id ys"
      using e ys1 by (auto simp: is_remote_stream_id_def fun_eq_iff)
    have sum: "unat (ys_next_stream_id ys + 2) = unat (ys_next_stream_id ys) + 2"
      using old(1) below(2) by (simp add: unat_word_ariths)
    then have up: "ys_next_stream_id ys < ys_next_stream_id ys + 2" by (simp add: word_less_nat_alt)
    from e consider "ys' = ys" | "ys_next_stream_id ys' = ys_next_stream_id ys + 2"
      "dom (ys_streams ys') = insert (ys_next_stream_id ys) (dom (ys_streams ys))" by blast
    then show ?thesis
    proof cases
      case 1
      then show ?thesis using old ys1 remote by (simp add: owns_below_def)
    next
      case 2
      have "sid < ys_next_stream_id ys + 2" if "ys_streams ys' sid \<noteq> None" "\<not> is_remote_stream_id ys sid" for sid
      proof -
        from that(1) 2(2) have "sid = ys_next_stream_id ys \<or> ys_streams ys sid \<noteq> None" by blast
        with old(2) that(2) up show ?thesis by (auto intro: less_trans)
      qed
      then show ?thesis using 2(1) old(1) sum ys1 remote by (simp add: owns_below_def)
    qed
  qed
  show ?thesis
  proof (cases r)
    case (Inl err)
    then show ?thesis using same [of ys' c'] own [of ys' c'] kept by (simp add: opens_one_def)
  next
    case (Inr p)
    let ?ys = "map_stream p (set_protocol proto) ys'"
    have p: "p < length (ys_heap ys')" using e Inr by simp
    have fresh: "\<not> handle_valid c (YamuxHandle p)" if "owns_below n c"
      using e Inr next_id_unused [OF inv that ys] ys by (auto simp: handle_valid_def)
    have fields: "ys_next_stream_id ?ys = ys_next_stream_id ys'" "ys_streams ?ys = ys_streams ys'"
      "ys_is_client ?ys = ys_is_client ys'" "length (ys_heap ?ys) = length (ys_heap ys')" by (simp_all add: map_stream_def)
    let ?c = "on_yamux (map_stream p (set_protocol proto)) (c'\<lparr>cn_yamux := Some ys'\<rparr>)"
    have c: "?c = c'\<lparr>cn_yamux := Some ?ys\<rparr>" by (simp add: on_yamux_def)
    have pushed: "same_handles c (push_event ty i d x) = same_handles c x" "owns_below m (push_event ty i d x) = owns_below m x"
      "handle_valid (push_event ty i d x) = handle_valid x" "stream_id h (push_event ty i d x) = stream_id h x" for ty i d x m h
      by (auto simp: same_handles_def owns_below_def handle_valid_def stream_id_def push_event_def fun_eq_iff
          split: stream_handle.splits)
    have "handle_valid ?c (YamuxHandle p)" using p by (simp add: c handle_valid_def fields)
    then show ?thesis
      using Inr same [OF named, of c'] own [OF _ _ fields(1-3), of c'] kept fresh
      by (auto simp: opens_one_def pushed c) (simp_all add: push_event_def)
  qed
qed

lemma open_direct_one: "opens_one n c (Inr (DirectHandle (fst (create_stream proto False c)))) (snd (create_stream proto False c))"
proof -
  have "same_handles c (snd (create_stream proto False c))"
    by (rule same_streams) (simp_all add: create_stream_def Let_def push_event_def)
  then show ?thesis
    using owns_later [of n c]
    by (simp add: opens_one_def create_stream_def Let_def push_event_def handle_valid_def stream_id_def owns_below_def)
qed

lemma request_opens_one:
  assumes "settled log c" and "request_open_stream C proto c = (r, c')"
  shows "opens_one n c r c'"
proof -
  consider (refused) "\<not> is_active c \<or> cn_state c \<noteq> Ready" | (muxed) ys where "is_active c" "cn_state c = Ready" "cn_yamux c = Some ys"
    | (direct) "is_active c" "cn_state c = Ready" "cn_yamux c = None" by fastforce
  then show ?thesis
  proof cases
    case refused
    with assms(2) have "c' = c" "\<exists>e. r = Inl e" by (auto simp: request_open_stream_def return_err_def split: if_splits)
    then show ?thesis using opens_one_error by auto
  next
    case muxed
    with assms(1) have inv: "yamux_inv ys" by (simp add: settled_def inv_defs)
    obtain q ys' c1 where o: "open_stream (session_callbacks C) (ys, c) = (q, ys', c1)" by (rule prod_cases3)
    from open_yamux_one [OF muxed(3) inv o, of n proto "''outbound yamux stream opened''"] assms(2) muxed o show ?thesis
      by (cases q) (auto simp: request_open_stream_def and_then_def with_yamux_def Let_def)
  next
    case direct
    with assms(2) opens_one_error [of n c] open_direct_one [of n c "Some proto"] show ?thesis
      by (auto simp: request_open_stream_def return_err_def case_prod_beta Let_def split: if_splits option.splits)
  qed
qed

section \<open>Histories\<close>

text \<open>A history of a connection, with the number of calls that open a stream, the streams its owner has
  accepted and the ones it has opened, in order, beside the events it has taken.\<close>

type_synonym history = "nat \<times> stream_handle list \<times> stream_handle list \<times> connection_event list \<times> connection"

inductive hand_step :: "crypto \<Rightarrow> history \<Rightarrow> history \<Rightarrow> bool" for C where
  accepts: "accept_inbound_stream c = (Some h, c') \<Longrightarrow> hand_step C (n, acc, ops, log, c) (n, acc @ [h], ops, log, c')"
| opens: "request_open_stream C protocol c = (Inr h, c') \<Longrightarrow> hand_step C (n, acc, ops, log, c) (Suc n, acc, ops @ [h], log, c')"
| fails: "request_open_stream C protocol c = (Inl e, c') \<Longrightarrow> hand_step C (n, acc, ops, log, c) (Suc n, acc, ops, log, c')"
| takes: "next_event c = (Some ev, c') \<Longrightarrow> hand_step C (n, acc, ops, log, c) (n, acc, ops, log @ [ev], c')"
| kernel: "hand_step C (n, acc, ops, log, c) (n, acc, ops, log, set_kernel rs ss err c)"
| readable: "hand_step C (n, acc, ops, log, c) (n, acc, ops, log, on_socket_readable C c)"
| writable: "hand_step C (n, acc, ops, log, c) (n, acc, ops, log, on_socket_writable c)"
| timeout: "hand_step C (n, acc, ops, log, c) (n, acc, ops, log, on_timeout c)"
| outbound: "hand_step C (n, acc, ops, log, c) (n, acc, ops, log, snd (begin_outbound_upgrade c))"
| inbound: "hand_step C (n, acc, ops, log, c) (n, acc, ops, log, snd (begin_inbound_upgrade c))"
| reads: "hand_step C (n, acc, ops, log, c) (n, acc, ops, log, snd (stream_try_read C h k c))"
| writes: "hand_step C (n, acc, ops, log, c) (n, acc, ops, log, snd (stream_try_write C h data c))"
| closes_write: "hand_step C (n, acc, ops, log, c) (n, acc, ops, log, snd (stream_close_write C h c))"
| resets: "hand_step C (n, acc, ops, log, c) (n, acc, ops, log, snd (stream_reset C h c))"
| closes: "hand_step C (n, acc, ops, log, c) (n, acc, ops, log, close c)"

definition has_history :: "crypto \<Rightarrow> history \<Rightarrow> bool" where
  "has_history C x \<longleftrightarrow> (\<exists>c0. initial_connection c0 \<and> (hand_step C)\<^sup>*\<^sup>* (0, [], [], [], c0) x)"

definition handed_out :: "history \<Rightarrow> bool" where
  "handed_out = (\<lambda>(n, acc, ops, log, c). settled log c
     \<and> (\<forall>h \<in> set (acc @ cn_pending_inbound c @ ops). handle_valid c h)
     \<and> announced EvStreamAccepted (log @ cn_event_queue c) = map (\<lambda>h. Some (stream_id h c)) (acc @ cn_pending_inbound c)
     \<and> announced EvStreamOpened (log @ cn_event_queue c) = map (\<lambda>h. Some (stream_id h c)) ops
     \<and> (n \<le> 2 ^ 30 \<longrightarrow> owns_below n c \<and> distinct (acc @ cn_pending_inbound c @ ops)))"

lemma same_ids: "same_handles c c' \<Longrightarrow> \<forall>h \<in> set hs. handle_valid c h \<Longrightarrow>
    (\<forall>h \<in> set hs. handle_valid c' h) \<and> map (\<lambda>h. Some (stream_id h c')) hs = map (\<lambda>h. Some (stream_id h c)) hs"
  by (auto simp: same_handles_def)

lemma keeps_handed_out:
  assumes "handed_out (n, acc, ops, log, c)" and "keeps_handles c c'" and "settled log c'"
  shows "handed_out (n, acc, ops, log, c')"
proof -
  from assms(2) obtain hs evs where k: "same_handles c c'" "\<forall>n. owns_below n c \<longrightarrow> owns_below n c'"
      "cn_pending_inbound c' = cn_pending_inbound c @ hs" "cn_event_queue c' = cn_event_queue c @ evs"
      "announced EvStreamOpened evs = []" "announced EvStreamAccepted evs = map (\<lambda>h. Some (stream_id h c')) hs"
      "distinct hs" "\<forall>h \<in> set hs. handle_valid c' h \<and> \<not> handle_valid c h" unfolding keeps_handles_def by blast
  from assms(1) have v: "\<forall>h \<in> set (acc @ cn_pending_inbound c @ ops). handle_valid c h"
    and a: "announced EvStreamAccepted (log @ cn_event_queue c) = map (\<lambda>h. Some (stream_id h c)) (acc @ cn_pending_inbound c)"
    and op: "announced EvStreamOpened (log @ cn_event_queue c) = map (\<lambda>h. Some (stream_id h c)) ops"
    and d: "n \<le> 2 ^ 30 \<longrightarrow> owns_below n c \<and> distinct (acc @ cn_pending_inbound c @ ops)" by (auto simp: handed_out_def)
  have fresh: "set hs \<inter> set (acc @ cn_pending_inbound c @ ops) = {}" using k(8) v by blast
  have parts: "\<forall>h \<in> set (acc @ cn_pending_inbound c). handle_valid c h" "\<forall>h \<in> set ops. handle_valid c h" using v by auto
  note ids = same_ids [OF k(1) parts(1), THEN conjunct2] same_ids [OF k(1) parts(2), THEN conjunct2]
  have "announced EvStreamAccepted (log @ cn_event_queue c') = map (\<lambda>h. Some (stream_id h c')) (acc @ cn_pending_inbound c')"
    "announced EvStreamOpened (log @ cn_event_queue c') = map (\<lambda>h. Some (stream_id h c')) ops"
    using a op ids k(3-6) by simp_all
  moreover have "\<forall>h \<in> set (acc @ cn_pending_inbound c' @ ops). handle_valid c' h" using v k(1,3,8) by (auto simp: same_handles_def)
  moreover have "distinct (acc @ cn_pending_inbound c' @ ops)" if "distinct (acc @ cn_pending_inbound c @ ops)"
    using that fresh k(3,7) by auto
  ultimately show ?thesis using assms(3) d k(2) by (simp add: handed_out_def)
qed

lemma opened_handed_out:
  assumes "handed_out (n, acc, ops, log, c)" and "opens_one n c r c'" and "settled log c'"
  shows "handed_out (Suc n, acc, (case r of Inl e \<Rightarrow> ops | Inr h \<Rightarrow> ops @ [h]), log, c')"
proof -
  from assms(1) have v: "\<forall>h \<in> set (acc @ cn_pending_inbound c @ ops). handle_valid c h"
    and a: "announced EvStreamAccepted (log @ cn_event_queue c) = map (\<lambda>h. Some (stream_id h c)) (acc @ cn_pending_inbound c)"
    and op: "announced EvStreamOpened (log @ cn_event_queue c) = map (\<lambda>h. Some (stream_id h c)) ops"
    and d: "n \<le> 2 ^ 30 \<longrightarrow> owns_below n c \<and> distinct (acc @ cn_pending_inbound c @ ops)" by (auto simp: handed_out_def)
  from assms(2) have k: "same_handles c c'" and pend: "cn_pending_inbound c' = cn_pending_inbound c"
    by (simp_all add: opens_one_def)
  have parts: "\<forall>h \<in> set (acc @ cn_pending_inbound c). handle_valid c h" "\<forall>h \<in> set ops. handle_valid c h" using v by auto
  note ids = same_ids [OF k parts(1), THEN conjunct2] same_ids [OF k parts(2), THEN conjunct2]
  have v': "\<forall>h \<in> set (acc @ cn_pending_inbound c' @ ops). handle_valid c' h" using v k pend by (auto simp: same_handles_def)
  show ?thesis
  proof (cases r)
    case (Inl e)
    then show ?thesis using assms(2,3) a op d v' ids pend by (auto simp: handed_out_def opens_one_def)
  next
    case (Inr h)
    have new: "Suc n \<le> 2 ^ 30 \<longrightarrow> owns_below (Suc n) c' \<and> h \<notin> set (acc @ cn_pending_inbound c @ ops)"
      using assms(2) d v Inr by (auto simp: opens_one_def)
    from assms(2) Inr obtain dt where valid: "handle_valid c' h" and ev: "cn_event_queue c' = cn_event_queue c
        @ [\<lparr>ev_type = EvStreamOpened, ev_stream_id = Some (stream_id h c'), ev_detail = dt\<rparr>]"
      by (auto simp: opens_one_def)
    have "announced EvStreamAccepted (log @ cn_event_queue c') = map (\<lambda>h. Some (stream_id h c')) (acc @ cn_pending_inbound c')"
      "announced EvStreamOpened (log @ cn_event_queue c') = map (\<lambda>h. Some (stream_id h c')) (ops @ [h])"
      using a op ids pend ev by simp_all
    then show ?thesis using assms(3) Inr new v' valid d pend by (auto simp: handed_out_def)
  qed
qed

lemma step_handed_out: "hand_step C x y \<Longrightarrow> handed_out x \<Longrightarrow> handed_out y"
proof (induction rule: hand_step.induct)
  case (accepts c h c' n acc ops log)
  then obtain rest where rest: "cn_pending_inbound c = h # rest" and c': "c' = c\<lparr>cn_pending_inbound := rest\<rparr>"
    by (auto simp: accept_inbound_stream_def split: list.splits)
  have "settled log c'" using conn_step_settled [OF conn_step.accepts [of C log c]] accepts by (simp add: handed_out_def)
  moreover have "handle_valid c' = handle_valid c" "\<And>h. stream_id h c' = stream_id h c" "owns_below n c' = owns_below n c"
    by (auto simp: c' handle_valid_def stream_id_def owns_below_def fun_eq_iff split: stream_handle.split)
  ultimately show ?case using accepts(2) by (simp add: handed_out_def rest) (simp add: c' rest)
next
  case (opens protocol c h c' n acc ops log)
  have "settled log c'" using conn_step_settled [OF conn_step.opens [of C log c protocol]] opens by (simp add: handed_out_def)
  moreover have "settled log c" using opens(2) by (simp add: handed_out_def)
  moreover from this have "opens_one n c (Inr h) c'" by (rule request_opens_one [OF _ opens(1)])
  ultimately show ?case using opened_handed_out [OF opens(2)] by fastforce
next
  case (fails protocol c e c' n acc ops log)
  have "settled log c'" using conn_step_settled [OF conn_step.opens [of C log c protocol]] fails by (simp add: handed_out_def)
  moreover have "settled log c" using fails(2) by (simp add: handed_out_def)
  moreover from this have "opens_one n c (Inl e) c'" by (rule request_opens_one [OF _ fails(1)])
  ultimately show ?case using opened_handed_out [OF fails(2)] by fastforce
next
  case (takes c ev c' n acc ops log)
  then obtain rest where rest: "cn_event_queue c = ev # rest" and c': "c' = c\<lparr>cn_event_queue := rest\<rparr>"
    by (auto simp: next_event_def split: list.splits)
  have "settled (log @ [ev]) c'" using conn_step_settled [OF conn_step.takes [OF takes(1), of C log]] takes(2) by (simp add: handed_out_def)
  moreover have "handle_valid c' = handle_valid c" "\<And>h. stream_id h c' = stream_id h c" "owns_below n c' = owns_below n c"
    by (auto simp: c' handle_valid_def stream_id_def owns_below_def fun_eq_iff split: stream_handle.split)
  ultimately show ?case using takes(2) by (simp add: handed_out_def rest) (simp add: c' split: if_splits)
next
  case (kernel n acc ops log c rs ss err)
  with conn_step_settled [OF conn_step.kernel [of C log c]] show ?case
    by (intro keeps_handed_out [OF kernel keeps_parts(6)]) (simp add: handed_out_def)
next
  case (readable n acc ops log c)
  then have "settled log c" by (simp add: handed_out_def)
  with conn_step_settled [OF conn_step.readable [of C log c]] show ?case
    by (intro keeps_handed_out [OF readable readable_keeps]) simp_all
next
  case (writable n acc ops log c)
  with conn_step_settled [OF conn_step.writable [of C log c]] show ?case
    by (intro keeps_handed_out [OF writable writable_keeps]) (simp add: handed_out_def)
next
  case (timeout n acc ops log c)
  have "keeps_handles c (on_timeout c)" by (simp add: on_timeout_def close_error_keeps handing.unchanged)
  with conn_step_settled [OF conn_step.timeout [of C log c]] timeout show ?case
    by (intro keeps_handed_out [OF timeout]) (simp_all add: handed_out_def)
next
  case (outbound n acc ops log c)
  with conn_step_settled [OF conn_step.outbound [of C log c]] show ?case
    by (intro keeps_handed_out [OF outbound begin_keeps(1)]) (simp add: handed_out_def)
next
  case (inbound n acc ops log c)
  with conn_step_settled [OF conn_step.inbound [of C log c]] show ?case
    by (intro keeps_handed_out [OF inbound begin_keeps(2)]) (simp add: handed_out_def)
next
  case (reads n acc ops log c h k)
  with conn_step_settled [OF conn_step.reads [of C log c h k]] show ?case
    by (intro keeps_handed_out [OF reads handle_keeps(1)]) (simp add: handed_out_def)
next
  case (writes n acc ops log c h data)
  with conn_step_settled [OF conn_step.writes [of C log c h data]] show ?case
    by (intro keeps_handed_out [OF writes handle_keeps(2)]) (simp add: handed_out_def)
next
  case (closes_write n acc ops log c h)
  with conn_step_settled [OF conn_step.closes_write [of C log c h]] show ?case
    by (intro keeps_handed_out [OF closes_write handle_keeps(3)]) (simp add: handed_out_def)
next
  case (resets n acc ops log c h)
  with conn_step_settled [OF conn_step.resets [of C log c h]] show ?case
    by (intro keeps_handed_out [OF resets handle_keeps(4)]) (simp add: handed_out_def)
next
  case (closes n acc ops log c)
  with conn_step_settled [OF conn_step.closes [of C log c]] show ?case
    by (intro keeps_handed_out [OF closes close_keeps]) (simp add: handed_out_def)
qed

lemma history_handed_out:
  assumes "has_history C x"
  shows "handed_out x"
proof -
  from assms obtain c0 where c0: "initial_connection c0" and steps: "(hand_step C)\<^sup>*\<^sup>* (0, [], [], [], c0) x"
    by (auto simp: has_history_def)
  from c0 have "settled [] c0" "cn_pending_inbound c0 = []" "cn_event_queue c0 = []" "cn_yamux c0 = None"
    by (auto simp: initial_connection_def intro: live_settled [OF new_connection_inv]) (auto simp: new_connection_def)
  then have "handed_out (0, [], [], [], c0)" by (simp add: handed_out_def owns_below_def)
  with steps show ?thesis by (induction rule: rtranclp_induct) (auto intro: step_handed_out)
qed

text \<open>Every connection a run of handlers and calls can reach has such a history.\<close>

lemma step_has_history:
  assumes "conn_step C (log, c) (log', c')" and "has_history C (n, acc, ops, log, c)"
  shows "\<exists>n acc ops. has_history C (n, acc, ops, log', c')"
proof -
  have go: "has_history C y" if "hand_step C (n, acc, ops, log, c) y" for y
    using assms(2) that unfolding has_history_def by (meson rtranclp.rtrancl_into_rtrancl)
  note others = go [OF hand_step.takes] go [OF hand_step.kernel] go [OF hand_step.readable] go [OF hand_step.writable]
    go [OF hand_step.timeout] go [OF hand_step.outbound] go [OF hand_step.inbound] go [OF hand_step.reads]
    go [OF hand_step.writes] go [OF hand_step.closes_write] go [OF hand_step.resets] go [OF hand_step.closes]
  from assms(1) show ?thesis
  proof (cases rule: conn_step.cases)
    case (opens protocol)
    obtain r c1 where r: "request_open_stream C protocol c = (r, c1)" by force
    from r go [OF hand_step.opens] go [OF hand_step.fails] opens show ?thesis by (cases r) fastforce+
  next
    case accepts
    obtain r c1 where r: "accept_inbound_stream c = (r, c1)" by force
    show ?thesis
    proof (cases r)
      case None
      with r have "c1 = c" by (auto simp: accept_inbound_stream_def split: list.splits)
      with r accepts assms(2) show ?thesis by auto
    next
      case (Some h)
      with r go [OF hand_step.accepts] accepts show ?thesis by fastforce
    qed
  qed (use others in blast)+
qed

lemma reachable_has_history:
  assumes "conn_reachable C log c"
  shows "\<exists>n acc ops. has_history C (n, acc, ops, log, c)"
proof -
  from assms obtain c0 where c0: "initial_connection c0" and steps: "(conn_step C)\<^sup>*\<^sup>* ([], c0) (log, c)"
    by (auto simp: conn_reachable_def)
  have "has_history C (0, [], [], [], c0)" using c0 by (auto simp: has_history_def)
  with steps have "\<exists>n acc ops. has_history C (n, acc, ops, fst (log, c), snd (log, c))"
  proof (induction rule: rtranclp_induct)
    case (step y z)
    then show ?case using step_has_history [of C "fst y" "snd y" "fst z" "snd z"] by auto
  qed auto
  then show ?thesis by simp
qed

lemma reachable_pending: "conn_reachable C log c \<Longrightarrow> h \<in> set (cn_pending_inbound c) \<Longrightarrow> handle_valid c h"
  using reachable_has_history [of C log c] history_handed_out by (fastforce simp: handed_out_def)

section \<open>The histories of two ends, for the example\<close>

lemma history_step: "has_history C x \<Longrightarrow> hand_step C x y \<Longrightarrow> has_history C y"
  unfolding has_history_def by (meson rtranclp.rtrancl_into_rtrancl)

lemma carry_history:
  assumes "has_history C (n, acc, ops, log, a)" and "has_history C (m, acc', ops', log', b)" and "carry C a b = (a1, b1)"
  shows "has_history C (n, acc, ops, log, a1)" and "has_history C (m, acc', ops', log', b1)"
  using assms(3) history_step [OF history_step [OF assms(1) hand_step.kernel] hand_step.writable]
    history_step [OF history_step [OF assms(2) hand_step.kernel] hand_step.readable]
  by (auto simp: carry_def Let_def)

lemma establish_history:
  assumes "initial_connection a" and "initial_connection b" and "establish C a b = (a', b')"
  shows "has_history C (0, [], [], [], a')"
proof -
  have "has_history C (0, [], [], [], a)" "has_history C (0, [], [], [], b)" using assms(1,2) by (auto simp: has_history_def)
  then have s: "has_history C (0, [], [], [], snd (begin_outbound_upgrade a))" "has_history C (0, [], [], [], snd (begin_inbound_upgrade b))"
    by (auto intro: history_step hand_step.outbound hand_step.inbound)
  obtain a2 b2 where c1: "carry C (snd (begin_outbound_upgrade a)) (snd (begin_inbound_upgrade b)) = (a2, b2)" by force
  obtain b3 a3 where c2: "carry C b2 a2 = (b3, a3)" by force
  obtain a4 b4 where c3: "carry C a3 b3 = (a4, b4)" by force
  obtain b5 a5 where c4: "carry C b4 a4 = (b5, a5)" by force
  have c5: "carry C a5 b5 = (a', b')" using assms(3) by (simp add: establish_def first_flights_def c1 c2 c3 c4)
  note r1 = carry_history [OF s c1]
  note r2 = carry_history [OF r1(2,1) c2]
  note r3 = carry_history [OF r2(2,1) c3]
  note r4 = carry_history [OF r3(2,1) c4]
  show ?thesis by (rule carry_history [OF r4(2,1) c5])
qed

lemma upgraded_nothing_waits:
  assumes "upgraded base c n tx" and "settled log c" and "\<And>h. h \<in> set (cn_pending_inbound c) \<Longrightarrow> handle_valid c h"
  shows "cn_pending_inbound c = []"
proof -
  have "cn_yamux c = Some (new_session (cn_id base) (cn_is_initiator base))" using assms(1) by (simp add: upgraded_def)
  moreover from this assms(2) have "cn_streams c = []" by (simp add: settled_def inv_defs)
  ultimately have "\<not> handle_valid c h" for h by (cases h) (simp_all add: handle_valid_def new_session_def)
  with assms(3) show ?thesis by (cases "cn_pending_inbound c") auto
qed

lemma first_open:
  assumes "crypto_ok C" and "upgraded base c n []" and "cs_has_key (ns_cs_send n)" and "cs_nonce (ns_cs_send n) = 0"
  shows "\<exists>c'. request_open_stream C proto c = (Inr (YamuxHandle 0), c')"
proof -
  have c: "is_active c" "cn_state c = Ready" "cn_yamux c = Some (new_session (cn_id base) (cn_is_initiator base))"
    "writable_channel c" "blocked_socket (cn_io c)"
    using assms(2-4) upgraded_active [OF assms(2)]
    by (simp_all add: upgraded_def idle_io_def writable_channel_def blocked_socket_def u64_max_def)
  define s where "s = new_session (cn_id base) (cn_is_initiator base)"
  obtain s1 where g: "get_or_create_stream (ys_next_stream_id s) True (s\<lparr>ys_next_stream_id := ys_next_stream_id s + 2\<rparr>) = (Some 0, s1)"
    and buf: "ys_send_buf s1 = []"
    by (auto simp: s_def new_session_def get_or_create_stream_def Let_def)
  let ?s2 = "write_frame (frame Data (flag_value SYN) (ys_next_stream_id s) 0) [] s1"
  have "length (ys_send_buf ?s2) = 12"
    by (simp add: write_frame_def buf frame_bytes_length kHeaderSize_def)
  then have len: "length (ys_send_buf ?s2) \<le> max_plaintext" "ys_send_buf ?s2 \<noteq> []"
    by (simp_all only: max_plaintext_def) auto
  obtain ct where "queue_encrypted_message C (ys_send_buf ?s2) c = (Inr (), sent_frame ct c)"
    by (rule encrypted_message [OF assms(1) c(4) len(1) c(5)])
  then have "run_outgoing (session_callbacks C) (?s2, c) = (Inr (), (?s2\<lparr>ys_send_buf := []\<rparr>, sent_frame ct c))"
    using len(2) by (simp add: run_outgoing_def session_callbacks_def flush_yamux_outgoing_def)
  then have "\<exists>s' c'. open_stream (session_callbacks C) (s, c) = (Inr 0, s', c')"
    using g by (simp add: open_stream_def and_then_def Let_def) (simp add: s_def new_session_def)
  with c(1-3) show ?thesis by (auto simp: request_open_stream_def and_then_def with_yamux_def s_def Let_def)
qed

section \<open>Properties\<close>

text \<open>C23. In every history of a connection in which its owner has opened streams at most \<open>2 ^ 30\<close> times
  (so that the ids of its end are not used up), whatever the peer sends and however handlers, reads,
  writes, resets and the end of the connection come in between: the streams the owner has accepted, those that wait
  to be accepted and those it has opened are all different, each is a stream of the connection,
  and the events report exactly them, in the same order, by the ids they still have: one
  event of type stream-accepted for each accepted or waiting stream, one stream-opened for each opened one.\<close>

theorem streams_handed_out_once:
  assumes "has_history C (n, accepted, opened, log, c)" and "n \<le> 2 ^ 30"
  shows "distinct (accepted @ cn_pending_inbound c @ opened)
    \<and> (\<forall>h \<in> set (accepted @ cn_pending_inbound c @ opened). handle_valid c h)
    \<and> announced EvStreamAccepted (log @ cn_event_queue c) = map (\<lambda>h. Some (stream_id h c)) (accepted @ cn_pending_inbound c)
    \<and> announced EvStreamOpened (log @ cn_event_queue c) = map (\<lambda>h. Some (stream_id h c)) opened"
  using history_handed_out [OF assms(1)] assms(2) by (simp add: handed_out_def)

theorem streams_handed_out_once_witness:
  "\<exists>a' b' c. establish toy_crypto (toy_dialer (PeerId (replicate 32 9))) toy_listener = (a', b')
    \<and> request_open_stream toy_crypto ''/x'' a' = (Inr (YamuxHandle 0), c)
    \<and> handle_valid c (YamuxHandle 0) \<and> cn_pending_inbound c = []
    \<and> announced EvStreamOpened (cn_event_queue c) = [Some (stream_id (YamuxHandle 0) c)]"
proof -
  let ?p = "PeerId (replicate 32 9)"
  have p: "identity_peer toy_identity = ?p" by (simp add: identity_peer_def toy_identity_def)
  have "\<forall>q. names_peer (cn_remote_addr (toy_dialer ?p)) q \<longrightarrow> q = identity_peer toy_identity"
    by (simp add: toy_ends toy_target_names wf_peer_id_def p)
  then obtain a' b' nA nB where e: "establish toy_crypto (toy_dialer ?p) toy_listener = (a', b')"
    and up: "upgraded (toy_dialer ?p) a' nA []" and keys: "agreed nA nB"
    by (rule upgrade_succeeds [OF toy_crypto_ok toy_ends(1-4) toy_ends(5,6)]) blast
  obtain c where c: "request_open_stream toy_crypto ''/x'' a' = (Inr (YamuxHandle 0), c)"
    using first_open [OF toy_crypto_ok up, of "''/x''"] keys by (auto simp: agreed_def)
  have "initial_connection (toy_dialer ?p)" "initial_connection toy_listener"
    unfolding initial_connection_def toy_dialer_def toy_listener_def by (metis zero_le_numeral)+
  note history = establish_history [OF this e]
  from history_step [OF history hand_step.opens [OF c]]
  have h: "has_history toy_crypto (Suc 0, [], [YamuxHandle 0], [], c)" by simp
  have quiet: "settled [] a'" "\<And>h. h \<in> set (cn_pending_inbound a') \<Longrightarrow> handle_valid a' h"
    using history_handed_out [OF history] by (simp_all add: handed_out_def)
  have "cn_pending_inbound c = []"
    using request_opens_one [OF quiet(1) c, of 0] upgraded_nothing_waits [OF up quiet] by (simp add: opens_one_def)
  with streams_handed_out_once [OF h] e c show ?thesis by auto
qed

end
