(* ===== verification/YamuxDelivery.thy ===== *)
theory YamuxDelivery
  imports YamuxInvariant
begin

text \<open>
  What one end of a Yamux connection sends and the other end receives: flow control of the
  writer, and delivery from the opener's streams to the streams the peer accepts.
\<close>

lemma unat_minus_of_nat: "n \<le> unat w \<Longrightarrow> unat (w - of_nat n) = unat w - n" for w :: u32
proof -
  assume n: "n \<le> unat w"
  have "n < 2 ^ 32" using n unsigned_less [of w, where ?'a = nat] by simp
  then have "unat (of_nat n :: u32) = n" by (rule unat_of_nat_u32)
  with n show ?thesis by (simp add: unat_sub word_le_nat_alt)
qed

section \<open>Effect of one frame on the streams of the receiver\<close>

lemma has_flag_simps [simp]:
  "\<not> has_flag 0 f"
  "has_flag (flag_value f) g \<longleftrightarrow> f = g"
  by (cases f; cases g; simp add: has_flag_def)+

lemma frame_simps [simp]:
  "hdr_version (frame ty flags sid len) = kYamuxVersion"
  "hdr_type (frame ty flags sid len) = type_value ty"
  "hdr_flags (frame ty flags sid len) = flags"
  "hdr_stream_id (frame ty flags sid len) = sid"
  "hdr_length (frame ty flags sid len) = len"
  by (simp_all add: frame_def)

lemma type_value_eq [simp]: "type_value a = type_value b \<longleftrightarrow> a = b"
  by (cases a; cases b; simp)

declare flag_value.simps [simp del] type_value.simps [simp del]

lemma acknowledge_streams [simp]:
  "ys_streams (fst (snd (acknowledge_stream cbs sid t))) = ys_streams (fst t)"
  "ys_heap (fst (snd (acknowledge_stream cbs sid t))) = ys_heap (fst t)"
  by (simp_all add: acknowledge_stream_def)

lemma ys_heap_map_stream [simp]: "ys_heap (map_stream p f s) = (ys_heap s)[p := f (ys_heap s ! p)]"
  by (simp add: map_stream_def)

lemma is_client_kept [simp]:
  "ys_is_client (write_frame hdr payload s) = ys_is_client s"
  "ys_is_client (map_stream p f s) = ys_is_client s"
  "ys_conn_id (write_frame hdr payload s) = ys_conn_id s"
  "ys_conn_id (map_stream p f s) = ys_conn_id s"
  by (simp_all add: write_frame_def map_stream_def)

lemma run_outgoing_kept [simp]:
  "ys_is_client (fst (snd (run_outgoing cbs t))) = ys_is_client (fst t)"
  "ys_conn_id (fst (snd (run_outgoing cbs t))) = ys_conn_id (fst t)"
  using run_outgoing_session [of cbs t] by auto

lemma handle_syn:
  assumes "is_remote_stream_id s sid" and "ys_streams s sid = None"
    and "t' = handle_frame cbs (frame Data (flag_value SYN) sid 0) [] (s, e)"
  shows "ys_streams (fst t') = (ys_streams s)(sid \<mapsto> length (ys_heap s))
    \<and> ys_heap (fst t') = ys_heap s @ [new_stream sid (ys_conn_id s)]
    \<and> ys_is_client (fst t') = ys_is_client s \<and> ys_conn_id (fst t') = ys_conn_id s"
proof -
  have "sid \<noteq> 0" using assms(1) by (auto simp: is_remote_stream_id_def)
  then show ?thesis
    using assms by (simp add: handle_frame_def handle_stream_frame_def get_or_create_stream_def Let_def
        accept_new_def apply_window_def apply_payload_def apply_fin_def apply_rst_def
        acknowledge_stream_def)
qed

lemma handle_data:
  assumes "sid \<noteq> 0" and "ys_streams s sid = Some p" and "payload \<noteq> []"
  shows "handle_frame cbs (frame Data 0 sid len) payload (s, e) = (map_stream p (receive_data payload) s, e)"
  using assms by (simp add: handle_frame_def handle_stream_frame_def get_or_create_stream_def Let_def
      accept_new_def apply_window_def apply_payload_def apply_fin_def apply_rst_def on_session_def)

lemma handle_fin:
  assumes "sid \<noteq> 0" and "ys_streams s sid = Some p"
  shows "fst (handle_frame cbs (frame Data (flag_value FIN) sid 0) [] (s, e)) = map_stream p receive_fin s"
  using assms by (simp add: handle_frame_def handle_stream_frame_def get_or_create_stream_def Let_def
      accept_new_def apply_window_def apply_payload_def apply_fin_def apply_rst_def)

section \<open>The opener's side\<close>

text \<open>What an application does with a session that it only sends on: open streams, write to and
  close the handles it got.  The log records, per handle, the bytes \<open>try_write\<close> accepted.\<close>

datatype command = OpenStream | WriteStream nat bytes | CloseStream nat

type_synonym sender = "yamux_session \<times> (nat \<Rightarrow> bytes)"

fun run_command :: "command \<Rightarrow> sender \<Rightarrow> sender" where
  "run_command OpenStream (s, log) = (fst (snd (open_stream no_callbacks (s, ()))), log)"
| "run_command (WriteStream p data) (s, log) =
     (if p < length (ys_heap s)
      then (case try_write no_callbacks p data (s, ()) of
              (Inl _, (s', _)) \<Rightarrow> (s', log)
            | (Inr n, (s', _)) \<Rightarrow> (s', log(p := log p @ take n data)))
      else (s, log))"
| "run_command (CloseStream p) (s, log) =
     (if p < length (ys_heap s) then (fst (snd (close_write no_callbacks p (s, ()))), log)
      else (s, log))"

definition run_commands :: "command list \<Rightarrow> sender \<Rightarrow> sender" where
  "run_commands cs x = foldl (\<lambda>x c. run_command c x) x cs"

lemma run_outgoing_none [simp]: "run_outgoing no_callbacks t = (Inr (), t)"
  by (cases t) (simp add: run_outgoing_def no_callbacks_def)

lemma open_stream_fresh:
  assumes "\<not> ys_remote_go_away s" and "ys_streams s (ys_next_stream_id s) = None"
  shows "open_stream no_callbacks (s, e) = (Inr (length (ys_heap s)),
    (write_frame (frame Data (flag_value SYN) (ys_next_stream_id s) 0) []
      (s\<lparr>ys_next_stream_id := ys_next_stream_id s + 2,
         ys_heap := ys_heap s @ [new_stream (ys_next_stream_id s) (ys_conn_id s)],
         ys_streams := (ys_streams s)(ys_next_stream_id s \<mapsto> length (ys_heap s)),
         ys_send_windows := (ys_send_windows s)(ys_next_stream_id s \<mapsto> kInitialStreamWindow)\<rparr>), e))"
  using assms by (simp add: open_stream_def get_or_create_stream_def Let_def and_then_def)

lemma try_write_cases:
  assumes "ys_send_windows s (st_id (stream_at s p)) = Some w"
  shows "try_write no_callbacks p data (s, e) =
    (if st_write_closed (stream_at s p) \<or> st_reset (stream_at s p)
     then (Inl ''stream is closed for writing'', (s, e))
     else let n = min (length data) (unat w)
          in if n = 0 then (Inl ''EAGAIN'', (s, e))
             else (Inr n, ((write_frame (frame Data 0 (st_id (stream_at s p)) (of_nat n)) (take n data) s)
               \<lparr>ys_send_windows := (ys_send_windows s)(st_id (stream_at s p) \<mapsto> w - of_nat n)\<rparr>, e)))"
  using assms
  by (auto simp: try_write_def write_stream_data_def Let_def and_then_def on_session_def min_def)

lemma close_write_cases:
  assumes "ys_streams s (st_id (stream_at s p)) = Some p"
  shows "close_write no_callbacks p (s, e) =
    (if st_write_closed (stream_at s p) then (Inr (), (s, e))
     else (Inr (), (map_stream p close_local_write (write_frame
             (frame Data (flag_value FIN) (st_id (stream_at s p)) 0) [] (map_stream p close_local_write s)), e)))"
  using assms
  by (simp add: close_write_def close_stream_write_def Let_def on_session_def)

section \<open>Delivery\<close>

text \<open>The \<open>p\<close>th stream a client opens has the number \<open>2 p + 1\<close>.\<close>

definition stream_number :: "nat \<Rightarrow> u32" where
  "stream_number p = of_nat (2 * p + 1)"

lemma unat_stream_number: "p < 2 ^ 31 \<Longrightarrow> unat (stream_number p) = 2 * p + 1"
  unfolding stream_number_def by (rule unat_of_nat_u32) simp

lemma stream_number_eq_iff [simp]:
  "p < 2 ^ 31 \<Longrightarrow> q < 2 ^ 31 \<Longrightarrow> stream_number p = stream_number q \<longleftrightarrow> p = q"
  by (metis add_right_cancel mult_cancel1 unat_stream_number zero_neq_numeral)

lemma stream_number_remote:
  assumes "p < 2 ^ 31" and "\<not> ys_is_client b"
  shows "is_remote_stream_id b (stream_number p)"
proof -
  have "stream_number p \<noteq> 0"
    using unat_stream_number [OF assms(1)] by auto
  moreover have "unat (stream_number p mod 2) = 1"
    using unat_stream_number [OF assms(1)] by (simp add: unat_mod)
  then have "stream_number p mod 2 = 1" by (metis unat_1 word_unat_eq_iff)
  ultimately show ?thesis using assms(2) by (simp add: is_remote_stream_id_def)
qed

lemma stream_number_nonzero: "p < 2 ^ 31 \<Longrightarrow> stream_number p \<noteq> 0"
  using unat_stream_number [of p] by auto

text \<open>The peer has an image of each stream of the sender: the bytes accepted so far wait in it, and
  it is read-closed exactly when the sender closed it.\<close>

definition images :: "sender \<Rightarrow> yamux_session \<Rightarrow> bool" where
  "images = (\<lambda>(s, log) b.
     length (ys_heap b) = length (ys_heap s) \<and>
     (\<forall>p < length (ys_heap s).
        st_id (ys_heap s ! p) = stream_number p \<and> \<not> st_reset (ys_heap s ! p)
        \<and> ys_streams s (stream_number p) = Some p
        \<and> (\<exists>w. ys_send_windows s (stream_number p) = Some w \<and> length (log p) + unat w = 262144)
        \<and> ys_streams b (stream_number p) = Some p
        \<and> st_id (ys_heap b ! p) = stream_number p \<and> \<not> st_reset (ys_heap b ! p)
        \<and> st_recv_buf (ys_heap b ! p) = log p
        \<and> st_read_closed (ys_heap b ! p) = st_write_closed (ys_heap s ! p)))"

definition delivered :: "sender \<Rightarrow> yamux_session \<Rightarrow> bool" where
  "delivered = (\<lambda>(s, log) b.
     images (s, log) b
     \<and> ys_next_stream_id s = stream_number (length (ys_heap s))
     \<and> \<not> ys_remote_go_away s \<and> \<not> ys_is_client b
     \<and> (\<forall>p < 2 ^ 31. length (ys_heap s) \<le> p \<longrightarrow>
          ys_streams s (stream_number p) = None \<and> ys_streams b (stream_number p) = None
          \<and> log p = []))"

lemma delivered_new:
  "delivered (new_session c True, \<lambda>_. []) (new_session c' False)"
  by (simp add: delivered_def images_def new_session_def stream_number_def)

text \<open>The sender goes from \<open>x\<close> to \<open>y\<close>, having opened \<open>k\<close> streams, and the frames it appended keep
  the receiver up to date.\<close>

definition carries :: "'e yamux_callbacks \<Rightarrow> sender \<Rightarrow> sender \<Rightarrow> 'e ystate \<Rightarrow> nat \<Rightarrow> bool" where
  "carries cbs x y t k \<longleftrightarrow>
     (\<exists>fs. list_all wf_frame fs
        \<and> ys_send_buf (fst y) = ys_send_buf (fst x) @ concat (map frame_bytes fs)
        \<and> delivered y (fst (handle_frames cbs fs t))
        \<and> length (ys_heap (fst y)) = length (ys_heap (fst x)) + k)"

lemma carriesI:
  "list_all wf_frame fs \<Longrightarrow>
   ys_send_buf (fst y) = ys_send_buf (fst x) @ concat (map frame_bytes fs) \<Longrightarrow>
   delivered y (fst (handle_frames cbs fs t)) \<Longrightarrow>
   length (ys_heap (fst y)) = length (ys_heap (fst x)) + k \<Longrightarrow> carries cbs x y t k"
  by (auto simp: carries_def)

lemma carries_refl: "delivered x (fst t) \<Longrightarrow> carries cbs x x t 0"
  by (rule carriesI [of "[]"]) (simp_all add: handle_frames_def)

lemma carries_trans:
  assumes "carries cbs x y t j"
    and "\<And>t. delivered y (fst t) \<Longrightarrow> carries cbs y z t k"
  shows "carries cbs x z t (j + k)"
proof -
  from assms(1) obtain fs where fs: "list_all wf_frame fs"
    "ys_send_buf (fst y) = ys_send_buf (fst x) @ concat (map frame_bytes fs)"
    "delivered y (fst (handle_frames cbs fs t))"
    "length (ys_heap (fst y)) = length (ys_heap (fst x)) + j"
    by (auto simp: carries_def)
  from assms(2) [OF fs(3)] obtain gs where gs: "list_all wf_frame gs"
    "ys_send_buf (fst z) = ys_send_buf (fst y) @ concat (map frame_bytes gs)"
    "delivered z (fst (handle_frames cbs gs (handle_frames cbs fs t)))"
    "length (ys_heap (fst z)) = length (ys_heap (fst y)) + k"
    by (auto simp: carries_def)
  show ?thesis
    by (rule carriesI [of "fs @ gs"]) (use fs gs in \<open>simp_all add: handle_frames_append\<close>)
qed

lemma deliver_open:
  assumes "delivered (s, log) b" and "length (ys_heap s) < 2 ^ 31"
  shows "carries cbs (s, log) (run_command OpenStream (s, log)) (b, e) 1"
proof -
  let ?n = "length (ys_heap s)"
  let ?f = "(frame Data (flag_value SYN) (stream_number ?n) 0, [] :: bytes)"
  let ?s' = "write_frame (fst ?f) []
      (s\<lparr>ys_next_stream_id := stream_number ?n + 2,
         ys_heap := ys_heap s @ [new_stream (stream_number ?n) (ys_conn_id s)],
         ys_streams := (ys_streams s)(stream_number ?n \<mapsto> ?n),
         ys_send_windows := (ys_send_windows s)(stream_number ?n \<mapsto> kInitialStreamWindow)\<rparr>)"
  let ?b' = "fst (handle_frame cbs (fst ?f) (snd ?f) (b, e))"
  have next_id: "ys_next_stream_id s = stream_number ?n" and fresh: "ys_streams s (stream_number ?n) = None"
    "ys_streams b (stream_number ?n) = None" and "\<not> ys_remote_go_away s" and server: "\<not> ys_is_client b"
    and len: "length (ys_heap b) = ?n"
    using assms by (simp_all add: delivered_def images_def)
  then have run: "run_command OpenStream (s, log) = (?s', log)"
    using open_stream_fresh [of s "()"] by simp
  note b' = handle_syn [OF stream_number_remote [OF assms(2) server] fresh(2) refl, of cbs e]
  have num: "stream_number ?n + 2 = stream_number (Suc ?n)"
    by (simp add: stream_number_def)
  have old: "p < ?n \<Longrightarrow> p < 2 ^ 31" for p using assms(2) by simp
  have "log ?n = []" using assms by (simp add: delivered_def)
  moreover have "unat kInitialStreamWindow = 262144" by (simp add: kInitialStreamWindow_def)
  ultimately have "images (?s', log) ?b'"
    using assms b' len old
    by (auto simp: images_def delivered_def nth_append new_stream_def less_Suc_eq)
  moreover have "\<forall>p < 2 ^ 31. Suc ?n \<le> p \<longrightarrow> ys_streams ?s' (stream_number p) = None
      \<and> ys_streams ?b' (stream_number p) = None \<and> log p = []"
    using assms b' len by (auto simp: delivered_def)
  ultimately have "delivered (?s', log) ?b'"
    using assms(1) b' by (simp add: delivered_def num write_frame_def)
  then show ?thesis
    unfolding run by (intro carriesI [of "[?f]"]) (simp_all add: write_frame_def handle_frames_def)
qed

lemma imagesD:
  assumes "images (s, log) b" and "p < length (ys_heap s)"
  shows "st_id (ys_heap s ! p) = stream_number p" and "\<not> st_reset (ys_heap s ! p)"
    and "ys_streams s (stream_number p) = Some p" and "\<exists>w. ys_send_windows s (stream_number p) = Some w \<and> length (log p) + unat w = 262144"
    and "ys_streams b (stream_number p) = Some p" and "length (ys_heap b) = length (ys_heap s)"
  using assms by (auto simp: images_def)

lemma deliver_write:
  assumes "delivered (s, log) b" and "length (ys_heap s) \<le> 2 ^ 31"
  shows "carries cbs (s, log) (run_command (WriteStream p data) (s, log)) (b, e) 0"
proof (cases "p < length (ys_heap s)")
  case False
  then show ?thesis using assms(1) by (simp add: carries_refl)
next
  case True
  have im: "images (s, log) b" using assms(1) by (simp add: delivered_def)
  note p = imagesD [OF im True]
  have p31: "p < 2 ^ 31" using True assms(2) by simp
  from p(4) obtain w where w: "ys_send_windows s (stream_number p) = Some w"
    and budget: "length (log p) + unat w = 262144" by auto
  define n where "n = min (length data) (unat w)"
  have win: "ys_send_windows s (st_id (stream_at s p)) = Some w"
    using w p(1) by (simp add: stream_at_def)
  note run = try_write_cases [OF win, of data "()", folded n_def]
  show ?thesis
  proof (cases "st_write_closed (stream_at s p) \<or> st_reset (stream_at s p) \<or> n = 0")
    case True
    then have "run_command (WriteStream p data) (s, log) = (s, log)"
      using run by (auto simp: Let_def)
    then show ?thesis using assms(1) by (simp add: carries_refl)
  next
    case False
    define f where "f = (frame Data 0 (stream_number p) (of_nat n), take n data)"
    define s' where "s' = (write_frame (fst f) (snd f) s)
        \<lparr>ys_send_windows := (ys_send_windows s)(stream_number p \<mapsto> w - of_nat n)\<rparr>"
    have r: "run_command (WriteStream p data) (s, log) = (s', log(p := log p @ take n data))"
      using run False True p(1) by (simp add: Let_def s'_def f_def stream_at_def)
    have nw: "n < 2 ^ 32" "n \<le> length data"
      using unsigned_less [of w, where ?'a = nat] by (simp_all add: n_def)
    then have wf: "wf_frame f"
      using wf_frame_data [of "take n data" 0 "stream_number p"] by (simp add: f_def)
    have "take n data \<noteq> []" using False by (auto simp: n_def)
    note handle_data [OF stream_number_nonzero [OF p31] p(5) this]
    then have b': "handle_frame cbs (fst f) (snd f) (b, e) = (map_stream p (receive_data (take n data)) b, e)"
      by (simp only: f_def fst_conv snd_conv)
    have "unat (w - of_nat n) = unat w - n"
      by (rule unat_minus_of_nat) (simp add: n_def)
    then have "length (log p @ take n data) + unat (w - of_nat n) = 262144"
      using budget nw(2) by (simp add: n_def)
    then have "images (s', log(p := log p @ take n data)) (map_stream p (receive_data (take n data)) b)"
      using im p31 assms(2) True
      by (auto simp: images_def s'_def receive_data_def nth_list_update_if)
    then have "delivered (s', log(p := log p @ take n data)) (fst (handle_frames cbs [f] (b, e)))"
      using assms(1) b' True by (auto simp: delivered_def s'_def handle_frames_def case_prod_beta write_frame_def)
    with wf show ?thesis
      unfolding r by (intro carriesI [of "[f]"]) (simp_all add: s'_def write_frame_def)
  qed
qed

lemma deliver_close:
  assumes "delivered (s, log) b" and "length (ys_heap s) \<le> 2 ^ 31"
  shows "carries cbs (s, log) (run_command (CloseStream p) (s, log)) (b, e) 0"
proof (cases "p < length (ys_heap s) \<and> \<not> st_write_closed (stream_at s p)")
  case False
  then have "run_command (CloseStream p) (s, log) = (s, log)"
    by (auto simp: close_write_def stream_at_def)
  then show ?thesis using assms(1) by (simp add: carries_refl)
next
  case True
  have im: "images (s, log) b" using assms(1) by (simp add: delivered_def)
  note p = imagesD [OF im conjunct1 [OF True]]
  have p31: "p < 2 ^ 31" using True assms(2) by simp
  have sid: "st_id (stream_at s p) = stream_number p" using p(1) by (simp add: stream_at_def)
  define f where "f = (frame Data (flag_value FIN) (stream_number p) 0, [] :: bytes)"
  define s' where "s' = map_stream p close_local_write (write_frame (fst f) [] (map_stream p close_local_write s))"
  have "ys_streams s (st_id (stream_at s p)) = Some p" using p(3) sid by simp
  from close_write_cases [OF this, of "()"]
  have r: "run_command (CloseStream p) (s, log) = (s', log)"
    using True by (simp add: s'_def f_def sid)
  have b': "fst (handle_frame cbs (fst f) (snd f) (b, e)) = map_stream p receive_fin b"
    using handle_fin [OF stream_number_nonzero [OF p31] p(5)] by (simp add: f_def)
  have "images (s', log) (map_stream p receive_fin b)"
    using im p31 assms(2) True
    by (auto simp: images_def s'_def receive_fin_def close_local_write_def nth_list_update_if)
  then have "delivered (s', log) (fst (handle_frames cbs [f] (b, e)))"
    using assms(1) b' by (auto simp: delivered_def s'_def handle_frames_def case_prod_beta write_frame_def map_stream_def)
  then show ?thesis
    unfolding r by (intro carriesI [of "[f]"]) (simp_all add: s'_def f_def write_frame_def map_stream_def)
qed

lemma deliver_command:
  assumes "delivered (s, log) b" and "length (ys_heap s) + (if c = OpenStream then 1 else 0) \<le> 2 ^ 31"
  shows "carries cbs (s, log) (run_command c (s, log)) (b, e) (if c = OpenStream then 1 else 0)"
proof (cases c)
  case OpenStream
  with assms have "length (ys_heap s) < 2 ^ 31" by simp
  with assms(1) have "carries cbs (s, log) (run_command OpenStream (s, log)) (b, e) 1"
    by (rule deliver_open)
  then show ?thesis by (simp only: OpenStream if_True simp_thms)
qed (use assms in \<open>simp_all add: deliver_write deliver_close del: run_command.simps\<close>)

definition opens :: "command list \<Rightarrow> nat" where
  "opens cs = length (filter (\<lambda>c. c = OpenStream) cs)"

lemma opens_Cons: "opens (c # cs) = (if c = OpenStream then 1 else 0) + opens cs"
  by (simp add: opens_def)

lemma deliver_commands:
  assumes "delivered x (fst t)" and "length (ys_heap (fst x)) + opens cs \<le> 2 ^ 31"
  shows "carries cbs x (run_commands cs x) t (opens cs)"
  using assms
proof (induction cs arbitrary: x t)
  case Nil
  then show ?case by (simp add: run_commands_def opens_def carries_refl)
next
  case (Cons c cs)
  let ?k = "if c = OpenStream then 1 else 0 :: nat"
  have "length (ys_heap (fst x)) + ?k \<le> 2 ^ 31"
    using Cons.prems(2) unfolding opens_Cons by linarith
  then have first: "carries cbs x (run_command c x) t ?k"
    using Cons.prems(1) deliver_command [of "fst x" "snd x" "fst t" c cbs "snd t"] by simp
  then have "length (ys_heap (fst (run_command c x))) + opens cs \<le> 2 ^ 31"
    using Cons.prems(2) unfolding opens_Cons by (auto simp: carries_def)
  then have "delivered (run_command c x) (fst t') \<Longrightarrow>
      carries cbs (run_command c x) (run_commands cs (run_command c x)) t' (opens cs)" for t'
    by (intro Cons.IH)
  from carries_trans [OF first this] show ?case
    unfolding opens_Cons by (simp add: run_commands_def)
qed

lemma parse_sent:
  "list_all wf_frame fs \<Longrightarrow> parse_all try_parse_frame (concat (map frame_bytes fs)) = (fs, [])"
  using yframe.parse_all_encoded [of fs "[]"]
  by (simp add: yframe.parse_all_None try_parse_frame_def kHeaderSize_def)

lemma delivery:
  assumes "opens cs \<le> 2 ^ 31"
    and "run_commands cs (new_session c True, \<lambda>_. []) = (sent, log)"
  shows "delivered (sent, log) (fst (snd (receive cbs (ys_send_buf sent) (new_session c' False, e))))
    \<and> length (ys_heap sent) = opens cs"
proof -
  have start: "ys_heap (new_session c True) = []" "ys_send_buf (new_session c True) = []"
    "ys_recv_buf (new_session c' False) = []"
    by (simp_all add: new_session_def)
  have "carries cbs (new_session c True, \<lambda>_. []) (sent, log) (new_session c' False, e) (opens cs)"
    unfolding assms(2) [symmetric]
    by (rule deliver_commands) (use assms(1) start delivered_new in simp_all)
  then obtain fs where "list_all wf_frame fs" and "ys_send_buf sent = concat (map frame_bytes fs)"
    and del: "delivered (sent, log) (fst (handle_frames cbs fs (new_session c' False, e)))"
    and len: "length (ys_heap sent) = opens cs"
    by (auto simp: carries_def start)
  then have "snd (receive cbs (ys_send_buf sent) (new_session c' False, e))
      = set_recv [] (handle_frames cbs fs (new_session c' False, e))"
    by (simp add: receive_frames start parse_sent)
  moreover have "delivered x (b\<lparr>ys_recv_buf := bs\<rparr>) = delivered x b" for x b bs
    by (cases x) (simp add: delivered_def images_def)
  ultimately show ?thesis using del len by (simp add: set_recv_def)
qed

section \<open>Windows\<close>

lemma write_success:
  assumes "try_write cbs p data (s, e) = (Inr n, (s', e'))"
  shows "\<exists>w. ys_send_windows s (st_id (stream_at s p)) = Some w
      \<and> n = min (length data) (unat w) \<and> 0 < n
      \<and> ys_send_windows s' = (ys_send_windows s)(st_id (stream_at s p) \<mapsto> w - of_nat n)
      \<and> unat (w - of_nat n) = unat w - n"
proof -
  from assms obtain w where w: "ys_send_windows s (st_id (stream_at s p)) = Some w"
    by (auto simp: try_write_def write_stream_data_def Let_def split: if_splits option.splits)
  with assms have n: "n = min (length data) (unat w)" "0 < n"
    and "snd (run_outgoing cbs ((write_frame (frame Data 0 (st_id (stream_at s p)) (of_nat n)) (take n data) s)
        \<lparr>ys_send_windows := (ys_send_windows s)(st_id (stream_at s p) \<mapsto> w - of_nat n)\<rparr>, e)) = (s', e')"
    by (auto simp: try_write_def write_stream_data_def Let_def and_then_Inr_iff on_session_def
        split: if_splits)
  then have "ys_send_windows s' = (ys_send_windows s)(st_id (stream_at s p) \<mapsto> w - of_nat n)"
    using run_outgoing_streams(3) [of cbs "((write_frame (frame Data 0 (st_id (stream_at s p)) (of_nat n)) (take n data) s)
        \<lparr>ys_send_windows := (ys_send_windows s)(st_id (stream_at s p) \<mapsto> w - of_nat n)\<rparr>, e)"]
    by simp
  moreover have "unat (w - of_nat n) = unat w - n"
    by (rule unat_minus_of_nat) (simp add: n)
  ultimately show ?thesis using w n by blast
qed

lemma unat_ucast_u32_u64 [simp]: "unat (ucast (x :: u32) :: u64) = unat x"
  using unsigned_less [of x, where ?'a = nat] by (simp add: unat_ucast_mod)

lemma unat_saturate:
  "unat (ucast (min (ucast w + ucast d :: u64) 0xFFFFFFFF) :: u32) = min (unat w + unat d) (2 ^ 32 - 1)"
  for w d :: u32
proof -
  have "unat (ucast w + ucast d :: u64) = unat w + unat d"
    using unsigned_less [of w, where ?'a = nat] unsigned_less [of d, where ?'a = nat]
    by (simp add: unat_word_ariths)
  then have "unat (min (ucast w + ucast d :: u64) 0xFFFFFFFF) = min (unat w + unat d) (2 ^ 32 - 1)"
    by (simp add: min_def word_le_nat_alt)
  then show ?thesis by (simp add: unat_ucast_mod)
qed

lemma handle_window_update:
  assumes "sid \<noteq> 0" and "ys_streams s sid = Some p" and "ys_send_windows s sid = Some w" and "0 < d"
  shows "fst (handle_frame cbs (frame WindowUpdate 0 sid d) [] (s, e)) = grow_window sid d s"
  using assms by (simp add: handle_frame_def handle_stream_frame_def get_or_create_stream_def Let_def
      accept_new_def apply_window_def apply_payload_def apply_fin_def apply_rst_def on_session_def)

section \<open>Half-closing and resetting\<close>

lemma handle_fin_state:
  assumes "sid \<noteq> 0" and "ys_streams s sid = Some p"
  shows "handle_frame cbs (frame Data (flag_value FIN) sid 0) [] (s, e) =
    (map_stream p receive_fin s,
     if \<not> is_open (stream_at (map_stream p receive_fin s) p)
     then (case close_cb cbs of None \<Rightarrow> e | Some cb \<Rightarrow> cb sid ''yamux stream closed'' e) else e)"
  using assms by (simp add: handle_frame_def handle_stream_frame_def get_or_create_stream_def Let_def
      accept_new_def apply_window_def apply_payload_def apply_fin_def apply_rst_def
      on_session_def on_owner_def split: option.splits)

lemma handle_rst:
  assumes "sid \<noteq> 0" and "ys_streams s sid = Some p"
  shows "fst (handle_frame cbs (frame Data (flag_value RST) sid 0) [] (s, e))
    = erase_stream sid (map_stream p receive_rst s)"
  using assms by (simp add: handle_frame_def handle_stream_frame_def get_or_create_stream_def Let_def
      accept_new_def apply_window_def apply_payload_def apply_fin_def apply_rst_def)

section \<open>A small run, for the witnesses\<close>

definition demo_commands :: "command list" where
  "demo_commands = [OpenStream, OpenStream, WriteStream 1 [1, 2], WriteStream 0 [3], WriteStream 1 [4],
     CloseStream 1]"

definition demo_sent :: sender where
  "demo_sent = run_commands demo_commands (new_session 1 True, \<lambda>_. [])"

lemma demo_facts:
  "opens demo_commands = 2" "snd demo_sent 1 = [1, 2, 4]"
  "write_closed (stream_at (fst demo_sent) 1)"
  by (simp_all add: demo_sent_def demo_commands_def opens_def run_commands_def new_session_def
      open_stream_fresh try_write_cases close_write_cases stream_at_def new_stream_def Let_def
      kInitialStreamWindow_def write_closed_def close_local_write_def write_frame_def map_stream_def)

section \<open>Properties\<close>

text \<open>Flow control: until the peer grants more, a stream never carries more than the initial
  window of 256 KiB, and what remains of the window is exactly what was not used.\<close>

theorem sender_respects_window:
  assumes "opens cs \<le> 2 ^ 31"
    and "run_commands cs (new_session c True, \<lambda>_. []) = (sent, log)" and "p < opens cs"
  shows "\<exists>w. ys_send_windows sent (of_nat (2 * p + 1)) = Some w
    \<and> length (log p) + unat w = unat kInitialStreamWindow"
  using delivery [OF assms(1,2), of no_callbacks 1 "()"] assms(3)
  by (auto simp: delivered_def images_def stream_number_def kInitialStreamWindow_def)

theorem sender_respects_window_witness:
  "\<exists>w. ys_send_windows (fst demo_sent) 3 = Some w
    \<and> length (snd demo_sent 1) + unat w = unat kInitialStreamWindow"
proof -
  have "run_commands demo_commands (new_session 1 True, \<lambda>_. []) = (fst demo_sent, snd demo_sent)"
    by (simp add: demo_sent_def)
  then show ?thesis
    using sender_respects_window [of demo_commands 1 "fst demo_sent" "snd demo_sent" 1]
    by (simp add: demo_facts del: One_nat_def)
qed

definition demo_open :: yamux_session where
  "demo_open = fst (snd (open_stream no_callbacks (new_session 1 True, ())))"

text \<open>C2. Multiplexed delivery.  A client opens up to \<open>2 ^ 31\<close> streams and writes to and closes
  them in any order; the server receives the output in any chunks.  Then the server has accepted
  exactly these streams, in their order; each holds exactly the bytes the client's writes
  accepted, in order and without mixing; and it is read-closed exactly when the client closed
  it.  Nothing is assumed of the server's callbacks.\<close>

theorem client_streams_delivered:
  assumes "opens cs \<le> 2 ^ 31"
    and "run_commands cs (new_session c True, \<lambda>_. []) = (sent, log)"
    and "concat chunks = ys_send_buf sent" and "chunks \<noteq> []"
    and "received = fst (foldl (\<lambda>t chunk. snd (receive cbs chunk t)) (new_session c' False, e) chunks)"
    and "p < opens cs"
  shows "\<exists>q. ys_streams received (of_nat (2 * p + 1)) = Some q
      \<and> st_recv_buf (stream_at received q) = log p
      \<and> read_closed (stream_at received q) = write_closed (stream_at sent p)"
proof -
  have "received = fst (snd (receive cbs (ys_send_buf sent) (new_session c' False, e)))"
    using receive_chunks [OF assms(4), of cbs "(new_session c' False, e)"] assms(3,5) by simp
  with delivery [OF assms(1,2), of cbs c' e]
  have "delivered (sent, log) received" "length (ys_heap sent) = opens cs"
    by simp_all
  with assms(6) show ?thesis
    by (intro exI [of _ p])
       (simp add: delivered_def images_def stream_number_def stream_at_def read_closed_def write_closed_def)
qed

theorem client_streams_delivered_witness:
  "\<exists>q. ys_streams (fst (snd (receive no_callbacks (ys_send_buf (fst demo_sent)) (new_session 2 False, ())))) 3 = Some q
    \<and> st_recv_buf (stream_at (fst (snd (receive no_callbacks (ys_send_buf (fst demo_sent)) (new_session 2 False, ())))) q)
        = [1, 2, 4]
    \<and> read_closed (stream_at (fst (snd (receive no_callbacks (ys_send_buf (fst demo_sent)) (new_session 2 False, ())))) q)"
proof -
  have "run_commands demo_commands (new_session 1 True, \<lambda>_. []) = (fst demo_sent, snd demo_sent)"
    by (simp add: demo_sent_def)
  then show ?thesis
    using client_streams_delivered [of demo_commands 1 "fst demo_sent" "snd demo_sent"
      "[ys_send_buf (fst demo_sent)]" _ no_callbacks 2 "()" 1, OF _ _ _ _ refl]
    by (simp add: demo_facts del: One_nat_def)
qed

text \<open>A window update adds to the send window and stops at \<open>2 ^ 32 - 1\<close> instead of wrapping; no
  other stream is touched.\<close>

theorem window_update_saturates:
  assumes "yamux_reachable cbs (s, e)" and "outgoing_whole cbs"
    and "sid \<noteq> 0" and "ys_send_windows s sid = Some w" and "0 < d"
  shows "\<exists>w'. ys_send_windows (fst (handle_frame cbs (frame WindowUpdate 0 sid d) [] (s, e)))
        = (ys_send_windows s)(sid \<mapsto> w')
      \<and> unat w' = min (unat w + unat d) (2 ^ 32 - 1)"
proof -
  from yamux_reachable_inv [OF assms(2,1)] have "dom (ys_send_windows s) = dom (ys_streams s)"
    by (simp add: yamux_inv_def)
  with assms(4) obtain p where "ys_streams s sid = Some p" by blast
  from handle_window_update [OF assms(3) this assms(4,5), of cbs e] show ?thesis
    by (intro exI [of _ "ucast (min (ucast w + ucast d :: u64) 0xFFFFFFFF)"] conjI unat_saturate)
       (simp add: grow_window_def assms(4) Let_def)
qed

lemma demo_open_reachable: "yamux_reachable no_callbacks (demo_open, ())"
proof -
  have "yamux_step no_callbacks (new_session 1 True, ()) (snd (open_stream no_callbacks (new_session 1 True, ())))"
    by (rule yamux_step.opens)
  moreover have "snd (open_stream no_callbacks (new_session 1 True, ())) = (demo_open, ())"
    by (simp add: demo_open_def prod_eq_iff)
  ultimately show ?thesis by (auto simp: yamux_reachable_def)
qed

lemma demo_open_window: "ys_send_windows demo_open 1 = Some 262144"
  by (simp add: demo_open_def new_session_def open_stream_fresh write_frame_def kInitialStreamWindow_def)

lemma no_callbacks_whole [simp]: "outgoing_whole no_callbacks"
  by (simp add: outgoing_whole_def no_callbacks_def)

theorem window_update_saturates_witness:
  "\<exists>w'. ys_send_windows (fst (handle_frame no_callbacks (frame WindowUpdate 0 1 0xFFFFFFFF) [] (demo_open, ())))
        = (ys_send_windows demo_open)(1 \<mapsto> w') \<and> unat w' = 2 ^ 32 - 1"
  using window_update_saturates [OF demo_open_reachable no_callbacks_whole _ demo_open_window, of "0xFFFFFFFF"]
  by simp

text \<open>A peer that opens a stream with an id of the wrong parity (or 0 excluded) gets a GoAway frame
  with the protocol-error code and changes nothing else: no stream appears and the owner is
  not called.\<close>

theorem wrong_parity_is_refused:
  assumes "hdr_version hdr = kYamuxVersion" and "hdr_type hdr = type_value Data"
    and "has_flag (hdr_flags hdr) SYN" and "hdr_stream_id hdr \<noteq> 0"
    and "\<not> is_remote_stream_id s (hdr_stream_id hdr)" and "outgoing_cb cbs = None"
  shows "handle_frame cbs hdr payload (s, e)
    = (write_frame (frame GoAway 0 0 (go_away_value ProtocolError)) [] s, e)"
  using assms by (simp add: handle_frame_def send_go_away_def run_outgoing_def on_session_def)

theorem wrong_parity_is_refused_witness:
  "ys_streams (fst (handle_frame no_callbacks (frame Data (flag_value SYN) 2 0) [] (new_session 1 False, ()))) = Map.empty"
  using wrong_parity_is_refused [of "frame Data (flag_value SYN) 2 0" "new_session 1 False" no_callbacks "[]" "()"]
  by (simp add: is_remote_stream_id_def no_callbacks_def new_session_def)

text \<open>The owner after the outgoing callback, if any, was given the bytes \<open>buf\<close>.\<close>

definition sent_out :: "'e yamux_callbacks \<Rightarrow> bytes \<Rightarrow> 'e \<Rightarrow> 'e" where
  "sent_out cbs buf e = (case outgoing_cb cbs of None \<Rightarrow> e | Some cb \<Rightarrow> snd (snd (cb buf e)))"

lemma run_outgoing_sent: "\<exists>buf. snd (run_outgoing cbs (s, e)) = (s\<lparr>ys_send_buf := buf\<rparr>, sent_out cbs (ys_send_buf s) e)"
proof (cases "outgoing_cb cbs")
  case None
  then show ?thesis by (intro exI [of _ "ys_send_buf s"]) (simp add: run_outgoing_def sent_out_def)
qed (auto simp: run_outgoing_def sent_out_def case_prod_beta Let_def)

lemma close_write_sent:
  assumes "ys_streams s sid = Some p" and "st_id (stream_at s p) = sid" and "\<not> st_write_closed (stream_at s p)"
    and "p < length (ys_heap s)"
  shows "\<exists>s'. snd (close_write cbs p (s, e))
        = (s', sent_out cbs (ys_send_buf s @ frame_bytes (frame Data (flag_value FIN) sid 0, [])) e)
      \<and> ys_streams s' = ys_streams s \<and> length (ys_heap s') = length (ys_heap s)
      \<and> stream_at s' p = close_local_write (stream_at s p)"
proof -
  let ?s = "map_stream p close_local_write (write_frame (frame Data (flag_value FIN) sid 0) []
      (map_stream p close_local_write s))"
  from run_outgoing_sent [of cbs ?s e] obtain buf
    where "snd (run_outgoing cbs (?s, e)) = (?s\<lparr>ys_send_buf := buf\<rparr>, sent_out cbs (ys_send_buf ?s) e)" by blast
  then show ?thesis
    using assms by (simp add: close_write_def close_stream_write_def Let_def on_session_def and_then_def
        map_stream_def write_frame_def stream_at_def close_local_write_def split: prod.splits sum.splits)
qed


definition counting_callbacks :: "(bytes \<times> nat) yamux_callbacks" where
  "counting_callbacks = \<lparr>accept_cb = None, outgoing_cb = Some (\<lambda>buf (sent, n). (Inr (), [], (sent @ buf, n))),
     close_cb = Some (\<lambda>_ _ (sent, n). (sent, n + 1))\<rparr>"


lemma reset_effect:
  "ys_streams (fst (snd (reset cbs p t))) = (ys_streams (fst t))(st_id (stream_at (fst t) p) := None)
   \<and> ys_send_windows (fst (snd (reset cbs p t))) = (ys_send_windows (fst t))(st_id (stream_at (fst t) p) := None)
   \<and> ys_heap (fst (snd (reset cbs p t))) = (ys_heap (fst t))[p := receive_rst (ys_heap (fst t) ! p)]"
  by (cases t) (simp add: reset_def reset_stream_def erase_stream_def)

lemma reopened_stream:
  assumes "t = snd (receive cbs (concat (map frame_bytes
      [(frame Data (flag_value SYN) 1 0, []), (frame Data (flag_value RST) 1 0, []),
       (frame Data (flag_value SYN) 1 0, [])])) (new_session c False, e))"
  shows "ys_streams (fst t) = [1 \<mapsto> 1]
    \<and> ys_heap (fst t) = [receive_rst (new_stream 1 c), new_stream 1 c]"
proof -
  let ?syn = "frame Data (flag_value SYN) 1 0" and ?rst = "frame Data (flag_value RST) 1 0"
  define t0 where "t0 = (new_session c False, e)"
  define t1 where "t1 = handle_frame cbs ?syn [] t0"
  define t2 where "t2 = handle_frame cbs ?rst [] t1"
  define t3 where "t3 = handle_frame cbs ?syn [] t2"
  have t: "t = set_recv [] t3"
    unfolding assms receive_frames t3_def t2_def t1_def t0_def
    using parse_sent [of "[(?syn, []), (?rst, []), (?syn, [])]"]
    by (simp add: new_session_def handle_frames_def)
  have one: "is_remote_stream_id b 1" if "\<not> ys_is_client b" for b
    using that by (simp add: is_remote_stream_id_def)
  have s1: "ys_streams (fst t1) = [1 \<mapsto> 0] \<and> ys_heap (fst t1) = [new_stream 1 c]
      \<and> \<not> ys_is_client (fst t1) \<and> ys_conn_id (fst t1) = c"
    using handle_syn [OF one _ refl, of "fst t0" cbs "snd t0"]
    by (simp add: t1_def t0_def new_session_def)
  have s2: "fst t2 = erase_stream 1 (map_stream 0 receive_rst (fst t1))"
    using handle_rst [of 1 "fst t1" 0 cbs "snd t1"] s1 by (simp add: t2_def)
  then have "ys_streams (fst t2) = Map.empty \<and> ys_heap (fst t2) = [receive_rst (new_stream 1 c)]
      \<and> \<not> ys_is_client (fst t2) \<and> ys_conn_id (fst t2) = c"
    using s1 by (simp add: erase_stream_def map_stream_def)
  then have "ys_streams (fst t3) = [1 \<mapsto> 1] \<and> ys_heap (fst t3) = [receive_rst (new_stream 1 c), new_stream 1 c]"
    using handle_syn [OF one _ refl, of "fst t2" cbs "snd t2"] by (simp add: t3_def)
  then show ?thesis by (simp add: t set_recv_def)
qed

text \<open>C32. \<open>reset\<close> is not idempotent, and the id it resets may have been reused.  A peer opens a
  stream, resets it and opens it again; the application, which still holds the first handle,
  resets that one.  This removes the new stream from the session although its handle still
  reports an open stream, and every later write to it fails.\<close>

theorem stale_reset_kills_reopened_stream:
  fixes cbs :: "'e yamux_callbacks"
  assumes "t = snd (receive cbs (concat (map frame_bytes
      [(frame Data (flag_value SYN) 1 0, []), (frame Data (flag_value RST) 1 0, []),
       (frame Data (flag_value SYN) 1 0, [])])) (new_session c False, e))"
    and "t' = snd (reset cbs 0 t)"
  shows "ys_streams (fst t) 1 = Some 1 \<and> \<not> is_open (stream_at (fst t) 0) \<and> is_open (stream_at (fst t) 1)
    \<and> ys_streams (fst t') 1 = None \<and> is_open (stream_at (fst t') 1)
    \<and> fst (try_write cbs 1 data t') = Inl ''unknown yamux stream''"
  using reopened_stream [OF assms(1)] reset_effect [of cbs 0 t]
  by (cases t') (simp add: assms(2) [symmetric] stream_at_def receive_rst_def new_stream_def is_open_def
      try_write_def write_stream_data_def)

theorem stale_reset_kills_reopened_stream_witness:
  "ys_streams (fst (snd (reset no_callbacks 0 (snd (receive no_callbacks (concat (map frame_bytes
      [(frame Data (flag_value SYN) 1 0, []), (frame Data (flag_value RST) 1 0, []),
       (frame Data (flag_value SYN) 1 0, [])])) (new_session 7 False, ())))))) 1 = None"
  using stale_reset_kills_reopened_stream [OF refl refl, of no_callbacks 7 "()"] by blast

end
