(* ===== verification/EndToEnd.thy ===== *)
theory EndToEnd
  imports ConnectionHandles ConnectionTransfer YamuxDelivery
begin

text \<open>
  The layers together: what an application writes on the streams of one connection and what the
  application at the other end reads, through Yamux, the Noise channel and the socket.
\<close>

section \<open>The writing end\<close>

text \<open>The commands of \<open>YamuxDelivery\<close>, given to a connection.  The log records, per stream, the bytes
  that writing accepted.\<close>

fun app_command :: "crypto \<Rightarrow> string \<Rightarrow> command \<Rightarrow> connection \<times> (nat \<Rightarrow> bytes) \<Rightarrow> connection \<times> (nat \<Rightarrow> bytes)" where
  "app_command C proto OpenStream (c, log) = (snd (request_open_stream C proto c), log)"
| "app_command C proto (WriteStream p data) (c, log) =
     (if handle_valid c (YamuxHandle p)
      then (case stream_try_write C (YamuxHandle p) data c of
              (Inl _, c') \<Rightarrow> (c', log)
            | (Inr n, c') \<Rightarrow> (c', log(p := log p @ take n data)))
      else (c, log))"
| "app_command C proto (CloseStream p) (c, log) =
     (if handle_valid c (YamuxHandle p) then (snd (stream_close_write C (YamuxHandle p) c), log) else (c, log))"

definition app_commands :: "crypto \<Rightarrow> string \<Rightarrow> command list \<Rightarrow> connection \<times> (nat \<Rightarrow> bytes) \<Rightarrow> connection \<times> (nat \<Rightarrow> bytes)" where
  "app_commands C proto cs x = foldl (\<lambda>x cmd. app_command C proto cmd x) x cs"

text \<open>A connection that can seal \<open>k\<close> more messages, with nothing of its multiplexer waiting.\<close>

definition can_seal :: "nat \<Rightarrow> yamux_session \<Rightarrow> connection \<Rightarrow> bool" where
  "can_seal k ys c \<longleftrightarrow> cn_yamux c = Some ys \<and> ys_send_buf ys = [] \<and> cn_state c = Ready
     \<and> sc_secure_ready (cn_secure c) \<and> cs_has_key (ns_cs_send (noise_of c))
     \<and> unat (cs_nonce (ns_cs_send (noise_of c))) + k < 2 ^ 64 \<and> cn_stream_state c = None
     \<and> blocked_socket (cn_io c) \<and> io_recvs (cn_io c) = [] \<and> io_wire_rx (cn_io c) = []"

lemma can_seal_writable: "can_seal (Suc k) ys c \<Longrightarrow> writable_channel c"
  by (auto simp: can_seal_def writable_channel_def u64_max_def)

text \<open>From \<open>c\<close> to \<open>c'\<close> the message \<open>m\<close> is sealed and queued, or nothing when there is none.\<close>

definition seals :: "crypto \<Rightarrow> bytes \<Rightarrow> connection \<Rightarrow> connection \<Rightarrow> bytes list \<Rightarrow> bool" where
  "seals C m c c' cts \<longleftrightarrow>
     (if m = [] then cts = [] \<and> cn_io c' = cn_io c \<and> ns_cs_send (noise_of c') = ns_cs_send (noise_of c)
      else (\<exists>ct. cts = [ct] \<and> fits_frame ct \<and> decrypt C ct (ns_cs_send (noise_of c)) = (Inr m, ns_cs_send (noise_of c'))
        \<and> cn_io c' = queued (framed ct) (cn_io c)
        \<and> ns_cs_send (noise_of c') = bump_nonce (ns_cs_send (noise_of c))))"

lemma outgoing_seals:
  assumes "crypto_ok C" and "can_seal (Suc k) ys0 c" and "length (ys_send_buf ys) \<le> max_plaintext"
  obtains c' cts where "run_outgoing (session_callbacks C) (ys, c) = (Inr (), (ys\<lparr>ys_send_buf := []\<rparr>, c'))"
    and "seals C (ys_send_buf ys) c c' cts" and "\<And>ys1. can_seal k ys1 (c'\<lparr>cn_yamux := Some ys1\<rparr>) \<longleftrightarrow> ys_send_buf ys1 = []"
    and "ys_send_buf ys = [] \<Longrightarrow> c' = c"
proof (cases "ys_send_buf ys = []")
  case True
  then have "run_outgoing (session_callbacks C) (ys, c) = (Inr (), (ys\<lparr>ys_send_buf := []\<rparr>, c))"
    by (simp add: run_outgoing_def session_callbacks_def flush_yamux_outgoing_def)
  moreover have "can_seal k ys1 (c\<lparr>cn_yamux := Some ys1\<rparr>) \<longleftrightarrow> ys_send_buf ys1 = []" for ys1
    using assms(2) by (auto simp: can_seal_def noise_of_def)
  ultimately show ?thesis using that [of c "[]"] True by (simp add: seals_def)
next
  case False
  obtain ct where ct: "queue_encrypted_message C (ys_send_buf ys) c = (Inr (), sent_frame ct c)"
    "decrypt C ct (ns_cs_send (noise_of c)) = (Inr (ys_send_buf ys), bump_nonce (ns_cs_send (noise_of c)))" "fits_frame ct"
    by (rule encrypted_message [OF assms(1) can_seal_writable [OF assms(2)] assms(3)])
      (use assms(2) in \<open>simp add: can_seal_def\<close>)
  have "run_outgoing (session_callbacks C) (ys, c) = (Inr (), (ys\<lparr>ys_send_buf := []\<rparr>, sent_frame ct c))"
    using False ct(1) by (simp add: run_outgoing_def session_callbacks_def flush_yamux_outgoing_def)
  moreover have "seals C (ys_send_buf ys) c (sent_frame ct c) [ct]"
    using False ct by (simp add: seals_def)
  moreover have "can_seal k ys1 ((sent_frame ct c)\<lparr>cn_yamux := Some ys1\<rparr>) \<longleftrightarrow> ys_send_buf ys1 = []" for ys1
  proof -
    have "unat (cs_nonce (ns_cs_send (noise_of c)) + 1) = unat (cs_nonce (ns_cs_send (noise_of c))) + 1"
      using assms(2) by (simp add: can_seal_def unat_word_ariths)
    moreover have "noise_of ((sent_frame ct c)\<lparr>cn_yamux := Some ys1\<rparr>) = noise_of (sent_frame ct c)"
      by (simp add: noise_of_def)
    ultimately show ?thesis
      using assms(2) by (auto simp: can_seal_def bump_nonce_def blocked_socket_def)
  qed
  ultimately show ?thesis using False by (intro that) simp_all
qed

text \<open>An operation of the multiplexer, up to the message it sends.\<close>

lemma open_stream_out:
  assumes "\<not> ys_remote_go_away s" and "ys_streams s (ys_next_stream_id s) = None"
  shows "open_stream cbs (s, e) = and_then (run_outgoing cbs) (\<lambda>_. return_ok (length (ys_heap s)))
    (fst (run_command OpenStream (s, log)), e)"
  using assms open_stream_fresh [OF assms, of "()"]
  by (simp add: open_stream_def get_or_create_stream_def Let_def and_then_def cong: sum.case_cong prod.case_cong)

lemma try_write_out:
  assumes "ys_send_windows s (st_id (stream_at s p)) = Some w" and "n = min (length data) (unat w)" and "p < length (ys_heap s)"
  shows "try_write cbs p data (s, e) =
    (if st_write_closed (stream_at s p) \<or> st_reset (stream_at s p)
     then (Inl ''stream is closed for writing'', (s, e))
     else if n = 0 then (Inl ''EAGAIN'', (s, e))
     else and_then (run_outgoing cbs) (\<lambda>_. return_ok n) (fst (run_command (WriteStream p data) (s, log)), e))"
  and "run_command (WriteStream p data) (s, log) =
    (if st_write_closed (stream_at s p) \<or> st_reset (stream_at s p) \<or> n = 0 then (s, log)
     else ((write_frame (frame Data 0 (st_id (stream_at s p)) (of_nat n)) (take n data) s)
               \<lparr>ys_send_windows := (ys_send_windows s)(st_id (stream_at s p) \<mapsto> w - of_nat n)\<rparr>, log(p := log p @ take n data)))"
proof -
  note cases' = try_write_cases [OF assms(1), of data "()", folded assms(2)]
  show r: "run_command (WriteStream p data) (s, log) =
    (if st_write_closed (stream_at s p) \<or> st_reset (stream_at s p) \<or> n = 0 then (s, log)
     else ((write_frame (frame Data 0 (st_id (stream_at s p)) (of_nat n)) (take n data) s)
               \<lparr>ys_send_windows := (ys_send_windows s)(st_id (stream_at s p) \<mapsto> w - of_nat n)\<rparr>, log(p := log p @ take n data)))"
    using cases' assms(3) by (auto simp: Let_def)
  show "try_write cbs p data (s, e) =
    (if st_write_closed (stream_at s p) \<or> st_reset (stream_at s p)
     then (Inl ''stream is closed for writing'', (s, e))
     else if n = 0 then (Inl ''EAGAIN'', (s, e))
     else and_then (run_outgoing cbs) (\<lambda>_. return_ok n) (fst (run_command (WriteStream p data) (s, log)), e))"
    using assms(1,2) unfolding r
    by (simp add: try_write_def write_stream_data_def Let_def on_session_def del: min_less_iff_conj)
qed

lemma close_write_out:
  assumes "ys_streams s (st_id (stream_at s p)) = Some p" and "p < length (ys_heap s)"
  shows "close_write cbs p (s, e) =
    (if st_write_closed (stream_at s p) then (Inr (), (s, e))
     else run_outgoing cbs (fst (run_command (CloseStream p) (s, log)), e))"
  and "st_write_closed (stream_at s p) \<Longrightarrow> run_command (CloseStream p) (s, log) = (s, log)"
  using close_write_cases [OF assms(1), of "()"] assms(2)
  by (simp_all add: close_write_def close_stream_write_def Let_def on_session_def assms(1))

text \<open>What \<open>delivered\<close> does not look at.\<close>

lemma delivered_send_buf [simp]: "delivered (s\<lparr>ys_send_buf := bs\<rparr>, log) b = delivered (s, log) b"
  by (simp add: delivered_def images_def)

lemma delivered_protocol [simp]: "delivered (map_stream p (set_protocol proto) s, log) b = delivered (s, log) b"
proof -
  have "st_id ((ys_heap s)[p := set_protocol proto (ys_heap s ! p)] ! q) = st_id (ys_heap s ! q)"
    "st_reset ((ys_heap s)[p := set_protocol proto (ys_heap s ! p)] ! q) = st_reset (ys_heap s ! q)"
    "st_write_closed ((ys_heap s)[p := set_protocol proto (ys_heap s ! p)] ! q) = st_write_closed (ys_heap s ! q)" for q
    by (auto simp: nth_list_update_if set_protocol_def)
  then show ?thesis by (simp add: delivered_def images_def map_stream_def)
qed

lemma delivered_recv_buf [simp]: "delivered x (b\<lparr>ys_recv_buf := bs\<rparr>) = delivered x b"
  by (cases x) (simp add: delivered_def images_def)

text \<open>The frames of a command, and what they do at the other end.\<close>

lemma command_carries:
  assumes "delivered (s, log) b" and "length (ys_heap s) + (if cmd = OpenStream then 1 else 0) \<le> 2 ^ 31"
    and "ys_send_buf s = []" and "run_command cmd (s, log) = (s', log')"
  obtains fs where "list_all wf_frame fs" and "ys_send_buf s' = concat (map frame_bytes fs)"
    and "length (ys_heap s') = length (ys_heap s) + (if cmd = OpenStream then 1 else 0)"
    and "\<And>cbs t :: 'e ystate. delivered (s, log) (fst t) \<Longrightarrow> delivered (s', log') (fst (handle_frames cbs fs t))"
proof -
  define fs where "fs = fst (parse_all try_parse_frame (ys_send_buf s'))"
  have c: "\<exists>gs. list_all wf_frame gs \<and> ys_send_buf s' = concat (map frame_bytes gs)
      \<and> delivered (s', log') (fst (handle_frames cbs gs t))
      \<and> length (ys_heap s') = length (ys_heap s) + (if cmd = OpenStream then 1 else 0)"
    if "delivered (s, log) (fst t)" for cbs and t :: "'x ystate"
    using deliver_command [of s log "fst t" cmd cbs "snd t"] that assms(2-4) by (simp add: carries_def)
  have gs: "gs = fs" if "list_all wf_frame gs" "ys_send_buf s' = concat (map frame_bytes gs)" for gs
    using parse_sent [OF that(1)] that(2) by (simp add: fs_def)
  have "delivered (s, log) (fst (b, ()))" using assms(1) by simp
  from c [OF this, of no_callbacks] obtain gs0 where g0: "list_all wf_frame gs0" "ys_send_buf s' = concat (map frame_bytes gs0)"
    and len: "length (ys_heap s') = length (ys_heap s) + (if cmd = OpenStream then 1 else 0)" by blast
  from gs [OF g0] g0 have "list_all wf_frame fs" "ys_send_buf s' = concat (map frame_bytes fs)" by simp_all
  note this len
  moreover have "delivered (s', log') (fst (handle_frames cbs fs t))" if "delivered (s, log) (fst t)"
    for cbs and t :: "'e ystate"
    using deliver_command [of s log "fst t" cmd cbs "snd t"] that assms(2-4) gs by (auto simp: carries_def)
  ultimately show ?thesis by (rule that)
qed

section \<open>The reading end\<close>

text \<open>The receiver hands out its streams in the order they appear in the heap of its multiplexer.\<close>

definition served :: "connection ystate \<Rightarrow> bool" where
  "served t \<longleftrightarrow> cn_pending_inbound (snd t) = map YamuxHandle [0..<length (ys_heap (fst t))]"

text \<open>Steps that neither add a stream nor hand one out.\<close>

definition quiet :: "connection ystate \<Rightarrow> connection ystate \<Rightarrow> bool" where
  "quiet t t' \<longleftrightarrow> length (ys_heap (fst t')) = length (ys_heap (fst t))
     \<and> cn_pending_inbound (snd t') = cn_pending_inbound (snd t)"

interpretation quieting: change_order quiet
  by unfold_locales (simp_all add: quiet_def)

lemma quiet_served: "quiet t t' \<Longrightarrow> served t \<Longrightarrow> served t'"
  by (simp add: quiet_def served_def)

lemma quiet_session: "length (ys_heap (f (fst t))) = length (ys_heap (fst t)) \<Longrightarrow> quiet t (on_session f t)"
  by (simp add: quiet_def)

lemma quiet_outgoing: "stays quiet (run_outgoing (session_callbacks C))"
proof (rule staysI, unfold split_paired_all)
  fix ys :: yamux_session and c
  have "calm {} c (snd (snd (flush_yamux_outgoing C (ys_send_buf ys) c)))" by (rule calm_flush_yamux)
  from calm_pending [OF this]
  show "quiet (ys, c) (snd (run_outgoing (session_callbacks C) (ys, c)))"
    by (simp add: quiet_def run_outgoing_def session_callbacks_def case_prod_beta Let_def)
qed

lemma quiet_sends:
  "stays quiet (and_then (update (on_session (write_frame hdr payload))) (\<lambda>_. run_outgoing (session_callbacks C)))"
  by (intro quieting.stays_and_then quieting.stays_update quiet_session quiet_outgoing) (simp add: heap_kept)

lemma quiet_closed: "quiet t (on_owner (map_option (\<lambda>cb. cb sid d) (close_cb (session_callbacks C))) t)"
  by (cases t) (simp add: quiet_def on_owner_def session_callbacks_def yamux_closed_def push_event_def)

lemma quiet_stages:
  "quiet t (apply_window hdr t)" "quiet t (apply_payload p payload t)"
  "quiet t (apply_fin (session_callbacks C) p hdr t)" "quiet t (apply_rst (session_callbacks C) p hdr t)"
proof -
  show "quiet t (apply_window hdr t)" "quiet t (apply_payload p payload t)"
    by (simp_all add: apply_window_def apply_payload_def quieting.unchanged quiet_session heap_kept map_stream_def)
  have fin: "quiet t (on_session (map_stream p receive_fin) t)" and rst: "quiet t (on_session (map_stream p receive_rst) t)"
    by (simp_all add: quiet_session map_stream_def)
  show "quiet t (apply_fin (session_callbacks C) p hdr t)"
    using fin quieting.later [OF fin quiet_closed] by (simp add: apply_fin_def Let_def quieting.unchanged)
  have "quiet u (on_session (erase_stream sid) u)" for sid u by (simp add: quiet_session heap_kept)
  from quieting.later [OF quieting.later [OF rst quiet_closed] this]
  show "quiet t (apply_rst (session_callbacks C) p hdr t)" by (simp add: apply_rst_def quieting.unchanged)
qed

lemma accept_served:
  assumes "served (s, c)" and "length (ys_heap s1) = Suc (length (ys_heap s))" and "p = length (ys_heap s)"
  shows "served (accept_new (session_callbacks C) p sid True (s1, c))"
proof -
  let ?t = "on_owner (map_option (\<lambda>cb. cb p sid) (accept_cb (session_callbacks C))) (s1, c)"
  have "served ?t"
    using assms by (simp add: served_def on_owner_def session_callbacks_def yamux_accept_def push_event_def)
  moreover have "stays quiet (acknowledge_stream (session_callbacks C) sid)"
    unfolding acknowledge_stream_def by (rule quiet_sends)
  ultimately show ?thesis
    using quiet_served [OF stays_apply [where R = quiet]] by (simp add: accept_new_def)
qed

lemma stream_frame_served:
  assumes "served t"
  shows "served (handle_stream_frame (session_callbacks C) hdr payload t)"
proof -
  obtain s c where t: "t = (s, c)" by force
  let ?sid = "hdr_stream_id hdr" and ?open = "has_flag (hdr_flags hdr) SYN"
  obtain q s1 where g: "get_or_create_stream ?sid ?open s = (q, s1)" by force
  show ?thesis
  proof (cases q)
    case None
    with g have "s1 = s" by (auto simp: get_or_create_stream_def Let_def split: option.splits if_splits)
    with g assms None show ?thesis by (simp add: handle_stream_frame_def t)
  next
    case (Some p)
    let ?new = "?open \<and> ys_streams s ?sid = None"
    have "served (accept_new (session_callbacks C) p ?sid ?new (s1, c))"
    proof (cases ?new)
      case True
      with g Some have "length (ys_heap s1) = Suc (length (ys_heap s))" "p = length (ys_heap s)"
        by (auto simp: get_or_create_stream_def Let_def)
      from accept_served [OF assms [unfolded t] this, of C ?sid] True show ?thesis by simp
    next
      case False
      with g Some have "s1 = s" by (auto simp: get_or_create_stream_def Let_def split: option.splits if_splits)
      with assms show ?thesis by (simp only: False t accept_not)
    qed
    note quiet_served [OF quiet_stages(1) this, THEN quiet_served [OF quiet_stages(2)],
        THEN quiet_served [OF quiet_stages(3)], THEN quiet_served [OF quiet_stages(4)]]
    with g Some show ?thesis by (simp add: handle_stream_frame_def t Let_def)
  qed
qed

lemma frame_served: "served t \<Longrightarrow> served (handle_frame (session_callbacks C) hdr payload t)"
proof -
  assume t: "served t"
  have "stays quiet (send_ping_ack (session_callbacks C) v)" "stays quiet (send_go_away (session_callbacks C) code)" for v code
    unfolding send_ping_ack_def send_go_away_def by (rule quiet_sends)+
  note sent = this [THEN stays_apply [where R = quiet], THEN quiet_served, OF t]
  have away: "served (on_session (\<lambda>s. s\<lparr>ys_remote_go_away := True\<rparr>) t)"
    by (rule quiet_served [OF quiet_session t]) simp
  have choice: "served x \<Longrightarrow> served y \<Longrightarrow> served (if b then x else y)" for x y b by simp
  show ?thesis
    unfolding handle_frame_def by (intro choice t sent away stream_frame_served)
qed

lemma frames_served: "served t \<Longrightarrow> served (handle_frames (session_callbacks C) fs t)"
proof (induction fs arbitrary: t)
  case (Cons f fs)
  from Cons.IH [OF frame_served [OF Cons.prems]] show ?case by (simp add: handle_frames_def case_prod_beta)
qed (simp add: handle_frames_def)

text \<open>The receiver is in step with what the sender has sealed.\<close>

definition in_step :: "sender \<Rightarrow> cipher_state \<Rightarrow> connection \<Rightarrow> bool" where
  "in_step x cs b \<longleftrightarrow> (\<exists>ys. cn_yamux b = Some ys \<and> delivered x ys \<and> ys_recv_buf ys = []
     \<and> ns_cs_recv (noise_of b) = cs \<and> served (ys, b)) \<and> is_active b
     \<and> sc_secure_ready (cn_secure b) \<and> sc_stage (cn_secure b) = StageReady"

lemma message_delivered:
  assumes "in_step x cs b" and "list_all wf_frame fs"
    and "\<And>t :: connection ystate. delivered x (fst t) \<Longrightarrow> delivered y (fst (handle_frames (session_callbacks C) fs t))"
  obtains b' where "deliver C (concat (map frame_bytes fs)) b = (Inr (), b')"
    and "in_step y cs b'" and "io_wire_rx (cn_io b') = io_wire_rx (cn_io b)"
proof -
  from assms(1) obtain ys where ys: "cn_yamux b = Some ys" "delivered x ys" "ys_recv_buf ys = []"
    "ns_cs_recv (noise_of b) = cs" "served (ys, b)" 
    and act: "is_active b" "sc_secure_ready (cn_secure b)" "sc_stage (cn_secure b) = StageReady" by (auto simp: in_step_def)
  obtain ys' c' where h: "handle_frames (session_callbacks C) fs (ys, b) = (ys', c')" by force
  have r: "receive (session_callbacks C) (concat (map frame_bytes fs)) (ys, b) = (Inr (), (ys'\<lparr>ys_recv_buf := []\<rparr>, c'))"
    using receive_frames [of "session_callbacks C" "concat (map frame_bytes fs)" "(ys, b)"] parse_sent [OF assms(2)] ys(3) h
    by (simp add: prod_eq_iff set_recv_def) (simp add: receive_def and_then_def)
  have calm: "calm stream_traffic b c'"
    using owner_receive [OF session_owner_calm, where t = "(ys, b)" and data = "concat (map frame_bytes fs)", of C] r by simp
  have "deliver C (concat (map frame_bytes fs)) b = (Inr (), c'\<lparr>cn_yamux := Some (ys'\<lparr>ys_recv_buf := []\<rparr>)\<rparr>)"
    using ys(1) r by (simp add: deliver_def with_yamux_def)
  moreover have "in_step y cs (c'\<lparr>cn_yamux := Some (ys'\<lparr>ys_recv_buf := []\<rparr>)\<rparr>)"
    using assms(3) [of "(ys, b)"] ys(2,4) frames_served [OF ys(5), of C fs] h calmD(18) [OF calm] act calmD(1,11,12,14) [OF calm]
    by (simp add: in_step_def served_def is_active_def) (simp add: noise_of_def)
  moreover have "io_wire_rx (cn_io (c'\<lparr>cn_yamux := Some (ys'\<lparr>ys_recv_buf := []\<rparr>)\<rparr>)) = io_wire_rx (cn_io b)"
    using calmD(10) [OF calm] by simp
  ultimately show ?thesis by (rule that)
qed

lemma sealed_delivered:
  assumes "in_step x cs b" and "list_all wf_frame fs"
    and "\<And>t :: connection ystate. delivered x (fst t) \<Longrightarrow> delivered y (fst (handle_frames (session_callbacks C) fs t))"
    and "fits_frame ct" and "decrypt C ct cs = (Inr (concat (map frame_bytes fs)), cs')"
    and "io_wire_rx (cn_io b) = framed ct @ rest"
  obtains b' where "data_loop C b = data_loop C b'" and "in_step y cs' b'" and "io_wire_rx (cn_io b') = rest"
proof -
  let ?b = "set_noise ((noise_of b)\<lparr>ns_cs_recv := cs'\<rparr>) (set_rx rest b)"
  have "decrypt C ct (ns_cs_recv (noise_of b)) = (Inr (concat (map frame_bytes fs)), cs')"
    using assms(1,5) by (auto simp: in_step_def)
  then have open_it: "on_cs_recv (decrypt C ct) (set_rx rest b) = (Inr (concat (map frame_bytes fs)), ?b)"
    by (simp add: on_cs_recv_def on_noise_def zoom_def set_rx_def set_io_def noise_of_def)
  have "in_step x cs' ?b"
    using assms(1) by (auto simp: in_step_def set_rx_def set_io_def set_noise_def map_secure_def noise_of_def served_def is_active_def)
  from message_delivered [OF this assms(2,3)] obtain b'
    where b': "deliver C (concat (map frame_bytes fs)) ?b = (Inr (), b')" "in_step y cs' b'"
      "io_wire_rx (cn_io b') = io_wire_rx (cn_io ?b)" by blast
  have "data_loop C b = data_loop C b'"
    by (subst data_loop.simps) (simp add: assms(6) try_pop_framed [OF assms(4)] and_then_def open_it b'(1))
  moreover have "io_wire_rx (cn_io b') = rest"
    using b'(3) by (simp add: set_noise_def map_secure_def set_rx_def set_io_def)
  ultimately show ?thesis using b'(2) that by blast
qed

section \<open>One command\<close>

text \<open>The largest write that fits a sealed message, and the space each command needs.\<close>

fun sealable :: "command \<Rightarrow> bool" where
  "sealable (WriteStream p data) \<longleftrightarrow> length data \<le> 65507"
| "sealable _ \<longleftrightarrow> True"

lemma same_yamux: "cn_yamux a = Some s \<Longrightarrow> ys_send_buf s = [] \<Longrightarrow> a\<lparr>cn_yamux := Some (s\<lparr>ys_send_buf := []\<rparr>)\<rparr> = a"
  by (cases a; cases s) simp

lemma noise_of_yamux: "noise_of (c\<lparr>cn_yamux := y\<rparr>) = noise_of c"
  by (simp add: noise_of_def)

lemma pushed: "cn_io (push_event ty sid d c) = cn_io c" "noise_of (push_event ty sid d c) = noise_of c"
  by (simp_all add: push_event_def noise_of_def)

lemma seals_push: "seals C m c (push_event ty sid d c') cts = seals C m c c' cts"
  by (simp add: seals_def pushed)

lemma can_seal_push [simp]: "can_seal k s (push_event ty sid d c) = can_seal k s c"
  by (simp add: can_seal_def push_event_def noise_of_def)

lemma delivered_handle:
  assumes "delivered (s, log) ys" and "p < length (ys_heap s)"
  shows "st_id (stream_at s p) = stream_number p" "\<not> st_reset (stream_at s p)" "ys_streams s (st_id (stream_at s p)) = Some p"
    "\<exists>w. ys_send_windows s (st_id (stream_at s p)) = Some w"
proof -
  have im: "images (s, log) ys" using assms(1) by (simp add: delivered_def)
  note d = imagesD [OF im assms(2)]
  then show "st_id (stream_at s p) = stream_number p" "\<not> st_reset (stream_at s p)" "ys_streams s (st_id (stream_at s p)) = Some p"
    "\<exists>w. ys_send_windows s (st_id (stream_at s p)) = Some w" by (auto simp: stream_at_def)
qed

lemma delivered_fresh:
  assumes "delivered (s, log) ys" and "length (ys_heap s) < 2 ^ 31"
  shows "\<not> ys_remote_go_away s" "ys_streams s (ys_next_stream_id s) = None"
  using assms by (auto simp: delivered_def)

lemma send_buf_written: "ys_send_buf (write_frame hdr payload s) = ys_send_buf s @ frame_bytes (hdr, payload)"
  by (simp add: write_frame_def)

lemma command_size:
  assumes "delivered (s, log) ys" and "length (ys_heap s) + (if cmd = OpenStream then 1 else 0) \<le> 2 ^ 31"
    and "ys_send_buf s = []" and "sealable cmd"
  shows "length (ys_send_buf (fst (run_command cmd (s, log)))) \<le> max_plaintext"
proof (cases cmd)
  case OpenStream
  with assms(2) have "length (ys_heap s) < 2 ^ 31" by simp
  from open_stream_fresh [OF delivered_fresh [OF assms(1) this], of "()"] OpenStream assms(3) show ?thesis
    by (simp add: send_buf_written frame_bytes_length max_plaintext_def kHeaderSize_def)
next
  case (WriteStream p data)
  show ?thesis
  proof (cases "p < length (ys_heap s)")
    case True
    then obtain w where "ys_send_windows s (st_id (stream_at s p)) = Some w"
      using delivered_handle(4) [OF assms(1)] by blast
    from try_write_out(2) [OF this refl True] WriteStream assms(3,4) show ?thesis
      by (simp add: send_buf_written frame_bytes_length max_plaintext_def kHeaderSize_def min_le_iff_disj)
  qed (simp add: WriteStream assms(3))
next
  case (CloseStream p)
  show ?thesis
  proof (cases "p < length (ys_heap s)")
    case True
    from close_write_cases [OF delivered_handle(3) [OF assms(1) True], of "()"] CloseStream assms(3) show ?thesis
      by (simp add: send_buf_written frame_bytes_length max_plaintext_def kHeaderSize_def map_stream_def)
  qed (simp add: CloseStream assms(3))
qed

text \<open>A command on the connection does to its multiplexer what it does to a multiplexer alone, and
  seals what that would send.\<close>

lemma command_performed:
  assumes "crypto_ok C" and "can_seal (Suc k) s a" and "delivered (s, log) ys"
    and "length (ys_heap s) + (if cmd = OpenStream then 1 else 0) \<le> 2 ^ 31" and "sealable cmd"
    and "run_command cmd (s, log) = (s', log')"
  obtains a' cts t where "app_command C proto cmd (a, log) = (a', log')" and "seals C (ys_send_buf s') a a' cts"
    and "can_seal k t a'" and "\<And>y. delivered (t, log') y = delivered (s', log') y" and "length (ys_heap t) = length (ys_heap s')"
    and "t = (if cmd = OpenStream then map_stream (length (ys_heap s)) (set_protocol proto) (s'\<lparr>ys_send_buf := []\<rparr>)
      else s'\<lparr>ys_send_buf := []\<rparr>)"
proof -
  let ?cbs = "session_callbacks C" and ?s' = "s'\<lparr>ys_send_buf := []\<rparr>"
  have a: "cn_yamux a = Some s" "ys_send_buf s = []" "is_active a" "cn_state a = Ready"
    using assms(2) by (auto simp: can_seal_def is_active_def blocked_socket_def)
  have "length (ys_send_buf s') \<le> max_plaintext"
    using command_size [OF assms(3,4) a(2) assms(5)] assms(6) by simp
  from outgoing_seals [OF assms(1,2) this] obtain c' cts
    where out: "run_outgoing ?cbs (s', a) = (Inr (), (?s', c'))" and seals: "seals C (ys_send_buf s') a c' cts"
      and can: "\<And>t. can_seal k t (c'\<lparr>cn_yamux := Some t\<rparr>) \<longleftrightarrow> ys_send_buf t = []"
      and none: "ys_send_buf s' = [] \<Longrightarrow> c' = a" by blast
  have seals': "seals C (ys_send_buf s') a (c'\<lparr>cn_yamux := Some t\<rparr>) cts" for t
    using seals by (simp add: seals_def noise_of_yamux)
  note result = that
  have finished: thesis if "app_command C proto cmd (a, log) = (c'\<lparr>cn_yamux := Some ?s'\<rparr>, log')" "cmd \<noteq> OpenStream"
    by (rule result [OF that(1) seals', of ?s']) (simp_all add: can that(2))
  have idle: thesis if "app_command C proto cmd (a, log) = (a, log)" "s' = s" "log' = log" "cmd \<noteq> OpenStream"
    by (rule finished) (use that none a in \<open>simp_all add: same_yamux\<close>)
  show thesis
  proof (cases cmd)
    case OpenStream
    let ?p = "length (ys_heap s)" and ?t = "map_stream (length (ys_heap s)) (set_protocol proto) ?s'"
    have "?p < 2 ^ 31" using OpenStream assms(4) by simp
    from open_stream_out [OF delivered_fresh [OF assms(3) this], of ?cbs a log] OpenStream assms(6) out
    have "open_stream ?cbs (s, a) = (Inr ?p, (?s', c'))" by (simp add: and_then_def)
    then have "app_command C proto cmd (a, log) = (push_event EvStreamOpened
        (Some (stream_id (YamuxHandle ?p) (c'\<lparr>cn_yamux := Some ?t\<rparr>))) ''outbound yamux stream opened'' (c'\<lparr>cn_yamux := Some ?t\<rparr>), log')"
      using OpenStream a assms(6) by (simp add: request_open_stream_def with_yamux_def and_then_def Let_def on_yamux_def)
    moreover have "seals C (ys_send_buf s') a (push_event ty sid d (c'\<lparr>cn_yamux := Some ?t\<rparr>)) cts" for ty sid d
      using seals' [of ?t] by (simp only: seals_push)
    ultimately show thesis
      by (rule result [where t = ?t]) (simp_all add: can OpenStream, simp_all add: map_stream_def)
  next
    case (WriteStream p data)
    show thesis
    proof (cases "p < length (ys_heap s)")
      case True
      then obtain w where w: "ys_send_windows s (st_id (stream_at s p)) = Some w"
        using delivered_handle(4) [OF assms(3)] by blast
      define n where "n = min (length data) (unat w)"
      note written = try_write_out(1) [OF w n_def True, where cbs = ?cbs and e = a and log = log] try_write_out(2) [OF w n_def True, of log]
      have valid: "handle_valid a (YamuxHandle p)" using True a by (simp add: handle_valid_def)
      show thesis
      proof (cases "st_write_closed (stream_at s p) \<or> st_reset (stream_at s p) \<or> n = 0")
        case True
        then show thesis using written valid WriteStream assms(6) a
          by (intro idle) (auto simp: stream_try_write_def with_yamux_def)
      next
        case False
        then show thesis using written valid WriteStream assms(6) a out
          by (intro finished) (simp_all add: stream_try_write_def with_yamux_def and_then_def)
      qed
    qed (use WriteStream assms(6) a in \<open>simp add: handle_valid_def idle\<close>)
  next
    case (CloseStream p)
    show thesis
    proof (cases "p < length (ys_heap s)")
      case True
      have valid: "handle_valid a (YamuxHandle p)" using True a by (simp add: handle_valid_def)
      note shut = close_write_out [OF delivered_handle(3) [OF assms(3) True] True]
      show thesis
      proof (cases "st_write_closed (stream_at s p)")
        case True
        with shut(1) [where cbs = ?cbs and e = a and log = log] shut(2) [where log = log] valid CloseStream assms(6) a show thesis
          by (intro idle) (simp_all add: stream_close_write_def with_yamux_def)
      next
        case False
        with shut(1) [where cbs = ?cbs and e = a and log = log] valid CloseStream assms(6) a out show thesis
          by (intro finished) (auto simp: stream_close_write_def with_yamux_def split: if_splits)
      qed
    qed (use CloseStream assms(6) a in \<open>simp add: handle_valid_def idle\<close>)
  qed
qed

section \<open>What crosses the connection\<close>

text \<open>The ends of a connection whose sender is at \<open>x\<close>.\<close>

type_synonym sending_end = "connection \<times> (nat \<Rightarrow> bytes)"

definition paired :: "sending_end \<Rightarrow> connection \<Rightarrow> bool" where
  "paired x b \<longleftrightarrow> (\<exists>s. cn_yamux (fst x) = Some s \<and> in_step (s, snd x) (ns_cs_send (noise_of (fst x))) b)"

text \<open>From \<open>x\<close> to \<open>y\<close> the sender queues the messages \<open>cts\<close>, and a receiver in step with \<open>x\<close> that reads
  them is in step with \<open>y\<close>.\<close>

definition conveys :: "crypto \<Rightarrow> sending_end \<Rightarrow> sending_end \<Rightarrow> bytes list \<Rightarrow> bool" where
  "conveys C x y cts \<longleftrightarrow> cn_io (fst y) = queued (concat (map framed cts)) (cn_io (fst x))
     \<and> (\<forall>b rest. paired x b \<and> io_wire_rx (cn_io b) = concat (map framed cts) @ rest \<longrightarrow>
          (\<exists>b'. data_loop C b = data_loop C b' \<and> paired y b' \<and> io_wire_rx (cn_io b') = rest))"

lemma conveys_read:
  assumes "conveys C x y cts" and "paired x b" and "io_wire_rx (cn_io b) = concat (map framed cts) @ rest"
  obtains b' where "data_loop C b = data_loop C b'" and "paired y b'" and "io_wire_rx (cn_io b') = rest"
  using assms unfolding conveys_def by blast

lemma conveys_refl: "conveys C x x []"
  by (auto simp: conveys_def queued_def)

text \<open>Message by message: the way from \<open>x\<close> to \<open>z\<close> over the messages \<open>cts\<close>.\<close>

inductive journey :: "crypto \<Rightarrow> sending_end \<Rightarrow> bytes list \<Rightarrow> sending_end \<Rightarrow> bool" for C where
  arrived: "journey C x [] x"
| silent: "conveys C x y [] \<Longrightarrow> journey C y cts z \<Longrightarrow> journey C x cts z"
| hop: "conveys C x y [ct] \<Longrightarrow> fits_frame ct \<Longrightarrow> journey C y cts z \<Longrightarrow> journey C x (ct # cts) z"

lemma journey_io: "journey C x cts z \<Longrightarrow> cn_io (fst z) = queued (concat (map framed cts)) (cn_io (fst x))"
  by (induction rule: journey.induct) (simp_all add: conveys_def queued_def)

text \<open>A buffer that starts the messages still to come holds the first of them whole, or nothing that
  can be cut out.\<close>

lemma first_frame:
  assumes "rx @ later = framed ct @ others" and "fits_frame ct"
  obtains rest where "rx = framed ct @ rest" and "rest @ later = others"
  | "try_pop_wire_frame rx = NoFrame" and "later \<noteq> []"
proof (cases "length (framed ct) \<le> length rx")
  case True
  then have "take (length (framed ct)) rx = framed ct" "drop (length (framed ct)) rx @ later = others"
    using arg_cong [OF assms(1), of "take (length (framed ct))"] arg_cong [OF assms(1), of "drop (length (framed ct))"] by simp_all
  with that(1) show ?thesis by (metis append_take_drop_id)
next
  case False
  have "wire_parse rx = None"
  proof (rule ccontr)
    assume "wire_parse rx \<noteq> None"
    then obtain f r where p: "wire_parse rx = Some (f, r)" by auto
    from wire.parse_append [OF p, of later] try_pop_framed [OF assms(2), of others]
    have "r @ later = others" by (simp add: assms(1) wire_parse_Some)
    then have "length others = length r + length later" by auto
    with arg_cong [OF assms(1), of length] False show False by simp
  qed
  then have "try_pop_wire_frame rx = NoFrame"
    using try_pop_no_error [of rx] by (auto simp: wire_parse_def split: pop_result.splits)
  moreover have "later \<noteq> []" using assms(1) False by auto
  ultimately show ?thesis by (rule that(2))
qed

text \<open>Whatever part of the messages has arrived, reading it ends without an error, in step with the
  sender as it was at that point; with all of them, as it is at the end.\<close>

lemma journey_read:
  assumes "journey C x cts z" and "paired x b" and "io_wire_rx (cn_io b) @ later = concat (map framed cts)"
  shows "\<exists>x' cts' b'. data_loop C b = (Inr (), b') \<and> journey C x' cts' z \<and> paired x' b'
    \<and> io_wire_rx (cn_io b') @ later = concat (map framed cts') \<and> (later = [] \<longrightarrow> paired z b')"
  using assms
proof (induction arbitrary: b rule: journey.induct)
  case (arrived x)
  then show ?case
    by (intro exI [of _ x] exI [of _ "[]"] exI [of _ b]) (simp add: loops_idle journey.arrived)
next
  case (silent x y cts z)
  have "io_wire_rx (cn_io b) = concat (map framed []) @ io_wire_rx (cn_io b)" by simp
  from conveys_read [OF silent.hyps(1) silent.prems(1) this] obtain b1
    where b1: "data_loop C b = data_loop C b1" "paired y b1" "io_wire_rx (cn_io b1) = io_wire_rx (cn_io b)" .
  from silent.IH [OF b1(2)] silent.prems(2) show ?case by (simp add: b1(1,3))
next
  case (hop x y ct cts z)
  have first: "io_wire_rx (cn_io b) @ later = framed ct @ concat (map framed cts)" using hop.prems(2) by simp
  show ?case
  proof (cases rule: first_frame [OF first hop.hyps(2)])
    case (1 rest)
    then have "io_wire_rx (cn_io b) = concat (map framed [ct]) @ rest" by simp
    from conveys_read [OF hop.hyps(1) hop.prems(1) this] obtain b1
      where b1: "data_loop C b = data_loop C b1" "paired y b1" "io_wire_rx (cn_io b1) = rest" .
    from hop.IH [OF b1(2)] 1(2) show ?thesis by (simp add: b1(1,3))
  next
    case 2
    then have "data_loop C b = (Inr (), b)" by (subst data_loop.simps) simp
    moreover have "journey C x (ct # cts) z" using hop.hyps by (intro journey.hop)
    ultimately show ?thesis using 2(2) hop.prems by blast
  qed
qed

text \<open>A sender with \<open>n\<close> streams that can seal \<open>k\<close> more messages.\<close>

definition sending :: "nat \<Rightarrow> nat \<Rightarrow> sending_end \<Rightarrow> bool" where
  "sending k n x \<longleftrightarrow> (\<exists>s ys. can_seal k s (fst x) \<and> delivered (s, snd x) ys \<and> length (ys_heap s) = n)"

lemma no_frames: "concat (map frame_bytes fs) = [] \<Longrightarrow> fs = []"
proof (cases fs)
  case (Cons f gs)
  have "length (frame_bytes f) = 12 + length (snd f)" using frame_bytes_length [of "fst f" "snd f"] by simp
  then have "frame_bytes f \<noteq> []" by (metis add_is_0 list.size(3) zero_neq_numeral)
  moreover assume "concat (map frame_bytes fs) = []"
  ultimately show ?thesis by (simp add: Cons)
qed simp

lemma command_conveyed:
  assumes "crypto_ok C" and "sending (Suc k) n (a, log)" and "n + (if cmd = OpenStream then 1 else 0) \<le> 2 ^ 31"
    and "sealable cmd"
  obtains cts where "conveys C (a, log) (app_command C proto cmd (a, log)) cts"
    and "sending k (n + (if cmd = OpenStream then 1 else 0)) (app_command C proto cmd (a, log))"
    and "cts = [] \<or> (\<exists>ct. cts = [ct] \<and> fits_frame ct)"
proof -
  from assms(2) obtain s ys where s: "can_seal (Suc k) s a" "delivered (s, log) ys" "length (ys_heap s) = n"
    by (auto simp: sending_def)
  have a: "cn_yamux a = Some s" "ys_send_buf s = []" using s(1) by (simp_all add: can_seal_def)
  obtain s' log' where run: "run_command cmd (s, log) = (s', log')" by force
  note n = assms(3) [folded s(3)]
  from command_carries [OF s(2) n a(2) run, where 'e = connection] obtain fs
    where fs: "list_all wf_frame fs" "ys_send_buf s' = concat (map frame_bytes fs)"
      "length (ys_heap s') = length (ys_heap s) + (if cmd = OpenStream then 1 else 0)"
      and upto: "\<And>cbs t :: connection ystate. delivered (s, log) (fst t) \<Longrightarrow> delivered (s', log') (fst (handle_frames cbs fs t))"
    by blast
  obtain a' cts t
    where app: "app_command C proto cmd (a, log) = (a', log')" and seals: "seals C (ys_send_buf s') a a' cts"
      and t: "can_seal k t a'" "\<And>y. delivered (t, log') y = delivered (s', log') y" "length (ys_heap t) = length (ys_heap s')"
    by (rule command_performed [OF assms(1) s(1,2) n assms(4) run, of proto]) (rule that)
  have io: "cn_io a' = queued (concat (map framed cts)) (cn_io a)"
  proof (cases "ys_send_buf s' = []")
    case True
    with seals show ?thesis by (simp add: seals_def queued_def)
  next
    case False
    from seals [unfolded seals_def if_not_P [OF False]] show ?thesis by force
  qed
  have t_of: "cn_yamux a' = Some t" using t(1) by (simp add: can_seal_def)
  have step: "\<exists>b'. data_loop C b = data_loop C b' \<and> paired (a', log') b' \<and> io_wire_rx (cn_io b') = rest"
    if b: "in_step (s, log) (ns_cs_send (noise_of a)) b" and rx: "io_wire_rx (cn_io b) = concat (map framed cts) @ rest" for b rest
  proof (cases "ys_send_buf s' = []")
    case True
    then have "fs = []" using fs(2) by (intro no_frames) simp
    then have same: "delivered (s, log) y \<Longrightarrow> delivered (s', log') y" for y
      using upto [of "(y, a)" no_callbacks] by (simp add: handle_frames_def)
    have "ns_cs_send (noise_of a') = ns_cs_send (noise_of a)" using True seals by (simp add: seals_def)
    with b same t(2) have "paired (a', log') b" by (auto simp: paired_def in_step_def t_of)
    with rx True seals show ?thesis by (intro exI [of _ b]) (simp add: seals_def)
  next
    case False
    with seals obtain ct where ct: "cts = [ct]" "fits_frame ct"
      "decrypt C ct (ns_cs_send (noise_of a)) = (Inr (concat (map frame_bytes fs)), ns_cs_send (noise_of a'))"
      unfolding seals_def if_not_P [OF False] fs(2) [symmetric] by blast
    from rx ct(1) have "io_wire_rx (cn_io b) = framed ct @ rest" by simp
    from sealed_delivered [OF b fs(1) upto ct(2,3) this] obtain b'
      where "data_loop C b = data_loop C b'" "in_step (s', log') (ns_cs_send (noise_of a')) b'" "io_wire_rx (cn_io b') = rest"
      by blast
    then show ?thesis using t(2) by (auto simp: paired_def in_step_def t_of)
  qed
  have "conveys C (a, log) (a', log') cts"
    unfolding conveys_def
  proof (intro conjI allI impI)
    fix b rest assume "paired (a, log) b \<and> io_wire_rx (cn_io b) = concat (map framed cts) @ rest"
    then show "\<exists>b'. data_loop C b = data_loop C b' \<and> paired (a', log') b' \<and> io_wire_rx (cn_io b') = rest"
      using step [of b rest] a(1) by (simp add: paired_def)
  qed (simp add: io)
  moreover have "sending k (n + (if cmd = OpenStream then 1 else 0)) (a', log')"
  proof -
    have "delivered (t, log') (fst (handle_frames no_callbacks fs (ys, a)))"
      using upto [of "(ys, a)" no_callbacks] s(2) t(2) by simp
    moreover have "length (ys_heap t) = n + (if cmd = OpenStream then 1 else 0)" using t(3) fs(3) s(3) by simp
    ultimately show ?thesis unfolding sending_def fst_conv snd_conv using t(1) by blast
  qed
  moreover have "cts = [] \<or> (\<exists>ct. cts = [ct] \<and> fits_frame ct)"
    using seals by (cases "ys_send_buf s' = []") (auto simp: seals_def)
  ultimately show ?thesis by (intro that) (simp_all only: app)
qed

lemma commands_conveyed:
  assumes "crypto_ok C" and "sending (length cs) n x" and "n + opens cs \<le> 2 ^ 31" and "list_all sealable cs"
  shows "\<exists>cts. journey C x cts (app_commands C proto cs x) \<and> sending 0 (n + opens cs) (app_commands C proto cs x)"
  using assms(2-4)
proof (induction cs arbitrary: x n)
  case Nil
  then show ?case using journey.arrived [of C x] by (auto simp: app_commands_def opens_def)
next
  case (Cons cmd cs)
  let ?k = "if cmd = OpenStream then 1 else 0 :: nat" and ?y = "app_command C proto cmd x"
  obtain a log where x: "x = (a, log)" by force
  from Cons.prems have "sending (Suc (length cs)) n (a, log)" "n + ?k \<le> 2 ^ 31" "sealable cmd"
    by (simp_all add: x opens_Cons split: if_splits)
  from command_conveyed [OF assms(1) this] obtain cts
    where one: "conveys C x ?y cts" "sending (length cs) (n + ?k) ?y" "cts = [] \<or> (\<exists>ct. cts = [ct] \<and> fits_frame ct)"
    unfolding x by blast
  have "n + ?k + opens cs \<le> 2 ^ 31" "list_all sealable cs" using Cons.prems(2,3) by (simp_all add: opens_Cons)
  from Cons.IH [OF one(2) this] obtain cts'
    where rest: "journey C ?y cts' (app_commands C proto cs ?y)" "sending 0 (n + ?k + opens cs) (app_commands C proto cs ?y)"
    by blast
  have "journey C x (cts @ cts') (app_commands C proto cs ?y)"
    using one(1,3) rest(1) by (auto intro: journey.silent journey.hop)
  with rest(2) show ?case
    by (intro exI [of _ "cts @ cts'"]) (simp add: app_commands_def opens_Cons add.assoc)
qed

section \<open>The network\<close>

text \<open>The bytes the socket of \<open>a\<close> takes when it becomes writable and takes everything, and the other
  end being told, piece by piece, that bytes have arrived.\<close>

definition transmitted :: "connection \<Rightarrow> bytes" where
  "transmitted a =
     (let a1 = on_socket_writable (set_kernel [] [SendSome (length (io_wire_tx (cn_io a)))] None a)
      in drop (length (io_sent (cn_io a))) (io_sent (cn_io a1)))"

definition arrive_in :: "crypto \<Rightarrow> bytes list \<Rightarrow> connection \<Rightarrow> connection" where
  "arrive_in C pieces b = foldl (\<lambda>b piece. on_socket_readable C (set_kernel [RecvData piece] [] None b)) b pieces"

lemma transmitted_all:
  assumes "is_active a" and "0 \<le> io_fd (cn_io a)" and "cn_stream_state a = None"
  shows "transmitted a = io_wire_tx (cn_io a)"
proof (cases "io_wire_tx (cn_io a) = []")
  case True
  with assms show ?thesis
    by (simp add: transmitted_def on_socket_writable_def set_kernel_def set_io_def is_active_def flush_pending_writes_def
        on_io_def zoom_def and_then_def flush_wire_def flush_loop.simps)
next
  case False
  from writable_all [OF assms False] show ?thesis by (simp add: transmitted_def Let_def) (simp add: set_io_def)
qed

lemma in_step_given: "in_step x cs (set_io (given bs (cn_io b)) b) = in_step x cs b"
  by (simp add: in_step_def set_io_def noise_of_def served_def is_active_def)

lemma in_step_pending: "in_step x cs b \<Longrightarrow> process_pending_input C b = data_loop C b"
  by (auto simp: in_step_def process_pending_input_def and_then_def)

lemma piece_read:
  assumes "journey C x cts z" and "paired x b" and "io_wire_rx (cn_io b) @ piece @ later = concat (map framed cts)" and "piece \<noteq> []"
  shows "\<exists>x' cts'. journey C x' cts' z \<and> paired x' (on_socket_readable C (set_kernel [RecvData piece] [] None b))
    \<and> io_wire_rx (cn_io (on_socket_readable C (set_kernel [RecvData piece] [] None b))) @ later = concat (map framed cts')
    \<and> (later = [] \<longrightarrow> paired z (on_socket_readable C (set_kernel [RecvData piece] [] None b)))"
proof -
  let ?b = "set_io (given piece (cn_io b)) b"
  have p: "paired x ?b" using assms(2) by (simp add: paired_def in_step_given)
  have rx: "io_wire_rx (cn_io ?b) @ later = concat (map framed cts)" using assms(3) by (simp add: set_io_def)
  from journey_read [OF assms(1) p rx] obtain x' cts' b' where r: "data_loop C ?b = (Inr (), b')" "journey C x' cts' z"
    "paired x' b'" "io_wire_rx (cn_io b') @ later = concat (map framed cts')" "later = [] \<longrightarrow> paired z b'" by blast
  have act: "is_active b" using assms(2) by (auto simp: paired_def in_step_def)
  have "process_pending_input C ?b = (Inr (), b')"
    using p r(1) in_step_pending [where b = ?b] by (auto simp: paired_def)
  with readable_given [OF act assms(4), of C] have "on_socket_readable C (set_kernel [RecvData piece] [] None b) = b'" by simp
  with r(2-5) show ?thesis by blast
qed

lemma pieces_read:
  assumes "journey C x cts z" and "paired x b" and "io_wire_rx (cn_io b) @ concat pieces = concat (map framed cts)"
    and "[] \<notin> set pieces" and "pieces = [] \<Longrightarrow> paired z b"
  shows "paired z (arrive_in C pieces b)"
  using assms
proof (induction pieces arbitrary: x cts b)
  case (Cons piece pieces)
  from Cons.prems have "io_wire_rx (cn_io b) @ piece @ concat pieces = concat (map framed cts)" "piece \<noteq> []" by auto
  from piece_read [OF Cons.prems(1,2) this] obtain x' cts' where "journey C x' cts' z"
    "paired x' (on_socket_readable C (set_kernel [RecvData piece] [] None b))"
    "io_wire_rx (cn_io (on_socket_readable C (set_kernel [RecvData piece] [] None b))) @ concat pieces = concat (map framed cts')"
    "concat pieces = [] \<longrightarrow> paired z (on_socket_readable C (set_kernel [RecvData piece] [] None b))" by blast
  from Cons.IH [OF this(1-3)] this(4) Cons.prems(4) show ?case by (simp add: arrive_in_def)
qed (simp add: arrive_in_def)

text \<open>The two ends of a connection that has just been upgraded.\<close>

lemma upgraded_sending:
  assumes "upgraded base a n []" and "cs_has_key (ns_cs_send n)" and "cs_nonce (ns_cs_send n) = 0" and "cn_is_initiator base"
    and "k < 2 ^ 64"
  shows "can_seal k (new_session (cn_id base) True) a" "sending k 0 (a, \<lambda>_. [])"
proof -
  show can: "can_seal k (new_session (cn_id base) True) a"
    using assms by (simp add: can_seal_def upgraded_def idle_io_def blocked_socket_def new_session_def)
  show "sending k 0 (a, \<lambda>_. [])"
    unfolding sending_def fst_conv snd_conv
    by (intro exI conjI, rule can, rule delivered_new) (simp add: new_session_def)
qed

lemma upgraded_receiver:
  assumes "upgraded base b n []" and "\<not> cn_is_initiator base" and "conn_reachable C log b"
  shows "in_step (new_session c True, \<lambda>_. []) (ns_cs_recv n) b"
proof -
  note s = conn_reachable_settled [OF assms(3)]
  have b: "cn_yamux b = Some (new_session (cn_id base) False)" "sc_secure_ready (cn_secure b)" "noise_of b = n"
    using assms(1,2) by (simp_all add: upgraded_def)
  have "cn_pending_inbound b = []" by (rule upgraded_nothing_waits [OF assms(1) s reachable_pending [OF assms(3)]])
  moreover have "sc_stage (cn_secure b) = StageReady" using s b(2) by (simp add: settled_def inv_defs)
  ultimately show ?thesis
    using b upgraded_active [OF assms(1)] delivered_new
    by (simp add: in_step_def served_def) (simp add: new_session_def)
qed

text \<open>What a read at the receiving end finds.\<close>

lemma read_delivered:
  assumes "in_step (s, log) cs b" and "p < length (ys_heap s)"
  shows "fst (stream_try_read C (YamuxHandle p) n b) =
    (if log p \<noteq> [] then Inr (take n (log p)) else if write_closed (stream_at s p) then Inr [] else Inl ''EAGAIN'')"
    and "stream_id (YamuxHandle p) b = stream_number p" and "cn_pending_inbound b = map YamuxHandle [0..<length (ys_heap s)]"
proof -
  from assms(1) obtain ys where ys: "cn_yamux b = Some ys" "images (s, log) ys" "served (ys, b)"
    by (auto simp: in_step_def delivered_def)
  from ys(2) assms(2) have p: "st_recv_buf (stream_at ys p) = log p" "\<not> st_reset (stream_at ys p)"
    "st_read_closed (stream_at ys p) = st_write_closed (stream_at s p)" "st_id (stream_at ys p) = stream_number p"
    "length (ys_heap ys) = length (ys_heap s)" "\<not> st_reset (stream_at s p)" by (auto simp: images_def stream_at_def)
  have "take (min n (length (log p))) (log p) = take n (log p)" by (metis min_def nat_le_linear take_all)
  then show "fst (stream_try_read C (YamuxHandle p) n b) =
    (if log p \<noteq> [] then Inr (take n (log p)) else if write_closed (stream_at s p) then Inr [] else Inl ''EAGAIN'')"
    using p by (simp add: stream_try_read_def with_yamux_def ys(1) try_read_def Let_def and_then_def write_closed_def
        case_prod_beta)
  show "stream_id (YamuxHandle p) b = stream_number p" "cn_pending_inbound b = map YamuxHandle [0..<length (ys_heap s)]"
    using p ys by (simp_all add: stream_id_def served_def)
qed

text \<open>What the dialling application does on a connection just upgraded reaches the other end.\<close>

lemma commands_carried:
  assumes C: "crypto_ok C" and up: "upgraded a a1 nA []" "cn_is_initiator a" "upgraded b b1 nB []" "\<not> cn_is_initiator b"
    and reach: "conn_reachable C [] b1" and agree: "agreed nA nB"
    and run: "app_commands C proto cs (a1, \<lambda>_. []) = (a2, log)"
    and net: "concat pieces = transmitted a2" "[] \<notin> set pieces" "b2 = arrive_in C pieces b1"
    and cs: "opens cs \<le> 2 ^ 31" "list_all sealable cs" "length cs < 2 ^ 64"
  obtains s ys where "cn_yamux a2 = Some s" and "delivered (s, log) ys" and "length (ys_heap s) = opens cs"
    and "in_step (s, log) (ns_cs_send (noise_of a2)) b2"
proof -
  have key: "cs_has_key (ns_cs_send nA)" "cs_nonce (ns_cs_send nA) = 0" "ns_cs_recv nB = ns_cs_send nA"
    using agree by (auto simp: agreed_def)
  have a1: "noise_of a1 = nA" "cn_yamux a1 = Some (new_session (cn_id a) True)" "idle_io [] (cn_io a1)"
    and b1: "io_wire_rx (cn_io b1) = []"
    using up by (simp_all add: upgraded_def idle_io_def)
  from commands_conveyed [OF C upgraded_sending(2) [OF up(1) key(1,2) up(2) cs(3)], of proto] run cs(1,2) obtain cts
    where cts: "journey C (a1, \<lambda>_. []) cts (a2, log)" "sending 0 (opens cs) (a2, log)" by auto
  from cts(2) obtain s ys where s: "can_seal 0 s a2" "delivered (s, log) ys" "length (ys_heap s) = opens cs"
    by (auto simp: sending_def)
  have pair: "paired (a1, \<lambda>_. []) b1"
    using upgraded_receiver [OF up(3,4) reach, of "cn_id a"] key(3) by (simp add: paired_def a1)
  have "transmitted a2 = concat (map framed cts)"
    using transmitted_all [of a2] s(1) journey_io [OF cts(1)] a1(3)
    by (simp add: can_seal_def blocked_socket_def is_active_def idle_io_def)
  then have rx: "io_wire_rx (cn_io b1) @ concat pieces = concat (map framed cts)" using net(1) b1 by simp
  have "paired (a2, log) b1" if "pieces = []"
    using journey_read [OF cts(1) pair, of "[]"] rx b1 that by (auto simp: loops_idle)
  from pieces_read [OF cts(1) pair rx net(2) this] have "paired (a2, log) b2" by (simp add: net(3))
  then show ?thesis using that [OF _ s(2,3)] s(1) by (auto simp: paired_def can_seal_def)
qed

section \<open>Properties\<close>

text \<open>C4. The layers together.  Two honest ends upgrade; the dialling application opens up to
  \<open>2 ^ 31\<close> streams, writes at most 65507 bytes at a time and closes streams, in any order; the
  socket takes what is queued and the network hands it over in any pieces.  Then the other
  application is handed exactly these streams, in the order they were opened and with their ids,
  and a read on each yields the bytes the writes on it accepted, in their order, or the end of the
  stream where it was closed.\<close>

theorem streams_cross_the_connection:
  assumes "crypto_ok C" and "honest_end C a idA" "cn_is_initiator a" and "honest_end C b idB" "\<not> cn_is_initiator b"
    and "find (\<lambda>m. m \<in> set (offered b)) (offered a) = Some kYamuxProtocol"
    and "find (\<lambda>m. m \<in> set (offered a)) (offered b) = Some kYamuxProtocol"
    and "\<forall>q. names_peer (cn_remote_addr a) q \<longrightarrow> q = identity_peer idB"
    and "establish C a b = (a1, b1)" and "app_commands C proto cs (a1, \<lambda>_. []) = (a2, log)"
    and "concat pieces = transmitted a2" and "[] \<notin> set pieces" and "b2 = arrive_in C pieces b1"
    and "opens cs \<le> 2 ^ 31" and "list_all sealable cs" and "length cs < 2 ^ 64" and "p < opens cs"
  shows "is_active b2 \<and> cn_pending_inbound b2 = map YamuxHandle [0..<opens cs]
    \<and> stream_id (YamuxHandle p) b2 = stream_id (YamuxHandle p) a2
    \<and> fst (stream_try_read C (YamuxHandle p) n b2) =
        (if log p \<noteq> [] then Inr (take n (log p))
         else if \<exists>s. cn_yamux a2 = Some s \<and> write_closed (stream_at s p) then Inr [] else Inl ''EAGAIN'')"
proof -
  from upgrade_succeeds [OF assms(1-8)] assms(9) obtain nA nB
    where up: "upgraded a a1 nA []" "upgraded b b1 nB []" and agree: "agreed nA nB" by (metis prod.inject)
  have reach: "conn_reachable C [] b1"
    using establish_reachable(2) [OF honest_reachable [OF assms(2)] honest_reachable [OF assms(4)] assms(9)] .
  obtain s ys where a2: "cn_yamux a2 = Some s" and d: "delivered (s, log) ys" and len: "length (ys_heap s) = opens cs"
    and step: "in_step (s, log) (ns_cs_send (noise_of a2)) b2"
    by (rule commands_carried [OF assms(1) up(1) assms(3) up(2) assms(5) reach agree assms(10-16)])
  have p: "p < length (ys_heap s)" using assms(17) len by simp
  have "stream_id (YamuxHandle p) a2 = stream_number p"
    using delivered_handle(1) [OF d p] a2 by (simp add: stream_id_def)
  then show ?thesis using read_delivered [OF step p] step len a2 by (simp add: in_step_def)
qed

lemma first_bytes:
  assumes "crypto_ok C" and "can_seal 2 (new_session c True) a"
  shows "snd (app_commands C proto [OpenStream, WriteStream 0 [7, 8]] (a, \<lambda>_. [])) = (\<lambda>_. [])(0 := [7, 8])"
proof -
  let ?s = "new_session c True"
  have d: "delivered (?s, \<lambda>_. []) (new_session c False)" by (rule delivered_new)
  obtain s1 where run: "run_command OpenStream (?s, \<lambda>_. []) = (s1, \<lambda>_. [])" by simp
  have s1: "length (ys_heap s1) = 1" "stream_at s1 0 = new_stream 1 c" "ys_send_windows s1 1 = Some kInitialStreamWindow"
    using run open_stream_fresh [of ?s "()"] by (auto simp: new_session_def write_frame_def stream_at_def)
  have two: "can_seal (Suc 1) ?s a" using assms(2) by (simp add: numeral_2_eq_2)
  obtain a1 cts t where one: "app_command C proto OpenStream (a, \<lambda>_. []) = (a1, \<lambda>_. [])" "can_seal 1 t a1"
    "\<And>y. delivered (t, \<lambda>_. []) y = delivered (s1, \<lambda>_. []) y" "length (ys_heap t) = length (ys_heap s1)"
    and t: "t = map_stream 0 (set_protocol proto) (s1\<lparr>ys_send_buf := []\<rparr>)"
    by (rule command_performed [OF assms(1) two d _ _ run, of proto]) (simp_all add: new_session_def)
  have "carries no_callbacks (?s, \<lambda>_. []) (run_command OpenStream (?s, \<lambda>_. [])) (new_session c False, ()) 1"
    by (rule deliver_open [OF d]) (simp add: new_session_def)
  then obtain y where y: "delivered (t, \<lambda>_. []) y" unfolding run carries_def one(3) by blast
  have st: "\<not> st_write_closed (stream_at t 0)" "\<not> st_reset (stream_at t 0)" "st_id (stream_at t 0) = 1"
    "ys_send_windows t 1 = Some kInitialStreamWindow"
    using s1 by (simp_all add: t stream_at_def map_stream_def set_protocol_def new_stream_def)
  then have win: "ys_send_windows t (st_id (stream_at t 0)) = Some kInitialStreamWindow" by simp
  obtain s2 log2 where run2: "run_command (WriteStream 0 [7, 8]) (t, \<lambda>_. []) = (s2, log2)" by force
  have log2: "log2 = (\<lambda>_. [])(0 := [7, 8])"
    using run2 try_write_out(2) [OF win refl, of "[7, 8]" "\<lambda>_. []"] st one(4) s1(1) by (auto simp: kInitialStreamWindow_def)
  have "can_seal (Suc 0) t a1" using one(2) by simp
  then obtain a2 where "app_command C proto (WriteStream 0 [7, 8]) (a1, \<lambda>_. []) = (a2, log2)"
    by (rule command_performed [OF assms(1) _ y _ _ run2, of 0 a1 proto]) (simp_all add: one(4) s1(1))
  with one(1) log2 show ?thesis by (simp add: app_commands_def)
qed

theorem streams_cross_the_connection_witness:
  "\<exists>a1 b1 a2 log b2. establish toy_crypto (toy_dialer (PeerId (replicate 32 9))) toy_listener = (a1, b1)
    \<and> app_commands toy_crypto ''/x'' [OpenStream, WriteStream 0 [7, 8]] (a1, \<lambda>_. []) = (a2, log)
    \<and> b2 = arrive_in toy_crypto (map (\<lambda>x. [x]) (transmitted a2)) b1 \<and> cn_pending_inbound b2 = [YamuxHandle 0]
    \<and> fst (stream_try_read toy_crypto (YamuxHandle 0) 10 b2) = Inr [7, 8]"
proof -
  let ?p = "PeerId (replicate 32 9)" and ?cs = "[OpenStream, WriteStream 0 [7, 8]]"
  have p: "identity_peer toy_identity = ?p" by (simp add: identity_peer_def toy_identity_def)
  have dial: "\<forall>q. names_peer (cn_remote_addr (toy_dialer ?p)) q \<longrightarrow> q = identity_peer toy_identity"
    by (simp add: toy_ends toy_target_names wf_peer_id_def p)
  obtain a1 b1 nA nB where e: "establish toy_crypto (toy_dialer ?p) toy_listener = (a1, b1)"
    and up: "upgraded (toy_dialer ?p) a1 nA []" "agreed nA nB"
    by (rule upgrade_succeeds [OF toy_crypto_ok toy_ends(1-4) toy_ends(5,6) dial])
  obtain a2 log where cmds: "app_commands toy_crypto ''/x'' ?cs (a1, \<lambda>_. []) = (a2, log)" by force
  have pieces: "concat (map (\<lambda>x. [x]) (transmitted a2)) = transmitted a2" "[] \<notin> set (map (\<lambda>x. [x]) (transmitted a2))"
    by (auto simp: concat_map_singleton)
  have "cs_has_key (ns_cs_send nA)" "cs_nonce (ns_cs_send nA) = 0" using up(2) by (auto simp: agreed_def)
  from upgraded_sending(1) [OF up(1) this toy_ends(2), of 2]
  have "log = (\<lambda>_. [])(0 := [7, 8])" using first_bytes [OF toy_crypto_ok, of _ a1 "''/x''"] cmds by simp
  with streams_cross_the_connection [OF toy_crypto_ok toy_ends(1-4) toy_ends(5,6) dial e cmds pieces refl, of 0 10] e cmds
  show ?thesis by (intro exI conjI) (auto simp: opens_def)
qed

end
