(* ===== verification/StreamSpec.thy ===== *)
theory StreamSpec
  imports Prelude
begin

text \<open>
  What a multiplexed stream promises, without the multiplexer: two ends, the opener and the
  acceptor, and the messages in flight between them in each direction.  \<open>YamuxDuplex\<close> shows that
  two Yamux sessions behave like one such stream per stream id.
\<close>

section \<open>The specification\<close>

datatype msg = MOpen | MAck | MBytes bytes | MFin | MRst | MUpdate nat

record half =
  h_unread :: bytes
  h_read_closed :: bool
  h_write_closed :: bool
  h_reset :: bool
  h_window :: nat

definition stream_window :: nat where "stream_window = 262144"

definition fresh_half :: half where
  "fresh_half = \<lparr>h_unread = [], h_read_closed = False, h_write_closed = False, h_reset = False, h_window = stream_window\<rparr>"

definition dead_half :: half where
  "dead_half = \<lparr>h_unread = [], h_read_closed = True, h_write_closed = True, h_reset = True, h_window = 0\<rparr>"

text \<open>An end has its half of the stream once it knows the stream, and remembers the bytes its
  application wrote and read.\<close>

record side =
  sd_half :: "half option"
  sd_wrote :: bytes
  sd_got :: bytes

record link =
  lk_opener :: side
  lk_to :: "msg list"
  lk_acceptor :: side
  lk_back :: "msg list"

text \<open>What an application does with its half, and the messages that sends.\<close>

inductive use_step :: "side \<Rightarrow> msg list \<Rightarrow> side \<Rightarrow> bool" where
  reads: "sd_half s = Some h \<Longrightarrow> n \<le> length (h_unread h) \<Longrightarrow>
    use_step s (if n = 0 then [] else [MUpdate n])
      (s\<lparr>sd_half := Some (h\<lparr>h_unread := drop n (h_unread h)\<rparr>), sd_got := sd_got s @ take n (h_unread h)\<rparr>)"
| writes: "sd_half s = Some h \<Longrightarrow> \<not> h_write_closed h \<Longrightarrow> data \<noteq> [] \<Longrightarrow> length data \<le> h_window h \<Longrightarrow>
    use_step s [MBytes data]
      (s\<lparr>sd_half := Some (h\<lparr>h_window := h_window h - length data\<rparr>), sd_wrote := sd_wrote s @ data\<rparr>)"
| closes: "sd_half s = Some h \<Longrightarrow> \<not> h_write_closed h \<Longrightarrow>
    use_step s [MFin] (s\<lparr>sd_half := Some (h\<lparr>h_write_closed := True\<rparr>)\<rparr>)"
| resets: "sd_half s = Some h \<Longrightarrow> use_step s [MRst] (s\<lparr>sd_half := Some dead_half\<rparr>)"

text \<open>The arrival of a message, and the answer to it.\<close>

fun take_msg :: "msg \<Rightarrow> half option \<Rightarrow> half option \<times> msg list" where
  "take_msg MOpen None = (Some fresh_half, [MAck])"
| "take_msg m None = (None, [])"
| "take_msg m (Some h) =
     (if h_reset h then Some h
      else case m of
        MBytes data \<Rightarrow> Some (h\<lparr>h_unread := h_unread h @ data\<rparr>)
      | MFin \<Rightarrow> Some (h\<lparr>h_read_closed := True\<rparr>)
      | MRst \<Rightarrow> Some dead_half
      | MUpdate n \<Rightarrow> Some (h\<lparr>h_window := h_window h + n\<rparr>)
      | _ \<Rightarrow> Some h, [])"

definition arrive_at :: "msg \<Rightarrow> side \<Rightarrow> side" where
  "arrive_at m s = s\<lparr>sd_half := fst (take_msg m (sd_half s))\<rparr>"

definition answer :: "msg \<Rightarrow> side \<Rightarrow> msg list" where
  "answer m s = snd (take_msg m (sd_half s))"

inductive link_step :: "link \<Rightarrow> link \<Rightarrow> bool" where
  opens: "sd_half (lk_opener k) = None \<Longrightarrow>
    link_step k (k\<lparr>lk_opener := (lk_opener k)\<lparr>sd_half := Some fresh_half\<rparr>, lk_to := lk_to k @ [MOpen]\<rparr>)"
| opener: "use_step (lk_opener k) ms s \<Longrightarrow> link_step k (k\<lparr>lk_opener := s, lk_to := lk_to k @ ms\<rparr>)"
| acceptor: "use_step (lk_acceptor k) ms s \<Longrightarrow> link_step k (k\<lparr>lk_acceptor := s, lk_back := lk_back k @ ms\<rparr>)"
| arrives: "lk_to k = m # ms \<Longrightarrow>
    link_step k (k\<lparr>lk_to := ms, lk_acceptor := arrive_at m (lk_acceptor k), lk_back := lk_back k @ answer m (lk_acceptor k)\<rparr>)"
| returns: "lk_back k = m # ms \<Longrightarrow>
    link_step k (k\<lparr>lk_back := ms, lk_opener := arrive_at m (lk_opener k), lk_to := lk_to k @ answer m (lk_opener k)\<rparr>)"

definition no_side :: side where "no_side = \<lparr>sd_half = None, sd_wrote = [], sd_got = []\<rparr>"

definition no_link :: link where "no_link = \<lparr>lk_opener = no_side, lk_to = [], lk_acceptor = no_side, lk_back = []\<rparr>"

definition link_reachable :: "link \<Rightarrow> bool" where
  "link_reachable k \<longleftrightarrow> link_step\<^sup>*\<^sup>* no_link k"

lemma link_reachable_initial: "link_reachable no_link"
  by (simp add: link_reachable_def)

lemma link_reachable_step: "link_reachable k \<Longrightarrow> link_step k k' \<Longrightarrow> link_reachable k'"
  unfolding link_reachable_def by (rule rtranclp.rtrancl_into_rtrancl)

section \<open>Its invariant\<close>

fun data_of :: "msg list \<Rightarrow> bytes" where
  "data_of [] = []"
| "data_of (MBytes data # ms) = data @ data_of ms"
| "data_of (m # ms) = data_of ms"

fun updates_of :: "msg list \<Rightarrow> nat" where
  "updates_of [] = 0"
| "updates_of (MUpdate n # ms) = n + updates_of ms"
| "updates_of (m # ms) = updates_of ms"

text \<open>After the closing message comes no data.\<close>

fun closing_last :: "msg list \<Rightarrow> bool" where
  "closing_last [] \<longleftrightarrow> True"
| "closing_last (MFin # ms) \<longleftrightarrow> data_of ms = [] \<and> closing_last ms"
| "closing_last (m # ms) \<longleftrightarrow> closing_last ms"

lemma data_of_append [simp]: "data_of (ms @ ms') = data_of ms @ data_of ms'"
  by (induction ms rule: data_of.induct) simp_all

lemma updates_of_append [simp]: "updates_of (ms @ ms') = updates_of ms + updates_of ms'"
  by (induction ms rule: updates_of.induct) simp_all

lemma closing_last_append:
  "closing_last (ms @ ms') \<longleftrightarrow> closing_last ms \<and> closing_last ms' \<and> (MFin \<in> set ms \<longrightarrow> data_of ms' = [])"
  by (induction ms rule: closing_last.induct) auto

definition unread_of :: "side \<Rightarrow> bytes" where
  "unread_of s = (case sd_half s of None \<Rightarrow> [] | Some h \<Rightarrow> h_unread h)"

definition window_of :: "side \<Rightarrow> nat" where
  "window_of s = (case sd_half s of None \<Rightarrow> 0 | Some h \<Rightarrow> h_window h)"

definition reset_of :: "side \<Rightarrow> bool" where
  "reset_of s = (case sd_half s of None \<Rightarrow> False | Some h \<Rightarrow> h_reset h)"

definition write_closed_of :: "side \<Rightarrow> bool" where
  "write_closed_of s = (case sd_half s of None \<Rightarrow> False | Some h \<Rightarrow> h_write_closed h)"

definition read_closed_of :: "side \<Rightarrow> bool" where
  "read_closed_of s = (case sd_half s of None \<Rightarrow> False | Some h \<Rightarrow> h_read_closed h)"

lemmas side_defs = unread_of_def window_of_def reset_of_def write_closed_of_def read_closed_of_def

text \<open>What an end by itself looks like.\<close>

definition side_ok :: "side \<Rightarrow> msg list \<Rightarrow> bool" where
  "side_ok s out \<longleftrightarrow> (sd_half s = None \<longrightarrow> out = [] \<and> sd_wrote s = [] \<and> sd_got s = [])
     \<and> (\<forall>h. sd_half s = Some h \<and> h_reset h \<longrightarrow> h = dead_half)"

text \<open>What \<open>s\<close> writes, on its way to \<open>r\<close>: nothing is lost, invented or reordered unless \<open>r\<close> reset
  the stream; the window covers what \<open>r\<close> has to hold; the end comes last.\<close>

definition carried :: "side \<Rightarrow> msg list \<Rightarrow> side \<Rightarrow> bool" where
  "carried s out r \<longleftrightarrow>
     (if reset_of r then \<exists>lost. sd_wrote s = sd_got r @ lost
      else sd_wrote s = sd_got r @ unread_of r @ data_of out)"

definition covered :: "side \<Rightarrow> msg list \<Rightarrow> side \<Rightarrow> msg list \<Rightarrow> bool" where
  "covered s out r back \<longleftrightarrow>
     window_of s + length (data_of out) + length (unread_of r) + updates_of back \<le> stream_window"

definition ended :: "side \<Rightarrow> msg list \<Rightarrow> side \<Rightarrow> bool" where
  "ended s out r \<longleftrightarrow> closing_last out
     \<and> (MFin \<in> set out \<longrightarrow> write_closed_of s)
     \<and> (read_closed_of r \<and> \<not> reset_of r \<longrightarrow> write_closed_of s \<and> data_of out = [])"

definition opened :: "link \<Rightarrow> bool" where
  "opened k \<longleftrightarrow> MOpen \<notin> set (lk_back k)
     \<and> (sd_half (lk_opener k) = None \<longrightarrow> sd_half (lk_acceptor k) = None)
     \<and> (case sd_half (lk_acceptor k) of
          Some _ \<Rightarrow> MOpen \<notin> set (lk_to k)
        | None \<Rightarrow> updates_of (lk_to k) = 0
            \<and> (lk_to k = [] \<and> sd_half (lk_opener k) = None \<or> (\<exists>ms. lk_to k = MOpen # ms \<and> MOpen \<notin> set ms)))"

definition link_inv :: "link \<Rightarrow> bool" where
  "link_inv k \<longleftrightarrow>
     side_ok (lk_opener k) (lk_to k) \<and> side_ok (lk_acceptor k) (lk_back k)
     \<and> carried (lk_opener k) (lk_to k) (lk_acceptor k) \<and> carried (lk_acceptor k) (lk_back k) (lk_opener k)
     \<and> covered (lk_opener k) (lk_to k) (lk_acceptor k) (lk_back k)
     \<and> covered (lk_acceptor k) (lk_back k) (lk_opener k) (lk_to k)
     \<and> ended (lk_opener k) (lk_to k) (lk_acceptor k) \<and> ended (lk_acceptor k) (lk_back k) (lk_opener k)
     \<and> opened k"

lemma no_link_inv: "link_inv no_link"
  by (simp add: link_inv_def no_link_def no_side_def side_ok_def carried_def covered_def ended_def opened_def side_defs)

text \<open>The four conditions on the pair of directions, seen from the end \<open>s\<close>.\<close>

definition both_ways :: "side \<Rightarrow> msg list \<Rightarrow> side \<Rightarrow> msg list \<Rightarrow> bool" where
  "both_ways s out r back \<longleftrightarrow> side_ok s out \<and> side_ok r back \<and> carried s out r \<and> carried r back s
     \<and> covered s out r back \<and> covered r back s out \<and> ended s out r \<and> ended r back s"

lemma both_ways_sym: "both_ways s out r back \<longleftrightarrow> both_ways r back s out"
  by (auto simp: both_ways_def)

lemma link_inv_both:
  "link_inv k \<longleftrightarrow> both_ways (lk_opener k) (lk_to k) (lk_acceptor k) (lk_back k) \<and> opened k"
  by (auto simp: link_inv_def both_ways_def)

lemma dead_half_simps [simp]:
  "h_unread dead_half = []" "h_read_closed dead_half" "h_write_closed dead_half" "h_reset dead_half" "h_window dead_half = 0"
  by (simp_all add: dead_half_def)

lemma fresh_half_simps [simp]:
  "h_unread fresh_half = []" "\<not> h_read_closed fresh_half" "\<not> h_write_closed fresh_half" "\<not> h_reset fresh_half"
  "h_window fresh_half = stream_window"
  by (simp_all add: fresh_half_def)

lemma take_drop_rest: "take n xs @ drop n xs @ ys = xs @ ys"
  by (simp add: append_assoc [symmetric] del: append_assoc)

lemma use_step_both:
  assumes "use_step s ms s'" and "both_ways s out r back"
  shows "both_ways s' (out @ ms) r back"
  using assms
proof (induction rule: use_step.induct)
  case (reads s h n)
  let ?s = "s\<lparr>sd_half := Some (h\<lparr>h_unread := drop n (h_unread h)\<rparr>), sd_got := sd_got s @ take n (h_unread h)\<rparr>"
  have parts: "h_reset h \<Longrightarrow> h_unread h = []" using reads by (auto simp: both_ways_def side_ok_def)
  have "h_reset h \<Longrightarrow> h\<lparr>h_unread := []\<rparr> = h" using reads by (auto simp: both_ways_def side_ok_def dead_half_def)
  then show ?case
    using reads parts
    by (auto simp: both_ways_def side_ok_def carried_def covered_def ended_def side_defs closing_last_append take_drop_rest split: if_splits)
next
  case (writes s h data)
  have "\<not> h_reset h" using writes by (auto simp: both_ways_def side_ok_def)
  then show ?case
    using writes
    by (auto simp: both_ways_def side_ok_def carried_def covered_def ended_def side_defs closing_last_append split: if_splits)
next
  case (closes s h)
  then show ?case
    by (auto simp: both_ways_def side_ok_def carried_def covered_def ended_def side_defs closing_last_append split: if_splits)
next
  case (resets s h)
  then show ?case
    by (auto simp: both_ways_def side_ok_def carried_def covered_def ended_def side_defs closing_last_append split: if_splits)
qed

lemma reset_unread: "side_ok s out \<Longrightarrow> reset_of s \<Longrightarrow> unread_of s = []"
  by (auto simp: side_ok_def side_defs split: option.splits)

lemma open_arrives_both:
  assumes "both_ways s (MOpen # out) r back" and "sd_half r = None" and "updates_of out = 0"
  shows "both_ways s out (arrive_at MOpen r) (back @ answer MOpen r)"
proof -
  have "unread_of s = []"
    using assms(1,2) reset_unread [of s "MOpen # out"] by (auto simp: both_ways_def carried_def side_ok_def split: if_splits)
  with assms show ?thesis
    by (auto simp: both_ways_def side_ok_def carried_def covered_def ended_def side_defs closing_last_append
        arrive_at_def answer_def split: if_splits option.splits)
qed

lemma message_arrives_both:
  assumes "both_ways s (m # out) r back" and "m \<noteq> MOpen" and "sd_half r = Some h"
  shows "both_ways s out (arrive_at m r) (back @ answer m r)"
proof -
  have none: "answer m r = []" using assms(3) by (simp add: answer_def)
  show ?thesis
  proof (cases "h_reset h")
    case True
    then have "arrive_at m r = r" using assms(3) by (cases m) (simp_all add: arrive_at_def)
    moreover have "h = dead_half" using True assms(1,3) by (simp add: both_ways_def side_ok_def)
    ultimately show ?thesis using assms True none
      by (cases m) (auto simp: both_ways_def side_ok_def carried_def covered_def ended_def side_defs)
  next
    case False
    then show ?thesis using assms none
      by (cases m) (auto simp: both_ways_def side_ok_def carried_def covered_def ended_def side_defs arrive_at_def split: if_splits)
  qed
qed

text \<open>The opening.\<close>

lemma use_step_known: "use_step s ms s' \<Longrightarrow> sd_half s \<noteq> None \<and> sd_half s' \<noteq> None \<and> MOpen \<notin> set ms"
  by (induction rule: use_step.induct) auto

lemma use_step_updates:
  "use_step s ms s' \<Longrightarrow> unread_of s = [] \<Longrightarrow> updates_of ms = 0"
  by (induction rule: use_step.induct) (auto simp: unread_of_def)

lemma unread_unopened:
  assumes "both_ways s out r back" and "sd_half r = None"
  shows "unread_of s = []" "back = []"
  using assms reset_unread [of s out] by (auto simp: both_ways_def carried_def side_ok_def split: if_splits)

lemma take_msg_known: "sd_half s \<noteq> None \<Longrightarrow> sd_half (arrive_at m s) \<noteq> None \<and> answer m s = []"
  by (cases m) (auto simp: arrive_at_def answer_def)

lemma link_step_inv:
  assumes "link_step k k'" and "link_inv k"
  shows "link_inv k'"
  using assms
proof (induction rule: link_step.induct)
  case (opens k)
  then have none: "sd_half (lk_acceptor k) = None" and both: "both_ways (lk_opener k) (lk_to k) (lk_acceptor k) (lk_back k)"
    by (auto simp: link_inv_both opened_def)
  with opens have "lk_to k = []" "lk_back k = []" by (auto simp: link_inv_both opened_def both_ways_def side_ok_def)
  with opens none both show ?case
    by (auto simp: link_inv_both opened_def both_ways_def side_ok_def carried_def covered_def ended_def side_defs)
next
  case (opener k ms s)
  then have "both_ways s (lk_to k @ ms) (lk_acceptor k) (lk_back k)"
    by (auto simp: link_inv_both intro: use_step_both)
  moreover have "opened (k\<lparr>lk_opener := s, lk_to := lk_to k @ ms\<rparr>)"
    using opener use_step_known [OF opener(1)] use_step_updates [OF opener(1)] unread_unopened(1)
    by (auto simp: opened_def link_inv_both split: option.splits)
  ultimately show ?case by (simp add: link_inv_both)
next
  case (acceptor k ms s)
  then have "both_ways s (lk_back k @ ms) (lk_opener k) (lk_to k)"
    by (auto simp: link_inv_both intro: use_step_both both_ways_sym [THEN iffD1])
  moreover have "opened (k\<lparr>lk_acceptor := s, lk_back := lk_back k @ ms\<rparr>)"
    using acceptor use_step_known [OF acceptor(1)]
    by (auto simp: opened_def link_inv_both split: option.splits)
  ultimately show ?case using both_ways_sym by (auto simp: link_inv_both)
next
  case (arrives k m ms)
  then have both: "both_ways (lk_opener k) (m # ms) (lk_acceptor k) (lk_back k)" and o: "opened k"
    by (simp_all add: link_inv_both)
  show ?case
  proof (cases "sd_half (lk_acceptor k)")
    case None
    with o arrives(1) have m: "m = MOpen" "updates_of ms = 0" "MOpen \<notin> set ms" by (auto simp: opened_def)
    moreover have "sd_half (lk_opener k) \<noteq> None" using both by (auto simp: both_ways_def side_ok_def)
    ultimately show ?thesis
      using open_arrives_both [OF both [unfolded m(1)] None m(2)] o m None arrives(1)
      by (auto simp: link_inv_both opened_def arrive_at_def answer_def)
  next
    case (Some h)
    with o arrives(1) have "m \<noteq> MOpen" by (auto simp: opened_def)
    from message_arrives_both [OF both this Some] o arrives(1) Some take_msg_known [of "lk_acceptor k" m] show ?thesis
      by (auto simp: link_inv_both opened_def split: option.splits)
  qed
next
  case (returns k m ms)
  then have both: "both_ways (lk_acceptor k) (m # ms) (lk_opener k) (lk_to k)" and o: "opened k"
    using both_ways_sym by (auto simp: link_inv_both)
  have known: "sd_half (lk_acceptor k) \<noteq> None" using both by (auto simp: both_ways_def side_ok_def)
  then obtain h where h: "sd_half (lk_opener k) = Some h" using o by (auto simp: opened_def)
  have "m \<noteq> MOpen" using o returns(1) by (auto simp: opened_def)
  from message_arrives_both [OF both this h] o returns(1) h known take_msg_known [of "lk_opener k" m] show ?case
    using both_ways_sym by (auto simp: link_inv_both opened_def split: option.splits)
qed

lemma link_reachable_inv: "link_reachable k \<Longrightarrow> link_inv k"
  unfolding link_reachable_def
  by (induction rule: rtranclp_induct) (auto intro: no_link_inv link_step_inv)

section \<open>The end is announced\<close>

text \<open>Once \<open>s\<close> writes no more, \<open>r\<close> knows or is about to.\<close>

definition told :: "side \<Rightarrow> msg list \<Rightarrow> side \<Rightarrow> bool" where
  "told s out r \<longleftrightarrow> (MRst \<in> set out \<longrightarrow> reset_of s)
     \<and> (write_closed_of s \<longrightarrow> read_closed_of r \<or> MFin \<in> set out \<or> MRst \<in> set out)"

definition link_told :: "link \<Rightarrow> bool" where
  "link_told k \<longleftrightarrow> told (lk_opener k) (lk_to k) (lk_acceptor k) \<and> told (lk_acceptor k) (lk_back k) (lk_opener k)"

lemma use_step_told:
  assumes "use_step s ms s'" and "side_ok s out" and "told s out r" and "told r back s"
  shows "told s' (out @ ms) r" and "told r back s'"
proof -
  show "told s' (out @ ms) r" using assms by induction (auto simp: told_def side_defs)
  show "told r back s'" using assms(1,4) by induction (auto simp: told_def side_defs)
qed

lemma take_msg_told:
  assumes "side_ok s (m # out)" and "side_ok r back" and "told s (m # out) r" and "told r back s" and "sd_half r \<noteq> None"
  shows "told s out (arrive_at m r)" and "told (arrive_at m r) back s"
proof -
  obtain h where h: "sd_half r = Some h" using assms(5) by blast
  have "h_reset h \<Longrightarrow> h = dead_half" using assms(2) h by (simp add: side_ok_def)
  then show "told s out (arrive_at m r)"
    using assms(3) h by (cases m; cases "h_reset h") (auto simp: told_def side_defs arrive_at_def)
  show "told (arrive_at m r) back s"
  proof (cases "m = MRst \<and> \<not> h_reset h")
    case True
    then have "reset_of s" using assms(3) by (simp add: told_def)
    then have "read_closed_of s" using assms(1) by (auto simp: side_ok_def side_defs split: option.splits)
    with True h show ?thesis by (simp add: told_def side_defs arrive_at_def)
  next
    case False
    then show ?thesis using assms(4) h by (cases m; cases "h_reset h") (auto simp: told_def side_defs arrive_at_def)
  qed
qed

lemma open_told:
  assumes "side_ok s (MOpen # out)" and "side_ok r back" and "told s (MOpen # out) r" and "sd_half r = None"
  shows "told s out (arrive_at MOpen r)" and "told (arrive_at MOpen r) (back @ [MAck]) s"
  using assms by (auto simp: told_def side_ok_def side_defs arrive_at_def)

lemma link_inv_sides: "link_inv k \<Longrightarrow> side_ok (lk_opener k) (lk_to k) \<and> side_ok (lk_acceptor k) (lk_back k)"
  by (simp add: link_inv_def)

lemma link_step_told:
  assumes "link_step k k'" and "link_inv k" and "link_told k"
  shows "link_told k'"
  using assms
proof (induction rule: link_step.induct)
  case (opens k)
  then have "lk_to k = []" "sd_half (lk_acceptor k) = None" by (auto simp: link_inv_def side_ok_def opened_def)
  with opens show ?case by (auto simp: link_told_def told_def side_defs link_inv_def side_ok_def)
next
  case (opener k ms s)
  have told: "told (lk_opener k) (lk_to k) (lk_acceptor k)" "told (lk_acceptor k) (lk_back k) (lk_opener k)"
    using opener(3) by (simp_all add: link_told_def)
  from use_step_told [OF opener(1) link_inv_sides [OF opener(2), THEN conjunct1] told] show ?case by (simp add: link_told_def)
next
  case (acceptor k ms s)
  have told: "told (lk_acceptor k) (lk_back k) (lk_opener k)" "told (lk_opener k) (lk_to k) (lk_acceptor k)"
    using acceptor(3) by (simp_all add: link_told_def)
  from use_step_told [OF acceptor(1) link_inv_sides [OF acceptor(2), THEN conjunct2] told] show ?case by (simp add: link_told_def)
next
  case (arrives k m ms)
  note sides = link_inv_sides [OF arrives(2)]
  show ?case
  proof (cases "sd_half (lk_acceptor k) = None")
    case True
    with arrives(1,2) have "m = MOpen" by (auto simp: link_inv_def opened_def)
    with open_told [of "lk_opener k" ms "lk_acceptor k" "lk_back k"] sides True arrives(1,3) show ?thesis
      by (simp add: link_told_def answer_def)
  next
    case False
    with take_msg_told [of "lk_opener k" m ms "lk_acceptor k" "lk_back k"] sides take_msg_known arrives(1,3) show ?thesis
      by (simp add: link_told_def)
  qed
next
  case (returns k m ms)
  note sides = link_inv_sides [OF returns(2)]
  have "sd_half (lk_opener k) \<noteq> None"
    using sides returns(1,2) by (auto simp: link_inv_def side_ok_def opened_def)
  with take_msg_told [of "lk_acceptor k" m ms "lk_opener k" "lk_to k"] sides take_msg_known returns(1,3) show ?case
    by (simp add: link_told_def)
qed

lemma link_reachable_told: "link_reachable k \<Longrightarrow> link_told k"
  unfolding link_reachable_def
proof (induction rule: rtranclp_induct)
  case base
  show ?case by (simp add: link_told_def told_def no_link_def no_side_def side_defs)
next
  case (step k k')
  then show ?case using link_step_told link_reachable_inv by (simp add: link_reachable_def)
qed

end
