(* ===== verification/YamuxDuplex.thy ===== *)
theory YamuxDuplex
  imports StreamSpec YamuxDelivery
begin

text \<open>
  Two Yamux sessions joined by a network, each with an application that opens, reads, writes,
  closes and resets streams and drains the output whenever it likes, and a network that hands the
  bytes over in pieces of any length.  Each stream id behaves like one stream of \<open>StreamSpec\<close>:
  every step of the two sessions is a step, or none, of the stream it touches, and the bytes in
  flight are the frames of the messages of all streams.  From the invariant of the abstract stream
  follow order, flow control and the meaning of the end of a stream, at every moment of every run.

  The sessions have no callbacks: the output is drained in a step of its own, so it may
  come earlier or later than with the outgoing callback of \<open>connection_session.cpp\<close>, which drains
  after every frame.
  Stream ids do not wrap, so one side opens fewer than \<open>2 ^ 31\<close> streams.
\<close>

section \<open>Messages as frames\<close>

fun enc :: "u32 \<times> msg \<Rightarrow> yamux_header \<times> bytes" where
  "enc (sid, MOpen) = (frame Data (flag_value SYN) sid 0, [])"
| "enc (sid, MAck) = (frame Data (flag_value ACK) sid 0, [])"
| "enc (sid, MBytes data) = (frame Data 0 sid (of_nat (length data)), data)"
| "enc (sid, MFin) = (frame Data (flag_value FIN) sid 0, [])"
| "enc (sid, MRst) = (frame Data (flag_value RST) sid 0, [])"
| "enc (sid, MUpdate n) = (frame WindowUpdate 0 sid (of_nat n), [])"

definition sendable :: "u32 \<times> msg \<Rightarrow> bool" where
  "sendable x \<longleftrightarrow> fst x \<noteq> 0 \<and> (case snd x of
     MBytes data \<Rightarrow> data \<noteq> [] \<and> length data < 2 ^ 32 | MUpdate n \<Rightarrow> 0 < n \<and> n < 2 ^ 32 | _ \<Rightarrow> True)"

definition bytes_of_msgs :: "(u32 \<times> msg) list \<Rightarrow> bytes" where
  "bytes_of_msgs xs = concat (map (frame_bytes \<circ> enc) xs)"

lemma wf_enc: "sendable x \<Longrightarrow> wf_frame (enc x)"
  by (cases x; cases "snd x") (auto simp: sendable_def)

lemma bytes_of_msgs_append [simp]: "bytes_of_msgs (xs @ ys) = bytes_of_msgs xs @ bytes_of_msgs ys"
  by (simp add: bytes_of_msgs_def)

lemma bytes_of_msgs_Nil [simp]: "bytes_of_msgs [] = []"
  by (simp add: bytes_of_msgs_def)

section \<open>One end of one stream\<close>

definition half_at :: "yamux_session \<Rightarrow> yamux_stream \<Rightarrow> half" where
  "half_at s st = \<lparr>h_unread = st_recv_buf st, h_read_closed = st_read_closed st, h_write_closed = st_write_closed st,
     h_reset = st_reset st, h_window = (case ys_send_windows s (st_id st) of None \<Rightarrow> 0 | Some w \<Rightarrow> unat w)\<rparr>"

definition half_of :: "yamux_session \<Rightarrow> u32 \<Rightarrow> half option" where
  "half_of s sid = map_option (half_at s) (find (\<lambda>st. st_id st = sid) (ys_heap s))"

definition own_id :: "yamux_session \<Rightarrow> u32 \<Rightarrow> bool" where
  "own_id s sid \<longleftrightarrow> (sid mod 2 = 1 \<longleftrightarrow> ys_is_client s)"

text \<open>A session whose stream ids have not wrapped and that talks to a peer like itself.\<close>

definition well_kept :: "yamux_session \<Rightarrow> bool" where
  "well_kept s \<longleftrightarrow> yamux_inv s \<and> distinct (map st_id (ys_heap s)) \<and> \<not> ys_remote_go_away s
     \<and> ys_next_stream_id s \<noteq> 0
     \<and> (\<forall>st \<in> set (ys_heap s). st_id st \<noteq> 0 \<and> (ys_streams s (st_id st) = None \<longleftrightarrow> st_reset st)
          \<and> (st_reset st \<longrightarrow> half_at s st = dead_half)
          \<and> (own_id s (st_id st) \<longrightarrow> st_id st < ys_next_stream_id s))"

lemma find_distinct:
  "distinct (map key xs) \<Longrightarrow> p < length xs \<Longrightarrow> find (\<lambda>x. key x = key (xs ! p)) xs = Some (xs ! p)"
  by (auto simp: find_Some_iff distinct_conv_nth intro!: exI [of _ p])

lemma half_of_handle:
  assumes "distinct (map st_id (ys_heap s))" and "p < length (ys_heap s)"
  shows "half_of s (st_id (stream_at s p)) = Some (half_at s (stream_at s p))"
  using find_distinct [OF assms] by (simp add: half_of_def stream_at_def)

lemma half_of_None: "half_of s sid = None \<longleftrightarrow> (\<forall>st \<in> set (ys_heap s). st_id st \<noteq> sid)"
  by (auto simp: half_of_def find_None_iff)

text \<open>Changing one stream.\<close>

lemma find_update:
  assumes "distinct (map key xs)" and "p < length xs" and "key y = key (xs ! p)"
  shows "find (\<lambda>x. key x = k) (xs[p := y]) = (if k = key (xs ! p) then Some y else find (\<lambda>x. key x = k) xs)"
proof -
  have d: "distinct (map key (xs[p := y]))" using assms by (metis list_update_id map_update)
  show ?thesis
  proof (cases "k = key (xs ! p)")
    case True
    with find_distinct [OF d, of p] assms show ?thesis by simp
  next
    case False
    have "find (\<lambda>x. key x = k) (xs[p := y]) = find (\<lambda>x. key x = k) xs"
      using assms(2,3) False
    proof (induction xs arbitrary: p)
      case (Cons x xs)
      then show ?case by (cases p) auto
    qed simp
    with False show ?thesis by simp
  qed
qed

lemma half_of_update:
  assumes "distinct (map st_id (ys_heap s))" and "p < length (ys_heap s)" and "st_id st = st_id (stream_at s p)"
    and "ys_heap s' = (ys_heap s)[p := st]"
    and "\<And>i. i \<noteq> st_id st \<Longrightarrow> ys_send_windows s' i = ys_send_windows s i"
  shows "half_of s' = (half_of s)(st_id st \<mapsto> half_at s' st)"
proof
  fix i
  show "half_of s' i = ((half_of s)(st_id st \<mapsto> half_at s' st)) i"
  proof (cases "i = st_id st")
    case True
    with find_update [OF assms(1,2), of st i] assms(3) show ?thesis by (simp add: half_of_def assms(4) stream_at_def)
  next
    case False
    have "half_at s' x = half_at s x" if "st_id x = i" for x
      using that assms(5) False by (simp add: half_at_def)
    then have "map_option (half_at s') (find (\<lambda>x. st_id x = i) (ys_heap s)) = map_option (half_at s) (find (\<lambda>x. st_id x = i) (ys_heap s))"
      by (intro option.map_cong0) (auto simp: find_Some_iff)
    with find_update [OF assms(1,2), of st i] assms(3) False show ?thesis by (simp add: half_of_def assms(4) stream_at_def)
  qed
qed

text \<open>The session goes from \<open>s\<close> to \<open>s'\<close> by changing one stream and sending messages about it.\<close>

definition moves :: "yamux_session \<Rightarrow> u32 \<Rightarrow> msg list \<Rightarrow> half \<Rightarrow> yamux_session \<Rightarrow> bool" where
  "moves s sid ms h s' \<longleftrightarrow> well_kept s' \<and> half_of s' = (half_of s)(sid \<mapsto> h)
     \<and> ys_send_buf s' = ys_send_buf s @ bytes_of_msgs (map (Pair sid) ms)
     \<and> ys_recv_buf s' = ys_recv_buf s \<and> ys_is_client s' = ys_is_client s \<and> list_all sendable (map (Pair sid) ms)"

lemma well_keptD:
  assumes "well_kept s"
  shows "yamux_inv s" "distinct (map st_id (ys_heap s))" "\<not> ys_remote_go_away s" "ys_next_stream_id s \<noteq> 0"
  using assms by (simp_all add: well_kept_def)

lemma known_handle:
  assumes "well_kept s" and "p < length (ys_heap s)"
  shows "st_id (stream_at s p) \<noteq> 0" "ys_streams s (st_id (stream_at s p)) = None \<longleftrightarrow> st_reset (stream_at s p)"
    "st_reset (stream_at s p) \<Longrightarrow> half_at s (stream_at s p) = dead_half"
    "half_of s (st_id (stream_at s p)) = Some (half_at s (stream_at s p))"
proof -
  have "stream_at s p \<in> set (ys_heap s)" using assms(2) by (simp add: stream_at_def)
  with assms(1) show "st_id (stream_at s p) \<noteq> 0"
    "ys_streams s (st_id (stream_at s p)) = None \<longleftrightarrow> st_reset (stream_at s p)"
    "st_reset (stream_at s p) \<Longrightarrow> half_at s (stream_at s p) = dead_half" by (auto simp: well_kept_def)
  show "half_of s (st_id (stream_at s p)) = Some (half_at s (stream_at s p))"
    using half_of_handle well_keptD(2) [OF assms(1)] assms(2) by blast
qed

lemma live_handle:
  assumes "well_kept s" and "p < length (ys_heap s)" and "\<not> st_reset (stream_at s p)"
  shows "ys_streams s (st_id (stream_at s p)) = Some p" "\<exists>w. ys_send_windows s (st_id (stream_at s p)) = Some w"
proof -
  from known_handle(2) [OF assms(1,2)] assms(3) obtain q where q: "ys_streams s (st_id (stream_at s p)) = Some q" by auto
  then have "q < length (ys_heap s)" "st_id (ys_heap s ! q) = st_id (ys_heap s ! p)"
    using yamux_invD(2) [OF well_keptD(1) [OF assms(1)]] by (auto simp: stream_at_def)
  then have "q = p" using well_keptD(2) [OF assms(1)] assms(2) by (auto simp: distinct_conv_nth)
  with q show "ys_streams s (st_id (stream_at s p)) = Some p" by simp
  with yamux_invD(1) [OF well_keptD(1) [OF assms(1)]] show "\<exists>w. ys_send_windows s (st_id (stream_at s p)) = Some w" by blast
qed

lemma moves_stream:
  assumes "well_kept s" and "p < length (ys_heap s)" and "sid = st_id (stream_at s p)" and "yamux_inv s'"
    and "ys_heap s' = (ys_heap s)[p := st]" and "st_id st = sid"
    and "\<And>i. i \<noteq> sid \<Longrightarrow> ys_send_windows s' i = ys_send_windows s i" and "\<And>i. i \<noteq> sid \<Longrightarrow> ys_streams s' i = ys_streams s i"
    and "ys_streams s' sid = None \<longleftrightarrow> st_reset st" and "st_reset st \<Longrightarrow> half_at s' st = dead_half"
    and "ys_next_stream_id s' = ys_next_stream_id s" "ys_remote_go_away s' = ys_remote_go_away s"
      "ys_is_client s' = ys_is_client s" "ys_recv_buf s' = ys_recv_buf s"
    and "ys_send_buf s' = ys_send_buf s @ bytes_of_msgs (map (Pair sid) ms)" and "list_all sendable (map (Pair sid) ms)"
    and "half_at s' st = h"
  shows "moves s sid ms h s'"
proof -
  have d: "distinct (map st_id (ys_heap s))" using assms(1) by (rule well_keptD)
  have ids: "map st_id (ys_heap s') = map st_id (ys_heap s)"
    using assms(2,3,5,6) by (simp add: map_update stream_at_def) (metis list_update_id map_update)
  have other: "x \<in> set (ys_heap s) \<and> st_id x \<noteq> sid" if "x \<in> set (ys_heap s')" "x \<noteq> st" for x
  proof -
    from that assms(5) obtain q where q: "q < length (ys_heap s)" "x = ys_heap s ! q" "q \<noteq> p"
      by (auto simp: in_set_conv_nth nth_list_update_if split: if_splits)
    then have "st_id (ys_heap s ! q) \<noteq> st_id (ys_heap s ! p)" using d assms(2) by (auto simp: distinct_conv_nth)
    with q assms(3) show ?thesis by (auto simp: stream_at_def)
  qed
  have same: "half_at s' x = half_at s x" if "st_id x \<noteq> sid" for x
    using that assms(7) by (simp add: half_at_def)
  have own: "own_id s' i = own_id s i" for i using assms(13) by (simp add: own_id_def)
  have now: "stream_at s p \<in> set (ys_heap s)" using assms(2) by (simp add: stream_at_def)
  have "st_id x \<noteq> 0 \<and> (ys_streams s' (st_id x) = None \<longleftrightarrow> st_reset x) \<and> (st_reset x \<longrightarrow> half_at s' x = dead_half)
    \<and> (own_id s' (st_id x) \<longrightarrow> st_id x < ys_next_stream_id s')" if "x \<in> set (ys_heap s')" for x
  proof (cases "x = st")
    case True
    with assms(1,3,6,9,10,11) now own show ?thesis by (auto simp: well_kept_def)
  next
    case False
    with other [OF that] same assms(1,8,11) own show ?thesis by (auto simp: well_kept_def)
  qed
  then have "well_kept s'" using assms(1,4,11,12) d ids by (simp add: well_kept_def)
  moreover have "half_of s' = (half_of s)(sid \<mapsto> h)"
    using half_of_update [OF d assms(2), of st s'] assms(3,5,6,7,17) by simp
  ultimately show ?thesis using assms(13-16) by (simp add: moves_def)
qed

section \<open>What an application does\<close>

lemma read_moves:
  assumes "well_kept s" and "p < length (ys_heap s)" and "length (st_recv_buf (stream_at s p)) < 2 ^ 32"
    and "st_recv_buf (stream_at s p) \<noteq> []" and "m = min n (length (st_recv_buf (stream_at s p)))"
  shows "fst (try_read no_callbacks p n (s, ())) = Inr (take m (st_recv_buf (stream_at s p)))"
    and "moves s (st_id (stream_at s p)) (if m = 0 then [] else [MUpdate m])
      (half_at s (stream_at s p)\<lparr>h_unread := drop m (st_recv_buf (stream_at s p))\<rparr>) (fst (snd (try_read no_callbacks p n (s, ()))))"
proof -
  let ?st = "stream_at s p" and ?s' = "fst (snd (try_read no_callbacks p n (s, ())))"
  show "fst (try_read no_callbacks p n (s, ())) = Inr (take m (st_recv_buf ?st))"
    using assms(4,5) by (simp add: try_read_def Let_def and_then_def)
  have s': "?s' = (let s1 = map_stream p (\<lambda>st. st\<lparr>st_recv_buf := drop m (st_recv_buf st)\<rparr>) s in
      if m = 0 then s1 else write_frame (frame WindowUpdate 0 (st_id ?st) (of_nat m)) [] s1)"
    using assms(4) by (simp add: try_read_def Let_def and_then_def update_receive_window_def assms(5) [symmetric])
  have live: "\<not> st_reset ?st" using known_handle(3) [OF assms(1,2)] assms(4) by (auto simp: half_at_def dead_half_def)
  note at = live_handle [OF assms(1,2) live]
  have "m < 2 ^ 32" using assms(3,5) by simp
  show "moves s (st_id ?st) (if m = 0 then [] else [MUpdate m]) (half_at s ?st\<lparr>h_unread := drop m (st_recv_buf ?st)\<rparr>) ?s'"
  proof (rule moves_stream [OF assms(1,2) refl, where st = "?st\<lparr>st_recv_buf := drop m (st_recv_buf ?st)\<rparr>"])
    show "yamux_inv ?s'" using inv_stream_operations(1) [OF no_callbacks_whole, of "(s, ())"] well_keptD(1) [OF assms(1)] by simp
  qed (use at live known_handle(1) [OF assms(1,2)] \<open>m < 2 ^ 32\<close> in
      \<open>simp_all add: s' Let_def map_stream_def write_frame_def stream_at_def half_at_def sendable_def bytes_of_msgs_def\<close>)
qed

lemma write_moves:
  assumes "well_kept s" and "p < length (ys_heap s)" and "try_write no_callbacks p data (s, ()) = (Inr n, (s', e))"
  shows "n = min (length data) (h_window (half_at s (stream_at s p)))" "0 < n" "\<not> st_write_closed (stream_at s p)"
    and "moves s (st_id (stream_at s p)) [MBytes (take n data)]
      (half_at s (stream_at s p)\<lparr>h_window := h_window (half_at s (stream_at s p)) - n\<rparr>) s'"
proof -
  let ?st = "stream_at s p"
  have "\<not> st_reset ?st" using assms(3) by (auto simp: try_write_def Let_def split: if_splits)
  note at = live_handle [OF assms(1,2) this]
  then obtain w where w: "ys_send_windows s (st_id ?st) = Some w" by blast
  note cases' = try_write_cases [OF w, of data "()"]
  show n: "n = min (length data) (h_window (half_at s ?st))" "0 < n" "\<not> st_write_closed ?st"
    using assms(3) w cases' by (auto simp: half_at_def Let_def split: if_splits)
  then have nw: "n = min (length data) (unat w)" using w by (simp add: half_at_def)
  have s': "s' = (write_frame (frame Data 0 (st_id ?st) (of_nat n)) (take n data) s)
      \<lparr>ys_send_windows := (ys_send_windows s)(st_id ?st \<mapsto> w - of_nat n)\<rparr>"
    using assms(3) cases' n(2) nw by (auto simp: Let_def split: if_splits)
  have len: "length (take n data) = n" "n < 2 ^ 32" "unat (w - of_nat n) = unat w - n"
    using nw unsigned_less [of w, where ?'a = nat] by (auto intro: unat_minus_of_nat)
  have "data \<noteq> []" using n(1,2) by auto
  show "moves s (st_id ?st) [MBytes (take n data)] (half_at s ?st\<lparr>h_window := h_window (half_at s ?st) - n\<rparr>) s'"
  proof (rule moves_stream [OF assms(1,2) refl, where st = ?st])
    show "yamux_inv s'"
      using inv_stream_operations(2) [OF no_callbacks_whole, of "(s, ())" p data] well_keptD(1) [OF assms(1)] assms(3) by simp
    show "ys_heap s' = (ys_heap s)[p := ?st]" by (simp add: s' stream_at_def)
  qed (use at known_handle(1) [OF assms(1,2)] len n(2) w \<open>\<not> st_reset ?st\<close> \<open>data \<noteq> []\<close> in
      \<open>simp_all add: s' write_frame_def half_at_def sendable_def bytes_of_msgs_def\<close>)
qed

lemma close_moves:
  assumes "well_kept s" and "p < length (ys_heap s)" and "\<not> st_write_closed (stream_at s p)"
  shows "moves s (st_id (stream_at s p)) [MFin] (half_at s (stream_at s p)\<lparr>h_write_closed := True\<rparr>)
    (fst (snd (close_write no_callbacks p (s, ()))))"
proof -
  let ?st = "stream_at s p" and ?s' = "fst (snd (close_write no_callbacks p (s, ())))"
  have live: "\<not> st_reset ?st" using known_handle(3) [OF assms(1,2)] assms(3) by (auto simp: half_at_def dead_half_def)
  note at = live_handle [OF assms(1,2) live]
  from close_write_cases [OF at(1), of "()"] assms(3)
  have s': "?s' = map_stream p close_local_write (write_frame (frame Data (flag_value FIN) (st_id ?st) 0) [] (map_stream p close_local_write s))"
    by simp
  show ?thesis
  proof (rule moves_stream [OF assms(1,2) refl, where st = "close_local_write ?st"])
    show "yamux_inv ?s'" using inv_stream_operations(3) [OF no_callbacks_whole, of "(s, ())"] well_keptD(1) [OF assms(1)] by simp
  qed (use at known_handle(1) [OF assms(1,2)] live assms(2) in
      \<open>simp_all add: s' map_stream_def write_frame_def stream_at_def half_at_def sendable_def bytes_of_msgs_def close_local_write_def\<close>)
qed

lemma reset_moves:
  assumes "well_kept s" and "p < length (ys_heap s)"
  shows "moves s (st_id (stream_at s p)) [MRst] dead_half (fst (snd (reset no_callbacks p (s, ()))))"
proof -
  let ?st = "stream_at s p" and ?s' = "fst (snd (reset no_callbacks p (s, ())))"
  have s': "?s' = erase_stream (st_id ?st) (write_frame (frame Data (flag_value RST) (st_id ?st) 0) [] (map_stream p receive_rst s))"
    by (simp add: reset_def reset_stream_def)
  show ?thesis
  proof (rule moves_stream [OF assms refl, where st = "receive_rst ?st"])
    show "yamux_inv ?s'" using inv_stream_operations(4) [OF no_callbacks_whole, of "(s, ())"] well_keptD(1) [OF assms(1)] by simp
  qed (use known_handle(1) [OF assms] in
      \<open>simp_all add: s' erase_stream_def map_stream_def write_frame_def stream_at_def half_at_def sendable_def bytes_of_msgs_def
         receive_rst_def dead_half_def\<close>)
qed

text \<open>A new stream at the end of the heap.\<close>

lemma half_of_new:
  assumes "half_of s sid = None" and "ys_heap s' = ys_heap s @ [st]" and "st_id st = sid"
    and "\<And>i. i \<noteq> sid \<Longrightarrow> ys_send_windows s' i = ys_send_windows s i"
  shows "half_of s' = (half_of s)(sid \<mapsto> half_at s' st)"
proof
  fix i
  have app: "find P (xs @ [x]) = (case find P xs of Some y \<Rightarrow> Some y | None \<Rightarrow> if P x then Some x else None)" for P xs and x :: yamux_stream
    by (induction xs) auto
  show "half_of s' i = ((half_of s)(sid \<mapsto> half_at s' st)) i"
  proof (cases "i = sid")
    case True
    with assms(1-3) show ?thesis by (simp add: half_of_def app)
  next
    case False
    have "half_at s' x = half_at s x" if "st_id x = i" for x
      using that assms(4) False by (simp add: half_at_def)
    then have "map_option (half_at s') (find (\<lambda>x. st_id x = i) (ys_heap s)) = map_option (half_at s) (find (\<lambda>x. st_id x = i) (ys_heap s))"
      by (intro option.map_cong0) (auto simp: find_Some_iff)
    with False assms(2,3) show ?thesis
      by (cases "find (\<lambda>x. st_id x = i) (ys_heap s)") (simp_all add: half_of_def app)
  qed
qed

lemma moves_new:
  assumes "well_kept s" and "half_of s sid = None" and "sid \<noteq> 0" and "yamux_inv s'"
    and "ys_heap s' = ys_heap s @ [new_stream sid (ys_conn_id s)]"
    and "ys_send_windows s' = (ys_send_windows s)(sid \<mapsto> kInitialStreamWindow)" and "ys_streams s' = (ys_streams s)(sid \<mapsto> length (ys_heap s))"
    and "ys_next_stream_id s' \<noteq> 0" "ys_next_stream_id s \<le> ys_next_stream_id s'" "own_id s sid \<Longrightarrow> sid < ys_next_stream_id s'"
    and "ys_remote_go_away s' = ys_remote_go_away s" "ys_is_client s' = ys_is_client s" "ys_recv_buf s' = ys_recv_buf s"
    and "ys_send_buf s' = ys_send_buf s @ bytes_of_msgs (map (Pair sid) ms)" and "list_all sendable (map (Pair sid) ms)"
  shows "moves s sid ms fresh_half s'"
proof -
  have ids: "st_id x \<noteq> sid" if "x \<in> set (ys_heap s)" for x using assms(2) that by (simp add: half_of_None)
  have at: "half_at s' (new_stream sid (ys_conn_id s)) = fresh_half"
    by (simp add: half_at_def assms(6) new_stream_def fresh_half_def stream_window_def kInitialStreamWindow_def)
  have "well_kept s'"
    using assms(1,3,4,8-12) ids
    by (auto simp: well_kept_def assms(5-7) own_id_def new_stream_def half_at_def order.strict_trans2)
  moreover have "half_of s' = (half_of s)(sid \<mapsto> fresh_half)"
    using half_of_new [OF assms(2,5)] at assms(6) by (simp add: new_stream_def)
  ultimately show ?thesis using assms(12-15) by (simp add: moves_def)
qed

lemma open_moves:
  assumes "well_kept s" and "unat (ys_next_stream_id s) + 2 < 2 ^ 32"
  shows "half_of s (ys_next_stream_id s) = None" "own_id s (ys_next_stream_id s)"
    and "moves s (ys_next_stream_id s) [MOpen] fresh_half (fst (snd (open_stream no_callbacks (s, ()))))"
proof -
  let ?sid = "ys_next_stream_id s" and ?s' = "fst (snd (open_stream no_callbacks (s, ())))"
  show own: "own_id s ?sid" using yamux_invD(3) [OF well_keptD(1) [OF assms(1)]] by (simp add: own_id_def)
  show none: "half_of s ?sid = None" using assms(1) own by (auto simp: half_of_None well_kept_def)
  then have "ys_streams s ?sid = None"
    using yamux_invD(2) [OF well_keptD(1) [OF assms(1)], of ?sid] by (cases "ys_streams s ?sid") (auto simp: half_of_None)
  from open_stream_fresh [OF well_keptD(3) [OF assms(1)] this, of "()"]
  have s': "?s' = write_frame (frame Data (flag_value SYN) ?sid 0) []
      (s\<lparr>ys_next_stream_id := ?sid + 2, ys_heap := ys_heap s @ [new_stream ?sid (ys_conn_id s)],
         ys_streams := (ys_streams s)(?sid \<mapsto> length (ys_heap s)),
         ys_send_windows := (ys_send_windows s)(?sid \<mapsto> kInitialStreamWindow)\<rparr>)" by simp
  have "unat (?sid + 2) = unat ?sid + 2" using assms(2) by (simp add: unat_word_ariths)
  then have later: "?sid + 2 \<noteq> 0" "?sid < ?sid + 2" by (auto simp: word_less_nat_alt)
  show "moves s ?sid [MOpen] fresh_half ?s'"
  proof (rule moves_new [OF assms(1) none well_keptD(4) [OF assms(1)]])
    show "yamux_inv ?s'" using inv_open_stream [OF no_callbacks_whole, of "(s, ())"] well_keptD(1) [OF assms(1)] by simp
  qed (use later well_keptD(4) [OF assms(1)] in \<open>simp_all add: s' write_frame_def sendable_def bytes_of_msgs_def\<close>)
qed

section \<open>What arrives\<close>

lemma moves_refl: "well_kept s \<Longrightarrow> half_of s sid = Some h \<Longrightarrow> moves s sid [] h s"
  by (auto simp: moves_def fun_upd_idem)

lemma half_handle:
  assumes "half_of s sid = Some h"
  obtains p where "p < length (ys_heap s)" "st_id (stream_at s p) = sid" "h = half_at s (stream_at s p)"
  using assms by (auto simp: half_of_def find_Some_iff stream_at_def)

lemma handle_unknown:
  assumes "sid \<noteq> 0" and "ys_streams s sid = None" and "\<not> has_flag (hdr_flags hdr) SYN" and "hdr_stream_id hdr = sid"
    and "hdr_type hdr = type_value Data \<or> hdr_type hdr = type_value WindowUpdate" and "hdr_version hdr = kYamuxVersion"
  shows "handle_frame cbs hdr payload (s, e) = (s, e)"
  using assms by (auto simp: handle_frame_def handle_stream_frame_def get_or_create_stream_def)

lemma handle_ack:
  assumes "sid \<noteq> 0" and "ys_streams s sid = Some p"
  shows "handle_frame cbs (frame Data (flag_value ACK) sid 0) [] (s, e) = (s, e)"
  using assms by (simp add: handle_frame_def handle_stream_frame_def get_or_create_stream_def Let_def
      accept_new_def apply_window_def apply_payload_def apply_fin_def apply_rst_def)

lemma unknown_message:
  assumes "sendable (sid, m)" and "m \<noteq> MOpen" and "ys_streams s sid = None"
  shows "fst (handle_frame cbs (fst (enc (sid, m))) (snd (enc (sid, m))) (s, e)) = s"
  using assms handle_unknown [of sid s _ cbs _ e] by (cases m) (simp_all add: sendable_def)

lemma handle_open:
  assumes "sid \<noteq> 0" and "\<not> own_id s sid" and "ys_streams s sid = None"
  shows "fst (handle_frame no_callbacks (frame Data (flag_value SYN) sid 0) [] (s, ())) = write_frame (frame Data (flag_value ACK) sid 0) []
      (s\<lparr>ys_heap := ys_heap s @ [new_stream sid (ys_conn_id s)], ys_streams := (ys_streams s)(sid \<mapsto> length (ys_heap s)),
         ys_send_windows := (ys_send_windows s)(sid \<mapsto> kInitialStreamWindow)\<rparr>)"
proof -
  have "is_remote_stream_id s sid" using assms(1,2) by (auto simp: is_remote_stream_id_def own_id_def)
  with assms(1,3) show ?thesis
    by (simp add: handle_frame_def handle_stream_frame_def get_or_create_stream_def Let_def accept_new_def
        apply_window_def apply_payload_def apply_fin_def apply_rst_def acknowledge_stream_def on_session_def on_owner_def no_callbacks_def
        run_outgoing_def)
qed

lemma open_arrives:
  assumes "well_kept s" and "sid \<noteq> 0" and "half_of s sid = None" and "\<not> own_id s sid"
  shows "moves s sid [MAck] fresh_half (fst (handle_frame no_callbacks (frame Data (flag_value SYN) sid 0) [] (s, ())))"
proof -
  let ?s' = "fst (handle_frame no_callbacks (frame Data (flag_value SYN) sid 0) [] (s, ()))"
  have "ys_streams s sid = None"
    using yamux_invD(2) [OF well_keptD(1) [OF assms(1)], of sid] assms(3) by (cases "ys_streams s sid") (auto simp: half_of_None)
  note s' = handle_open [OF assms(2,4) this]
  show ?thesis
  proof (rule moves_new [OF assms(1,3,2)])
    show "yamux_inv ?s'" using inv_handle_frame [OF no_callbacks_whole, of "(s, ())"] well_keptD(1) [OF assms(1)] by simp
  qed (use assms(2,4) well_keptD(4) [OF assms(1)] in \<open>simp_all add: s' write_frame_def sendable_def bytes_of_msgs_def\<close>)
qed

lemma message_arrives:
  assumes "well_kept s" and "sendable (sid, m)" and "m \<noteq> MOpen" and "half_of s sid = Some h"
    and "\<And>n. m = MUpdate n \<Longrightarrow> \<not> h_reset h \<Longrightarrow> h_window h + n < 2 ^ 32" and "fst (take_msg m (Some h)) = Some h'"
  shows "moves s sid [] h' (fst (handle_frame no_callbacks (fst (enc (sid, m))) (snd (enc (sid, m))) (s, ())))"
proof -
  obtain p where p: "p < length (ys_heap s)" and sid: "sid = st_id (stream_at s p)" and h: "h = half_at s (stream_at s p)"
    by (rule half_handle [OF assms(4)]) simp
  define s' where def_s': "s' = fst (handle_frame no_callbacks (fst (enc (sid, m))) (snd (enc (sid, m))) (s, ()))"
  let ?st = "stream_at s p"
  have s0: "sid \<noteq> 0" using assms(2) by (simp add: sendable_def)
  have inv: "yamux_inv s'"
    using inv_handle_frame [OF no_callbacks_whole, of "(s, ())"] well_keptD(1) [OF assms(1)] by (simp add: def_s')
  have "moves s sid [] h' s'"
  proof (cases "st_reset ?st")
    case True
    then have "ys_streams s sid = None" using known_handle(2) [OF assms(1) p] sid by simp
    moreover have "h' = h" using assms(3,6) True by (cases m) (auto simp: h half_at_def)
    ultimately show ?thesis
      using unknown_message [OF assms(2,3), where s = s and cbs = no_callbacks and e = "()"] moves_refl [OF assms(1,4)] by (simp add: def_s')
  next
    case False
    note at = live_handle [OF assms(1) p False, folded sid]
    then obtain w where w: "ys_send_windows s sid = Some w" by blast
    note stream = moves_stream [OF assms(1) p sid inv, where ms = "[]" and h = h']
    note defs = map_stream_def stream_at_def half_at_def
    show ?thesis
    proof (cases m)
      case MOpen
      with assms(3) show ?thesis by simp
    next
      case MAck
      then have "s' = s" using handle_ack [OF s0 at(1), where cbs = no_callbacks and e = "()"] by (simp add: def_s')
      moreover have "h' = h" using MAck assms(6) by (auto split: if_splits)
      ultimately show ?thesis using moves_refl [OF assms(1,4)] by simp
    next
      case (MBytes data)
      then have to: "s' = map_stream p (receive_data data) s"
        using handle_data [OF s0 at(1), where cbs = no_callbacks and e = "()"] assms(2) by (simp add: sendable_def def_s')
      show ?thesis
        by (rule stream [where st = "receive_data data ?st"])
          (use MBytes False at sid p assms(6) h in \<open>simp_all add: to defs receive_data_def\<close>)
    next
      case MFin
      then have to: "s' = map_stream p receive_fin s" using handle_fin [OF s0 at(1), where cbs = no_callbacks and e = "()"] by (simp add: def_s')
      show ?thesis
        by (rule stream [where st = "receive_fin ?st"])
          (use MFin False at sid p assms(6) h in \<open>simp_all add: to defs receive_fin_def\<close>)
    next
      case MRst
      then have to: "s' = erase_stream sid (map_stream p receive_rst s)" using handle_rst [OF s0 at(1), where cbs = no_callbacks and e = "()"] by (simp add: def_s')
      show ?thesis
        by (rule stream [where st = "receive_rst ?st"])
          (use MRst False at sid p assms(6) h in \<open>simp_all add: to defs receive_rst_def erase_stream_def dead_half_def\<close>)
    next
      case (MUpdate n)
      have n: "0 < n" "n < 2 ^ 32" using assms(2) MUpdate by (simp_all add: sendable_def)
      then have "(of_nat n :: u32) \<noteq> 0" "unat (of_nat n :: u32) = n" by (auto simp: unat_of_nat_u32 unat_eq_zero [symmetric])
      then have to: "s' = grow_window sid (of_nat n) s"
        using handle_window_update [OF s0 at(1) w, where cbs = no_callbacks and e = "()"] MUpdate by (simp add: word_neq_0_conv def_s')
      have "unat w + n < 2 ^ 32" using assms(5) [OF MUpdate] h False sid w by (simp add: half_at_def)
      then have win: "unat (ucast (min (ucast w + ucast (of_nat n :: u32) :: u64) 0xFFFFFFFF) :: u32) = unat w + n"
        using unat_saturate [of w "of_nat n"] n(2) by (simp add: unat_of_nat_u32)
      show ?thesis
        by (rule stream [where st = ?st])
          (use MUpdate False at sid p assms(6) h w win in \<open>simp_all add: to defs grow_window_def Let_def\<close>)
    qed
  qed
  then show ?thesis by (simp add: def_s')
qed

section \<open>Two ends and the network\<close>

text \<open>A session without callbacks, the bytes the application wrote to and read from each stream, and
  what has been drained but has not arrived at the other end.\<close>

record peer_end =
  pe_session :: yamux_session
  pe_wrote :: "u32 \<Rightarrow> bytes"
  pe_got :: "u32 \<Rightarrow> bytes"
  pe_wire :: bytes

definition new_end :: "u64 \<Rightarrow> bool \<Rightarrow> peer_end" where
  "new_end cid is_client = \<lparr>pe_session = new_session cid is_client, pe_wrote = \<lambda>_. [], pe_got = \<lambda>_. [], pe_wire = []\<rparr>"

definition end_open :: "peer_end \<Rightarrow> peer_end" where
  "end_open x = x\<lparr>pe_session := fst (snd (open_stream no_callbacks (pe_session x, ())))\<rparr>"

definition end_read :: "nat \<Rightarrow> nat \<Rightarrow> peer_end \<Rightarrow> peer_end" where
  "end_read p n x =
     (let sid = st_id (stream_at (pe_session x) p); (r, (s, _)) = try_read no_callbacks p n (pe_session x, ())
      in x\<lparr>pe_session := s, pe_got := (case r of Inl _ \<Rightarrow> pe_got x | Inr bs \<Rightarrow> (pe_got x)(sid := pe_got x sid @ bs))\<rparr>)"

definition end_write :: "nat \<Rightarrow> bytes \<Rightarrow> peer_end \<Rightarrow> peer_end" where
  "end_write p data x =
     (let sid = st_id (stream_at (pe_session x) p); (r, (s, _)) = try_write no_callbacks p data (pe_session x, ())
      in x\<lparr>pe_session := s, pe_wrote := (case r of Inl _ \<Rightarrow> pe_wrote x | Inr n \<Rightarrow> (pe_wrote x)(sid := pe_wrote x sid @ take n data))\<rparr>)"

definition end_close :: "nat \<Rightarrow> peer_end \<Rightarrow> peer_end" where
  "end_close p x = x\<lparr>pe_session := fst (snd (close_write no_callbacks p (pe_session x, ())))\<rparr>"

definition end_reset :: "nat \<Rightarrow> peer_end \<Rightarrow> peer_end" where
  "end_reset p x = x\<lparr>pe_session := fst (snd (reset no_callbacks p (pe_session x, ())))\<rparr>"

definition end_drain :: "peer_end \<Rightarrow> peer_end" where
  "end_drain x = x\<lparr>pe_session := snd (drain_outgoing (pe_session x)), pe_wire := pe_wire x @ fst (drain_outgoing (pe_session x))\<rparr>"

text \<open>The network hands the first \<open>n\<close> bytes on the wire of \<open>x\<close> to \<open>y\<close>.\<close>

definition handover :: "nat \<Rightarrow> peer_end \<Rightarrow> peer_end \<Rightarrow> peer_end \<times> peer_end" where
  "handover n x y =
     (x\<lparr>pe_wire := drop n (pe_wire x)\<rparr>,
      y\<lparr>pe_session := fst (snd (receive no_callbacks (take n (pe_wire x)) (pe_session y, ())))\<rparr>)"

text \<open>The applications use any handle they were given, as long as the 32-bit stream ids last.\<close>

inductive end_step :: "peer_end \<Rightarrow> peer_end \<Rightarrow> bool" where
  opens: "unat (ys_next_stream_id (pe_session x)) + 2 < 2 ^ 32 \<Longrightarrow> end_step x (end_open x)"
| reads: "p < length (ys_heap (pe_session x)) \<Longrightarrow> end_step x (end_read p n x)"
| writes: "p < length (ys_heap (pe_session x)) \<Longrightarrow> end_step x (end_write p data x)"
| closes: "p < length (ys_heap (pe_session x)) \<Longrightarrow> end_step x (end_close p x)"
| resets: "p < length (ys_heap (pe_session x)) \<Longrightarrow> end_step x (end_reset p x)"
| drains: "end_step x (end_drain x)"

inductive duplex_step :: "peer_end \<times> peer_end \<Rightarrow> peer_end \<times> peer_end \<Rightarrow> bool" where
  client: "end_step a a' \<Longrightarrow> duplex_step (a, b) (a', b)"
| server: "end_step b b' \<Longrightarrow> duplex_step (a, b) (a, b')"
| to_server: "handover n a b = (a', b') \<Longrightarrow> duplex_step (a, b) (a', b')"
| to_client: "handover n b a = (b', a') \<Longrightarrow> duplex_step (a, b) (a', b')"

definition duplex_reachable :: "peer_end \<Rightarrow> peer_end \<Rightarrow> bool" where
  "duplex_reachable a b \<longleftrightarrow> (\<exists>c c'. duplex_step\<^sup>*\<^sup>* (new_end c True, new_end c' False) (a, b))"

text \<open>The bytes of \<open>x\<close> that \<open>y\<close> has not handled: in its receive buffer, on the wire, not drained.\<close>

definition in_flight :: "peer_end \<Rightarrow> peer_end \<Rightarrow> bytes" where
  "in_flight x y = ys_recv_buf (pe_session y) @ pe_wire x @ ys_send_buf (pe_session x)"

section \<open>The stream behind each id\<close>

definition side_of :: "peer_end \<Rightarrow> u32 \<Rightarrow> side" where
  "side_of x sid = \<lparr>sd_half = half_of (pe_session x) sid, sd_wrote = pe_wrote x sid, sd_got = pe_got x sid\<rparr>"

definition msgs_about :: "u32 \<Rightarrow> (u32 \<times> msg) list \<Rightarrow> msg list" where
  "msgs_about sid xs = map snd (filter (\<lambda>x. fst x = sid) xs)"

definition link_of :: "peer_end \<Rightarrow> (u32 \<times> msg) list \<Rightarrow> peer_end \<Rightarrow> (u32 \<times> msg) list \<Rightarrow> u32 \<Rightarrow> link" where
  "link_of a xs b ys sid = \<lparr>lk_opener = side_of a sid, lk_to = msgs_about sid xs, lk_acceptor = side_of b sid, lk_back = msgs_about sid ys\<rparr>"

definition streams_of :: "peer_end \<Rightarrow> (u32 \<times> msg) list \<Rightarrow> peer_end \<Rightarrow> (u32 \<times> msg) list \<Rightarrow> u32 \<Rightarrow> link" where
  "streams_of a xs b ys sid = (if own_id (pe_session a) sid then link_of a xs b ys sid else link_of b ys a xs sid)"

text \<open>Two ends whose messages in flight are \<open>xs\<close> and \<open>ys\<close>.\<close>

definition paired_ends :: "peer_end \<Rightarrow> (u32 \<times> msg) list \<Rightarrow> peer_end \<Rightarrow> (u32 \<times> msg) list \<Rightarrow> bool" where
  "paired_ends a xs b ys \<longleftrightarrow> well_kept (pe_session a) \<and> well_kept (pe_session b)
     \<and> ys_is_client (pe_session b) = (\<not> ys_is_client (pe_session a))
     \<and> list_all sendable xs \<and> list_all sendable ys
     \<and> (\<forall>sid. link_reachable (streams_of a xs b ys sid))"

lemma msgs_about_simps [simp]:
  "msgs_about sid [] = []" "msgs_about sid (xs @ ys) = msgs_about sid xs @ msgs_about sid ys"
  "msgs_about sid (map (Pair i) ms) = (if i = sid then ms else [])"
  "msgs_about sid ((i, m) # xs) = (if i = sid then m # msgs_about sid xs else msgs_about sid xs)"
  by (simp_all add: msgs_about_def filter_map comp_def)

lemma own_other: "ys_is_client s' = (\<not> ys_is_client s) \<Longrightarrow> own_id s' sid \<longleftrightarrow> \<not> own_id s sid"
  by (auto simp: own_id_def)

lemma streams_of_sym:
  "ys_is_client (pe_session b) = (\<not> ys_is_client (pe_session a)) \<Longrightarrow> streams_of b ys a xs sid = streams_of a xs b ys sid"
  using own_other [of "pe_session b" "pe_session a" sid] by (simp add: streams_of_def)

lemma paired_ends_sym: "paired_ends a xs b ys \<longleftrightarrow> paired_ends b ys a xs"
  using streams_of_sym [of a b] streams_of_sym [of b a] by (auto simp: paired_ends_def)

text \<open>What the invariant of a stream says of the two ends, whoever opened it.\<close>

lemma paired_both:
  assumes "paired_ends a xs b ys"
  shows "both_ways (side_of a sid) (msgs_about sid xs) (side_of b sid) (msgs_about sid ys)"
proof -
  have "link_inv (streams_of a xs b ys sid)" using assms link_reachable_inv by (simp add: paired_ends_def)
  then show ?thesis
    using both_ways_sym by (auto simp: streams_of_def link_inv_both link_of_def split: if_splits)
qed

lemma paired_opening:
  assumes "paired_ends a xs b ys" and "msgs_about sid xs = m # ms"
  shows "m = MOpen \<Longrightarrow> half_of (pe_session b) sid = None \<and> \<not> own_id (pe_session b) sid"
    and "m \<noteq> MOpen \<Longrightarrow> half_of (pe_session b) sid \<noteq> None"
proof -
  have inv: "link_inv (streams_of a xs b ys sid)" using assms(1) link_reachable_inv by (simp add: paired_ends_def)
  have both: "half_of (pe_session a) sid \<noteq> None"
    using paired_both [OF assms(1), of sid] assms(2) by (auto simp: both_ways_def side_ok_def side_of_def)
  have own: "own_id (pe_session b) sid \<longleftrightarrow> \<not> own_id (pe_session a) sid"
    using own_other assms(1) by (simp add: paired_ends_def)
  show "m = MOpen \<Longrightarrow> half_of (pe_session b) sid = None \<and> \<not> own_id (pe_session b) sid"
    "m \<noteq> MOpen \<Longrightarrow> half_of (pe_session b) sid \<noteq> None"
    using inv both own assms(2)
    by (auto simp: streams_of_def link_inv_both opened_def link_of_def side_of_def split: if_splits option.splits)
qed

section \<open>Each step is a step of one stream\<close>

lemma pairedI:
  assumes "paired_ends a xs b ys" and "well_kept (pe_session a')" "well_kept (pe_session b')"
    and "ys_is_client (pe_session a') = ys_is_client (pe_session a)" "ys_is_client (pe_session b') = ys_is_client (pe_session b)"
    and "list_all sendable xs'" "list_all sendable ys'"
    and "\<And>i. i \<noteq> sid \<Longrightarrow> side_of a' i = side_of a i \<and> side_of b' i = side_of b i \<and> msgs_about i xs' = msgs_about i xs \<and> msgs_about i ys' = msgs_about i ys"
    and "link_step (streams_of a xs b ys sid) (streams_of a' xs' b' ys' sid)"
  shows "paired_ends a' xs' b' ys'"
proof -
  have own: "own_id (pe_session a') i = own_id (pe_session a) i" for i using assms(4) by (simp add: own_id_def)
  have reach: "link_reachable (streams_of a xs b ys i)" for i using assms(1) by (simp add: paired_ends_def)
  have "link_reachable (streams_of a' xs' b' ys' i)" for i
  proof (cases "i = sid")
    case True
    with link_reachable_step [OF reach assms(9)] show ?thesis by simp
  next
    case False
    with assms(8) have "streams_of a' xs' b' ys' i = streams_of a xs b ys i" by (simp add: streams_of_def link_of_def own)
    with reach show ?thesis by simp
  qed
  with assms show ?thesis by (simp add: paired_ends_def)
qed

lemma paired_app:
  assumes "paired_ends a xs b ys" and "moves (pe_session a) sid ms h (pe_session a')"
    and "use_step (side_of a sid) ms (side_of a' sid)"
    and "\<And>i. i \<noteq> sid \<Longrightarrow> pe_wrote a' i = pe_wrote a i \<and> pe_got a' i = pe_got a i"
  shows "paired_ends a' (xs @ map (Pair sid) ms) b ys"
proof (rule pairedI [OF assms(1), where sid = sid])
  have own: "own_id (pe_session a') sid = own_id (pe_session a) sid"
    using assms(2) by (simp add: moves_def own_id_def)
  show "link_step (streams_of a xs b ys sid) (streams_of a' (xs @ map (Pair sid) ms) b ys sid)"
    using link_step.opener [of "link_of a xs b ys sid" ms "side_of a' sid"]
      link_step.acceptor [of "link_of b ys a xs sid" ms "side_of a' sid"] assms(3)
    by (simp add: streams_of_def own link_of_def)
  show "side_of a' i = side_of a i \<and> side_of b i = side_of b i \<and> msgs_about i (xs @ map (Pair sid) ms) = msgs_about i xs \<and> msgs_about i ys = msgs_about i ys"
    if "i \<noteq> sid" for i
    using assms(2,4) that by (simp add: side_of_def moves_def)
qed (use assms(1,2) in \<open>simp_all add: moves_def paired_ends_def\<close>)

lemma paired_open:
  assumes "paired_ends a xs b ys" and "moves (pe_session a) sid [MOpen] fresh_half (pe_session a')"
    and "half_of (pe_session a) sid = None" and "own_id (pe_session a) sid"
    and "pe_wrote a' = pe_wrote a" "pe_got a' = pe_got a"
  shows "paired_ends a' (xs @ [(sid, MOpen)]) b ys"
proof (rule pairedI [OF assms(1), where sid = sid])
  have own: "own_id (pe_session a') sid" using assms(2,4) by (simp add: moves_def own_id_def)
  have "sd_half (lk_opener (link_of a xs b ys sid)) = None" using assms(3) by (simp add: link_of_def side_of_def)
  from link_step.opens [OF this]
  show "link_step (streams_of a xs b ys sid) (streams_of a' (xs @ [(sid, MOpen)]) b ys sid)"
    using assms(2,4,5,6) own by (simp add: streams_of_def link_of_def side_of_def moves_def)
  show "side_of a' i = side_of a i \<and> side_of b i = side_of b i \<and> msgs_about i (xs @ [(sid, MOpen)]) = msgs_about i xs \<and> msgs_about i ys = msgs_about i ys"
    if "i \<noteq> sid" for i
    using assms(2,5,6) that by (simp add: side_of_def moves_def)
qed (use assms(1,2) in \<open>simp_all add: moves_def paired_ends_def\<close>)

text \<open>The first message in flight arrives.\<close>

lemma head_moves:
  assumes "paired_ends a ((sid, m) # xs) b ys"
    and "s' = fst (handle_frame no_callbacks (fst (enc (sid, m))) (snd (enc (sid, m))) (pe_session b, ()))"
  obtains h where "moves (pe_session b) sid (answer m (side_of b sid)) h s'" "fst (take_msg m (half_of (pe_session b) sid)) = Some h"
proof -
  have kept: "well_kept (pe_session b)" and send: "sendable (sid, m)" using assms(1) by (simp_all add: paired_ends_def)
  have "msgs_about sid ((sid, m) # xs) = m # msgs_about sid xs" by simp
  note first = paired_opening [OF assms(1) this]
  show ?thesis
  proof (cases "m = MOpen")
    case True
    with first(1) send open_arrives [OF kept, of sid] assms(2) show ?thesis
      by (intro that [of fresh_half]) (simp_all add: answer_def side_of_def sendable_def)
  next
    case False
    with first(2) obtain h where h: "half_of (pe_session b) sid = Some h" by blast
    have "\<exists>h'. fst (take_msg m (Some h)) = Some h'" by (cases m; cases "h_reset h") simp_all
    then obtain h' where h': "fst (take_msg m (Some h)) = Some h'" by blast
    have "covered (side_of b sid) (msgs_about sid ys) (side_of a sid) (m # msgs_about sid xs)"
      using paired_both [OF assms(1), of sid] by (simp add: both_ways_def)
    then have "h_window h + n < 2 ^ 32" if "m = MUpdate n" for n
      using that h by (simp add: covered_def stream_window_def window_of_def side_of_def)
    from message_arrives [OF kept send False h this h'] show ?thesis
      using h h' by (intro that [of h']) (simp_all add: assms(2) answer_def side_of_def)
  qed
qed

lemma paired_head:
  assumes "paired_ends a ((sid, m) # xs) b ys"
    and "s' = fst (handle_frame no_callbacks (fst (enc (sid, m))) (snd (enc (sid, m))) (pe_session b, ()))"
    and "b' = b\<lparr>pe_session := s'\<rparr>" and "ys' = ys @ map (Pair sid) (answer m (side_of b sid))"
  shows "paired_ends a xs b' ys'" "ys_send_buf s' = ys_send_buf (pe_session b) @ bytes_of_msgs (map (Pair sid) (answer m (side_of b sid)))"
proof -
  from head_moves [OF assms(1,2)] obtain h where h: "moves (pe_session b) sid (answer m (side_of b sid)) h s'"
    "fst (take_msg m (half_of (pe_session b) sid)) = Some h" by blast
  show "ys_send_buf s' = ys_send_buf (pe_session b) @ bytes_of_msgs (map (Pair sid) (answer m (side_of b sid)))"
    using h(1) by (simp add: moves_def)
  have side: "side_of b' sid = arrive_at m (side_of b sid)"
    using h by (simp add: side_of_def assms(3) arrive_at_def moves_def)
  show "paired_ends a xs b' ys'"
  proof (rule pairedI [OF assms(1), where sid = sid])
    show "link_step (streams_of a ((sid, m) # xs) b ys sid) (streams_of a xs b' ys' sid)"
      using link_step.arrives [of "link_of a ((sid, m) # xs) b ys sid" m "msgs_about sid xs"]
        link_step.returns [of "link_of b ys a ((sid, m) # xs) sid" m "msgs_about sid xs"]
      by (simp add: streams_of_def link_of_def side assms(4))
    show "side_of a i = side_of a i \<and> side_of b' i = side_of b i \<and> msgs_about i xs = msgs_about i ((sid, m) # xs) \<and> msgs_about i ys' = msgs_about i ys"
      if "i \<noteq> sid" for i
      using h(1) that by (simp add: side_of_def moves_def assms(3,4))
  qed (use assms(1) h(1) in \<open>simp_all add: moves_def paired_ends_def assms(3,4)\<close>)
qed

lemma messages_arrive:
  assumes "paired_ends a (xs1 @ xs2) b ys"
  shows "\<exists>out. paired_ends a xs2 (b\<lparr>pe_session := fst (handle_frames no_callbacks (map enc xs1) (pe_session b, ()))\<rparr>) (ys @ out)
    \<and> ys_send_buf (fst (handle_frames no_callbacks (map enc xs1) (pe_session b, ()))) = ys_send_buf (pe_session b) @ bytes_of_msgs out"
  using assms
proof (induction xs1 arbitrary: b ys)
  case Nil
  then show ?case by (intro exI [of _ "[]"]) (simp add: handle_frames_def)
next
  case (Cons x xs1)
  obtain sid m where x: "x = (sid, m)" by force
  define s' where "s' = fst (handle_frame no_callbacks (fst (enc x)) (snd (enc x)) (pe_session b, ()))"
  have p: "paired_ends a ((sid, m) # xs1 @ xs2) b ys" using Cons.prems by (simp add: x)
  let ?out = "map (Pair sid) (answer m (side_of b sid))" and ?b = "b\<lparr>pe_session := s'\<rparr>"
  note one = paired_head [OF p s'_def [unfolded x] refl refl]
  from Cons.IH [OF one(1)] obtain out where
    "paired_ends a xs2 (?b\<lparr>pe_session := fst (handle_frames no_callbacks (map enc xs1) (pe_session ?b, ()))\<rparr>) ((ys @ ?out) @ out)"
    "ys_send_buf (fst (handle_frames no_callbacks (map enc xs1) (pe_session ?b, ()))) = ys_send_buf (pe_session ?b) @ bytes_of_msgs out"
    by blast
  moreover have "handle_frame no_callbacks (fst (enc x)) (snd (enc x)) (pe_session b, ()) = (s', ())"
    by (simp add: s'_def prod_eq_iff)
  then have "handle_frames no_callbacks (map enc (x # xs1)) (pe_session b, ()) = handle_frames no_callbacks (map enc xs1) (s', ())"
    by (simp add: handle_frames_def case_prod_beta)
  ultimately show ?case using one(2) by (intro exI [of _ "?out @ out"]) simp
qed

text \<open>The buffers are no part of a stream.\<close>

lemma half_of_buffers [simp]:
  "half_of (s\<lparr>ys_recv_buf := bs\<rparr>) = half_of s" "half_of (s\<lparr>ys_send_buf := bs\<rparr>) = half_of s"
  by (auto simp: half_of_def half_at_def [abs_def])

lemma half_at_buffers [simp]:
  "half_at (s\<lparr>ys_recv_buf := bs\<rparr>) = half_at s" "half_at (s\<lparr>ys_send_buf := bs\<rparr>) = half_at s"
  by (simp_all add: half_at_def [abs_def])

lemma well_kept_buffers:
  "well_kept s \<Longrightarrow> well_kept (s\<lparr>ys_recv_buf := bs\<rparr>)" "well_kept s \<Longrightarrow> well_kept (s\<lparr>ys_send_buf := []\<rparr>)"
  by (simp_all add: well_kept_def yamux_inv_def own_id_def)

lemma paired_buffers:
  assumes "paired_ends a xs b ys" and "half_of (pe_session a') = half_of (pe_session a)" and "well_kept (pe_session a')"
    and "ys_is_client (pe_session a') = ys_is_client (pe_session a)" and "pe_wrote a' = pe_wrote a" "pe_got a' = pe_got a"
  shows "paired_ends a' xs b ys"
proof -
  have "streams_of a' xs b ys sid = streams_of a xs b ys sid" for sid
    using assms by (simp add: streams_of_def link_of_def side_of_def own_id_def)
  with assms show ?thesis by (simp add: paired_ends_def)
qed

text \<open>The messages whose frames are whole.\<close>

lemma parse_messages:
  assumes "bytes_of_msgs xs = bs @ rest" and "list_all sendable xs"
  shows "\<exists>xs1 xs2 r. xs = xs1 @ xs2 \<and> parse_all try_parse_frame bs = (map enc xs1, r) \<and> r @ rest = bytes_of_msgs xs2"
  using assms
proof (induction xs arbitrary: bs)
  case Nil
  have "try_parse_frame [] = None" by (simp add: try_parse_frame_def kHeaderSize_def)
  with Nil show ?case by (simp add: yframe.parse_all_None)
next
  case (Cons x xs)
  show ?case
  proof (cases "try_parse_frame bs")
    case None
    then show ?thesis using Cons.prems(1)
      by (intro exI [of _ "[]"] exI [of _ "x # xs"] exI [of _ bs]) (simp add: yframe.parse_all_None)
  next
    case (Some fr)
    then obtain f r where f: "try_parse_frame bs = Some (f, r)" by (cases fr) auto
    have whole: "bytes_of_msgs (x # xs) = frame_bytes (enc x) @ bytes_of_msgs xs" by (simp add: bytes_of_msgs_def)
    have "try_parse_frame (frame_bytes (enc x) @ bytes_of_msgs xs) = Some (enc x, bytes_of_msgs xs)"
      using yframe.parse_encode_append [OF wf_enc, of x] Cons.prems(2) by simp
    with yframe.parse_append [OF f, of rest] Cons.prems(1) have x: "f = enc x" "bytes_of_msgs xs = r @ rest"
      by (simp_all add: whole)
    from Cons.IH [OF x(2)] Cons.prems(2) obtain xs1 xs2 r' where
      "xs = xs1 @ xs2" "parse_all try_parse_frame r = (map enc xs1, r')" "r' @ rest = bytes_of_msgs xs2" by auto
    then show ?thesis using yframe.parse_all_Some [OF f] x(1)
      by (intro exI [of _ "x # xs1"] exI [of _ xs2] exI [of _ r']) simp
  qed
qed

definition joined :: "peer_end \<Rightarrow> (u32 \<times> msg) list \<Rightarrow> peer_end \<Rightarrow> (u32 \<times> msg) list \<Rightarrow> bool" where
  "joined a xs b ys \<longleftrightarrow> paired_ends a xs b ys \<and> in_flight a b = bytes_of_msgs xs \<and> in_flight b a = bytes_of_msgs ys"

lemma joined_sym: "joined a xs b ys \<longleftrightarrow> joined b ys a xs"
  using paired_ends_sym by (auto simp: joined_def)

lemma handover_joined:
  assumes "joined a xs b ys" and "handover n a b = (a', b')"
  shows "\<exists>xs' ys'. joined a' xs' b' ys'"
proof -
  let ?s = "pe_session b" and ?piece = "take n (pe_wire a)"
  from assms(1) have p: "paired_ends a xs b ys" and fl: "in_flight a b = bytes_of_msgs xs" "in_flight b a = bytes_of_msgs ys"
    by (simp_all add: joined_def)
  have "bytes_of_msgs xs = (ys_recv_buf ?s @ ?piece) @ drop n (pe_wire a) @ ys_send_buf (pe_session a)"
    using fl(1) by (simp add: in_flight_def take_drop_rest)
  from parse_messages [OF this] p obtain xs1 xs2 r where xs: "xs = xs1 @ xs2"
    and r: "parse_all try_parse_frame (ys_recv_buf ?s @ ?piece) = (map enc xs1, r)"
    and rest: "r @ drop n (pe_wire a) @ ys_send_buf (pe_session a) = bytes_of_msgs xs2" by (auto simp: paired_ends_def)
  from messages_arrive [OF p [unfolded xs]] obtain out where
    out: "paired_ends a xs2 (b\<lparr>pe_session := fst (handle_frames no_callbacks (map enc xs1) (?s, ()))\<rparr>) (ys @ out)"
    "ys_send_buf (fst (handle_frames no_callbacks (map enc xs1) (?s, ()))) = ys_send_buf ?s @ bytes_of_msgs out" by blast
  let ?t = "fst (handle_frames no_callbacks (map enc xs1) (?s, ()))"
  have b': "b' = b\<lparr>pe_session := ?t\<lparr>ys_recv_buf := r\<rparr>\<rparr>" and a': "a' = a\<lparr>pe_wire := drop n (pe_wire a)\<rparr>"
    using assms(2) receive_frames [of no_callbacks ?piece "(?s, ())"] r by (auto simp: handover_def set_recv_def)
  have left: "paired_ends a' xs2 (b\<lparr>pe_session := ?t\<rparr>) (ys @ out)"
    by (rule paired_buffers [OF out(1)]) (use out(1) in \<open>simp_all add: a' paired_ends_def\<close>)
  have "paired_ends b' (ys @ out) a' xs2"
    by (rule paired_buffers [OF left [THEN paired_ends_sym [THEN iffD1]]])
      (use left in \<open>simp_all add: b' paired_ends_def well_kept_buffers\<close>)
  then have "paired_ends a' xs2 b' (ys @ out)" by (rule paired_ends_sym [THEN iffD1])
  moreover have "in_flight a' b' = bytes_of_msgs xs2" using rest by (simp add: in_flight_def a' b')
  moreover have "in_flight b' a' = bytes_of_msgs (ys @ out)" using fl(2) out(2) by (simp add: in_flight_def a' b')
  ultimately have "joined a' xs2 b' (ys @ out)" by (simp add: joined_def)
  then show ?thesis by blast
qed

section \<open>Every step keeps the two ends paired\<close>

lemma joined_app:
  assumes "joined a xs b ys" and "moves (pe_session a) sid ms h (pe_session a')"
    and "use_step (side_of a sid) ms (side_of a' sid)" and "pe_wire a' = pe_wire a"
    and "\<And>i. i \<noteq> sid \<Longrightarrow> pe_wrote a' i = pe_wrote a i \<and> pe_got a' i = pe_got a i"
  shows "\<exists>xs'. joined a' xs' b ys"
proof -
  have "paired_ends a' (xs @ map (Pair sid) ms) b ys"
    using paired_app [OF _ assms(2,3,5)] assms(1) by (simp add: joined_def)
  then have "joined a' (xs @ map (Pair sid) ms) b ys"
    using assms(1,2,4) by (simp add: joined_def in_flight_def moves_def)
  then show ?thesis by blast
qed

lemma joined_unread:
  assumes "joined a xs b ys"
  shows "length (unread_of (side_of a sid)) < 2 ^ 32"
proof -
  have "covered (side_of b sid) (msgs_about sid ys) (side_of a sid) (msgs_about sid xs)"
    using paired_both [of a xs b ys sid] assms by (simp add: joined_def both_ways_def)
  then show ?thesis by (simp add: covered_def stream_window_def)
qed

lemma write_refused:
  assumes "well_kept s" and "p < length (ys_heap s)" and "try_write no_callbacks p data (s, ()) = (Inl err, t)"
  shows "fst t = s"
proof (cases "st_reset (stream_at s p)")
  case True
  with assms(3) show ?thesis by (auto simp: try_write_def Let_def)
next
  case False
  from live_handle(2) [OF assms(1,2) False] obtain w where "ys_send_windows s (st_id (stream_at s p)) = Some w" by blast
  from try_write_cases [OF this, of data "()"] assms(3) show ?thesis by (auto simp: Let_def split: if_splits)
qed

lemma end_read_joined:
  assumes "joined a xs b ys" and "p < length (ys_heap (pe_session a))"
  shows "\<exists>xs'. joined (end_read p n a) xs' b ys"
proof -
  let ?s = "pe_session a"
  let ?st = "stream_at ?s p"
  have kept: "well_kept ?s" using assms(1) by (simp add: joined_def paired_ends_def)
  have half: "sd_half (side_of a (st_id ?st)) = Some (half_at ?s ?st)"
    using known_handle(4) [OF kept assms(2)] by (simp add: side_of_def)
  have unread: "length (st_recv_buf ?st) < 2 ^ 32"
    using joined_unread [OF assms(1), of "st_id ?st"] half by (simp add: unread_of_def half_at_def)
  show ?thesis
  proof (cases "st_recv_buf ?st = []")
    case True
    then have "end_read p n a = a" by (simp add: end_read_def try_read_def Let_def)
    with assms(1) show ?thesis by auto
  next
    case False
    define m where "m = min n (length (st_recv_buf ?st))"
    note run = read_moves [OF kept assms(2) unread False m_def]
    define a' where "a' = end_read p n a"
    have a': "a' = a\<lparr>pe_session := fst (snd (try_read no_callbacks p n (?s, ()))),
        pe_got := (pe_got a)(st_id ?st := pe_got a (st_id ?st) @ take m (st_recv_buf ?st))\<rparr>"
      using run(1) by (simp add: a'_def end_read_def case_prod_beta Let_def)
    have "use_step (side_of a (st_id ?st)) (if m = 0 then [] else [MUpdate m]) (side_of a' (st_id ?st))"
      using use_step.reads [OF half, of m] run(2) by (simp add: a' side_of_def moves_def half_at_def m_def)
    from joined_app [OF assms(1) _ this] run(2) show ?thesis by (simp add: a' a'_def [symmetric])
  qed
qed

lemma end_write_joined:
  assumes "joined a xs b ys" and "p < length (ys_heap (pe_session a))"
  shows "\<exists>xs'. joined (end_write p data a) xs' b ys"
proof -
  let ?s = "pe_session a"
  let ?st = "stream_at ?s p"
  have kept: "well_kept ?s" using assms(1) by (simp add: joined_def paired_ends_def)
  have half: "sd_half (side_of a (st_id ?st)) = Some (half_at ?s ?st)"
    using known_handle(4) [OF kept assms(2)] by (simp add: side_of_def)
  obtain r s' where run: "try_write no_callbacks p data (?s, ()) = (r, (s', ()))" by (metis prod.collapse old.unit.exhaust)
  show ?thesis
  proof (cases r)
    case (Inl err)
    with write_refused [OF kept assms(2)] run have "s' = ?s" by fastforce
    with run Inl have "end_write p data a = a" by (simp add: end_write_def Let_def)
    with assms(1) show ?thesis by auto
  next
    case (Inr n)
    note wrote = write_moves [OF kept assms(2) run [unfolded Inr]]
    define a' where "a' = end_write p data a"
    have a': "a' = a\<lparr>pe_session := s', pe_wrote := (pe_wrote a)(st_id ?st := pe_wrote a (st_id ?st) @ take n data)\<rparr>"
      using run Inr by (simp add: a'_def end_write_def Let_def)
    have "take n data \<noteq> []" "length (take n data) = n" "n \<le> h_window (half_at ?s ?st)" "\<not> h_write_closed (half_at ?s ?st)"
      using wrote(1-3) by (auto simp: half_at_def)
    then have "use_step (side_of a (st_id ?st)) [MBytes (take n data)] (side_of a' (st_id ?st))"
      using use_step.writes [OF half, of "take n data"] wrote(4) by (simp add: a' side_of_def moves_def)
    from joined_app [OF assms(1) _ this] wrote(4) show ?thesis by (simp add: a' a'_def [symmetric])
  qed
qed

lemma end_close_joined:
  assumes "joined a xs b ys" and "p < length (ys_heap (pe_session a))"
  shows "\<exists>xs'. joined (end_close p a) xs' b ys"
proof (cases "st_write_closed (stream_at (pe_session a) p)")
  case True
  then have "end_close p a = a" by (simp add: end_close_def close_write_def)
  with assms(1) show ?thesis by auto
next
  case False
  have kept: "well_kept (pe_session a)" using assms(1) by (simp add: joined_def paired_ends_def)
  note half = known_handle(4) [OF kept assms(2)]
  note run = close_moves [OF kept assms(2) False]
  have "use_step (side_of a (st_id (stream_at (pe_session a) p))) [MFin] (side_of (end_close p a) (st_id (stream_at (pe_session a) p)))"
    using use_step.closes [of "side_of a (st_id (stream_at (pe_session a) p))"] half False run
    by (simp add: side_of_def end_close_def moves_def half_at_def)
  from joined_app [OF assms(1) _ this] run show ?thesis by (simp add: end_close_def)
qed

lemma end_reset_joined:
  assumes "joined a xs b ys" and "p < length (ys_heap (pe_session a))"
  shows "\<exists>xs'. joined (end_reset p a) xs' b ys"
proof -
  have kept: "well_kept (pe_session a)" using assms(1) by (simp add: joined_def paired_ends_def)
  note half = known_handle(4) [OF kept assms(2)]
  note run = reset_moves [OF kept assms(2)]
  have "use_step (side_of a (st_id (stream_at (pe_session a) p))) [MRst] (side_of (end_reset p a) (st_id (stream_at (pe_session a) p)))"
    using use_step.resets [of "side_of a (st_id (stream_at (pe_session a) p))"] half run
    by (simp add: side_of_def end_reset_def moves_def)
  from joined_app [OF assms(1) _ this] run show ?thesis by (simp add: end_reset_def)
qed

lemma end_open_joined:
  assumes "joined a xs b ys" and "unat (ys_next_stream_id (pe_session a)) + 2 < 2 ^ 32"
  shows "\<exists>xs'. joined (end_open a) xs' b ys"
proof -
  have kept: "well_kept (pe_session a)" and p: "paired_ends a xs b ys" using assms(1) by (simp_all add: joined_def paired_ends_def)
  note run = open_moves [OF kept assms(2)]
  have "paired_ends (end_open a) (xs @ [(ys_next_stream_id (pe_session a), MOpen)]) b ys"
    by (rule paired_open [OF p _ run(1,2)]) (use run(3) in \<open>simp_all add: end_open_def\<close>)
  then have "joined (end_open a) (xs @ [(ys_next_stream_id (pe_session a), MOpen)]) b ys"
    using assms(1) run(3) by (simp add: joined_def in_flight_def moves_def end_open_def)
  then show ?thesis by blast
qed

lemma end_drain_joined:
  assumes "joined a xs b ys"
  shows "joined (end_drain a) xs b ys"
proof -
  have p: "paired_ends a xs b ys" using assms by (simp add: joined_def)
  have "paired_ends (end_drain a) xs b ys"
    by (rule paired_buffers [OF p]) (use p in \<open>simp_all add: end_drain_def drain_outgoing_def paired_ends_def well_kept_buffers\<close>)
  with assms show ?thesis by (simp add: joined_def in_flight_def end_drain_def drain_outgoing_def)
qed

lemma end_step_joined: "end_step a a' \<Longrightarrow> joined a xs b ys \<Longrightarrow> \<exists>xs'. joined a' xs' b ys"
  by (induction rule: end_step.induct)
    (blast intro: end_open_joined end_read_joined end_write_joined end_close_joined end_reset_joined end_drain_joined)+

lemma duplex_step_joined:
  assumes "duplex_step (a, b) (a', b')" and "joined a xs b ys"
  shows "\<exists>xs' ys'. joined a' xs' b' ys'"
  using assms(1)
proof cases
  case client
  with end_step_joined assms(2) show ?thesis by blast
next
  case server
  with end_step_joined assms(2) joined_sym show ?thesis by blast
next
  case (to_server n)
  with handover_joined assms(2) show ?thesis by blast
next
  case (to_client n)
  with handover_joined assms(2) joined_sym show ?thesis by blast
qed

lemma new_ends_joined: "joined (new_end c True) [] (new_end c' False) []"
proof -
  have "well_kept (new_session c is_client)" for c is_client
    by (simp add: well_kept_def inv_new_session) (simp add: new_session_def)
  moreover have "streams_of (new_end c True) [] (new_end c' False) [] sid = no_link" for sid
    by (simp add: streams_of_def link_of_def side_of_def new_end_def half_of_def new_session_def no_link_def no_side_def)
  ultimately show ?thesis
    by (simp add: joined_def paired_ends_def link_reachable_initial in_flight_def new_end_def)
      (simp add: new_session_def)
qed

lemma duplex_reachable_joined:
  assumes "duplex_reachable a b"
  shows "\<exists>xs ys. joined a xs b ys"
proof -
  from assms obtain c c' where "duplex_step\<^sup>*\<^sup>* (new_end c True, new_end c' False) (a, b)" by (auto simp: duplex_reachable_def)
  then show ?thesis
  proof (induction "(a, b)" arbitrary: a b rule: rtranclp_induct)
    case base
    with new_ends_joined show ?case by blast
  next
    case (step y)
    obtain a1 b1 where "y = (a1, b1)" by force
    with step duplex_step_joined show ?case by blast
  qed
qed

section \<open>What the two applications can rely on\<close>

text \<open>Two ends of one connection, either of them first.\<close>

definition peers :: "peer_end \<Rightarrow> peer_end \<Rightarrow> bool" where
  "peers a b \<longleftrightarrow> duplex_reachable a b \<or> duplex_reachable b a"

lemma peers_joined:
  assumes "peers a b"
  obtains xs ys where "joined a xs b ys"
  using assms duplex_reachable_joined joined_sym by (auto simp: peers_def) blast+

lemma nothing_in_flight: "bytes_of_msgs xs = [] \<Longrightarrow> xs = []"
  by (cases xs) (auto simp: bytes_of_msgs_def frame_bytes_def be16_def be32_def split: prod.splits)

lemma joined_handle:
  assumes "joined a xs b ys" and "p < length (ys_heap (pe_session b))"
  shows "sd_half (side_of b (st_id (stream_at (pe_session b) p))) = Some (half_at (pe_session b) (stream_at (pe_session b) p))"
  using known_handle(4) [OF _ assms(2)] assms(1) by (simp add: joined_def paired_ends_def side_of_def)

lemma joined_told:
  assumes "joined a xs b ys"
  shows "told (side_of a sid) (msgs_about sid xs) (side_of b sid)"
proof -
  have "link_told (streams_of a xs b ys sid)" using assms link_reachable_told by (simp add: joined_def paired_ends_def)
  then show ?thesis by (auto simp: streams_of_def link_told_def link_of_def split: if_splits)
qed

lemma joined_stream:
  assumes "joined a xs b ys" and "p < length (ys_heap (pe_session b))" and "st = stream_at (pe_session b) p" and "sid = st_id st"
  shows "st_reset st \<Longrightarrow> \<exists>lost. pe_wrote a sid = pe_got b sid @ lost"
    and "\<not> st_reset st \<Longrightarrow> pe_wrote a sid = pe_got b sid @ st_recv_buf st @ data_of (msgs_about sid xs)"
    and "\<not> st_reset st \<Longrightarrow> st_read_closed st \<Longrightarrow> write_closed_of (side_of a sid) \<and> data_of (msgs_about sid xs) = []"
    and "in_flight a b = [] \<Longrightarrow> xs = []"
proof -
  have both: "carried (side_of a sid) (msgs_about sid xs) (side_of b sid)" "ended (side_of a sid) (msgs_about sid xs) (side_of b sid)"
    using paired_both [of a xs b ys sid] assms(1) by (simp_all add: joined_def both_ways_def)
  have half: "sd_half (side_of b sid) = Some (half_at (pe_session b) st)"
    using joined_handle [OF assms(1,2)] assms(3,4) by simp
  show "st_reset st \<Longrightarrow> \<exists>lost. pe_wrote a sid = pe_got b sid @ lost"
    "\<not> st_reset st \<Longrightarrow> pe_wrote a sid = pe_got b sid @ st_recv_buf st @ data_of (msgs_about sid xs)"
    using both(1) half by (simp_all add: carried_def reset_of_def unread_of_def half_at_def) (simp_all add: side_of_def)
  show "\<not> st_reset st \<Longrightarrow> st_read_closed st \<Longrightarrow> write_closed_of (side_of a sid) \<and> data_of (msgs_about sid xs) = []"
    using both(2) half by (simp add: ended_def reset_of_def read_closed_of_def half_at_def)
  show "in_flight a b = [] \<Longrightarrow> xs = []" using assms(1) nothing_in_flight by (simp add: joined_def)
qed

section \<open>A run of two ends\<close>

text \<open>The client opens a stream, writes three bytes, closes it and drains; the network hands the frames
  over; the server reads.\<close>

definition run_client :: peer_end where
  "run_client = end_drain (end_close 0 (end_write 0 [1, 2, 3] (end_open (new_end 7 True))))"

definition run_handed :: "peer_end \<times> peer_end" where
  "run_handed = handover 39 run_client (new_end 8 False)"

definition run_server :: "nat \<Rightarrow> peer_end" where
  "run_server n = end_read 0 n (snd run_handed)"

lemma run_client_session:
  "pe_session run_client = (new_session 7 True)\<lparr>ys_next_stream_id := 3,
     ys_heap := [(new_stream 1 7)\<lparr>st_write_closed := True\<rparr>], ys_streams := [1 \<mapsto> 0], ys_send_windows := [1 \<mapsto> 262141]\<rparr>"
  "pe_wire run_client = bytes_of_msgs [(1, MOpen), (1, MBytes [1, 2, 3]), (1, MFin)]"
  "pe_wrote run_client = (\<lambda>_. [])(1 := [1, 2, 3])"
  by (simp_all add: run_client_def end_open_def end_write_def end_close_def end_drain_def new_end_def new_session_def
      open_stream_fresh try_write_cases close_write_cases stream_at_def new_stream_def Let_def drain_outgoing_def
      kInitialStreamWindow_def close_local_write_def write_frame_def map_stream_def bytes_of_msgs_def)

lemma run_handed_session:
  "pe_session (snd run_handed) = (new_session 8 False)\<lparr>ys_heap := [(new_stream 1 8)\<lparr>st_recv_buf := [1, 2, 3], st_read_closed := True\<rparr>],
     ys_streams := [1 \<mapsto> 0], ys_send_windows := [1 \<mapsto> kInitialStreamWindow], ys_send_buf := bytes_of_msgs [(1, MAck)]\<rparr>"
  "fst run_handed = run_client\<lparr>pe_wire := []\<rparr>"
proof -
  let ?xs = "[(1, MOpen), (1, MBytes [1, 2, 3]), (1, MFin)] :: (u32 \<times> msg) list"
  have "length (pe_wire run_client) = 39"
    by (simp add: run_client_session bytes_of_msgs_def frame_bytes_def be16_def be32_def)
  then have wire: "take 39 (pe_wire run_client) = pe_wire run_client" "drop 39 (pe_wire run_client) = []" by simp_all
  from wire(2) show "fst run_handed = run_client\<lparr>pe_wire := []\<rparr>" by (simp add: run_handed_def handover_def)
  have "list_all sendable ?xs" by (simp add: sendable_def)
  then have "wf_frame (enc x)" if "x \<in> set ?xs" for x using that by (intro wf_enc) (simp only: list_all_iff)
  then have "list_all wf_frame (map enc ?xs)" by (auto simp only: list_all_iff set_map)
  from parse_sent [OF this] have parse: "parse_all try_parse_frame (pe_wire run_client) = (map enc ?xs, [])"
    by (simp add: run_client_session bytes_of_msgs_def)
  define s0 where "s0 = new_session 8 False"
  define s1 where "s1 = s0\<lparr>ys_heap := [new_stream 1 8], ys_streams := [1 \<mapsto> 0],
    ys_send_windows := [1 \<mapsto> kInitialStreamWindow], ys_send_buf := bytes_of_msgs [(1, MAck)]\<rparr>"
  have one: "fst (handle_frame no_callbacks (frame Data (flag_value SYN) 1 0) [] (s0, ())) = s1"
    using handle_open [of 1 s0] by (simp add: s0_def s1_def new_session_def own_id_def write_frame_def bytes_of_msgs_def)
  then have one': "handle_frame no_callbacks (frame Data (flag_value SYN) 1 0) [] (s0, ()) = (s1, ())"
    by (simp add: prod_eq_iff)
  have at: "ys_streams s1 1 = Some 0" "ys_streams (map_stream 0 f s1) 1 = Some 0" for f by (simp_all add: s1_def map_stream_def)
  have "fst (handle_frames no_callbacks (map enc ?xs) (s0, ())) = map_stream 0 receive_fin (map_stream 0 (receive_data [1, 2, 3]) s1)"
    using handle_fin [of 1 _ 0 no_callbacks "()"] handle_data [OF _ at(1), where cbs = no_callbacks and e = "()"] at one'
    by (simp add: handle_frames_def split_beta)
  then show "pe_session (snd run_handed) = (new_session 8 False)\<lparr>ys_heap := [(new_stream 1 8)\<lparr>st_recv_buf := [1, 2, 3], st_read_closed := True\<rparr>],
     ys_streams := [1 \<mapsto> 0], ys_send_windows := [1 \<mapsto> kInitialStreamWindow], ys_send_buf := bytes_of_msgs [(1, MAck)]\<rparr>"
    using receive_frames [of no_callbacks "pe_wire run_client" "(s0, ())"] parse wire(1)
    by (simp add: run_handed_def handover_def set_recv_def s0_def s1_def new_end_def new_session_def map_stream_def receive_data_def
        receive_fin_def new_stream_def)
qed

lemma run_server_state:
  assumes "0 < n"
  shows "st_id (stream_at (pe_session (run_server n)) 0) = 1" "st_recv_buf (stream_at (pe_session (run_server n)) 0) = drop n [1, 2, 3]"
    "st_read_closed (stream_at (pe_session (run_server n)) 0)" "\<not> st_reset (stream_at (pe_session (run_server n)) 0)"
    "length (ys_heap (pe_session (run_server n))) = 1" "pe_got (run_server n) 1 = take n [1, 2, 3]" "ys_recv_buf (pe_session (run_server n)) = []"
proof -
  have "pe_got (snd run_handed) = (\<lambda>_. [])" by (simp add: run_handed_def handover_def new_end_def)
  moreover have "drop (min n (Suc (Suc (Suc 0)))) [1, 2, 3 :: byte] = drop n [1, 2, 3]" "take (min n (Suc (Suc (Suc 0)))) [1, 2, 3 :: byte] = take n [1, 2, 3]"
    by (simp_all add: min_def)
  ultimately show "st_id (stream_at (pe_session (run_server n)) 0) = 1" "st_recv_buf (stream_at (pe_session (run_server n)) 0) = drop n [1, 2, 3]"
    "st_read_closed (stream_at (pe_session (run_server n)) 0)" "\<not> st_reset (stream_at (pe_session (run_server n)) 0)"
    "length (ys_heap (pe_session (run_server n))) = 1" "pe_got (run_server n) 1 = take n [1, 2, 3]" "ys_recv_buf (pe_session (run_server n)) = []"
    using assms
    by (simp_all add: run_server_def end_read_def run_handed_session try_read_def Let_def and_then_def update_receive_window_def
        stream_at_def new_stream_def map_stream_def write_frame_def new_session_def on_session_def)
qed

lemma client_goes: "duplex_step\<^sup>*\<^sup>* x (a, b) \<Longrightarrow> end_step a a' \<Longrightarrow> duplex_step\<^sup>*\<^sup>* x (a', b)"
  by (blast intro: rtranclp.rtrancl_into_rtrancl duplex_step.client)

lemma run_reachable: "duplex_reachable (fst run_handed) (run_server n)"
proof -
  have open_it: "unat (ys_next_stream_id (pe_session (new_end 7 True))) + 2 < 2 ^ 32"
    by (simp add: new_end_def new_session_def)
  have one: "length (ys_heap (pe_session (end_open (new_end 7 True)))) = 1"
    "length (ys_heap (pe_session (end_write 0 [1, 2, 3] (end_open (new_end 7 True))))) = 1"
    by (simp_all add: end_open_def end_write_def new_end_def new_session_def open_stream_fresh try_write_cases stream_at_def
        new_stream_def Let_def kInitialStreamWindow_def write_frame_def)
  have "length (ys_heap (pe_session (snd run_handed))) = 1" by (simp add: run_handed_session)
  then have read_it: "duplex_step (fst run_handed, snd run_handed) (fst run_handed, run_server n)"
    unfolding run_server_def by (intro duplex_step.server end_step.reads) simp
  have "duplex_step\<^sup>*\<^sup>* (new_end 7 True, new_end 8 False) (run_client, new_end 8 False)"
    unfolding run_client_def
    by (rule client_goes [OF client_goes [OF client_goes [OF client_goes [OF rtranclp.rtrancl_refl
        end_step.opens] end_step.writes] end_step.closes] end_step.drains]) (use open_it one in simp_all)
  moreover have "duplex_step (run_client, new_end 8 False) (fst run_handed, snd run_handed)"
    by (rule duplex_step.to_server [where n = 39]) (simp add: run_handed_def)
  ultimately have "duplex_step\<^sup>*\<^sup>* (new_end 7 True, new_end 8 False) (fst run_handed, run_server n)"
    using read_it by (meson rtranclp.rtrancl_into_rtrancl)
  then show ?thesis by (auto simp: duplex_reachable_def)
qed

lemma run_peers: "peers (fst run_handed) (run_server n)"
  using run_reachable by (simp add: peers_def)

lemma run_quiet: "0 < n \<Longrightarrow> in_flight (fst run_handed) (run_server n) = []" "pe_wrote (fst run_handed) 1 = [1, 2, 3]"
  by (simp_all add: in_flight_def run_server_state run_handed_session run_client_session new_session_def)

section \<open>Properties\<close>

text \<open>C1. The multiplexer refines its specification.  Two ends of a connection open streams, read, write,
  close, reset and drain in any order, and the network hands the output over in pieces of any
  length.  At every moment the bytes in flight are the frames of a list of messages in each
  direction, and for each stream id the two ends with the messages of that id are a reachable
  state of one abstract stream.\<close>

theorem yamux_refines_streams:
  assumes "duplex_reachable a b"
  shows "\<exists>xs ys. in_flight a b = bytes_of_msgs xs \<and> in_flight b a = bytes_of_msgs ys
    \<and> (\<forall>sid. link_reachable (streams_of a xs b ys sid))"
  using duplex_reachable_joined [OF assms] by (auto simp: joined_def paired_ends_def)

theorem yamux_refines_streams_witness:
  "\<exists>xs ys. in_flight (fst run_handed) (run_server 2) = bytes_of_msgs xs \<and> in_flight (run_server 2) (fst run_handed) = bytes_of_msgs ys
    \<and> (\<forall>sid. link_reachable (streams_of (fst run_handed) xs (run_server 2) ys sid))"
  by (rule yamux_refines_streams [OF run_reachable])

text \<open>C5. Bytes arrive in order, none lost, none twice, in both directions and under every interleaving.
  What an application has read from a stream, followed by what its end still holds and what is
  on the way, is what the application at the other end has written; nothing is on the way when the
  network is empty; and of a stream that was reset, what was read is the beginning of what was
  written.\<close>

theorem duplex_streams_in_order:
  assumes "peers a b" and "p < length (ys_heap (pe_session b))"
    and "st = stream_at (pe_session b) p"
  shows "\<exists>moving. (st_reset st \<longrightarrow> pe_wrote a (st_id st) = pe_got b (st_id st) @ moving)
    \<and> (\<not> st_reset st \<longrightarrow> pe_wrote a (st_id st) = pe_got b (st_id st) @ st_recv_buf st @ moving \<and> (in_flight a b = [] \<longrightarrow> moving = []))"
proof -
  obtain xs ys where j: "joined a xs b ys" by (rule peers_joined [OF assms(1)])
  note stream = joined_stream [OF j assms(2,3) refl]
  show ?thesis
  proof (cases "st_reset st")
    case True
    with stream(1) show ?thesis by simp
  next
    case False
    with stream(2,4) show ?thesis by (intro exI [of _ "data_of (msgs_about (st_id st) xs)"]) auto
  qed
qed

theorem duplex_streams_in_order_witness:
  "\<exists>moving. [1, 2, 3] = [1, 2] @ [3] @ (moving :: bytes) \<and> in_flight (fst run_handed) (run_server 2) = []"
  using duplex_streams_in_order [OF run_peers [of 2], of 0] by (simp add: run_server_state run_quiet)

text \<open>C11. The end of a stream is its end.  When a read reports the end of a stream that was not reset, the
  application at the other end has closed it, or reset it, and every byte it wrote has been read:
  end of stream is never reported early, whatever is still in flight.\<close>

theorem end_of_stream_is_the_end:
  assumes "peers a b" and "p < length (ys_heap (pe_session b))" and "st = stream_at (pe_session b) p"
    and "\<not> st_reset st" and "fst (try_read no_callbacks p n (pe_session b, ())) = Inr []" and "0 < n"
  shows "pe_got b (st_id st) = pe_wrote a (st_id st)
    \<and> (\<exists>q < length (ys_heap (pe_session a)). st_id (stream_at (pe_session a) q) = st_id st \<and> st_write_closed (stream_at (pe_session a) q))"
proof -
  obtain xs ys where j: "joined a xs b ys" by (rule peers_joined [OF assms(1)])
  note stream = joined_stream [OF j assms(2,3) refl]
  have ended: "st_recv_buf st = []" "st_read_closed st"
    using assms(3-6) by (auto simp: try_read_def Let_def and_then_def min_def split: if_splits)
  with stream(3) assms(4) have w: "write_closed_of (side_of a (st_id st))" "data_of (msgs_about (st_id st) xs) = []" by simp_all
  then have all: "pe_got b (st_id st) = pe_wrote a (st_id st)" using stream(2) assms(4) ended by simp
  from w(1) obtain h where h: "half_of (pe_session a) (st_id st) = Some h" "h_write_closed h"
    by (auto simp: write_closed_of_def side_of_def split: option.splits)
  from h(1) obtain q where "q < length (ys_heap (pe_session a))" "st_id (stream_at (pe_session a) q) = st_id st"
    "h = half_at (pe_session a) (stream_at (pe_session a) q)" by (rule half_handle)
  with h(2) all show ?thesis by (auto simp: half_at_def)
qed

theorem end_of_stream_is_the_end_witness:
  "pe_got (run_server 5) 1 = [1, 2, 3] \<and> fst (try_read no_callbacks 0 9 (pe_session (run_server 5), ())) = Inr []"
proof -
  have "fst (try_read no_callbacks 0 9 (pe_session (run_server 5), ())) = Inr []"
    using run_server_state [of 5] by (simp add: try_read_def)
  with end_of_stream_is_the_end [OF run_peers [of 5], of 0 _ 9] show ?thesis by (simp add: run_server_state run_quiet)
qed

text \<open>C20. A closed stream can be read out.  When one application has closed a stream and the network is
  empty, and the other has not seen it reset, one read of a large enough buffer gives the other
  everything that was written, and the next read reports the end of the stream.\<close>

theorem closed_stream_is_read_out:
  assumes "peers a b" and "in_flight a b = []" and "q < length (ys_heap (pe_session a))" and "p < length (ys_heap (pe_session b))"
    and "st = stream_at (pe_session b) p" and "st_id (stream_at (pe_session a) q) = st_id st"
    and "st_write_closed (stream_at (pe_session a) q)" and "\<not> st_reset st" and "length (st_recv_buf st) \<le> n"
  shows "pe_got (end_read p n b) (st_id st) = pe_wrote a (st_id st)
    \<and> fst (try_read no_callbacks p k (pe_session (end_read p n b), ())) = Inr []"
proof -
  obtain xs ys where j: "joined a xs b ys" by (rule peers_joined [OF assms(1)])
  note stream = joined_stream [OF j assms(4,5) refl]
  have "xs = []" by (rule stream(4) [OF assms(2)])
  have "joined b ys a xs" using j joined_sym by blast
  from joined_handle [OF this assms(3)] have "write_closed_of (side_of a (st_id st))"
    using assms(6,7) by (simp add: write_closed_of_def half_at_def)
  then have "read_closed_of (side_of b (st_id st))" using joined_told [OF j, of "st_id st"] \<open>xs = []\<close> by (simp add: told_def)
  then have closed: "st_read_closed st" using joined_handle [OF j assms(4)] assms(5) by (simp add: read_closed_of_def half_at_def)
  have all: "pe_wrote a (st_id st) = pe_got b (st_id st) @ st_recv_buf st" using stream(2) assms(8) \<open>xs = []\<close> by simp
  show ?thesis
  proof (cases "st_recv_buf st = []")
    case True
    then have "end_read p n b = b" using assms(5) by (simp add: end_read_def try_read_def Let_def)
    with True all closed assms(5) show ?thesis by (simp add: try_read_def)
  next
    case False
    then show ?thesis
      using all closed assms(4,5,9)
      by (simp add: end_read_def try_read_def Let_def and_then_def update_receive_window_def min_absorb2 case_prod_beta
          stream_at_def map_stream_def write_frame_def on_session_def)
  qed
qed

theorem closed_stream_is_read_out_witness:
  "pe_got (end_read 0 3 (run_server 2)) 1 = [1, 2, 3]"
proof -
  have "stream_at (pe_session (fst run_handed)) 0 = (new_stream 1 7)\<lparr>st_write_closed := True\<rparr>"
    "length (ys_heap (pe_session (fst run_handed))) = 1"
    by (simp_all add: run_handed_session run_client_session stream_at_def)
  with closed_stream_is_read_out [OF run_peers [of 2], of 0 0 _ 3] show ?thesis
    by (simp add: run_server_state run_quiet new_stream_def)
qed

text \<open>C13. Flow control, in both directions and at every moment: what the reader's end holds unread together
  with what the writer may still send never exceeds the 256 KiB window, so the receive buffer of a
  stream is bounded, and no honest peer is ever sent more than it granted.\<close>

theorem duplex_flow_control:
  assumes "peers a b" and "p < length (ys_heap (pe_session b))" and "st = stream_at (pe_session b) p"
  shows "length (st_recv_buf st) + (case ys_send_windows (pe_session a) (st_id st) of None \<Rightarrow> 0 | Some w \<Rightarrow> unat w) \<le> unat kInitialStreamWindow"
proof -
  obtain xs ys where j: "joined a xs b ys" by (rule peers_joined [OF assms(1)])
  have cov: "covered (side_of a (st_id st)) (msgs_about (st_id st) xs) (side_of b (st_id st)) (msgs_about (st_id st) ys)"
    using paired_both [of a xs b ys "st_id st"] j by (simp add: joined_def both_ways_def)
  have unread: "unread_of (side_of b (st_id st)) = st_recv_buf st"
    using joined_handle [OF j assms(2)] assms(3) by (simp add: unread_of_def half_at_def)
  have kept: "well_kept (pe_session a)" using j by (simp add: joined_def paired_ends_def)
  have "window_of (side_of a (st_id st)) = unat w" if w: "ys_send_windows (pe_session a) (st_id st) = Some w" for w
  proof -
    note inv = well_keptD(1) [OF kept]
    obtain q where "ys_streams (pe_session a) (st_id st) = Some q" using yamux_invD(1) [OF inv] w by blast
    from yamux_invD(2) [OF inv this] have q: "q < length (ys_heap (pe_session a))" "st_id (stream_at (pe_session a) q) = st_id st"
      by (simp_all add: stream_at_def)
    have "joined b ys a xs" using j joined_sym by blast
    from joined_handle [OF this q(1)] q(2) w show ?thesis by (simp add: window_of_def half_at_def)
  qed
  with cov unread show ?thesis
    by (auto simp: covered_def stream_window_def kInitialStreamWindow_def split: option.splits)
qed

theorem duplex_flow_control_witness:
  "length (st_recv_buf (stream_at (pe_session (run_server 2)) 0))
     + (case ys_send_windows (pe_session (fst run_handed)) 1 of None \<Rightarrow> 0 | Some w \<Rightarrow> unat w) \<le> unat kInitialStreamWindow
   \<and> ys_send_windows (pe_session (fst run_handed)) 1 = Some 262141"
  using duplex_flow_control [OF run_peers [of 2], of 0]
  by (simp add: run_server_state run_handed_session run_client_session)

end
