(* ===== verification/StreamNegotiation.thy ===== *)
theory StreamNegotiation
  imports ConnectionTransfer
begin

text \<open>
  Agreeing on the protocol of a stream: the class \<open>ProtocolNegotiatingStream\<close> of
  src/src/swarm.cpp, which wraps a stream of a connection, runs multistream-select over it and then
  passes the application's reads and writes through.

  The wrapped object is known by the interface \<open>MuxedStream\<close> (include/peercore/muxed_stream.hpp):
  \<open>muxed_stream\<close> is its table of operations on a state of type \<open>'s\<close>, and \<open>muxed\<close> the table of a
  connection's stream.  \<open>ms_unread\<close> is not in the code: it is what the stream has received and not
  yet returned.  It bounds the reading loop, which could run forever on a stream that never runs
  dry; \<open>read_loop\<close> is that loop without a bound, and \<open>reading_loop_ends\<close> shows that on the streams of a
  connection it returns what the bounded one gives.  The locale \<open>byte_stream\<close> states what the wrapper relies on.
\<close>

section \<open>Code: the stream interface\<close>

record 's muxed_stream =
  ms_id :: "'s \<Rightarrow> u32"
  ms_try_read :: "nat \<Rightarrow> ('s, bytes) action"
  ms_try_write :: "bytes \<Rightarrow> ('s, nat) action"
  ms_close_write :: "('s, unit) action"
  ms_reset :: "('s, unit) action"
  ms_is_open :: "'s \<Rightarrow> bool"
  ms_unread :: "'s \<Rightarrow> bytes"

definition stream_unread :: "stream_handle \<Rightarrow> connection \<Rightarrow> bytes" where
  "stream_unread h c =
     (case h of DirectHandle p \<Rightarrow> ss_rx_buffer (cn_streams c ! p)
      | YamuxHandle p \<Rightarrow> (case cn_yamux c of None \<Rightarrow> [] | Some ys \<Rightarrow> st_recv_buf (stream_at ys p)))"

definition muxed :: "crypto \<Rightarrow> stream_handle \<Rightarrow> connection muxed_stream" where
  "muxed C h = \<lparr>ms_id = stream_id h, ms_try_read = stream_try_read C h, ms_try_write = stream_try_write C h,
     ms_close_write = stream_close_write C h, ms_reset = stream_reset C h, ms_is_open = stream_is_open h,
     ms_unread = stream_unread h\<rparr>"

section \<open>Code: the negotiating stream\<close>

datatype negotiation_stage = SendingOutboundProposal | AwaitingOutboundResponse | AwaitingInboundProposal
  | NgReady | NgFailed

record negotiating_stream =
  ng_conn_id :: u64
  ng_desired_protocol :: string
  ng_supported_protocols :: "string list"
  ng_inbound :: bool
  ng_stage :: negotiation_stage
  ng_negotiation_buffer :: bytes
  ng_app_rx_buffer :: bytes
  ng_negotiated_protocol :: "string option"
  ng_failure_detail :: "string option"

definition outbound_negotiation :: "u64 \<Rightarrow> string \<Rightarrow> negotiating_stream" where
  "outbound_negotiation conn_id desired_protocol =
     \<lparr>ng_conn_id = conn_id, ng_desired_protocol = desired_protocol, ng_supported_protocols = [],
      ng_inbound = False, ng_stage = SendingOutboundProposal, ng_negotiation_buffer = [],
      ng_app_rx_buffer = [], ng_negotiated_protocol = None, ng_failure_detail = None\<rparr>"

definition inbound_negotiation_on :: "u64 \<Rightarrow> string list \<Rightarrow> negotiating_stream" where
  "inbound_negotiation_on conn_id supported_protocols =
     \<lparr>ng_conn_id = conn_id, ng_desired_protocol = [], ng_supported_protocols = supported_protocols,
      ng_inbound = True, ng_stage = AwaitingInboundProposal, ng_negotiation_buffer = [],
      ng_app_rx_buffer = [], ng_negotiated_protocol = None, ng_failure_detail = None\<rparr>"

type_synonym 's nstate = "negotiating_stream \<times> 's"

definition on_inner :: "('s, 'a) action \<Rightarrow> ('s nstate, 'a) action" where
  "on_inner m = zoom snd (\<lambda>s (ng, _). (ng, s)) m"

definition on_ng :: "(negotiating_stream \<Rightarrow> negotiating_stream) \<Rightarrow> ('s nstate, unit) action" where
  "on_ng f = update (\<lambda>(ng, s). (f ng, s))"

definition is_negotiated :: "negotiating_stream \<Rightarrow> bool" where
  "is_negotiated ng \<longleftrightarrow> ng_stage ng = NgReady \<and> ng_negotiated_protocol ng \<noteq> None"

definition has_failed :: "negotiating_stream \<Rightarrow> bool" where
  "has_failed ng \<longleftrightarrow> ng_stage ng = NgFailed"

definition failure_detail :: "negotiating_stream \<Rightarrow> string" where
  "failure_detail ng = (case ng_failure_detail ng of Some d \<Rightarrow> d | None \<Rightarrow> ''stream protocol negotiation failed'')"

definition fail_negotiation :: "string \<Rightarrow> ('s nstate, unit) action" where
  "fail_negotiation detail =
     and_then (on_ng (\<lambda>ng. ng\<lparr>ng_stage := NgFailed, ng_failure_detail := Some detail\<rparr>)) (\<lambda>_. return_err detail)"

definition finish_negotiation :: "nat \<Rightarrow> negotiating_stream \<Rightarrow> negotiating_stream" where
  "finish_negotiation consumed ng =
     (let ng1 = (if length (ng_negotiation_buffer ng) > consumed
                 then ng\<lparr>ng_app_rx_buffer := ng_app_rx_buffer ng @ drop consumed (ng_negotiation_buffer ng)\<rparr>
                 else ng)
      in ng1\<lparr>ng_negotiation_buffer := [], ng_stage := NgReady\<rparr>)"

text \<open>The reading loop, at most \<open>rounds\<close> times; more rounds than unread bytes are never used.\<close>

primrec read_rounds :: "nat \<Rightarrow> 's muxed_stream \<Rightarrow> ('s nstate, unit) action" where
  "read_rounds 0 M = return_err ''out of rounds''"
| "read_rounds (Suc rounds) M = (\<lambda>(ng, s).
     case ms_try_read M 1024 s of
       (Inl e, s1) \<Rightarrow> if e = ''EAGAIN'' then (Inr (), ng, s1) else (Inl e, ng, s1)
     | (Inr bytes, s1) \<Rightarrow>
         if bytes = [] then
           (if \<not> ms_is_open M s1 then (Inl ''stream closed during protocol negotiation'', ng, s1)
            else (Inr (), ng, s1))
         else read_rounds rounds M
                (ng\<lparr>ng_negotiation_buffer := ng_negotiation_buffer ng @ bytes\<rparr>, s1))"

definition read_into_negotiation_buffer :: "'s muxed_stream \<Rightarrow> ('s nstate, unit) action" where
  "read_into_negotiation_buffer M = reading (\<lambda>(ng, s). read_rounds (Suc (length (ms_unread M s))) M)"

text \<open>The \<open>while (true)\<close> loop as it is written, which has no bound: \<open>None\<close> if it never returns.  It is
  shown below that on the streams of a connection it does return, with what the bounded loop of
  \<open>read_into_negotiation_buffer\<close> gives.\<close>

partial_function (option) read_loop :: "'s muxed_stream \<Rightarrow> 's nstate \<Rightarrow> (unit result \<times> 's nstate) option" where
  "read_loop M t =
     (case ms_try_read M 1024 (snd t) of
       (Inl e, s1) \<Rightarrow> Some (if e = ''EAGAIN'' then Inr () else Inl e, fst t, s1)
     | (Inr bytes, s1) \<Rightarrow>
         if bytes = [] then
           Some (if \<not> ms_is_open M s1 then Inl ''stream closed during protocol negotiation'' else Inr (), fst t, s1)
         else read_loop M ((fst t)\<lparr>ng_negotiation_buffer := ng_negotiation_buffer (fst t) @ bytes\<rparr>, s1))"

text \<open>An action whose error makes the negotiation fail: \<open>return fail(r.error().message)\<close>.\<close>

definition or_fail :: "('s nstate, 'a) action \<Rightarrow> ('a \<Rightarrow> ('s nstate, unit) action) \<Rightarrow> ('s nstate, unit) action" where
  "or_fail m f = (\<lambda>t. case m t of (Inl e, t1) \<Rightarrow> fail_negotiation e t1 | (Inr x, t1) \<Rightarrow> f x t1)"

definition send_proposal :: "'s muxed_stream \<Rightarrow> ('s nstate, unit) action" where
  "send_proposal M = reading (\<lambda>(ng, _).
     or_fail (return_result (prepare_outbound [ng_desired_protocol ng])) (\<lambda>proposal.
     or_fail (on_inner (ms_try_write M proposal)) (\<lambda>_.
     on_ng (\<lambda>ng. ng\<lparr>ng_stage := AwaitingOutboundResponse\<rparr>))))"

text \<open>The two blocks of \<open>poll\<close> that wait for an exchange, once its span is known.\<close>

definition take_response :: "nat \<Rightarrow> ('s nstate, unit) action" where
  "take_response span = reading (\<lambda>(ng, _).
     or_fail (return_result (read_outbound_response (take span (ng_negotiation_buffer ng)) (ng_desired_protocol ng)))
       (\<lambda>selected. on_ng (\<lambda>ng. finish_negotiation span (ng\<lparr>ng_negotiated_protocol := Some selected\<rparr>))))"

definition take_proposal :: "'s muxed_stream \<Rightarrow> nat \<Rightarrow> ('s nstate, unit) action" where
  "take_proposal M span = reading (\<lambda>(ng, _).
     or_fail (return_result (negotiate_inbound (take span (ng_negotiation_buffer ng)) (ng_supported_protocols ng)))
       (\<lambda>negotiation.
     or_fail (on_inner (ms_try_write M (in_outbound negotiation))) (\<lambda>_.
       case in_protocol negotiation of
         None \<Rightarrow> (\<lambda>(ng, s). fail_negotiation ''protocol not supported'' (ng, snd (ms_close_write M s)))
       | Some proto \<Rightarrow> on_ng (\<lambda>ng. finish_negotiation span (ng\<lparr>ng_negotiated_protocol := Some proto\<rparr>)))))"

definition with_exchange :: "(nat \<Rightarrow> ('s nstate, unit) action) \<Rightarrow> ('s nstate, unit) action" where
  "with_exchange f = reading (\<lambda>(ng, _).
     case multistream_exchange_span (ng_negotiation_buffer ng) of
       Inl e \<Rightarrow> if is_incomplete_multistream_error e then return_ok () else fail_negotiation e
     | Inr span \<Rightarrow> f span)"

definition poll :: "'s muxed_stream \<Rightarrow> ('s nstate, unit) action" where
  "poll M = reading (\<lambda>(ng, _).
     if ng_stage ng = NgReady then return_ok ()
     else if ng_stage ng = NgFailed then return_err (failure_detail ng)
     else
       and_then (if ng_stage ng = SendingOutboundProposal then send_proposal M else return_ok ()) (\<lambda>_.
       or_fail (read_into_negotiation_buffer M) (\<lambda>_.
       reading (\<lambda>(ng, _).
         if ng_stage ng = AwaitingOutboundResponse then with_exchange take_response
         else if ng_stage ng = AwaitingInboundProposal then with_exchange (take_proposal M)
         else return_ok ()))))"

text \<open>The application's operations.\<close>

definition when_negotiated :: "'s muxed_stream \<Rightarrow> ('s nstate, 'a) action \<Rightarrow> ('s nstate, 'a) action" where
  "when_negotiated M m =
     and_then (poll M) (\<lambda>_. reading (\<lambda>(ng, _).
       if \<not> is_negotiated ng then return_err ''stream protocol negotiation not complete'' else m))"

definition ng_try_read :: "'s muxed_stream \<Rightarrow> nat \<Rightarrow> ('s nstate, bytes) action" where
  "ng_try_read M buf_size = when_negotiated M (reading (\<lambda>(ng, _).
     if ng_app_rx_buffer ng \<noteq> [] then
       let n = min buf_size (length (ng_app_rx_buffer ng))
       in and_then (on_ng (\<lambda>ng. ng\<lparr>ng_app_rx_buffer := drop n (ng_app_rx_buffer ng)\<rparr>))
            (\<lambda>_. return_ok (take n (ng_app_rx_buffer ng)))
     else on_inner (ms_try_read M buf_size)))"

definition ng_try_write :: "'s muxed_stream \<Rightarrow> bytes \<Rightarrow> ('s nstate, nat) action" where
  "ng_try_write M data = when_negotiated M (on_inner (ms_try_write M data))"

definition ng_close_write :: "'s muxed_stream \<Rightarrow> ('s nstate, unit) action" where
  "ng_close_write M = when_negotiated M (on_inner (ms_close_write M))"

definition ng_reset :: "'s muxed_stream \<Rightarrow> ('s nstate, unit) action" where
  "ng_reset M =
     and_then (on_ng (\<lambda>ng. ng\<lparr>ng_stage := NgFailed,
         ng_failure_detail := (case ng_failure_detail ng of None \<Rightarrow> Some ''stream reset locally'' | Some d \<Rightarrow> Some d)\<rparr>))
       (\<lambda>_. on_inner (ms_reset M))"

definition ng_is_open :: "'s muxed_stream \<Rightarrow> 's nstate \<Rightarrow> bool" where
  "ng_is_open M = (\<lambda>(ng, s). ms_is_open M s)"

section \<open>What a negotiating stream relies on\<close>

text \<open>On a stream whose reads use up what is unread the loop returns, and the bound is never reached.\<close>

lemma loop_returns:
  assumes "P s" and "length (ms_unread M s) < rounds"
    and "\<And>s bs t. P s \<Longrightarrow> ms_try_read M 1024 s = (Inr bs, t) \<Longrightarrow> bs \<noteq> [] \<Longrightarrow>
      P t \<and> length (ms_unread M t) < length (ms_unread M s)"
  shows "read_loop M (ng, s) = Some (read_rounds rounds M (ng, s))"
  using assms(1,2)
proof (induction rounds arbitrary: ng s)
  case (Suc rounds)
  obtain r t where r: "ms_try_read M 1024 s = (r, t)" by (rule prod.exhaust)
  show ?case
  proof (cases "\<exists>bs. r = Inr bs \<and> bs \<noteq> []")
    case True
    then obtain bs where bs: "r = Inr bs" "bs \<noteq> []" by blast
    with assms(3) [OF Suc.prems(1), of bs t] r Suc.prems(2)
    have "P t" "length (ms_unread M t) < rounds" by auto
    from Suc.IH [OF this] show ?thesis by (simp add: read_loop.simps [of M "(ng, s)"] r bs)
  next
    case False
    then show ?thesis by (cases r) (auto simp: read_loop.simps [of M "(ng, s)"] r)
  qed
qed simp

text \<open>\<open>ok\<close>: the stream is open for reading and writing; \<open>arrive\<close>: more bytes of the peer arrive.\<close>

text \<open>\<open>t\<close> is reached from \<open>s\<close> by reads alone.\<close>

definition reads_on :: "'s muxed_stream \<Rightarrow> 's \<Rightarrow> 's \<Rightarrow> bool" where
  "reads_on M = (\<lambda>s t. \<exists>n r. ms_try_read M n s = (r, t))\<^sup>*\<^sup>*"

lemma reads_on_keeps:
  assumes "reads_on M s t" and "P s" and "\<And>n s r t. P s \<Longrightarrow> ms_try_read M n s = (r, t) \<Longrightarrow> P t"
  shows "P t"
  using assms(1) unfolding reads_on_def by (induction rule: rtranclp_induct) (use assms(2,3) in blast)+

lemma reads_on_read: "ms_try_read M n s = (r, t) \<Longrightarrow> reads_on M t u \<Longrightarrow> reads_on M s u"
  unfolding reads_on_def by (blast intro: converse_rtranclp_into_rtranclp)

lemma reads_on_none: "reads_on M s s"
  by (simp add: reads_on_def)

locale byte_stream =
  fixes M :: "'s muxed_stream" and ok :: "'s \<Rightarrow> bool" and arrive :: "bytes \<Rightarrow> 's \<Rightarrow> 's"
  assumes open_ok: "ok s \<Longrightarrow> ms_is_open M s"
    and read_some: "ok s \<Longrightarrow> ms_unread M s \<noteq> [] \<Longrightarrow>
      \<exists>t. ms_try_read M n s = (Inr (take n (ms_unread M s)), t) \<and> ok t \<and> ms_unread M t = drop n (ms_unread M s)"
    and read_none: "ok s \<Longrightarrow> ms_unread M s = [] \<Longrightarrow>
      \<exists>r t. ms_try_read M n s = (r, t) \<and> (r = Inr [] \<or> r = Inl ''EAGAIN'') \<and> ok t \<and> ms_unread M t = []"
    and write_ok: "ok s \<Longrightarrow> ms_try_write M data s = (Inr k, t) \<Longrightarrow> ok t \<and> ms_unread M t = ms_unread M s"
    and arrive_ok: "ok s \<Longrightarrow> ok (arrive bs s) \<and> ms_unread M (arrive bs s) = ms_unread M s @ bs"
begin

lemma read_rounds_all:
  assumes "ok s" and "length (ms_unread M s) < rounds"
  shows "\<exists>t. read_rounds rounds M (ng, s)
    = (Inr (), ng\<lparr>ng_negotiation_buffer := ng_negotiation_buffer ng @ ms_unread M s\<rparr>, t) \<and> ok t \<and> ms_unread M t = []
      \<and> reads_on M s t"
  using assms
proof (induction rounds arbitrary: ng s)
  case (Suc rounds)
  show ?case
  proof (cases "ms_unread M s = []")
    case True
    from read_none [OF Suc.prems(1) True] obtain r t where run: "ms_try_read M 1024 s = (r, t)"
      and "r = Inr [] \<or> r = Inl ''EAGAIN''" and t: "ok t" "ms_unread M t = []" by blast
    note reads_on_read [OF run reads_on_none]
    moreover have "ng\<lparr>ng_negotiation_buffer := ng_negotiation_buffer ng\<rparr> = ng" by simp
    ultimately show ?thesis using run \<open>r = Inr [] \<or> r = Inl ''EAGAIN''\<close> t True open_ok [OF t(1)] by auto
  next
    case False
    from read_some [OF Suc.prems(1) False] obtain t
      where r: "ms_try_read M 1024 s = (Inr (take 1024 (ms_unread M s)), t)"
      and t: "ok t" "ms_unread M t = drop 1024 (ms_unread M s)" by blast
    have "length (ms_unread M t) < rounds" using Suc.prems(2) False t(2) by (cases "ms_unread M s") simp_all
    from Suc.IH [OF t(1) this, of "ng\<lparr>ng_negotiation_buffer := ng_negotiation_buffer ng @ take 1024 (ms_unread M s)\<rparr>"]
    show ?thesis using r False t(2) reads_on_read [OF r] by auto
  qed
qed simp

text \<open>While the negotiation waits, a poll first takes in everything that has arrived.\<close>

lemma waiting_poll:
  assumes "ok s" and "ng_stage ng \<in> {AwaitingOutboundResponse, AwaitingInboundProposal}"
  shows "\<exists>t. ok t \<and> ms_unread M t = [] \<and> reads_on M s t \<and> poll M (ng, s)
    = with_exchange (if ng_stage ng = AwaitingOutboundResponse then take_response else take_proposal M)
        (ng\<lparr>ng_negotiation_buffer := ng_negotiation_buffer ng @ ms_unread M s\<rparr>, t)"
proof -
  from read_rounds_all [OF assms(1) lessI] obtain t where t: "ok t" "ms_unread M t = []" "reads_on M s t"
    and r: "read_into_negotiation_buffer M (ng, s)
      = (Inr (), ng\<lparr>ng_negotiation_buffer := ng_negotiation_buffer ng @ ms_unread M s\<rparr>, t)"
    by (auto simp: read_into_negotiation_buffer_def)
  from t show ?thesis using assms(2)
    by (intro exI [of _ t]) (auto simp: poll_def or_fail_def r)
qed

lemma sending_poll:
  assumes "ok s" and "ng_stage ng = SendingOutboundProposal"
  shows "(\<exists>e t. poll M (ng, s) = (Inl e, ng\<lparr>ng_stage := NgFailed, ng_failure_detail := Some e\<rparr>, t))
    \<or> (\<exists>k s'. ms_try_write M (encode_message kHeader @ encode_message (ng_desired_protocol ng)) s = (Inr k, s')
        \<and> ok s' \<and> ms_unread M s' = ms_unread M s
        \<and> poll M (ng, s) = poll M (ng\<lparr>ng_stage := AwaitingOutboundResponse\<rparr>, s'))"
proof -
  obtain r s' where w: "ms_try_write M (encode_message kHeader @ encode_message (ng_desired_protocol ng)) s = (r, s')"
    by fastforce
  have send: "send_proposal M (ng, s) = (case r of
      Inl e \<Rightarrow> (Inl e, ng\<lparr>ng_stage := NgFailed, ng_failure_detail := Some e\<rparr>, s')
    | Inr k \<Rightarrow> (Inr (), ng\<lparr>ng_stage := AwaitingOutboundResponse\<rparr>, s'))"
    using w by (auto simp: send_proposal_def or_fail_def prepare_outbound_ok on_inner_def zoom_def on_ng_def
        fail_negotiation_def split: sum.splits)
  show ?thesis
  proof (cases r)
    case (Inl e)
    then show ?thesis using send assms(2) by (simp add: poll_def and_then_def)
  next
    case (Inr k)
    with write_ok [OF assms(1)] w have "ok s'" "ms_unread M s' = ms_unread M s" by auto
    moreover have "poll M (ng, s) = poll M (ng\<lparr>ng_stage := AwaitingOutboundResponse\<rparr>, s')"
      using send assms(2) Inr by (simp add: poll_def and_then_def)
    ultimately show ?thesis using w Inr by blast
  qed
qed

end

text \<open>What the exchange in \<open>ex\<close> settles.\<close>

definition settles :: "negotiating_stream \<Rightarrow> bytes \<Rightarrow> string \<Rightarrow> bool" where
  "settles ng ex proto \<longleftrightarrow> (\<exists>rest. multistream_exchange_span (ex @ rest) = Inr (length ex)) \<and>
     (if ng_inbound ng then \<exists>n. negotiate_inbound ex (ng_supported_protocols ng) = Inr n \<and> in_protocol n = Some proto
      else read_outbound_response ex (ng_desired_protocol ng) = Inr proto)"

text \<open>Of the bytes that arrived, none is lost, doubled or reordered: \<open>delivered\<close> are those the
  application has read.\<close>

definition conserved :: "'s muxed_stream \<Rightarrow> bytes \<Rightarrow> bytes \<Rightarrow> 's nstate \<Rightarrow> bool" where
  "conserved M arrived delivered = (\<lambda>(ng, s).
     case ng_stage ng of
       NgFailed \<Rightarrow> True
     | NgReady \<Rightarrow> \<exists>ex proto. arrived = ex @ delivered @ ng_app_rx_buffer ng @ ms_unread M s
         \<and> ng_negotiated_protocol ng = Some proto \<and> settles ng ex proto \<and> ng_negotiation_buffer ng = []
     | _ \<Rightarrow> arrived = ng_negotiation_buffer ng @ ms_unread M s \<and> delivered = [] \<and> ng_app_rx_buffer ng = []
         \<and> ng_negotiated_protocol ng = None)"

definition consistent_stage :: "negotiating_stream \<Rightarrow> bool" where
  "consistent_stage ng \<longleftrightarrow> (ng_stage ng \<in> {SendingOutboundProposal, AwaitingOutboundResponse} \<longrightarrow> \<not> ng_inbound ng)
     \<and> (ng_stage ng = AwaitingInboundProposal \<longrightarrow> ng_inbound ng)"

lemma settles_kept: "ng_inbound ng' = ng_inbound ng \<Longrightarrow> ng_supported_protocols ng' = ng_supported_protocols ng \<Longrightarrow>
    ng_desired_protocol ng' = ng_desired_protocol ng \<Longrightarrow> settles ng' ex proto = settles ng ex proto"
  by (simp add: settles_def)

lemma finish_fields [simp]:
  "ng_stage (finish_negotiation k ng) = NgReady" "ng_negotiation_buffer (finish_negotiation k ng) = []"
  "ng_app_rx_buffer (finish_negotiation k ng) = ng_app_rx_buffer ng @ drop k (ng_negotiation_buffer ng)"
  "ng_negotiated_protocol (finish_negotiation k ng) = ng_negotiated_protocol ng"
  "ng_inbound (finish_negotiation k ng) = ng_inbound ng"
  "ng_supported_protocols (finish_negotiation k ng) = ng_supported_protocols ng"
  "ng_desired_protocol (finish_negotiation k ng) = ng_desired_protocol ng"
  by (simp_all add: finish_negotiation_def Let_def)

lemma fail_apply [simp]:
  "fail_negotiation e (ng, s) = (Inl e, ng\<lparr>ng_stage := NgFailed, ng_failure_detail := Some e\<rparr>, s)"
  by (simp add: fail_negotiation_def on_ng_def)

lemma settles_take:
  assumes "multistream_exchange_span buf = Inr span"
  shows "\<exists>rest. multistream_exchange_span (take span buf @ rest) = Inr (length (take span buf))"
proof -
  have "span \<le> length buf" using exchange_span_bound [OF assms] by simp
  with assms have "multistream_exchange_span (take span buf @ drop span buf) = Inr (length (take span buf))" by simp
  then show ?thesis by blast
qed

text \<open>The states a negotiation goes through: \<open>okay\<close> holds unless it has failed.\<close>

definition going :: "'s muxed_stream \<Rightarrow> ('s \<Rightarrow> bool) \<Rightarrow> bytes \<Rightarrow> bytes \<Rightarrow> 's nstate \<Rightarrow> bool" where
  "going M ok arrived delivered t \<longleftrightarrow> conserved M arrived delivered t \<and> consistent_stage (fst t)
     \<and> (ng_stage (fst t) \<noteq> NgFailed \<longrightarrow> ok (snd t))"

lemma going_failed: "ng_stage (fst t) = NgFailed \<Longrightarrow> going M ok arrived delivered t"
  by (cases t) (simp add: going_def conserved_def consistent_stage_def)

context byte_stream begin

lemma finished_going:
  assumes "ok t" and "ms_unread M t = []" and "ng_negotiation_buffer ng = arrived" and "ng_app_rx_buffer ng = []"
    and "settles ng (take span arrived) proto"
  shows "going M ok arrived [] (finish_negotiation span (ng\<lparr>ng_negotiated_protocol := Some proto\<rparr>), t)"
proof -
  let ?ng = "finish_negotiation span (ng\<lparr>ng_negotiated_protocol := Some proto\<rparr>)"
  have "settles ?ng (take span arrived) proto" using assms(5) by (simp add: settles_def)
  moreover have "arrived = take span arrived @ [] @ ng_app_rx_buffer ?ng @ ms_unread M t" using assms by simp
  ultimately have "conserved M arrived [] (?ng, t)"
    unfolding conserved_def by (simp del: append_take_drop_id) blast
  then show ?thesis using assms(1) by (simp add: going_def consistent_stage_def)
qed

lemma response_going:
  assumes "ok t" and "ms_unread M t = []" and "ng_negotiation_buffer ng = arrived" and "ng_app_rx_buffer ng = []"
    and "\<not> ng_inbound ng" and "multistream_exchange_span arrived = Inr span"
  shows "going M ok arrived [] (snd (take_response span (ng, t)))"
proof (cases "read_outbound_response (take span arrived) (ng_desired_protocol ng)")
  case (Inl e)
  then show ?thesis by (simp add: take_response_def or_fail_def assms(3) going_failed)
next
  case (Inr proto)
  with settles_take [OF assms(6)] assms(5) have "settles ng (take span arrived) proto" by (simp add: settles_def)
  from finished_going [OF assms(1-4) this] show ?thesis
    by (simp add: take_response_def or_fail_def assms(3) Inr on_ng_def)
qed

lemma proposal_going:
  assumes "ok t" and "ms_unread M t = []" and "ng_negotiation_buffer ng = arrived" and "ng_app_rx_buffer ng = []"
    and "ng_inbound ng" and "multistream_exchange_span arrived = Inr span"
  shows "going M ok arrived [] (snd (take_proposal M span (ng, t)))"
proof (cases "negotiate_inbound (take span arrived) (ng_supported_protocols ng)")
  case (Inl e)
  then show ?thesis by (simp add: take_proposal_def or_fail_def assms(3) going_failed)
next
  case (Inr n)
  obtain w t1 where w: "ms_try_write M (in_outbound n) t = (w, t1)" by fastforce
  then have inner: "on_inner (ms_try_write M (in_outbound n)) (ng, t) = (w, ng, t1)" by (simp add: on_inner_def zoom_def)
  show ?thesis
  proof (cases w)
    case (Inl e)
    then show ?thesis by (simp add: take_proposal_def or_fail_def assms(3) Inr inner going_failed)
  next
    case wrote: (Inr k)
    with write_ok [OF assms(1)] w assms(2) have t1: "ok t1" "ms_unread M t1 = []" by auto
    show ?thesis
    proof (cases "in_protocol n")
      case None
      then show ?thesis by (simp add: take_proposal_def or_fail_def assms(3) Inr inner wrote going_failed)
    next
      case (Some proto)
      with settles_take [OF assms(6)] assms(5) Inr have "settles ng (take span arrived) proto" by (simp add: settles_def)
      from finished_going [OF t1 assms(3,4) this] show ?thesis
        by (simp add: take_proposal_def or_fail_def assms(3) Inr inner wrote Some on_ng_def)
    qed
  qed
qed

lemma exchange_going:
  assumes "going M ok arrived [] (ng, t)" and "ng_negotiation_buffer ng = arrived" and "ng_app_rx_buffer ng = []"
    and "\<And>span. multistream_exchange_span arrived = Inr span \<Longrightarrow> going M ok arrived [] (snd (f span (ng, t)))"
  shows "going M ok arrived [] (snd (with_exchange f (ng, t)))"
proof (cases "multistream_exchange_span arrived")
  case (Inl e)
  then show ?thesis using assms(1) by (simp add: with_exchange_def assms(2) going_failed)
next
  case (Inr span)
  with assms(4) show ?thesis by (simp add: with_exchange_def assms(2))
qed

lemma waiting_going:
  assumes "going M ok arrived delivered (ng, s)"
    and "ng_stage ng \<in> {AwaitingOutboundResponse, AwaitingInboundProposal}"
  shows "going M ok arrived delivered (snd (poll M (ng, s)))"
proof -
  from assms have ng: "arrived = ng_negotiation_buffer ng @ ms_unread M s" "delivered = []" "ng_app_rx_buffer ng = []"
      "ng_negotiated_protocol ng = None" and ok: "ok s" and cons: "consistent_stage ng"
    by (auto simp: going_def conserved_def)
  from waiting_poll [OF ok assms(2)] obtain t where t: "ok t" "ms_unread M t = []" and p: "poll M (ng, s)
    = with_exchange (if ng_stage ng = AwaitingOutboundResponse then take_response else take_proposal M)
        (ng\<lparr>ng_negotiation_buffer := arrived\<rparr>, t)" unfolding ng(1) by blast
  let ?ng = "ng\<lparr>ng_negotiation_buffer := arrived\<rparr>"
  have going: "going M ok arrived [] (?ng, t)" using t ng cons assms(2)
    by (auto simp: going_def conserved_def consistent_stage_def)
  show ?thesis
  proof (cases "ng_stage ng = AwaitingOutboundResponse")
    case True
    have "going M ok arrived [] (snd (with_exchange take_response (?ng, t)))"
    proof (rule exchange_going [OF going])
      show "going M ok arrived [] (snd (take_response span (?ng, t)))" if "multistream_exchange_span arrived = Inr span" for span
        by (rule response_going [OF t _ _ _ that]) (use True ng(3) cons in \<open>simp_all add: consistent_stage_def\<close>)
    qed (use ng(3) in simp_all)
    then show ?thesis using True by (simp add: p ng(2))
  next
    case False
    have "going M ok arrived [] (snd (with_exchange (take_proposal M) (?ng, t)))"
    proof (rule exchange_going [OF going])
      show "going M ok arrived [] (snd (take_proposal M span (?ng, t)))" if "multistream_exchange_span arrived = Inr span" for span
        by (rule proposal_going [OF t _ _ _ that]) (use False assms(2) ng(3) cons in \<open>simp_all add: consistent_stage_def\<close>)
    qed (use ng(3) in simp_all)
    then show ?thesis using False by (simp add: p ng(2))
  qed
qed

lemma poll_going:
  assumes "going M ok arrived delivered (ng, s)"
  shows "going M ok arrived delivered (snd (poll M (ng, s)))"
proof (cases "ng_stage ng")
  case SendingOutboundProposal
  then have ok: "ok s" using assms by (simp add: going_def)
  from sending_poll [OF ok SendingOutboundProposal] show ?thesis
  proof (elim disjE exE conjE)
    fix e t
    assume "poll M (ng, s) = (Inl e, ng\<lparr>ng_stage := NgFailed, ng_failure_detail := Some e\<rparr>, t)"
    then show ?thesis by (simp add: going_failed)
  next
    fix k s'
    assume s': "ok s'" "ms_unread M s' = ms_unread M s"
      and p: "poll M (ng, s) = poll M (ng\<lparr>ng_stage := AwaitingOutboundResponse\<rparr>, s')"
    have "going M ok arrived delivered (ng\<lparr>ng_stage := AwaitingOutboundResponse\<rparr>, s')"
      using assms s' SendingOutboundProposal by (auto simp: going_def conserved_def consistent_stage_def)
    from waiting_going [OF this] show ?thesis by (simp add: p)
  qed
next
  case NgReady
  with assms show ?thesis by (simp add: poll_def)
next
  case NgFailed
  then show ?thesis by (simp add: poll_def going_failed)
qed (use waiting_going [OF assms] in simp_all)

end

section \<open>Histories of a negotiating stream\<close>

datatype ng_step = Arrives bytes | Polls | Reads nat

text \<open>The bytes the application has read so far are collected.\<close>

fun ng_step_run :: "'s muxed_stream \<Rightarrow> (bytes \<Rightarrow> 's \<Rightarrow> 's) \<Rightarrow> ng_step \<Rightarrow> bytes \<times> 's nstate \<Rightarrow> bytes \<times> 's nstate" where
  "ng_step_run M arrive (Arrives bs) (d, ng, s) = (d, ng, arrive bs s)"
| "ng_step_run M arrive Polls (d, t) = (d, snd (poll M t))"
| "ng_step_run M arrive (Reads n) (d, t) =
     (case ng_try_read M n t of (Inl e, t') \<Rightarrow> (d, t') | (Inr bs, t') \<Rightarrow> (d @ bs, t'))"

lemma arrives_step [simp]: "ng_step_run M arrive (Arrives bs) (d, t) = (d, fst t, arrive bs (snd t))"
  by (cases t) simp

definition ng_run :: "'s muxed_stream \<Rightarrow> (bytes \<Rightarrow> 's \<Rightarrow> 's) \<Rightarrow> ng_step list \<Rightarrow> bytes \<times> 's nstate \<Rightarrow> bytes \<times> 's nstate" where
  "ng_run M arrive = fold (ng_step_run M arrive)"

definition arrivals :: "ng_step list \<Rightarrow> bytes" where
  "arrivals steps = concat (map (\<lambda>st. case st of Arrives bs \<Rightarrow> bs | _ \<Rightarrow> []) steps)"

context byte_stream begin

lemma read_going:
  assumes "going M ok arrived delivered t" and "ng_try_read M n t = (r, t')"
  shows "going M ok arrived (case r of Inl e \<Rightarrow> delivered | Inr bs \<Rightarrow> delivered @ bs) t'"
proof -
  obtain ng s where t: "t = (ng, s)" by fastforce
  obtain q ng1 s1 where p: "poll M (ng, s) = (q, ng1, s1)" by (metis prod_cases3)
  from poll_going [of arrived delivered ng s] assms(1) have going: "going M ok arrived delivered (ng1, s1)"
    by (simp add: t p)
  show ?thesis
  proof (cases "q = Inr () \<and> is_negotiated ng1")
    case False
    then have "\<exists>e. r = Inl e \<and> t' = (ng1, s1)"
      using assms(2) p by (cases q) (auto simp: t ng_try_read_def when_negotiated_def and_then_def)
    with going show ?thesis by auto
  next
    case True
    then have ready: "ng_stage ng1 = NgReady" and q: "q = Inr ()" by (simp_all add: is_negotiated_def)
    from going ready obtain ex proto where arrived: "arrived = ex @ delivered @ ng_app_rx_buffer ng1 @ ms_unread M s1"
      and proto: "ng_negotiated_protocol ng1 = Some proto" "settles ng1 ex proto" "ng_negotiation_buffer ng1 = []"
      and ok: "ok s1" by (auto simp: going_def conserved_def)
    show ?thesis
    proof (cases "ng_app_rx_buffer ng1 = []")
      case False
      let ?n = "min n (length (ng_app_rx_buffer ng1))"
      have r: "r = Inr (take ?n (ng_app_rx_buffer ng1))"
        and t': "t' = (ng1\<lparr>ng_app_rx_buffer := drop ?n (ng_app_rx_buffer ng1)\<rparr>, s1)"
        using assms(2) p q True False
        by (auto simp: t ng_try_read_def when_negotiated_def and_then_def on_ng_def Let_def)
      have "arrived = ex @ (delivered @ take ?n (ng_app_rx_buffer ng1)) @ drop ?n (ng_app_rx_buffer ng1) @ ms_unread M s1"
        using arrived by (simp del: append_assoc add: append_assoc [symmetric]) (simp only: append_assoc append_take_drop_id)
      then show ?thesis using proto ready ok
        by (auto simp: going_def conserved_def consistent_stage_def r t' settles_def)
    next
      case True
      obtain x s2 where x: "ms_try_read M n s1 = (x, s2)" by fastforce
      have r: "r = x" and t': "t' = (ng1, s2)"
        using assms(2) p q \<open>q = Inr () \<and> is_negotiated ng1\<close> True x
        by (auto simp: t ng_try_read_def when_negotiated_def and_then_def on_inner_def zoom_def)
      have "ok s2 \<and> (case x of Inl e \<Rightarrow> [] | Inr bs \<Rightarrow> bs) @ ms_unread M s2 = ms_unread M s1"
        using read_some [OF ok, of n] read_none [OF ok, of n] x by (cases "ms_unread M s1 = []") auto
      then show ?thesis using arrived proto ready True
        by (cases x) (auto simp: going_def conserved_def consistent_stage_def r t')
    qed
  qed
qed

lemma step_going:
  assumes "going M ok arrived d t" and "ng_step_run M arrive st (d, t) = (d', t')"
  shows "going M ok (arrived @ arrivals [st]) d' t'"
proof (cases st)
  case (Arrives bs)
  obtain ng s where t: "t = (ng, s)" by fastforce
  with assms(2) Arrives have d': "d' = d" "t' = (ng, arrive bs s)" by simp_all
  show ?thesis
  proof (cases "ng_stage ng = NgFailed")
    case True
    then show ?thesis by (simp add: d' going_failed)
  next
    case False
    with assms(1) have "ok s" by (simp add: going_def t)
    from arrive_ok [OF this, of bs] show ?thesis using assms(1) False
      by (cases "ng_stage ng") (auto simp: going_def conserved_def t d' Arrives arrivals_def)
  qed
next
  case Polls
  with assms poll_going [of arrived d "fst t" "snd t"] show ?thesis by (simp add: arrivals_def)
next
  case (Reads n)
  obtain r t1 where "ng_try_read M n t = (r, t1)" by (rule prod.exhaust)
  with read_going [OF assms(1) this] assms(2) Reads show ?thesis by (cases r) (simp_all add: arrivals_def)
qed

lemma run_going:
  assumes "going M ok arrived d t" and "ng_run M arrive steps (d, t) = (d', t')"
  shows "going M ok (arrived @ arrivals steps) d' t'"
  using assms
proof (induction steps arbitrary: arrived d t)
  case Nil
  then show ?case by (simp add: ng_run_def arrivals_def)
next
  case (Cons st steps)
  obtain d1 t1 where s: "ng_step_run M arrive st (d, t) = (d1, t1)" by (rule prod.exhaust)
  with Cons.prems(2) have "ng_run M arrive steps (d1, t1) = (d', t')" by (simp add: ng_run_def)
  from Cons.IH [OF step_going [OF Cons.prems(1) s] this] show ?case by (simp add: arrivals_def)
qed

end

section \<open>An answer that arrives in pieces\<close>

text \<open>The answer of a peer that accepts protocol \<open>p\<close>.\<close>

definition acceptance :: "string \<Rightarrow> bytes" where
  "acceptance p = encode_message kHeader @ encode_message p"

text \<open>An outbound negotiation for \<open>p\<close> after the bytes \<open>arrived\<close>, of which the application has read
  \<open>d\<close>: it waits while the answer is incomplete, and is done, with the bytes after the answer kept
  for the application, afterwards.\<close>

definition answering :: "'s muxed_stream \<Rightarrow> ('s \<Rightarrow> bool) \<Rightarrow> string \<Rightarrow> bytes \<Rightarrow> bytes \<Rightarrow> 's nstate \<Rightarrow> bool" where
  "answering M ok p arrived d = (\<lambda>(ng, s). ok s \<and> ng_desired_protocol ng = p \<and>
     (if ng_stage ng = NgReady
      then ng_negotiated_protocol ng = Some p \<and> arrived = acceptance p @ d @ ng_app_rx_buffer ng @ ms_unread M s
      else ng_stage ng = AwaitingOutboundResponse \<and> ng_app_rx_buffer ng = [] \<and> d = []
        \<and> arrived = ng_negotiation_buffer ng @ ms_unread M s))"

lemma acceptance_span:
  assumes "plain p"
  shows "multistream_exchange_span (acceptance p @ rest) = Inr (length (acceptance p))"
    and "read_outbound_response (acceptance p) p = Inr p"
    and "strict_prefix bs (acceptance p) \<Longrightarrow>
      \<exists>e. multistream_exchange_span bs = Inl e \<and> is_incomplete_multistream_error e"
  using exchange_span_encode [OF plain_kHeader assms, of rest] read_outbound_response_token [OF assms, of "[]" p]
    exchange_span_strict_prefix [OF plain_kHeader assms, of bs]
  by (simp_all add: acceptance_def)

context byte_stream begin

lemma answering_arrive: "answering M ok p arrived d (ng, s) \<Longrightarrow> answering M ok p (arrived @ bs) d (ng, arrive bs s)"
  using arrive_ok [of s bs] by (auto simp: answering_def)

lemma answering_poll:
  assumes "plain p" and "answering M ok p arrived d (ng, s)" and "prefix arrived (acceptance p @ rest)"
  shows "fst (poll M (ng, s)) = Inr () \<and> answering M ok p arrived d (snd (poll M (ng, s)))
    \<and> (prefix (acceptance p) arrived \<longrightarrow> ng_stage (fst (snd (poll M (ng, s)))) = NgReady)"
proof (cases "ng_stage ng = NgReady")
  case True
  with assms(2) show ?thesis by (simp add: poll_def)
next
  case False
  with assms(2) have ng: "ng_stage ng = AwaitingOutboundResponse" "ng_app_rx_buffer ng = []" "ng_desired_protocol ng = p"
      "d = []"
    and arrived: "arrived = ng_negotiation_buffer ng @ ms_unread M s" and ok: "ok s"
    by (simp_all add: answering_def)
  from waiting_poll [OF ok, of ng] ng(1) obtain t where t: "ok t" "ms_unread M t = []"
    and p: "poll M (ng, s) = with_exchange take_response (ng\<lparr>ng_negotiation_buffer := arrived\<rparr>, t)"
    unfolding arrived by auto
  show ?thesis
  proof (cases "prefix (acceptance p) arrived")
    case True
    then obtain more where m: "arrived = acceptance p @ more" by (auto elim: prefixE)
    have "poll M (ng, s) = (Inr (), finish_negotiation (length (acceptance p))
        (ng\<lparr>ng_negotiation_buffer := arrived, ng_negotiated_protocol := Some p\<rparr>), t)"
      using ng acceptance_span [OF assms(1)]
      by (simp add: p with_exchange_def take_response_def or_fail_def on_ng_def m)
    then show ?thesis using t ng by (simp add: answering_def m)
  next
    case False
    with assms(3) have "strict_prefix arrived (acceptance p)"
      by (metis prefix_append prefix_order.le_less prefix_same_cases)
    from acceptance_span(3) [OF assms(1) this] have "poll M (ng, s) = (Inr (), ng\<lparr>ng_negotiation_buffer := arrived\<rparr>, t)"
      by (auto simp: p with_exchange_def)
    then show ?thesis using t ng False by (simp add: answering_def)
  qed
qed

text \<open>A read first polls.  What it returns continues what the application has read.\<close>

lemma answering_read:
  assumes "plain p" and "answering M ok p arrived d t" and "prefix arrived (acceptance p @ rest)"
    and "ng_try_read M n t = (r, t')"
  shows "answering M ok p arrived (case r of Inl e \<Rightarrow> d | Inr bs \<Rightarrow> d @ bs) t'"
proof -
  obtain ng s where t: "t = (ng, s)" by (rule prod.exhaust)
  obtain q ng1 s1 where q: "poll M (ng, s) = (q, ng1, s1)" by (rule prod_cases3)
  from answering_poll [OF assms(1) assms(2) [unfolded t] assms(3)] q
  have q1: "q = Inr ()" and a: "answering M ok p arrived d (ng1, s1)" by simp_all
  show ?thesis
  proof (cases "ng_stage ng1 = NgReady")
    case False
    then have "\<exists>e. r = Inl e \<and> t' = (ng1, s1)"
      using assms(4) q q1 by (auto simp: t ng_try_read_def when_negotiated_def and_then_def is_negotiated_def)
    with a show ?thesis by auto
  next
    case True
    with a have ok: "ok s1" and ng: "ng_desired_protocol ng1 = p" "ng_negotiated_protocol ng1 = Some p"
      and arrived: "arrived = acceptance p @ d @ ng_app_rx_buffer ng1 @ ms_unread M s1" by (simp_all add: answering_def)
    with True have neg: "is_negotiated ng1" by (simp add: is_negotiated_def)
    show ?thesis
    proof (cases "ng_app_rx_buffer ng1 = []")
      case False
      let ?n = "min n (length (ng_app_rx_buffer ng1))"
      have "r = Inr (take ?n (ng_app_rx_buffer ng1))"
        and "t' = (ng1\<lparr>ng_app_rx_buffer := drop ?n (ng_app_rx_buffer ng1)\<rparr>, s1)"
        using assms(4) q q1 neg False
        by (auto simp: t ng_try_read_def when_negotiated_def and_then_def on_ng_def Let_def)
      moreover have "arrived = acceptance p @ (d @ take ?n (ng_app_rx_buffer ng1)) @ drop ?n (ng_app_rx_buffer ng1)
          @ ms_unread M s1"
        by (simp add: arrived)
      ultimately show ?thesis using True ok ng by (simp add: answering_def)
    next
      case empty: True
      obtain x s2 where x: "ms_try_read M n s1 = (x, s2)" by (rule prod.exhaust)
      have r: "r = x" and t': "t' = (ng1, s2)" using assms(4) q q1 neg empty x
        by (auto simp: t ng_try_read_def when_negotiated_def and_then_def on_inner_def zoom_def)
      have "ok s2 \<and> (case x of Inl e \<Rightarrow> [] | Inr bs \<Rightarrow> bs) @ ms_unread M s2 = ms_unread M s1"
        using read_some [OF ok, of n] read_none [OF ok, of n] x by (cases "ms_unread M s1 = []") auto
      then show ?thesis using arrived True ng empty by (cases x) (auto simp: answering_def r t')
    qed
  qed
qed

lemma answering_step:
  assumes "plain p" and "answering M ok p arrived d t" and "prefix (arrived @ arrivals [st]) (acceptance p @ rest)"
    and "ng_step_run M arrive st (d, t) = (d', t')"
  shows "answering M ok p (arrived @ arrivals [st]) d' t'"
proof (cases st)
  case (Arrives bs)
  with assms(2,4) answering_arrive [of p arrived d "fst t" "snd t" bs] show ?thesis
    by (cases t) (auto simp: arrivals_def)
next
  case Polls
  with answering_poll [of p arrived d "fst t" "snd t" rest] assms show ?thesis by (simp add: arrivals_def)
next
  case (Reads n)
  obtain r t1 where r: "ng_try_read M n t = (r, t1)" by (rule prod.exhaust)
  from assms(3) Reads have "prefix arrived (acceptance p @ rest)" by (simp add: arrivals_def)
  from answering_read [OF assms(1,2) this r] r assms(4) Reads show ?thesis by (cases r) (simp_all add: arrivals_def)
qed

lemma answering_run:
  assumes "plain p" and "answering M ok p arrived d t" and "prefix (arrived @ arrivals steps) (acceptance p @ rest)"
    and "ng_run M arrive steps (d, t) = (d', t')"
  shows "answering M ok p (arrived @ arrivals steps) d' t'"
  using assms(2-4)
proof (induction steps arbitrary: arrived d t)
  case Nil
  then show ?case by (simp add: ng_run_def arrivals_def)
next
  case (Cons st steps)
  obtain d1 t1 where s: "ng_step_run M arrive st (d, t) = (d1, t1)" by (rule prod.exhaust)
  have split: "arrivals (st # steps) = arrivals [st] @ arrivals steps" by (simp add: arrivals_def)
  from Cons.prems(2) have pre: "prefix ((arrived @ arrivals [st]) @ arrivals steps) (acceptance p @ rest)"
    by (simp add: split)
  then have "prefix (arrived @ arrivals [st]) (acceptance p @ rest)" by (rule append_prefixD)
  from answering_step [OF assms(1) Cons.prems(1) this s] have "answering M ok p (arrived @ arrivals [st]) d1 t1" .
  from Cons.IH [OF this pre] Cons.prems(3) s show ?case by (simp add: ng_run_def split)
qed

text \<open>Once the answer is there, a read empties the buffer of the application, or the stream.\<close>

lemma answered_read:
  assumes "plain p" and "answering M ok p (acceptance p @ rest) d t" and "length rest \<le> n"
    and "ng_step_run M arrive (Reads n) (d, t) = (d', t')"
  shows "answering M ok p (acceptance p @ rest) d' t' \<and> ng_stage (fst t') = NgReady
    \<and> ng_app_rx_buffer (fst t') = [] \<and> (ng_stage (fst t) = NgReady \<and> ng_app_rx_buffer (fst t) = [] \<longrightarrow> d' = rest)"
proof -
  obtain ng s where t: "t = (ng, s)" by (rule prod.exhaust)
  obtain q ng1 s1 where q: "poll M (ng, s) = (q, ng1, s1)" by (rule prod_cases3)
  have pre: "prefix (acceptance p @ rest) (acceptance p @ rest)" by simp
  from answering_poll [OF assms(1) assms(2) [unfolded t] pre] q
  have q1: "q = Inr ()" and a: "answering M ok p (acceptance p @ rest) d (ng1, s1)" and ready: "ng_stage ng1 = NgReady"
    by simp_all
  then have ok: "ok s1" and neg: "is_negotiated ng1" and rest: "rest = d @ ng_app_rx_buffer ng1 @ ms_unread M s1"
    by (simp_all add: answering_def is_negotiated_def)
  obtain r t1 where r: "ng_try_read M n t = (r, t1)" by (rule prod.exhaust)
  have d': "d' = (case r of Inl e \<Rightarrow> d | Inr bs \<Rightarrow> d @ bs)" "t' = t1" using assms(4) r by (auto split: sum.splits)
  from answering_read [OF assms(1,2) pre r] have final: "answering M ok p (acceptance p @ rest) d' t'" by (simp add: d')
  show ?thesis
  proof (cases "ng_app_rx_buffer ng1 = []")
    case False
    have "min n (length (ng_app_rx_buffer ng1)) = length (ng_app_rx_buffer ng1)" using assms(3) rest by simp
    with r q q1 neg False ready have "t1 = (ng1\<lparr>ng_app_rx_buffer := []\<rparr>, s1)"
      by (auto simp: t ng_try_read_def when_negotiated_def and_then_def on_ng_def Let_def)
    moreover have "ng_stage ng = NgReady \<longrightarrow> ng_app_rx_buffer ng \<noteq> []" using q False by (auto simp: poll_def)
    ultimately show ?thesis using final ready by (auto simp: d' t)
  next
    case True
    obtain x s2 where x: "ms_try_read M n s1 = (x, s2)" by (rule prod.exhaust)
    have x': "r = x" "t1 = (ng1, s2)" using r q q1 neg True x
      by (auto simp: t ng_try_read_def when_negotiated_def and_then_def on_inner_def zoom_def)
    have "length (ms_unread M s1) \<le> n" using assms(3) rest by simp
    then have "(case x of Inl e \<Rightarrow> [] | Inr bs \<Rightarrow> bs) = ms_unread M s1"
      using read_some [OF ok, of n] read_none [OF ok, of n] x by (cases "ms_unread M s1 = []") auto
    then have "d' = rest" using rest True x' by (cases x) (simp_all add: d')
    then show ?thesis using final ready True by (simp add: d' x')
  qed
qed

lemma answered_reads:
  assumes "plain p" and "answering M ok p (acceptance p @ rest) d t" and "length rest \<le> n"
    and "ng_run M arrive [Reads n, Reads n] (d, t) = (d', t')"
  shows "d' = rest \<and> answering M ok p (acceptance p @ rest) d' t' \<and> ng_stage (fst t') = NgReady"
proof -
  obtain d1 t1 where 1: "ng_step_run M arrive (Reads n) (d, t) = (d1, t1)" by (rule prod.exhaust)
  with assms(4) have 2: "ng_step_run M arrive (Reads n) (d1, t1) = (d', t')" by (simp add: ng_run_def del: ng_step_run.simps)
  from answered_read [OF assms(1-3) 1] answered_read [OF assms(1) _ assms(3) 2] show ?thesis by blast
qed

end

section \<open>The streams of a connection\<close>

text \<open>\<open>handle_ok\<close>: the stream exists and is open on this side.\<close>

definition handle_ok :: "stream_handle \<Rightarrow> connection \<Rightarrow> bool" where
  "handle_ok h c =
     (case h of
        DirectHandle p \<Rightarrow> p < length (cn_streams c) \<and> ss_open (cn_streams c ! p) \<and> io_socket_open (cn_io c)
      | YamuxHandle p \<Rightarrow> (case cn_yamux c of None \<Rightarrow> False
          | Some ys \<Rightarrow> p < length (ys_heap ys) \<and> \<not> st_reset (stream_at ys p) \<and> \<not> st_write_closed (stream_at ys p)))"

definition handle_arrive :: "stream_handle \<Rightarrow> bytes \<Rightarrow> connection \<Rightarrow> connection" where
  "handle_arrive h bs c =
     (case h of
        DirectHandle p \<Rightarrow> map_stream_state p (\<lambda>st. st\<lparr>ss_rx_buffer := ss_rx_buffer st @ bs\<rparr>) c
      | YamuxHandle p \<Rightarrow> on_yamux (map_stream p (receive_data bs)) c)"

text \<open>This is how the connection's data loop delivers to its direct stream.\<close>

lemma deliver_direct_arrives:
  "cn_stream_state c = Some p \<Longrightarrow> ss_open (cn_streams c ! p) \<Longrightarrow>
   deliver_direct bs c = handle_arrive (DirectHandle p) bs c"
  by (simp add: deliver_direct_def ensure_inbound_stream_def handle_arrive_def)

lemma flush_stream_ok:
  assumes "flush_stream p c = (Inr (), c')"
  shows "cn_streams c' = cn_streams c"
  using assms by (auto simp: flush_stream_def on_io_def zoom_def set_io_def Let_def
      split: if_splits prod.splits sum.splits option.splits)

lemma queue_encrypted_write_ok:
  assumes "queue_encrypted_write C p data c = (Inr n, c')"
  shows "cn_streams c' = cn_streams c \<and> io_socket_open (cn_io c') = io_socket_open (cn_io c)"
proof -
  have "calm {} c c'"
    using calmlyD [OF calmly_queue_encrypted(2)] assms by simp
  from calmD(11) [OF this] have "io_socket_open (cn_io c') = io_socket_open (cn_io c)" .
  moreover have "cn_streams c' = cn_streams c"
    using assms
    by (auto simp: queue_encrypted_write_def on_cs_send_def on_noise_def on_io_def zoom_def set_io_def set_noise_def
        map_secure_def and_then_def Let_def split: if_splits prod.splits sum.splits dest!: flush_stream_ok)
  ultimately show ?thesis by simp
qed

lemma outgoing_heap [simp]: "ys_heap (fst (snd (run_outgoing cbs t))) = ys_heap (fst t)"
  using run_outgoing_session [of cbs t] by auto

lemma window_update_heap [simp]: "ys_heap (fst (snd (update_receive_window cbs sid n t))) = ys_heap (fst t)"
  by (simp add: update_receive_window_def write_frame_def)

lemma yamux_try_read_some:
  assumes "st_recv_buf (stream_at ys p) \<noteq> []"
  shows "\<exists>ys' c'. try_read cbs p n (ys, c) = (Inr (take n (st_recv_buf (stream_at ys p))), (ys', c'))
    \<and> ys_heap ys' = (ys_heap ys)[p := (stream_at ys p)\<lparr>st_recv_buf := drop n (st_recv_buf (stream_at ys p))\<rparr>]"
proof -
  let ?buf = "st_recv_buf (stream_at ys p)"
  have min: "take (min n (length ?buf)) ?buf = take n ?buf" "drop (min n (length ?buf)) ?buf = drop n ?buf"
    by (simp_all add: min_def)
  let ?t = "on_session (map_stream p (\<lambda>st. st\<lparr>st_recv_buf := drop (min n (length ?buf)) (st_recv_buf st)\<rparr>)) (ys, c)"
  let ?u = "snd (update_receive_window cbs (st_id (stream_at ys p)) (min n (length ?buf)) ?t)"
  have "try_read cbs p n (ys, c) = (Inr (take n ?buf), (fst ?u, snd ?u))"
    using assms min(1) by (simp add: try_read_def Let_def and_then_def)
  moreover have "ys_heap (fst ?u) = (ys_heap ys)[p := (stream_at ys p)\<lparr>st_recv_buf := drop n ?buf\<rparr>]"
    using min(2) by (simp add: map_stream_def stream_at_def)
  ultimately show ?thesis by blast
qed

lemma yamux_try_write_heap:
  assumes "try_write cbs p data (ys, c) = (r, (ys', c'))"
  shows "ys_heap ys' = ys_heap ys"
proof -
  have "ys_heap (fst (snd (try_write cbs p data (ys, c)))) = ys_heap ys"
    by (simp add: try_write_def write_stream_data_def Let_def and_then_def case_prod_beta write_frame_def
        split: option.splits sum.splits)
  with assms show ?thesis by simp
qed

lemma yamux_handle_cases:
  assumes "handle_ok (YamuxHandle p) c"
  obtains ys where "cn_yamux c = Some ys" and "p < length (ys_heap ys)" and "\<not> st_reset (stream_at ys p)"
    and "\<not> st_write_closed (stream_at ys p)" and "stream_unread (YamuxHandle p) c = st_recv_buf (stream_at ys p)"
  using assms by (auto simp: handle_ok_def stream_unread_def split: option.splits)

lemma yamux_handle_heap:
  assumes "handle_ok (YamuxHandle p) c" and "cn_yamux c = Some ys" and "cn_yamux c' = Some ys'"
    and "ys_heap ys' = (ys_heap ys)[p := (stream_at ys p)\<lparr>st_recv_buf := buf\<rparr>]"
  shows "handle_ok (YamuxHandle p) c' \<and> stream_unread (YamuxHandle p) c' = buf"
  using assms by (simp add: handle_ok_def stream_unread_def stream_at_def)

lemma yamux_read_some:
  assumes "handle_ok (YamuxHandle p) c" and "stream_unread (YamuxHandle p) c \<noteq> []"
  shows "\<exists>t. stream_try_read C (YamuxHandle p) n c = (Inr (take n (stream_unread (YamuxHandle p) c)), t)
    \<and> handle_ok (YamuxHandle p) t \<and> stream_unread (YamuxHandle p) t = drop n (stream_unread (YamuxHandle p) c)"
proof -
  from assms(1) obtain ys where ys: "cn_yamux c = Some ys" "p < length (ys_heap ys)"
    and buf: "stream_unread (YamuxHandle p) c = st_recv_buf (stream_at ys p)" by (rule yamux_handle_cases)
  from yamux_try_read_some [of ys p "session_callbacks C" n c] assms(2) buf obtain ys' c'
    where r: "try_read (session_callbacks C) p n (ys, c) = (Inr (take n (st_recv_buf (stream_at ys p))), (ys', c'))"
      and heap: "ys_heap ys' = (ys_heap ys)[p := (stream_at ys p)\<lparr>st_recv_buf := drop n (st_recv_buf (stream_at ys p))\<rparr>]"
    by auto
  have "stream_try_read C (YamuxHandle p) n c = (Inr (take n (stream_unread (YamuxHandle p) c)), c'\<lparr>cn_yamux := Some ys'\<rparr>)"
    by (simp add: stream_try_read_def with_yamux_def ys r buf)
  with yamux_handle_heap [OF assms(1) ys(1) _ heap, of "c'\<lparr>cn_yamux := Some ys'\<rparr>"] buf show ?thesis by simp
qed

lemma yamux_write_ok:
  assumes "handle_ok (YamuxHandle p) c" and "stream_try_write C (YamuxHandle p) data c = (r, t)"
  shows "handle_ok (YamuxHandle p) t \<and> stream_unread (YamuxHandle p) t = stream_unread (YamuxHandle p) c"
proof -
  from assms(1) obtain ys where ys: "cn_yamux c = Some ys"
    and buf: "stream_unread (YamuxHandle p) c = st_recv_buf (stream_at ys p)" by (rule yamux_handle_cases)
  obtain q ys' c' where w: "try_write (session_callbacks C) p data (ys, c) = (q, (ys', c'))" by (metis prod_cases3)
  have t: "t = c'\<lparr>cn_yamux := Some ys'\<rparr>" using assms(2) by (simp add: stream_try_write_def with_yamux_def ys w)
  have "ys_heap ys' = (ys_heap ys)[p := (stream_at ys p)\<lparr>st_recv_buf := st_recv_buf (stream_at ys p)\<rparr>]"
    using yamux_try_write_heap [OF w] by (simp add: stream_at_def)
  from yamux_handle_heap [OF assms(1) ys _ this, of t] show ?thesis by (simp add: t buf)
qed

interpretation conn: byte_stream "muxed C h" "handle_ok h" "\<lambda>bs. handle_arrive h bs" for C h
proof
  note table = muxed_def muxed_stream.simps
  fix c n and data bs :: bytes and k t
  show "handle_ok h c \<Longrightarrow> ms_is_open (muxed C h) c"
    by (cases h) (auto simp: table handle_ok_def stream_is_open_def direct_is_open_def is_open_def split: option.splits)
  show "\<exists>t. ms_try_read (muxed C h) n c = (Inr (take n (ms_unread (muxed C h) c)), t) \<and> handle_ok h t
      \<and> ms_unread (muxed C h) t = drop n (ms_unread (muxed C h) c)"
    if "handle_ok h c" "ms_unread (muxed C h) c \<noteq> []"
  proof (cases h)
    case (DirectHandle p)
    let ?buf = "ss_rx_buffer (cn_streams c ! p)"
    have "take (min n (length ?buf)) ?buf = take n ?buf" "drop (min n (length ?buf)) ?buf = drop n ?buf"
      by (simp_all add: min_def)
    with that show ?thesis
      by (simp add: table DirectHandle stream_try_read_def direct_try_read_def stream_unread_def handle_ok_def
          map_stream_state_def Let_def and_then_def)
  next
    case (YamuxHandle p)
    with that yamux_read_some [of p c C n] show ?thesis by (simp add: table)
  qed
  show "\<exists>r t. ms_try_read (muxed C h) n c = (r, t) \<and> (r = Inr [] \<or> r = Inl ''EAGAIN'') \<and> handle_ok h t
      \<and> ms_unread (muxed C h) t = []"
    if "handle_ok h c" "ms_unread (muxed C h) c = []"
  proof (cases h)
    case (DirectHandle p)
    with that show ?thesis
      by (simp add: table stream_try_read_def direct_try_read_def stream_unread_def handle_ok_def
          map_stream_state_def Let_def and_then_def)
  next
    case (YamuxHandle p)
    from that(1) obtain ys where ys: "cn_yamux c = Some ys"
      and buf: "stream_unread h c = st_recv_buf (stream_at ys p)"
      unfolding YamuxHandle by (rule yamux_handle_cases)
    have same: "c\<lparr>cn_yamux := Some ys\<rparr> = c" using ys by simp
    from that ys buf YamuxHandle show ?thesis
      by (auto simp: table stream_try_read_def with_yamux_def try_read_def Let_def same)
  qed
  show "handle_ok h t \<and> ms_unread (muxed C h) t = ms_unread (muxed C h) c"
    if "handle_ok h c" "ms_try_write (muxed C h) data c = (Inr k, t)"
  proof (cases h)
    case (DirectHandle p)
    with that have "queue_encrypted_write C p data c = (Inr k, t)"
      by (simp add: table stream_try_write_def direct_try_write_def split: if_splits)
    from queue_encrypted_write_ok [OF this] that(1) show ?thesis
      by (simp add: table DirectHandle handle_ok_def stream_unread_def)
  next
    case (YamuxHandle p)
    with that yamux_write_ok [of p c C data] show ?thesis by (simp add: table)
  qed
  show "handle_ok h (handle_arrive h bs c) \<and> ms_unread (muxed C h) (handle_arrive h bs c) = ms_unread (muxed C h) c @ bs"
    if "handle_ok h c"
    using that by (auto simp: table handle_ok_def stream_unread_def handle_arrive_def map_stream_state_def
        on_yamux_def map_stream_def stream_at_def receive_data_def split: stream_handle.splits option.splits)
qed

lemma fresh_going:
  assumes "handle_ok h c" and "stream_unread h c = []"
    and "ng = outbound_negotiation cid proto \<or> ng = inbound_negotiation_on cid protos"
  shows "going (muxed C h) (handle_ok h) [] [] (ng, c)"
  using assms
  by (auto simp: going_def conserved_def consistent_stage_def outbound_negotiation_def inbound_negotiation_on_def
      muxed_def)

text \<open>A handle refers to its stream as long as the tables of the connection hold it, open or not; a
  read that returns bytes then uses them up.\<close>

definition handle_held :: "stream_handle \<Rightarrow> connection \<Rightarrow> bool" where
  "handle_held h c =
     (case h of
        DirectHandle p \<Rightarrow> p < length (cn_streams c)
      | YamuxHandle p \<Rightarrow> (case cn_yamux c of None \<Rightarrow> True | Some ys \<Rightarrow> p < length (ys_heap ys)))"

lemma read_uses_up:
  assumes "handle_held h c" and "stream_try_read C h n c = (Inr bs, t)" and "bs \<noteq> []"
  shows "handle_held h t \<and> length (stream_unread h t) < length (stream_unread h c)"
proof (cases h)
  case (DirectHandle p)
  with assms show ?thesis
    by (auto simp: handle_held_def stream_try_read_def direct_try_read_def stream_unread_def Let_def and_then_def
        map_stream_state_def split: if_splits)
next
  case (YamuxHandle p)
  show ?thesis
  proof (cases "cn_yamux c")
    case None
    with assms(2) YamuxHandle show ?thesis by (simp add: stream_try_read_def with_yamux_def)
  next
    case (Some ys)
    with assms(1) YamuxHandle have p: "p < length (ys_heap ys)" by (simp add: handle_held_def)
    obtain q ys' c' where q: "try_read (session_callbacks C) p n (ys, c) = (q, (ys', c'))" by (rule prod_cases3)
    with assms(2) Some YamuxHandle have t: "q = Inr bs" "t = c'\<lparr>cn_yamux := Some ys'\<rparr>"
      by (auto simp: stream_try_read_def with_yamux_def)
    have buf: "st_recv_buf (stream_at ys p) \<noteq> []" using q t(1) assms(3) by (auto simp: try_read_def Let_def split: if_splits)
    from yamux_try_read_some [OF buf, of "session_callbacks C" n c] q t(1)
    have bs: "bs = take n (st_recv_buf (stream_at ys p))"
      and heap: "ys_heap ys' = (ys_heap ys)[p := (stream_at ys p)\<lparr>st_recv_buf := drop n (st_recv_buf (stream_at ys p))\<rparr>]"
      by auto
    have "0 < n" using bs assms(3) by (cases n) auto
    with p buf heap show ?thesis
      by (simp add: YamuxHandle handle_held_def stream_unread_def t(2) Some stream_at_def)
  qed
qed

text \<open>A connection with a key and an open direct stream, for examples.\<close>

definition toy_stream :: connection where
  "toy_stream = snd (create_stream None False (keyed (toy_connection True)))"

lemma toy_stream_ok:
  "handle_ok (DirectHandle 0) toy_stream" "stream_unread (DirectHandle 0) toy_stream = []"
  "writable_channel toy_stream" "blocked_socket (cn_io toy_stream)"
  "ss_open (cn_streams toy_stream ! 0)" "ss_write_open (cn_streams toy_stream ! 0)"
  "\<not> ss_close_write_pending (cn_streams toy_stream ! 0)"
proof -
  have same: "cn_io toy_stream = cn_io (keyed (toy_connection True))" "cn_secure toy_stream = cn_secure (keyed (toy_connection True))"
    and streams: "cn_streams toy_stream = [\<lparr>ss_id = cn_next_stream_id (keyed (toy_connection True)),
      ss_connection_id = cn_id (keyed (toy_connection True)), ss_protocol = None, ss_rx_buffer = [],
      ss_open = True, ss_write_open = True, ss_close_write_pending = False\<rparr>]"
    using keyed_toy(3) [of True] by (simp_all add: toy_stream_def create_stream_def push_event_def Let_def)
  show "handle_ok (DirectHandle 0) toy_stream" "stream_unread (DirectHandle 0) toy_stream = []"
    "writable_channel toy_stream" "blocked_socket (cn_io toy_stream)"
    "ss_open (cn_streams toy_stream ! 0)" "ss_write_open (cn_streams toy_stream ! 0)"
    "\<not> ss_close_write_pending (cn_streams toy_stream ! 0)"
    using keyed_toy [of True]
    by (simp_all add: handle_ok_def stream_unread_def streams same writable_channel_def noise_of_def blocked_socket_def)
qed

lemma toy_stream_write:
  assumes "length data \<le> max_plaintext"
  shows "\<exists>ct. stream_try_write toy_crypto (DirectHandle 0) data toy_stream = (Inr (length data), sent_frame ct toy_stream)"
proof -
  obtain ct where "queue_encrypted_write toy_crypto 0 data toy_stream = (Inr (length data), sent_frame ct toy_stream)"
    by (rule encrypted_write [OF toy_crypto_ok toy_stream_ok(3) assms toy_stream_ok(4,7)])
  then show ?thesis
    using toy_stream_ok(5,6) by (auto simp: stream_try_write_def direct_try_write_def)
qed

text \<open>For examples: the first poll on that stream sends the proposal and waits.\<close>

lemma toy_first_poll:
  "\<exists>c0. poll (muxed toy_crypto (DirectHandle 0)) (outbound_negotiation 7 ''/chat'', toy_stream)
      = (Inr (), (outbound_negotiation 7 ''/chat'')\<lparr>ng_stage := AwaitingOutboundResponse\<rparr>, c0)
    \<and> handle_ok (DirectHandle 0) c0 \<and> stream_unread (DirectHandle 0) c0 = []"
proof -
  let ?h = "DirectHandle 0"
  let ?M = "muxed toy_crypto ?h"
  let ?ng = "outbound_negotiation 7 ''/chat''"
  have plain: "plain ''/chat''" by (simp add: plain_def newline_def)
  have len: "length (acceptance ''/chat'') \<le> max_plaintext"
    by (simp add: acceptance_def max_plaintext_def encode_message_def ensure_newline_def kHeader_def newline_def
        encode_uvarint.simps Let_def)
  obtain ct where w: "ms_try_write ?M (encode_message kHeader @ encode_message (ng_desired_protocol ?ng)) toy_stream
      = (Inr (length (acceptance ''/chat'')), sent_frame ct toy_stream)"
    using toy_stream_write [OF len] by (auto simp: muxed_def acceptance_def outbound_negotiation_def)
  let ?c1 = "sent_frame ct toy_stream"
  have send: "send_proposal ?M (?ng, toy_stream) = (Inr (), ?ng\<lparr>ng_stage := AwaitingOutboundResponse\<rparr>, ?c1)"
    using w by (simp add: send_proposal_def or_fail_def prepare_outbound_ok on_inner_def zoom_def on_ng_def)
  have ok: "handle_ok ?h ?c1" "stream_unread ?h ?c1 = []"
    using toy_stream_ok(1,2) by (simp_all add: handle_ok_def stream_unread_def)
  have waiting: "poll ?M (?ng\<lparr>ng_stage := AwaitingOutboundResponse\<rparr>, ?c1) = (Inr (), ng0, c0) \<Longrightarrow>
      poll ?M (?ng, toy_stream) = (Inr (), ng0, c0)" for ng0 c0
    using send by (simp add: poll_def and_then_def outbound_negotiation_def)
  obtain c0 where c0: "handle_ok ?h c0" "stream_unread ?h c0 = []" "poll ?M (?ng\<lparr>ng_stage := AwaitingOutboundResponse\<rparr>, ?c1)
      = (Inr (), ?ng\<lparr>ng_stage := AwaitingOutboundResponse\<rparr>, c0)"
  proof -
    have "\<exists>e. multistream_exchange_span [] = Inl e \<and> is_incomplete_multistream_error e"
      by (rule acceptance_span(3) [OF plain])
         (simp add: acceptance_def encode_message_def ensure_newline_def Let_def strict_prefix_def)
    then have "with_exchange take_response (?ng\<lparr>ng_stage := AwaitingOutboundResponse\<rparr>, c)
        = (Inr (), ?ng\<lparr>ng_stage := AwaitingOutboundResponse\<rparr>, c)" for c :: connection
      by (auto simp: with_exchange_def outbound_negotiation_def)
    moreover from conn.waiting_poll [OF ok(1), of "?ng\<lparr>ng_stage := AwaitingOutboundResponse\<rparr>" toy_crypto] ok(2)
    obtain t where "handle_ok ?h t" "stream_unread ?h t = []" "poll ?M (?ng\<lparr>ng_stage := AwaitingOutboundResponse\<rparr>, ?c1)
        = with_exchange take_response (?ng\<lparr>ng_stage := AwaitingOutboundResponse\<rparr>, t)"
      by (auto simp: outbound_negotiation_def muxed_def)
    ultimately show ?thesis by (intro that [of t]) simp_all
  qed
  show ?thesis using waiting [OF c0(3)] c0(1,2) by blast
qed

lemma plain_chat: "plain ''/chat''"
  by (simp add: plain_def newline_def)

lemma toy_run:
  "\<exists>ng c'. ng_run (muxed toy_crypto (DirectHandle 0)) (handle_arrive (DirectHandle 0))
        [Polls, Arrives (take 5 (acceptance ''/chat'')), Polls, Arrives (drop 5 (acceptance ''/chat'') @ [7, 8]), Polls, Reads 1]
        ([], outbound_negotiation 7 ''/chat'', toy_stream) = ([7], ng, c')
    \<and> ng_stage ng = NgReady \<and> is_negotiated ng"
proof -
  let ?h = "DirectHandle 0"
  let ?M = "muxed toy_crypto ?h"
  let ?steps = "[Arrives (take 5 (acceptance ''/chat'')), Polls, Arrives (drop 5 (acceptance ''/chat'') @ [7, 8])]"
  let ?ng0 = "(outbound_negotiation 7 ''/chat'')\<lparr>ng_stage := AwaitingOutboundResponse\<rparr>"
  obtain c0 where 0: "poll ?M (outbound_negotiation 7 ''/chat'', toy_stream) = (Inr (), ?ng0, c0)"
    and c0: "handle_ok ?h c0" "stream_unread ?h c0 = []" using toy_first_poll by blast
  have start: "answering ?M (handle_ok ?h) ''/chat'' [] [] (?ng0, c0)"
    using c0 by (simp add: answering_def outbound_negotiation_def muxed_def)
  obtain d1 ng1 c1 where 1: "ng_run ?M (handle_arrive ?h) ?steps ([], ?ng0, c0) = (d1, ng1, c1)" by (rule prod_cases3)
  have arr: "arrivals ?steps = acceptance ''/chat'' @ [7, 8]" by (simp add: arrivals_def)
  from conn.answering_run [OF plain_chat start _ 1, of "[7, 8]"]
  have a1: "answering ?M (handle_ok ?h) ''/chat'' (acceptance ''/chat'' @ [7, 8]) d1 (ng1, c1)" by (simp add: arr)
  have d1: "d1 = []" using 1 by (simp add: ng_run_def)
  obtain q ng2 c2 where 2: "poll ?M (ng1, c1) = (q, ng2, c2)" by (rule prod_cases3)
  from conn.answering_poll [OF plain_chat a1, of "[7, 8]"] 2
  have a2: "answering ?M (handle_ok ?h) ''/chat'' (acceptance ''/chat'' @ [7, 8]) [] (ng2, c2)"
    and ready: "ng_stage ng2 = NgReady" by (simp_all add: d1)
  have rest: "ng_app_rx_buffer ng2 @ stream_unread ?h c2 = [7, 8]" and neg: "is_negotiated ng2" and ok: "handle_ok ?h c2"
    using a2 ready by (simp_all add: answering_def muxed_def is_negotiated_def)
  have again: "poll ?M (ng2, c2) = (Inr (), ng2, c2)" using ready by (simp add: poll_def)
  have "\<exists>ng3 c3. ng_try_read ?M 1 (ng2, c2) = (Inr [7], ng3, c3) \<and> ng_stage ng3 = NgReady \<and> is_negotiated ng3"
  proof (cases "ng_app_rx_buffer ng2")
    case Nil
    with rest have unread: "ms_unread ?M c2 = [7, 8]" by (simp add: muxed_def)
    then have "ms_unread ?M c2 \<noteq> []" by simp
    from conn.read_some [OF ok this, of 1] unread
    obtain c3 where "ms_try_read ?M 1 c2 = (Inr [7], c3)" by auto
    with Nil again ready neg show ?thesis
      by (simp add: ng_try_read_def when_negotiated_def and_then_def on_inner_def zoom_def)
  next
    case (Cons b bs)
    with rest have "b = 7" by simp
    with Cons again ready neg show ?thesis
      by (simp add: ng_try_read_def when_negotiated_def and_then_def on_ng_def Let_def is_negotiated_def)
  qed
  then obtain ng3 c3 where 3: "ng_try_read ?M 1 (ng2, c2) = (Inr [7], ng3, c3)"
    and ng3: "ng_stage ng3 = NgReady" "is_negotiated ng3" by blast
  have "ng_run ?M (handle_arrive ?h) ([Polls] @ ?steps @ [Polls, Reads 1]) ([], outbound_negotiation 7 ''/chat'', toy_stream)
      = ng_run ?M (handle_arrive ?h) [Polls, Reads 1] (ng_run ?M (handle_arrive ?h) ?steps
          (ng_run ?M (handle_arrive ?h) [Polls] ([], outbound_negotiation 7 ''/chat'', toy_stream)))"
    by (simp only: ng_run_def fold_append comp_apply)
  also have "\<dots> = ng_run ?M (handle_arrive ?h) [Polls, Reads 1] (ng_run ?M (handle_arrive ?h) ?steps ([], ?ng0, c0))"
    using 0 by (simp add: ng_run_def)
  also have "\<dots> = ([7], ng3, c3)" unfolding 1 using 2 3 by (simp add: ng_run_def d1)
  finally show ?thesis using ng3 by simp
qed

section \<open>Properties\<close>

text \<open>C19. Whatever arrives on an open stream of a connection, in whatever pieces, and however polls and
  reads of the application alternate with it: once the negotiation is done, the bytes that arrived
  are one multistream exchange that settles the protocol, followed by exactly what the application
  has read, then what is buffered for it, then what is still unread; before that, nothing has been
  given to the application and nothing is lost.\<close>

theorem negotiation_conserves_bytes:
  assumes "handle_ok h c" and "stream_unread h c = []"
    and "ng0 = outbound_negotiation cid proto \<or> ng0 = inbound_negotiation_on cid protos"
    and "ng_run (muxed C h) (handle_arrive h) steps ([], ng0, c) = (delivered, ng, c')"
    and "\<not> has_failed ng"
  shows "if is_negotiated ng
    then \<exists>ex p. arrivals steps = ex @ delivered @ ng_app_rx_buffer ng @ stream_unread h c'
           \<and> ng_negotiated_protocol ng = Some p \<and> settles ng ex p
    else arrivals steps = ng_negotiation_buffer ng @ stream_unread h c' \<and> delivered = []"
proof -
  have "going (muxed C h) (handle_ok h) ([] @ arrivals steps) delivered (ng, c')"
    by (rule conn.run_going [OF fresh_going [OF assms(1-3)] assms(4)])
  moreover have "ms_unread (muxed C h) = stream_unread h" by (simp add: muxed_def)
  ultimately show ?thesis
    using assms(5) by (cases "ng_stage ng") (auto simp: going_def conserved_def is_negotiated_def has_failed_def)
qed

theorem negotiation_conserves_bytes_witness:
  "\<exists>ng c'. ng_run (muxed toy_crypto (DirectHandle 0)) (handle_arrive (DirectHandle 0))
        [Polls, Arrives (take 5 (acceptance ''/chat'')), Polls, Arrives (drop 5 (acceptance ''/chat'') @ [7, 8]), Polls, Reads 1]
        ([], outbound_negotiation 7 ''/chat'', toy_stream) = ([7], ng, c')
    \<and> \<not> has_failed ng \<and> is_negotiated ng
    \<and> (\<exists>ex p. acceptance ''/chat'' @ [7, 8] = ex @ [7] @ ng_app_rx_buffer ng @ stream_unread (DirectHandle 0) c'
         \<and> ng_negotiated_protocol ng = Some p \<and> settles ng ex p)"
proof -
  let ?steps = "[Polls, Arrives (take 5 (acceptance ''/chat'')), Polls, Arrives (drop 5 (acceptance ''/chat'') @ [7, 8]), Polls, Reads 1]"
  obtain ng c' where r: "ng_run (muxed toy_crypto (DirectHandle 0)) (handle_arrive (DirectHandle 0)) ?steps
      ([], outbound_negotiation 7 ''/chat'', toy_stream) = ([7], ng, c')" and ng: "ng_stage ng = NgReady" "is_negotiated ng"
    using toy_run by blast
  have "arrivals ?steps = acceptance ''/chat'' @ [7, 8]" by (simp add: arrivals_def)
  with negotiation_conserves_bytes [OF toy_stream_ok(1,2) _ r, of 7 "''/chat''" "[]"] r ng show ?thesis
    by (simp add: has_failed_def)
qed

text \<open>C17. An outbound negotiation that has sent its proposal on an open stream, to a peer that accepts
  the protocol and goes on to send application data: in whatever pieces its bytes arrive, and however
  polls and reads of the application come between them, once they are all there two more reads that
  are large enough (the buffer of the negotiation may hold a part) leave the negotiation done with
  that protocol, and the application has then read exactly the bytes that follow the answer.\<close>

theorem answer_arrives_in_any_pieces:
  assumes "handle_ok h c" and "stream_unread h c = []" and "plain p"
    and "poll (muxed C h) (outbound_negotiation cid p, c) = (Inr (), ng0, c0)"
    and "arrivals steps = acceptance p @ rest" and "length rest \<le> n"
    and "ng_run (muxed C h) (handle_arrive h) (steps @ [Reads n, Reads n]) ([], ng0, c0) = (d, ng, c')"
  shows "d = rest \<and> is_negotiated ng \<and> ng_negotiated_protocol ng = Some p"
proof -
  let ?M = "muxed C h"
  have M: "ms_unread ?M = stream_unread h" by (simp add: muxed_def)
  have sending: "ng_stage (outbound_negotiation cid p) = SendingOutboundProposal" by (simp add: outbound_negotiation_def)
  from conn.sending_poll [OF assms(1) sending, of C] assms(4) obtain c1 where c1: "handle_ok h c1" "stream_unread h c1 = []"
    and p1: "poll ?M ((outbound_negotiation cid p)\<lparr>ng_stage := AwaitingOutboundResponse\<rparr>, c1) = (Inr (), ng0, c0)"
    by (auto simp: M assms(2))
  have "answering ?M (handle_ok h) p [] [] ((outbound_negotiation cid p)\<lparr>ng_stage := AwaitingOutboundResponse\<rparr>, c1)"
    using c1 by (simp add: answering_def outbound_negotiation_def M)
  from conn.answering_poll [OF assms(3) this, of rest] p1
  have start: "answering ?M (handle_ok h) p [] [] (ng0, c0)" by simp
  obtain d1 t1 where 1: "ng_run ?M (handle_arrive h) steps ([], ng0, c0) = (d1, t1)" by (rule prod.exhaust)
  have "prefix ([] @ arrivals steps) (acceptance p @ rest)" by (simp add: assms(5))
  from conn.answering_run [OF assms(3) start this 1]
  have a: "answering ?M (handle_ok h) p (acceptance p @ rest) d1 t1" by (simp add: assms(5))
  from assms(7) 1 have "ng_run ?M (handle_arrive h) [Reads n, Reads n] (d1, t1) = (d, ng, c')" by (simp add: ng_run_def)
  from conn.answered_reads [OF assms(3) a assms(6) this]
  show ?thesis by (simp add: answering_def is_negotiated_def)
qed

theorem answer_arrives_in_any_pieces_witness:
  "\<exists>ng0 c0 ng c'. poll (muxed toy_crypto (DirectHandle 0)) (outbound_negotiation 7 ''/chat'', toy_stream) = (Inr (), ng0, c0)
    \<and> ng_run (muxed toy_crypto (DirectHandle 0)) (handle_arrive (DirectHandle 0))
        (concat (map (\<lambda>b. [Arrives [b], Reads 2, Polls]) (acceptance ''/chat'' @ [1, 2])) @ [Arrives [3, 4], Reads 1]
          @ [Reads 9, Reads 9]) ([], ng0, c0) = ([1, 2, 3, 4], ng, c')
    \<and> is_negotiated ng"
proof -
  let ?h = "DirectHandle 0"
  let ?M = "muxed toy_crypto ?h"
  let ?steps = "concat (map (\<lambda>b. [Arrives [b], Reads 2, Polls]) (acceptance ''/chat'' @ [1, 2])) @ [Arrives [3, 4], Reads 1]"
  obtain ng0 c0 where 0: "poll ?M (outbound_negotiation 7 ''/chat'', toy_stream) = (Inr (), ng0, c0)"
    using toy_first_poll by blast
  have pieces: "arrivals (concat (map (\<lambda>b. [Arrives [b], Reads 2, Polls]) bs)) = bs" for bs
    by (induction bs) (simp_all add: arrivals_def)
  have app: "arrivals (as @ bs) = arrivals as @ arrivals bs" for as bs by (simp add: arrivals_def)
  have "arrivals ?steps = acceptance ''/chat'' @ [1, 2, 3, 4]" by (simp only: app pieces) (simp add: arrivals_def)
  note all = answer_arrives_in_any_pieces [OF toy_stream_ok(1,2) plain_chat 0 this, where n = 9]
  obtain d ng c' where run: "ng_run ?M (handle_arrive ?h) (?steps @ [Reads 9, Reads 9]) ([], ng0, c0) = (d, ng, c')"
    by (rule prod_cases3)
  from all [OF _ run] have "d = [1, 2, 3, 4] \<and> is_negotiated ng" by simp
  then show ?thesis using 0 run by (auto simp del: concat.simps)
qed

text \<open>C39. The \<open>while (true)\<close> loop that fills the negotiation buffer returns on every stream a handle still
  refers to, open or not: the unbounded loop returns what the bounded one of the model gives, no
  bound above the number of unread bytes gives anything else, and on an open stream the loop ends
  without error, with all the unread bytes in the buffer and none left.\<close>

theorem reading_loop_ends:
  assumes "handle_held h c" and "length (stream_unread h c) < rounds"
  shows "read_loop (muxed C h) (ng, c) = Some (read_into_negotiation_buffer (muxed C h) (ng, c))
    \<and> read_rounds rounds (muxed C h) (ng, c) = read_into_negotiation_buffer (muxed C h) (ng, c)
    \<and> (handle_ok h c \<longrightarrow> (\<exists>t. read_into_negotiation_buffer (muxed C h) (ng, c)
        = (Inr (), ng\<lparr>ng_negotiation_buffer := ng_negotiation_buffer ng @ stream_unread h c\<rparr>, t)
      \<and> handle_ok h t \<and> stream_unread h t = []))"
proof -
  have M: "ms_unread (muxed C h) = stream_unread h" "ms_try_read (muxed C h) = stream_try_read C h" by (simp_all add: muxed_def)
  have "read_loop (muxed C h) (ng, c) = Some (read_rounds k (muxed C h) (ng, c))" if "length (stream_unread h c) < k" for k
    using that read_uses_up [of h _ C 1024] by (intro loop_returns [where P = "handle_held h"]) (auto simp: M assms(1))
  from this [OF lessI] this [OF assms(2)] show ?thesis
    using conn.read_rounds_all [OF _ lessI, of h c C ng]
    by (simp add: read_into_negotiation_buffer_def M) blast
qed

theorem reading_loop_ends_witness:
  "\<exists>t. read_loop (muxed toy_crypto (DirectHandle 0))
      (outbound_negotiation 7 ''/chat'', handle_arrive (DirectHandle 0) (replicate 3000 5) toy_stream)
    = Some (Inr (), (outbound_negotiation 7 ''/chat'')\<lparr>ng_negotiation_buffer := replicate 3000 5\<rparr>, t)"
proof -
  let ?c = "handle_arrive (DirectHandle 0) (replicate 3000 5) toy_stream"
  have c: "handle_ok (DirectHandle 0) ?c" "stream_unread (DirectHandle 0) ?c = replicate 3000 5"
    using conn.arrive_ok [OF toy_stream_ok(1)] toy_stream_ok(2) by (simp_all add: muxed_def)
  have "handle_held (DirectHandle 0) ?c" using c(1) by (simp add: handle_ok_def handle_held_def)
  from reading_loop_ends [OF this, of 3001 toy_crypto "outbound_negotiation 7 ''/chat''"] c show ?thesis
    by (fastforce simp: outbound_negotiation_def)
qed

end
