(* ===== verification/StreamAgreement.thy ===== *)
theory StreamAgreement
  imports StreamNegotiation EndToEnd
begin

text \<open>
  Both ends of a stream negotiate its protocol: \<open>ProtocolNegotiatingStream\<close> of src/src/swarm.cpp at
  the end that opened the stream and at the end that accepted it, each on the Yamux stream of its
  own connection.  Each end polls, reads and writes when it likes and hears bytes in any pieces;
  all that joins the two is that each hears a prefix of what the other said, which is what
  \<open>YamuxDuplex\<close> shows of a stream.
\<close>

section \<open>The span of an exchange is fixed by its own bytes\<close>

lemma decode_loop_local:
  "decode_uvarint_loop errs acc s bs = Inr (v, rest) \<Longrightarrow>
   \<exists>used. bs = used @ rest \<and> (\<forall>tail. decode_uvarint_loop errs acc s (used @ tail) = Inr (v, tail))"
proof (induction errs acc s bs rule: decode_uvarint_loop.induct)
  case (2 errs acc shift byte buf)
  show ?case
  proof (cases "byte AND 0x80 = 0")
    case True
    with "2.prems" show ?thesis by (intro exI [of _ "[byte]"]) (simp add: Let_def)
  next
    case False
    with "2.prems" have go: "\<not> 64 \<le> shift + 7"
      "decode_uvarint_loop errs (acc OR push_bit shift (ucast (byte AND 0x7F))) (shift + 7) buf = Inr (v, rest)"
      by (auto simp: Let_def split: if_splits)
    from "2.IH" [OF refl False go] obtain used where "buf = used @ rest"
      "\<forall>tail. decode_uvarint_loop errs (acc OR push_bit shift (ucast (byte AND 0x7F))) (shift + 7) (used @ tail) = Inr (v, tail)"
      by blast
    with False go(1) show ?thesis by (intro exI [of _ "byte # used"]) (simp add: Let_def)
  qed
qed simp

lemma message_span_local:
  assumes "multistream_message_span buf = Inr n"
  shows "multistream_message_span (take n buf @ tail) = Inr n"
proof -
  from assms obtain len rest where d: "decode_multistream_length buf = Inr (len, rest)"
    and n: "unat len \<le> length rest" "n = length buf - length rest + unat len"
    by (auto simp: multistream_message_span_def bind_result_Inr_iff split: if_splits)
  from d obtain used where used: "buf = used @ rest" "\<And>tail. decode_multistream_length (used @ tail) = Inr (len, tail)"
    using decode_loop_local unfolding decode_multistream_length_def decode_uvarint_with_def by blast
  have "take n buf @ tail = used @ take (unat len) rest @ tail" using n used(1) by simp
  with used n show ?thesis by (simp add: multistream_message_span_def)
qed

lemma exchange_span_local:
  assumes "multistream_exchange_span buf = Inr n"
  shows "multistream_exchange_span (take n buf @ tail) = Inr n"
proof -
  from assms obtain a b where ab: "multistream_message_span buf = Inr a" "multistream_message_span (drop a buf) = Inr b"
    "n = a + b"
    by (auto simp: multistream_exchange_span_def bind_result_Inr_iff)
  have len: "a \<le> length buf" using message_span_bound [OF ab(1)] by simp
  have e: "take n buf @ tail = take a buf @ (take b (drop a buf) @ tail)" using ab(3) by (simp add: take_add)
  have first: "multistream_message_span (take n buf @ tail) = Inr a"
    unfolding e by (rule message_span_local [OF ab(1)])
  have "drop a (take n buf @ tail) = take b (drop a buf) @ tail" using len by (simp add: e)
  then have "multistream_message_span (drop a (take n buf @ tail)) = Inr b"
    using message_span_local [OF ab(2)] by simp
  with first show ?thesis by (simp only: multistream_exchange_span_def bind_result_Inr_iff) (simp add: ab(3))
qed

lemma settles_span: "settles ng ex proto \<Longrightarrow> multistream_exchange_span (ex @ tail) = Inr (length ex)"
proof -
  assume "settles ng ex proto"
  then obtain rest where "multistream_exchange_span (ex @ rest) = Inr (length ex)" by (auto simp: settles_def)
  from exchange_span_local [OF this, of tail] show ?thesis by simp
qed

text \<open>An exchange that begins like an acceptance of \<open>p\<close> is one.\<close>

lemma settles_acceptance:
  assumes "settles ng ex proto" and "plain p" and "prefix (ex @ tail) (acceptance p @ rest)"
  shows "ex = acceptance p"
proof -
  from assms(3) obtain z where z: "acceptance p @ rest = ex @ (tail @ z)" by (auto elim: prefixE)
  have "multistream_exchange_span (acceptance p @ rest) = Inr (length ex)"
    unfolding z by (rule settles_span [OF assms(1)])
  then have "length ex = length (acceptance p)" unfolding acceptance_span(1) [OF assms(2)] by (simp only: sum.inject)
  with z show ?thesis by (metis append_eq_append_conv)
qed

lemma negotiate_inbound_acceptance:
  assumes "negotiate_inbound ex supported = Inr n" and "in_protocol n = Some q"
  shows "q \<in> set supported \<and> in_outbound n = acceptance q"
  using assms by (auto simp: negotiate_inbound_def bind_result_Inr_iff find_eq acceptance_def split: if_splits prod.splits)

section \<open>What an end says\<close>

text \<open>A stream that remembers what was said on it, and that takes a message of \<open>n\<close> bytes whole while
  \<open>room n\<close> holds.\<close>

locale spoken_stream = byte_stream M ok arrive
  for M :: "'s muxed_stream" and ok :: "'s \<Rightarrow> bool" and arrive :: "bytes \<Rightarrow> 's \<Rightarrow> 's" +
  fixes said :: "'s \<Rightarrow> bytes" and room :: "nat \<Rightarrow> 's \<Rightarrow> bool"
  assumes write_said: "ok s \<Longrightarrow> ms_try_write M data s = (Inr k, t) \<Longrightarrow> said t = said s @ take k data"
    and write_whole: "ok s \<Longrightarrow> room (length data) s \<Longrightarrow> ms_try_write M data s = (Inr k, t) \<Longrightarrow> k = length data"
    and write_refused: "ok s \<Longrightarrow> ms_try_write M data s = (Inl e, t) \<Longrightarrow>
      ok t \<and> ms_unread M t = ms_unread M s \<and> said t = said s"
    and read_says: "ok s \<Longrightarrow> ms_try_read M n s = (r, t) \<Longrightarrow> said t = said s \<and> (room k s \<longrightarrow> room k t)"
    and arrive_says: "ok s \<Longrightarrow> said (arrive bs s) = said s \<and> (room k s \<longrightarrow> room k (arrive bs s))"

text \<open>An end that has not failed has said nothing, or the multistream message of its protocol and
  after it what the application gave it.\<close>

definition config :: "negotiating_stream \<Rightarrow> bool \<times> string \<times> string list" where
  "config ng = (ng_inbound ng, ng_desired_protocol ng, ng_supported_protocols ng)"

definition speaks :: "bool \<times> string \<times> string list \<Rightarrow> ('s \<Rightarrow> bytes) \<Rightarrow> (nat \<Rightarrow> 's \<Rightarrow> bool) \<Rightarrow> bytes \<Rightarrow> 's nstate \<Rightarrow> bool" where
  "speaks cfg said room spoken = (\<lambda>(ng, s). (ng_stage ng \<noteq> NgFailed \<longrightarrow> config ng = cfg) \<and> (case ng_stage ng of
     NgFailed \<Rightarrow> True
   | SendingOutboundProposal \<Rightarrow> said s = [] \<and> spoken = [] \<and> room (length (acceptance (ng_desired_protocol ng))) s
   | AwaitingOutboundResponse \<Rightarrow> said s = acceptance (ng_desired_protocol ng) \<and> spoken = []
   | AwaitingInboundProposal \<Rightarrow> said s = [] \<and> spoken = [] \<and> (\<forall>q \<in> set (ng_supported_protocols ng). room (length (acceptance q)) s)
   | NgReady \<Rightarrow> \<exists>q. ng_negotiated_protocol ng = Some q \<and> said s = acceptance q @ spoken
       \<and> (if ng_inbound ng then q \<in> set (ng_supported_protocols ng) else q = ng_desired_protocol ng)))"

lemma config_kept [simp]:
  "config (finish_negotiation k ng) = config ng" "config (ng\<lparr>ng_stage := g\<rparr>) = config ng"
  "config (ng\<lparr>ng_negotiation_buffer := bs\<rparr>) = config ng" "config (ng\<lparr>ng_app_rx_buffer := bs\<rparr>) = config ng"
  "config (ng\<lparr>ng_negotiated_protocol := q\<rparr>) = config ng"
  by (simp_all add: config_def)

lemma speaks_failed: "ng_stage (fst t) = NgFailed \<Longrightarrow> speaks cfg said room spoken t"
  by (cases t) (simp add: speaks_def)

text \<open>A history of one end: \<open>taken\<close> is what its application has read, \<open>spoken\<close> what it has written.\<close>

datatype talk_step = Basic ng_step | Writes bytes

fun talk_step_run :: "'s muxed_stream \<Rightarrow> (bytes \<Rightarrow> 's \<Rightarrow> 's) \<Rightarrow> talk_step \<Rightarrow> bytes \<times> bytes \<times> 's nstate
    \<Rightarrow> bytes \<times> bytes \<times> 's nstate" where
  "talk_step_run M arrive (Basic st) (taken, spoken, t) =
     (let (taken', t') = ng_step_run M arrive st (taken, t) in (taken', spoken, t'))"
| "talk_step_run M arrive (Writes data) (taken, spoken, t) =
     (case ng_try_write M data t of (Inl e, t') \<Rightarrow> (taken, spoken, t') | (Inr k, t') \<Rightarrow> (taken, spoken @ take k data, t'))"

definition talk_run :: "'s muxed_stream \<Rightarrow> (bytes \<Rightarrow> 's \<Rightarrow> 's) \<Rightarrow> talk_step list \<Rightarrow> bytes \<times> bytes \<times> 's nstate
    \<Rightarrow> bytes \<times> bytes \<times> 's nstate" where
  "talk_run M arrive = fold (talk_step_run M arrive)"

definition heard :: "talk_step list \<Rightarrow> bytes" where
  "heard steps = concat (map (\<lambda>st. case st of Basic (Arrives bs) \<Rightarrow> bs | _ \<Rightarrow> []) steps)"

lemma when_negotiated_cases:
  assumes "when_negotiated M m t = (r, t')"
  shows "(\<exists>e. r = Inl e) \<and> t' = snd (poll M t) \<or> is_negotiated (fst (snd (poll M t))) \<and> m (snd (poll M t)) = (r, t')"
  using assms by (cases "poll M t"; cases "fst (poll M t)") (auto simp: when_negotiated_def and_then_def split: if_splits prod.splits)

context spoken_stream begin

lemma reads_say:
  assumes "reads_on M s t" and "ok s"
  shows "ok t \<and> said t = said s \<and> (\<forall>k. room k s \<longrightarrow> room k t)"
proof (rule reads_on_keeps [OF assms(1)])
  fix n u r v
  assume u: "ok u \<and> said u = said s \<and> (\<forall>k. room k s \<longrightarrow> room k u)" and run: "ms_try_read M n u = (r, v)"
  then have "ok v" using read_some [of u n] read_none [of u n] by (cases "ms_unread M u = []") auto
  with u read_says [OF _ run] show "ok v \<and> said v = said s \<and> (\<forall>k. room k s \<longrightarrow> room k v)" by simp
qed (use assms(2) in simp)

lemma response_speaks:
  assumes "speaks cfg said room spoken (ng, t)" and "ng_stage ng = AwaitingOutboundResponse" and "\<not> ng_inbound ng"
  shows "speaks cfg said room spoken (snd (take_response span (ng, t)))"
proof (cases "read_outbound_response (take span (ng_negotiation_buffer ng)) (ng_desired_protocol ng)")
  case (Inl e)
  then show ?thesis by (simp add: take_response_def or_fail_def speaks_failed)
next
  case (Inr proto)
  with read_outbound_response_sound [OF Inr] assms show ?thesis
    by (simp add: take_response_def or_fail_def on_ng_def speaks_def)
qed

lemma proposal_speaks:
  assumes "ok t" and "speaks cfg said room spoken (ng, t)" and "ng_stage ng = AwaitingInboundProposal" and "ng_inbound ng"
  shows "speaks cfg said room spoken (snd (take_proposal M span (ng, t)))"
proof (cases "negotiate_inbound (take span (ng_negotiation_buffer ng)) (ng_supported_protocols ng)")
  case (Inl e)
  then show ?thesis by (simp add: take_proposal_def or_fail_def speaks_failed)
next
  case (Inr n)
  obtain w t1 where w: "ms_try_write M (in_outbound n) t = (w, t1)" by fastforce
  then have inner: "on_inner (ms_try_write M (in_outbound n)) (ng, t) = (w, ng, t1)" by (simp add: on_inner_def zoom_def)
  show ?thesis
  proof (cases "\<exists>k q. w = Inr k \<and> in_protocol n = Some q")
    case False
    then show ?thesis
      by (cases w; cases "in_protocol n") (simp_all add: take_proposal_def or_fail_def Inr inner speaks_failed)
  next
    case True
    then obtain k q where kq: "w = Inr k" "in_protocol n = Some q" by blast
    note q = negotiate_inbound_acceptance [OF Inr kq(2)]
    with assms(2,3) have "room (length (in_outbound n)) t" "said t = []" "spoken = []" "config ng = cfg" by (simp_all add: speaks_def)
    with write_whole [OF assms(1)] write_said [OF assms(1)] w kq(1) q have "said t1 = acceptance q" by fastforce
    then show ?thesis using q kq Inr inner assms(4) \<open>spoken = []\<close> \<open>config ng = cfg\<close>
      by (simp add: take_proposal_def or_fail_def on_ng_def speaks_def)
  qed
qed

lemma exchange_speaks:
  assumes "speaks cfg said room spoken (ng, t)" and "\<And>span. speaks cfg said room spoken (snd (f span (ng, t)))"
  shows "speaks cfg said room spoken (snd (with_exchange f (ng, t)))"
  using assms by (cases "multistream_exchange_span (ng_negotiation_buffer ng)") (simp_all add: with_exchange_def speaks_failed)

lemma waiting_speaks:
  assumes "ok s" and "speaks cfg said room spoken (ng, s)" and "consistent_stage ng"
    and "ng_stage ng \<in> {AwaitingOutboundResponse, AwaitingInboundProposal}"
  shows "speaks cfg said room spoken (snd (poll M (ng, s)))"
proof -
  from waiting_poll [OF assms(1,4)] obtain t where t: "ok t" "reads_on M s t" and p: "poll M (ng, s)
    = with_exchange (if ng_stage ng = AwaitingOutboundResponse then take_response else take_proposal M)
        (ng\<lparr>ng_negotiation_buffer := ng_negotiation_buffer ng @ ms_unread M s\<rparr>, t)" by blast
  let ?ng = "ng\<lparr>ng_negotiation_buffer := ng_negotiation_buffer ng @ ms_unread M s\<rparr>"
  have now: "speaks cfg said room spoken (?ng, t)"
    using assms(2,4) reads_say [OF t(2) assms(1)] by (auto simp: speaks_def)
  show ?thesis
  proof (cases "ng_stage ng = AwaitingOutboundResponse")
    case True
    then have "speaks cfg said room spoken (snd (take_response span (?ng, t)))" for span
      using response_speaks [OF now] assms(3) by (simp add: consistent_stage_def)
    from exchange_speaks [where f = take_response, OF now this] True show ?thesis by (simp add: p)
  next
    case False
    then have "speaks cfg said room spoken (snd (take_proposal M span (?ng, t)))" for span
      using proposal_speaks [OF t(1) now] assms(3,4) by (simp add: consistent_stage_def)
    from exchange_speaks [where f = "take_proposal M", OF now this] False show ?thesis by (simp add: p)
  qed
qed

lemma poll_speaks:
  assumes "going M ok arrived taken (ng, s)" and "speaks cfg said room spoken (ng, s)"
  shows "speaks cfg said room spoken (snd (poll M (ng, s)))"
proof (cases "ng_stage ng")
  case SendingOutboundProposal
  then have ok: "ok s" using assms(1) by (simp add: going_def)
  from sending_poll [OF ok SendingOutboundProposal] show ?thesis
  proof (elim disjE exE conjE)
    fix e t
    assume "poll M (ng, s) = (Inl e, ng\<lparr>ng_stage := NgFailed, ng_failure_detail := Some e\<rparr>, t)"
    then show ?thesis by (simp add: speaks_failed)
  next
    fix k s'
    assume w: "ms_try_write M (encode_message kHeader @ encode_message (ng_desired_protocol ng)) s = (Inr k, s')" and s': "ok s'"
      and p: "poll M (ng, s) = poll M (ng\<lparr>ng_stage := AwaitingOutboundResponse\<rparr>, s')"
    have "said s' = acceptance (ng_desired_protocol ng)" "spoken = []" "config ng = cfg"
      using write_whole [OF ok _ w] write_said [OF ok w] assms(2) SendingOutboundProposal
      by (simp_all add: speaks_def acceptance_def)
    then have "speaks cfg said room spoken (ng\<lparr>ng_stage := AwaitingOutboundResponse\<rparr>, s')" by (simp add: speaks_def)
    moreover have "consistent_stage (ng\<lparr>ng_stage := AwaitingOutboundResponse\<rparr>)"
      using assms(1) SendingOutboundProposal by (simp add: going_def consistent_stage_def)
    ultimately show ?thesis using waiting_speaks [OF s'] by (simp add: p)
  qed
next
  case NgReady
  with assms show ?thesis by (simp add: poll_def)
next
  case NgFailed
  then show ?thesis by (simp add: poll_def speaks_failed)
qed (use waiting_speaks assms in \<open>simp_all add: going_def\<close>)

lemma read_speaks:
  assumes "going M ok arrived taken t" and "speaks cfg said room spoken t" and "ng_try_read M n t = (r, t')"
  shows "speaks cfg said room spoken t'"
proof -
  obtain ng s where t: "t = (ng, s)" by fastforce
  obtain ng1 s1 where p: "snd (poll M t) = (ng1, s1)" by fastforce
  from poll_speaks [of arrived taken ng s cfg spoken] assms(1,2) have now: "speaks cfg said room spoken (ng1, s1)" by (simp add: t [symmetric] p)
  have going: "going M ok arrived taken (ng1, s1)" using poll_going [of arrived taken ng s] assms(1) by (simp add: t [symmetric] p)
  from when_negotiated_cases [OF assms(3) [unfolded ng_try_read_def]] show ?thesis
  proof (elim disjE conjE)
    assume "t' = snd (poll M t)"
    with now show ?thesis by (simp add: p)
  next
    assume neg: "is_negotiated (fst (snd (poll M t)))"
      and run: "reading (\<lambda>(ng, _). if ng_app_rx_buffer ng \<noteq> [] then
          let n = min n (length (ng_app_rx_buffer ng))
          in and_then (on_ng (\<lambda>ng. ng\<lparr>ng_app_rx_buffer := drop n (ng_app_rx_buffer ng)\<rparr>)) (\<lambda>_. return_ok (take n (ng_app_rx_buffer ng)))
        else on_inner (ms_try_read M n)) (snd (poll M t)) = (r, t')"
    then have ready: "ng_stage ng1 = NgReady" and ok: "ok s1" using going by (simp_all add: p is_negotiated_def going_def)
    show ?thesis
    proof (cases "ng_app_rx_buffer ng1 = []")
      case True
      obtain x s2 where x: "ms_try_read M n s1 = (x, s2)" by fastforce
      have "t' = (ng1, s2)" using run True x by (simp add: p on_inner_def zoom_def)
      with read_says [OF ok x] now ready show ?thesis by (simp add: speaks_def)
    next
      case False
      then have "t' = (ng1\<lparr>ng_app_rx_buffer := drop (min n (length (ng_app_rx_buffer ng1))) (ng_app_rx_buffer ng1)\<rparr>, s1)"
        using run by (auto simp: p on_ng_def Let_def and_then_def)
      with now ready show ?thesis by (auto simp: speaks_def)
    qed
  qed
qed

lemma write_talks:
  assumes "going M ok arrived taken t" and "speaks cfg said room spoken t" and "ng_try_write M data t = (r, t')"
  shows "going M ok arrived taken t'"
    and "speaks cfg said room (case r of Inl e \<Rightarrow> spoken | Inr k \<Rightarrow> spoken @ take k data) t'"
proof -
  obtain ng s where t: "t = (ng, s)" by fastforce
  obtain ng1 s1 where p: "snd (poll M t) = (ng1, s1)" by fastforce
  from poll_speaks [of arrived taken ng s cfg spoken] assms(1,2) have now: "speaks cfg said room spoken (ng1, s1)" by (simp add: t [symmetric] p)
  have going: "going M ok arrived taken (ng1, s1)" using poll_going [of arrived taken ng s] assms(1) by (simp add: t [symmetric] p)
  from when_negotiated_cases [OF assms(3) [unfolded ng_try_write_def]]
  have "going M ok arrived taken t' \<and> speaks cfg said room (case r of Inl e \<Rightarrow> spoken | Inr k \<Rightarrow> spoken @ take k data) t'"
  proof (elim disjE conjE exE)
    fix e
    assume "t' = snd (poll M t)" "r = Inl e"
    with now going show ?thesis by (simp add: p)
  next
    assume neg: "is_negotiated (fst (snd (poll M t)))" and run: "on_inner (ms_try_write M data) (snd (poll M t)) = (r, t')"
    then have ready: "ng_stage ng1 = NgReady" and ok: "ok s1" using going by (simp_all add: p is_negotiated_def going_def)
    obtain s2 where x: "ms_try_write M data s1 = (r, s2)" and t': "t' = (ng1, s2)"
      using run by (cases "ms_try_write M data s1") (simp add: p on_inner_def zoom_def)
    show ?thesis
    proof (cases r)
      case (Inl e)
      with write_refused [OF ok] x now going ready t' show ?thesis
        by (simp add: speaks_def going_def conserved_def)
    next
      case (Inr k)
      with write_ok [OF ok] write_said [OF ok] x now going ready t' show ?thesis
        by (auto simp: speaks_def going_def conserved_def)
    qed
  qed
  then show "going M ok arrived taken t'" "speaks cfg said room (case r of Inl e \<Rightarrow> spoken | Inr k \<Rightarrow> spoken @ take k data) t'"
    by simp_all
qed

lemma talk_step_keeps:
  assumes "going M ok arrived taken t" and "speaks cfg said room spoken t"
    and "talk_step_run M arrive st (taken, spoken, t) = (taken', spoken', t')"
  shows "going M ok (arrived @ heard [st]) taken' t' \<and> speaks cfg said room spoken' t'"
proof (cases st)
  case (Writes data)
  obtain r u where w: "ng_try_write M data t = (r, u)" by (rule prod.exhaust)
  from write_talks [OF assms(1,2) w] assms(3) Writes w show ?thesis by (cases r) (simp_all add: heard_def)
next
  case (Basic b)
  from assms(3) Basic have run: "ng_step_run M arrive b (taken, t) = (taken', t')" "spoken' = spoken"
    by (auto simp: Let_def split: prod.splits)
  have "arrivals [b] = heard [st]" by (simp add: arrivals_def heard_def Basic)
  with step_going [OF assms(1) run(1)] have "going M ok (arrived @ heard [st]) taken' t'" by simp
  moreover have "speaks cfg said room spoken t'"
  proof (cases b)
    case (Arrives bs)
    obtain ng s where t: "t = (ng, s)" by fastforce
    with run(1) Arrives have t': "t' = (ng, arrive bs s)" by simp
    show ?thesis
    proof (cases "ng_stage ng = NgFailed")
      case True
      then show ?thesis by (simp add: t' speaks_failed)
    next
      case False
      with assms(1) have "ok s" by (simp add: going_def t)
      from arrive_says [OF this] assms(2) show ?thesis by (auto simp: t t' speaks_def split: negotiation_stage.splits)
    qed
  next
    case Polls
    with run(1) poll_speaks [of arrived taken "fst t" "snd t"] assms(1,2) show ?thesis by simp
  next
    case (Reads n)
    obtain r u where rd: "ng_try_read M n t = (r, u)" by (rule prod.exhaust)
    with run(1) Reads have "t' = u" by (cases r) simp_all
    with read_speaks [OF assms(1,2) rd] show ?thesis by simp
  qed
  ultimately show ?thesis using run(2) by simp
qed

lemma talk_run_keeps:
  assumes "going M ok arrived taken t" and "speaks cfg said room spoken t"
    and "talk_run M arrive steps (taken, spoken, t) = (taken', spoken', t')"
  shows "going M ok (arrived @ heard steps) taken' t' \<and> speaks cfg said room spoken' t'"
  using assms
proof (induction steps arbitrary: arrived taken spoken t)
  case Nil
  then show ?case by (simp add: talk_run_def heard_def)
next
  case (Cons st steps)
  obtain u v w where one: "talk_step_run M arrive st (taken, spoken, t) = (u, v, w)" by (rule prod_cases3)
  with Cons.prems(3) have rest: "talk_run M arrive steps (u, v, w) = (taken', spoken', t')" by (simp add: talk_run_def)
  from talk_step_keeps [OF Cons.prems(1,2) one] have "going M ok (arrived @ heard [st]) u w" "speaks cfg said room v w" by simp_all
  from Cons.IH [OF this rest] show ?case by (simp add: heard_def)
qed

end

section \<open>Yamux streams that remember what was said\<close>

definition recording :: "'s muxed_stream \<Rightarrow> ('s \<times> bytes) muxed_stream" where
  "recording M =
     \<lparr>ms_id = (\<lambda>(s, said). ms_id M s),
      ms_try_read = (\<lambda>n (s, said). let (r, s') = ms_try_read M n s in (r, s', said)),
      ms_try_write = (\<lambda>data (s, said). let (r, s') = ms_try_write M data s
         in (r, s', case r of Inl _ \<Rightarrow> said | Inr k \<Rightarrow> said @ take k data)),
      ms_close_write = (\<lambda>(s, said). let (r, s') = ms_close_write M s in (r, s', said)),
      ms_reset = (\<lambda>(s, said). let (r, s') = ms_reset M s in (r, s', said)),
      ms_is_open = (\<lambda>(s, said). ms_is_open M s),
      ms_unread = (\<lambda>(s, said). ms_unread M s)\<rparr>"

lemma recording_simps [simp]:
  "ms_try_read (recording M) n (s, l) = (fst (ms_try_read M n s), snd (ms_try_read M n s), l)"
  "ms_try_write (recording M) data (s, l) = (fst (ms_try_write M data s), snd (ms_try_write M data s),
     case fst (ms_try_write M data s) of Inl _ \<Rightarrow> l | Inr k \<Rightarrow> l @ take k data)"
  "ms_is_open (recording M) (s, l) = ms_is_open M s" "ms_unread (recording M) (s, l) = ms_unread M s"
  by (simp_all add: recording_def case_prod_beta Let_def)

definition hearing :: "('s \<Rightarrow> 's) \<Rightarrow> 's \<times> bytes \<Rightarrow> 's \<times> bytes" where
  "hearing f = (\<lambda>(s, said). (f s, said))"

lemma recording_stream:
  assumes "byte_stream M ok arrive"
  shows "byte_stream (recording M) (\<lambda>x. ok (fst x)) (\<lambda>bs. hearing (arrive bs))"
proof -
  note law = byte_stream.open_ok [OF assms] byte_stream.read_some [OF assms] byte_stream.read_none [OF assms]
    byte_stream.write_ok [OF assms] byte_stream.arrive_ok [OF assms]
  show ?thesis
  proof
    fix x :: "'a \<times> bytes" and n and bs data :: bytes and k and y
    obtain s l where x: "x = (s, l)" by fastforce
    show "ok (fst x) \<Longrightarrow> ms_is_open (recording M) x" using law(1) by (simp add: x)
    show "\<exists>t. ms_try_read (recording M) n x = (Inr (take n (ms_unread (recording M) x)), t) \<and> ok (fst t)
        \<and> ms_unread (recording M) t = drop n (ms_unread (recording M) x)"
      if "ok (fst x)" "ms_unread (recording M) x \<noteq> []"
      using law(2) [of s n] that by (auto simp: x)
    show "\<exists>r t. ms_try_read (recording M) n x = (r, t) \<and> (r = Inr [] \<or> r = Inl ''EAGAIN'') \<and> ok (fst t) \<and> ms_unread (recording M) t = []"
      if "ok (fst x)" "ms_unread (recording M) x = []"
      using law(3) [of s n] that by (auto simp: x)
    show "ok (fst y) \<and> ms_unread (recording M) y = ms_unread (recording M) x"
      if "ok (fst x)" "ms_try_write (recording M) data x = (Inr k, y)"
      using law(4) [of s data k] that by (cases "ms_try_write M data s") (auto simp: x)
    show "ok (fst (hearing (arrive bs) x)) \<and> ms_unread (recording M) (hearing (arrive bs) x) = ms_unread (recording M) x @ bs"
      if "ok (fst x)"
      using law(5) [of s bs] that by (simp add: x hearing_def)
  qed
qed

text \<open>The send window of stream \<open>p\<close> covers \<open>n\<close> bytes.\<close>

definition window_room :: "nat \<Rightarrow> nat \<Rightarrow> connection \<Rightarrow> bool" where
  "window_room p n c = (case cn_yamux c of None \<Rightarrow> False
     | Some ys \<Rightarrow> (case ys_send_windows ys (st_id (stream_at ys p)) of None \<Rightarrow> False | Some w \<Rightarrow> n \<le> unat w))"

lemma window_room_kept:
  assumes "window_room p n c" and "cn_yamux c = Some ys" and "cn_yamux c' = Some ys'"
    and "ys_send_windows ys' = ys_send_windows ys" and "st_id (stream_at ys' p) = st_id (stream_at ys p)"
  shows "window_room p n c'"
  using assms by (simp add: window_room_def)

lemma window_update_windows [simp]:
  "ys_send_windows (fst (snd (update_receive_window cbs sid n t))) = ys_send_windows (fst t)"
  by (simp add: update_receive_window_def write_frame_def run_outgoing_streams)

lemma yamux_read_windows:
  assumes "try_read cbs p n (ys, c) = (r, (ys', c'))" and "p < length (ys_heap ys)"
  shows "ys_send_windows ys' = ys_send_windows ys" "st_id (stream_at ys' p) = st_id (stream_at ys p)"
proof -
  have "ys_send_windows (fst (snd (try_read cbs p n (ys, c)))) = ys_send_windows ys"
    "st_id (stream_at (fst (snd (try_read cbs p n (ys, c)))) p) = st_id (stream_at ys p)"
    using assms(2) by (simp_all add: try_read_def Let_def and_then_def map_stream_def stream_at_def)
  with assms(1) show "ys_send_windows ys' = ys_send_windows ys" "st_id (stream_at ys' p) = st_id (stream_at ys p)"
    by simp_all
qed

interpretation talk: spoken_stream "recording (muxed C (YamuxHandle p))" "\<lambda>x. handle_ok (YamuxHandle p) (fst x)"
    "\<lambda>bs. hearing (handle_arrive (YamuxHandle p) bs)" snd "\<lambda>n x. window_room p n (fst x)" for C p
proof (intro spoken_stream.intro recording_stream conn.byte_stream_axioms spoken_stream_axioms.intro)
  fix x t :: "connection \<times> bytes" and data bs :: bytes and k n e and r :: "bytes result"
  obtain c l where x: "x = (c, l)" by fastforce
  obtain c' l' where t: "t = (c', l')" by fastforce
  have table: "ms_try_write (muxed C (YamuxHandle p)) = stream_try_write C (YamuxHandle p)"
    "ms_try_read (muxed C (YamuxHandle p)) = stream_try_read C (YamuxHandle p)"
    "ms_unread (muxed C (YamuxHandle p)) = stream_unread (YamuxHandle p)" by (simp_all add: muxed_def)
  show "snd t = snd x @ take k data" if "ms_try_write (recording (muxed C (YamuxHandle p))) data x = (Inr k, t)"
    using that by (auto simp: x)
  show "k = length data" if "handle_ok (YamuxHandle p) (fst x)" "window_room p (length data) (fst x)"
    "ms_try_write (recording (muxed C (YamuxHandle p))) data x = (Inr k, t)"
  proof -
    from that(1) obtain ys where ys: "cn_yamux c = Some ys" by (auto simp: x handle_ok_def split: option.splits)
    from that(3) have "fst (stream_try_write C (YamuxHandle p) data c) = Inr k" by (simp add: x table)
    then obtain ys' d where "try_write (session_callbacks C) p data (ys, c) = (Inr k, (ys', d))"
      by (cases "try_write (session_callbacks C) p data (ys, c)") (auto simp: stream_try_write_def with_yamux_def ys)
    from write_success [OF this] that(2) show ?thesis by (auto simp: x window_room_def ys)
  qed
  show "handle_ok (YamuxHandle p) (fst t)
      \<and> ms_unread (recording (muxed C (YamuxHandle p))) t = ms_unread (recording (muxed C (YamuxHandle p))) x \<and> snd t = snd x"
    if "handle_ok (YamuxHandle p) (fst x)" "ms_try_write (recording (muxed C (YamuxHandle p))) data x = (Inl e, t)"
  proof -
    from that(2) have "stream_try_write C (YamuxHandle p) data c = (Inl e, c')" "l' = l"
      by (cases "stream_try_write C (YamuxHandle p) data c"; auto simp: x t table)+
    with yamux_write_ok that(1) show ?thesis by (simp add: x t table)
  qed
  show "snd t = snd x \<and> (window_room p k (fst x) \<longrightarrow> window_room p k (fst t))"
    if "handle_ok (YamuxHandle p) (fst x)" "ms_try_read (recording (muxed C (YamuxHandle p))) n x = (r, t)"
  proof -
    from that(1) obtain ys where ys: "cn_yamux c = Some ys" "p < length (ys_heap ys)"
      by (auto simp: x handle_ok_def split: option.splits)
    obtain r' ys' d where run: "try_read (session_callbacks C) p n (ys, c) = (r', (ys', d))" by (rule prod_cases3)
    then have "stream_try_read C (YamuxHandle p) n c = (r', d\<lparr>cn_yamux := Some ys'\<rparr>)"
      by (simp add: stream_try_read_def with_yamux_def ys)
    then have t': "c' = d\<lparr>cn_yamux := Some ys'\<rparr>" "l' = l" using that(2) by (simp_all add: x t table)
    then have "window_room p k c \<Longrightarrow> window_room p k c'"
      using window_room_kept [OF _ ys(1), of p k c' ys'] yamux_read_windows [OF run ys(2)] by simp
    with t' show ?thesis by (simp add: x t)
  qed
  show "snd (hearing (handle_arrive (YamuxHandle p) bs) x) = snd x
      \<and> (window_room p k (fst x) \<longrightarrow> window_room p k (fst (hearing (handle_arrive (YamuxHandle p) bs) x)))"
    if "handle_ok (YamuxHandle p) (fst x)"
    using that
    by (auto simp: x hearing_def window_room_def handle_arrive_def handle_ok_def on_yamux_def map_stream_def stream_at_def receive_data_def
        split: option.splits)
qed

section \<open>Both ends\<close>

lemma fresh_talk:
  assumes "handle_ok (YamuxHandle p) c" and "stream_unread (YamuxHandle p) c = []"
    and "ng = outbound_negotiation cid q \<and> supported = [q] \<or> ng = inbound_negotiation_on cid supported"
    and "\<forall>q \<in> set supported. window_room p (length (acceptance q)) c"
  shows "going (recording (muxed C (YamuxHandle p))) (\<lambda>x. handle_ok (YamuxHandle p) (fst x)) [] [] (ng, (c, []))"
    and "speaks (config ng) snd (\<lambda>n x. window_room p n (fst x)) [] (ng, (c, []))"
proof -
  have "ms_unread (muxed C (YamuxHandle p)) c = []" using assms(2) by (simp add: muxed_def)
  with assms show "going (recording (muxed C (YamuxHandle p))) (\<lambda>x. handle_ok (YamuxHandle p) (fst x)) [] [] (ng, (c, []))"
    "speaks (config ng) snd (\<lambda>n x. window_room p n (fst x)) [] (ng, (c, []))"
    by (auto simp: going_def conserved_def consistent_stage_def speaks_def outbound_negotiation_def inbound_negotiation_on_def)
qed

text \<open>What an end that has not failed knows at any moment.\<close>

lemma talk_knows:
  assumes "going M ok hears taken (ng, s)" and "speaks (inbound, desired, supported) said room spoken (ng, s)" and "\<not> has_failed ng"
  shows "is_negotiated ng \<Longrightarrow> \<exists>ex q. prefix (ex @ taken) hears \<and> settles ng ex q \<and> ng_negotiated_protocol ng = Some q
      \<and> said s = acceptance q @ spoken \<and> (if inbound then q \<in> set supported else q = desired)"
    and "\<not> is_negotiated ng \<Longrightarrow> taken = [] \<and> spoken = [] \<and> (said s = [] \<or> \<not> inbound \<and> said s = acceptance desired)"
    and "ng_inbound ng = inbound" "ng_supported_protocols ng = supported"
proof -
  show cfg: "ng_inbound ng = inbound" "ng_supported_protocols ng = supported"
    using assms(2,3) by (simp_all add: speaks_def has_failed_def config_def)
  have desired: "ng_desired_protocol ng = desired" using assms(2,3) by (simp add: speaks_def has_failed_def config_def)
  show "\<exists>ex q. prefix (ex @ taken) hears \<and> settles ng ex q \<and> ng_negotiated_protocol ng = Some q
      \<and> said s = acceptance q @ spoken \<and> (if inbound then q \<in> set supported else q = desired)"
    if "is_negotiated ng"
  proof -
    from that have ready: "ng_stage ng = NgReady" by (simp add: is_negotiated_def)
    with assms(1) obtain ex q where ex: "hears = ex @ taken @ ng_app_rx_buffer ng @ ms_unread M s"
      "ng_negotiated_protocol ng = Some q" "settles ng ex q" by (auto simp: going_def conserved_def)
    have "prefix (ex @ taken) hears" unfolding ex(1) by (simp add: prefix_def)
    with ex(2,3) assms(2) ready cfg desired show ?thesis by (auto simp: speaks_def)
  qed
  show "\<not> is_negotiated ng \<Longrightarrow> taken = [] \<and> spoken = [] \<and> (said s = [] \<or> \<not> inbound \<and> said s = acceptance desired)"
    using assms cfg desired
    by (cases "ng_stage ng") (auto simp: is_negotiated_def has_failed_def going_def conserved_def speaks_def consistent_stage_def)
qed

text \<open>One end of a conversation on stream \<open>p\<close> of connection \<open>c\<close>.\<close>

definition conversation :: "crypto \<Rightarrow> nat \<Rightarrow> talk_step list \<Rightarrow> negotiating_stream \<Rightarrow> connection
    \<Rightarrow> bytes \<times> bytes \<times> (connection \<times> bytes) nstate" where
  "conversation C p steps ng c = talk_run (recording (muxed C (YamuxHandle p)))
     (\<lambda>bs. hearing (handle_arrive (YamuxHandle p) bs)) steps ([], [], ng, (c, []))"

definition quiet_stream :: "nat \<Rightarrow> string list \<Rightarrow> connection \<Rightarrow> bool" where
  "quiet_stream p protocols c \<longleftrightarrow> handle_ok (YamuxHandle p) c \<and> stream_unread (YamuxHandle p) c = []
     \<and> (\<forall>q \<in> set protocols. window_room p (length (acceptance q)) c)"

lemma conversation_keeps:
  assumes "conversation C p steps ng c = (taken, spoken, ng', s)"
    and "ng = outbound_negotiation cid q \<and> supported = [q] \<or> ng = inbound_negotiation_on cid supported"
    and "quiet_stream p supported c"
  shows "going (recording (muxed C (YamuxHandle p))) (\<lambda>x. handle_ok (YamuxHandle p) (fst x)) (heard steps) taken (ng', s)"
    and "speaks (config ng) snd (\<lambda>n x. window_room p n (fst x)) spoken (ng', s)"
proof -
  have quiet: "handle_ok (YamuxHandle p) c" "stream_unread (YamuxHandle p) c = []"
    "\<forall>q \<in> set supported. window_room p (length (acceptance q)) c" using assms(3) by (simp_all add: quiet_stream_def)
  from talk.talk_run_keeps [OF fresh_talk [OF quiet(1,2) assms(2) quiet(3)] assms(1) [unfolded conversation_def]]
  show "going (recording (muxed C (YamuxHandle p))) (\<lambda>x. handle_ok (YamuxHandle p) (fst x)) (heard steps) taken (ng', s)"
    "speaks (config ng) snd (\<lambda>n x. window_room p n (fst x)) spoken (ng', s)" by simp_all
qed

section \<open>A conversation that succeeds\<close>

text \<open>A stream on which nothing hinders reading and writing for \<open>k\<close> messages.\<close>

definition unhindered :: "nat \<Rightarrow> nat \<Rightarrow> bytes \<Rightarrow> connection \<Rightarrow> bool" where
  "unhindered k p unread c \<longleftrightarrow> (\<exists>ys. can_seal k ys c \<and> p < length (ys_heap ys) \<and> \<not> st_write_closed (stream_at ys p)
     \<and> \<not> st_reset (stream_at ys p) \<and> \<not> st_read_closed (stream_at ys p) \<and> st_recv_buf (stream_at ys p) = unread
     \<and> ys_send_windows ys (st_id (stream_at ys p)) = Some kInitialStreamWindow)"

lemma unhindered_write:
  assumes "crypto_ok C" and "unhindered (Suc k) p unread c" and "data \<noteq> []" and "length data \<le> 65507"
  shows "\<exists>c'. stream_try_write C (YamuxHandle p) data c = (Inr (length data), c')"
proof -
  from assms(2) obtain ys where ys: "can_seal (Suc k) ys c" "p < length (ys_heap ys)" "\<not> st_write_closed (stream_at ys p)"
    "\<not> st_reset (stream_at ys p)" "ys_send_windows ys (st_id (stream_at ys p)) = Some kInitialStreamWindow"
    by (auto simp: unhindered_def)
  have yx: "cn_yamux c = Some ys" "ys_send_buf ys = []" using ys(1) by (simp_all add: can_seal_def)
  let ?ys = "(write_frame (frame Data 0 (st_id (stream_at ys p)) (of_nat (length data))) data ys)
    \<lparr>ys_send_windows := (ys_send_windows ys)(st_id (stream_at ys p) \<mapsto> kInitialStreamWindow - of_nat (length data))\<rparr>"
  have small: "min (length data) (unat kInitialStreamWindow) = length data" using assms(4) by (simp add: kInitialStreamWindow_def)
  have "length (ys_send_buf ?ys) \<le> max_plaintext"
    using assms(4) by (simp add: send_buf_written yx(2) frame_bytes_length max_plaintext_def kHeaderSize_def)
  from outgoing_seals [OF assms(1) ys(1) this] obtain c' where
    "run_outgoing (session_callbacks C) (?ys, c) = (Inr (), (?ys\<lparr>ys_send_buf := []\<rparr>, c'))" by blast
  then have "fst (try_write (session_callbacks C) p data (ys, c)) = Inr (length data)"
    using ys(3-5) small assms(3) by (simp add: try_write_def write_stream_data_def Let_def and_then_def on_session_def)
  then have "fst (stream_try_write C (YamuxHandle p) data c) = Inr (length data)"
    by (simp add: stream_try_write_def with_yamux_def yx(1) case_prod_beta)
  then show ?thesis by (cases "stream_try_write C (YamuxHandle p) data c") simp
qed

lemma unhindered_arrive:
  assumes "unhindered k p unread c"
  shows "unhindered k p (unread @ bs) (handle_arrive (YamuxHandle p) bs c)"
proof -
  from assms obtain ys where ys: "can_seal k ys c" "p < length (ys_heap ys)" "\<not> st_write_closed (stream_at ys p)"
    "\<not> st_reset (stream_at ys p)" "\<not> st_read_closed (stream_at ys p)" "st_recv_buf (stream_at ys p) = unread"
    "ys_send_windows ys (st_id (stream_at ys p)) = Some kInitialStreamWindow" by (auto simp: unhindered_def)
  have "handle_arrive (YamuxHandle p) bs c = c\<lparr>cn_yamux := Some (map_stream p (receive_data bs) ys)\<rparr>"
    using ys(1) by (simp add: handle_arrive_def on_yamux_def can_seal_def)
  moreover have "can_seal k (map_stream p (receive_data bs) ys) (c\<lparr>cn_yamux := Some (map_stream p (receive_data bs) ys)\<rparr>)"
    using ys(1) by (simp add: can_seal_def map_stream_def noise_of_def)
  ultimately show ?thesis unfolding unhindered_def using ys
    by (intro exI [of _ "map_stream p (receive_data bs) ys"]) (simp add: map_stream_def stream_at_def receive_data_def)
qed

lemma unhindered_read:
  assumes "crypto_ok C" and "unhindered (Suc k) p unread c" and "unread \<noteq> []" and "length unread \<le> n"
  shows "\<exists>c'. stream_try_read C (YamuxHandle p) n c = (Inr unread, c') \<and> unhindered k p [] c'"
proof -
  from assms(2) obtain ys where ys: "can_seal (Suc k) ys c" "p < length (ys_heap ys)" "\<not> st_write_closed (stream_at ys p)"
    "\<not> st_reset (stream_at ys p)" "\<not> st_read_closed (stream_at ys p)" "st_recv_buf (stream_at ys p) = unread"
    "ys_send_windows ys (st_id (stream_at ys p)) = Some kInitialStreamWindow" by (auto simp: unhindered_def)
  have yx: "cn_yamux c = Some ys" "ys_send_buf ys = []" using ys(1) by (simp_all add: can_seal_def)
  let ?ys = "write_frame (frame WindowUpdate 0 (st_id (stream_at ys p)) (of_nat (length unread))) []
    (map_stream p (\<lambda>st. st\<lparr>st_recv_buf := drop (length unread) (st_recv_buf st)\<rparr>) ys)"
  have len: "min n (length unread) = length unread" using assms(4) by simp
  have "length (ys_send_buf ?ys) \<le> max_plaintext"
    by (simp add: send_buf_written yx(2) frame_bytes_length max_plaintext_def kHeaderSize_def map_stream_def)
  from outgoing_seals [OF assms(1) ys(1) this] obtain c' where
    out: "run_outgoing (session_callbacks C) (?ys, c) = (Inr (), (?ys\<lparr>ys_send_buf := []\<rparr>, c'))"
    and can: "\<And>ys1. can_seal k ys1 (c'\<lparr>cn_yamux := Some ys1\<rparr>) \<longleftrightarrow> ys_send_buf ys1 = []" by blast
  have "try_read (session_callbacks C) p n (ys, c) = (Inr unread, (?ys\<lparr>ys_send_buf := []\<rparr>, c'))"
    using ys(6) assms(3) out by (simp add: try_read_def Let_def and_then_def len on_session_def update_receive_window_def)
  then have "stream_try_read C (YamuxHandle p) n c = (Inr unread, c'\<lparr>cn_yamux := Some (?ys\<lparr>ys_send_buf := []\<rparr>)\<rparr>)"
    by (simp add: stream_try_read_def with_yamux_def yx(1))
  moreover have "unhindered k p [] (c'\<lparr>cn_yamux := Some (?ys\<lparr>ys_send_buf := []\<rparr>)\<rparr>)"
    unfolding unhindered_def using ys can
    by (intro exI [of _ "?ys\<lparr>ys_send_buf := []\<rparr>"]) (simp add: map_stream_def stream_at_def write_frame_def)
  ultimately show ?thesis by blast
qed

lemma unhindered_empty:
  assumes "unhindered k p [] c"
  shows "stream_try_read C (YamuxHandle p) n c = (Inl ''EAGAIN'', c)"
  using assms by (auto simp: unhindered_def stream_try_read_def with_yamux_def try_read_def can_seal_def)

lemma unhindered_quiet:
  assumes "unhindered k p [] c" and "\<forall>q \<in> set protocols. length (acceptance q) \<le> 65507"
  shows "quiet_stream p protocols c"
  using assms by (fastforce simp: unhindered_def quiet_stream_def can_seal_def handle_ok_def stream_unread_def window_room_def kInitialStreamWindow_def)

lemma acceptance_not_empty: "acceptance q \<noteq> []"
  by (simp add: acceptance_def encode_message_def ensure_newline_def Let_def)

lemma opener_proposes:
  assumes "crypto_ok C" and "unhindered (Suc k) i [] a" and "plain q" and "length (acceptance q) \<le> 65507"
  shows "\<exists>ng a'. conversation C i [Basic Polls] (outbound_negotiation cid q) a = ([], [], ng, (a', acceptance q)) \<and> \<not> has_failed ng"
proof -
  let ?R = "recording (muxed C (YamuxHandle i))" and ?ng = "outbound_negotiation cid q"
  let ?wait = "?ng\<lparr>ng_stage := AwaitingOutboundResponse\<rparr>"
  obtain a1 where w: "stream_try_write C (YamuxHandle i) (acceptance q) a = (Inr (length (acceptance q)), a1)"
    using unhindered_write [OF assms(1,2) acceptance_not_empty assms(4)] by blast
  have quiet: "quiet_stream i [q] a" using unhindered_quiet [OF assms(2), of "[q]"] assms(4) by simp
  then have ok: "handle_ok (YamuxHandle i) (fst (a, []))" "stream_unread (YamuxHandle i) a = []" by (simp_all add: quiet_stream_def)
  have mw: "ms_try_write (muxed C (YamuxHandle i)) (acceptance q) a = (Inr (length (acceptance q)), a1)" using w by (simp add: muxed_def)
  then have rw: "ms_try_write ?R (acceptance q) (a, []) = (Inr (length (acceptance q)), (a1, acceptance q))" by simp
  have send: "send_proposal ?R (?ng, (a, [])) = (Inr (), ?wait, (a1, acceptance q))"
    using rw by (simp add: send_proposal_def or_fail_def prepare_outbound_ok on_inner_def zoom_def on_ng_def acceptance_def
        outbound_negotiation_def)
  note after = talk.write_ok [OF ok(1) rw]
  have stage: "ng_stage ?wait \<in> {AwaitingOutboundResponse, AwaitingInboundProposal}" by simp
  from talk.waiting_poll [where C = C, OF conjunct1 [OF after] stage] obtain t where t: "reads_on ?R (a1, acceptance q) t"
    and p: "poll ?R (?wait, (a1, acceptance q)) = with_exchange take_response
      (?wait\<lparr>ng_negotiation_buffer := ng_negotiation_buffer ?wait @ ms_unread ?R (a1, acceptance q)\<rparr>, t)"
    by auto
  have none: "ng_negotiation_buffer ?wait @ ms_unread ?R (a1, acceptance q) = []"
    using conjunct2 [OF after] ok(2) by (simp add: outbound_negotiation_def muxed_def)
  obtain e where "multistream_exchange_span [] = Inl e" "is_incomplete_multistream_error e"
    using acceptance_span(3) [OF assms(3), of "[]"] acceptance_not_empty [of q, symmetric] by (auto simp: strict_prefix_def)
  then have "poll ?R (?wait, (a1, acceptance q)) = (Inr (), ?wait\<lparr>ng_negotiation_buffer := []\<rparr>, t)"
    unfolding p none by (simp add: with_exchange_def)
  moreover have "poll ?R (?ng, (a, [])) = poll ?R (?wait, (a1, acceptance q))"
    using send by (simp add: poll_def and_then_def outbound_negotiation_def)
  moreover have "snd t = acceptance q" using talk.reads_say [OF t conjunct1 [OF after]] by simp
  ultimately have "conversation C i [Basic Polls] ?ng a = ([], [], ?wait\<lparr>ng_negotiation_buffer := []\<rparr>, (fst t, acceptance q))"
    by (simp add: conversation_def talk_run_def prod_eq_iff)
  then show ?thesis by (auto simp: has_failed_def)
qed

lemma acceptor_answers:
  assumes "crypto_ok C" and "unhindered (Suc (Suc k)) j [] b" and "plain q" and "length (acceptance q) \<le> 1024" and "q \<in> set supported"
  shows "\<exists>ng b'. conversation C j [Basic (Arrives (acceptance q)), Basic Polls] (inbound_negotiation_on cid supported) b
      = ([], [], ng, (b', acceptance q)) \<and> is_negotiated ng"
proof -
  let ?M = "muxed C (YamuxHandle j)" and ?ng = "inbound_negotiation_on cid supported"
  let ?R = "recording ?M" and ?b1 = "handle_arrive (YamuxHandle j) (acceptance q) b"
  have b1: "unhindered (Suc (Suc k)) j (acceptance q) ?b1" using unhindered_arrive [OF assms(2), of "acceptance q"] by simp
  obtain b2 where b2: "stream_try_read C (YamuxHandle j) 1024 ?b1 = (Inr (acceptance q), b2)" "unhindered (Suc k) j [] b2"
    using unhindered_read [OF assms(1) b1 acceptance_not_empty assms(4)] by blast
  have "length (acceptance q) \<le> 65507" using assms(4) by simp
  from unhindered_write [OF assms(1) b2(2) acceptance_not_empty this] obtain b3 where
    b3: "stream_try_write C (YamuxHandle j) (acceptance q) b2 = (Inr (length (acceptance q)), b3)" by blast
  have M: "ms_try_read ?M 1024 ?b1 = (Inr (acceptance q), b2)" "ms_try_read ?M 1024 b2 = (Inl ''EAGAIN'', b2)"
    "ms_try_write ?M (acceptance q) b2 = (Inr (length (acceptance q)), b3)"
    using b2(1) b3 unhindered_empty [OF b2(2), of C 1024] by (simp_all add: muxed_def)
  have "ms_unread ?M ?b1 = acceptance q"
    using b1 by (auto simp: muxed_def stream_unread_def unhindered_def can_seal_def)
  moreover obtain n where "length (acceptance q) = Suc n" using acceptance_not_empty by (cases "acceptance q") auto
  ultimately have read: "read_into_negotiation_buffer ?R (?ng, (?b1, [])) = (Inr (), ?ng\<lparr>ng_negotiation_buffer := acceptance q\<rparr>, (b2, []))"
    using M(1,2) acceptance_not_empty by (simp add: read_into_negotiation_buffer_def inbound_negotiation_on_def)
  let ?ng2 = "?ng\<lparr>ng_negotiation_buffer := acceptance q\<rparr>"
  let ?ended = "finish_negotiation (length (acceptance q)) (?ng2\<lparr>ng_negotiated_protocol := Some q\<rparr>)"
  have "multistream_exchange_span (acceptance q) = Inr (length (acceptance q))" using acceptance_span(1) [OF assms(3), of "[]"] by simp
  moreover have "negotiate_inbound (acceptance q) supported = Inr \<lparr>in_outbound = acceptance q, in_protocol = Some q\<rparr>"
    using negotiate_inbound_request [OF assms(3), of "[]" supported] assms(5) by (simp add: acceptance_def)
  ultimately have "with_exchange (take_proposal ?R) (?ng2, (b2, [])) = (Inr (), ?ended, (b3, acceptance q))"
    using M(3) by (simp add: with_exchange_def take_proposal_def or_fail_def on_inner_def zoom_def on_ng_def inbound_negotiation_on_def)
  then have "poll ?R (?ng, (?b1, [])) = (Inr (), ?ended, (b3, acceptance q))"
    using read by (simp add: poll_def or_fail_def and_then_def inbound_negotiation_on_def)
  then have "conversation C j [Basic (Arrives (acceptance q)), Basic Polls] ?ng b = ([], [], ?ended, (b3, acceptance q))"
    by (simp add: conversation_def talk_run_def hearing_def)
  moreover have "is_negotiated ?ended" by (simp add: is_negotiated_def)
  ultimately show ?thesis by blast
qed

section \<open>Properties\<close>

text \<open>C7. The two ends of a stream agree on its protocol.  One end opened the stream for protocol \<open>q\<close>, the
  other accepts the protocols \<open>supported\<close>; each polls, reads and writes when it likes, and hears, in
  any pieces, a prefix of what the other has said so far.  As soon as either of them, with neither
  failed, takes the stream for negotiated, the acceptor has negotiated \<open>q\<close>, which it supports, and so
  has the opener if it is done; and what either application has read is a prefix of what the other has
  written: no byte of the negotiation reaches an application, and no byte of an application is
  taken for the negotiation.\<close>

theorem ends_agree_on_protocol:
  assumes "plain q" and "quiet_stream i [q] a" and "quiet_stream j supported b"
    and "conversation C i steps (outbound_negotiation cid q) a = (taken, spoken, ng, (a', said))"
    and "conversation C' j steps' (inbound_negotiation_on cid' supported) b = (taken', spoken', ng', (b', said'))"
    and "prefix (heard steps) said'" and "prefix (heard steps') said"
    and "\<not> has_failed ng" and "\<not> has_failed ng'" and "is_negotiated ng \<or> is_negotiated ng'"
  shows "ng_negotiated_protocol ng' = Some q \<and> q \<in> set supported \<and> (is_negotiated ng \<longrightarrow> ng_negotiated_protocol ng = Some q)
    \<and> prefix taken' spoken \<and> prefix taken spoken'"
proof -
  have cfg: "config (outbound_negotiation cid q) = (False, q, [])" "config (inbound_negotiation_on cid' supported) = (True, [], supported)"
    by (simp_all add: config_def outbound_negotiation_def inbound_negotiation_on_def)
  note opener = conversation_keeps [where cid = cid and q = q, OF assms(4) disjI1 assms(2), simplified cfg, simplified]
  note acceptor = conversation_keeps [where cid = cid', OF assms(5) disjI2 assms(3), simplified cfg, simplified]
  note A = talk_knows [OF opener assms(8)] and B = talk_knows [OF acceptor assms(9)]
  have "is_negotiated ng'"
  proof (rule ccontr)
    assume not: "\<not> is_negotiated ng'"
    with B(2) have "said' = []" by simp
    with assms(6) have "heard steps = []" by simp
    from not assms(10) A(1) obtain ex p where "prefix (ex @ taken) (heard steps)" "settles ng ex p" by blast
    with \<open>heard steps = []\<close> settles_span [of ng "[]" p "[]"] exchange_span_bound [of "[]"] show False by fastforce
  qed
  then obtain ex p where ex: "prefix (ex @ taken') (heard steps')" "settles ng' ex p" "ng_negotiated_protocol ng' = Some p"
    "said' = acceptance p @ spoken'" "p \<in> set supported" using B(1) by auto
  have "prefix (ex @ taken') (acceptance q @ spoken)"
  proof -
    have "said = acceptance q @ spoken \<or> said = []" using A(1,2) by (cases "is_negotiated ng") auto
    with ex(1) assms(7) show ?thesis by (auto dest: prefix_order.trans)
  qed
  from settles_acceptance [OF ex(2) assms(1) this] this have exq: "ex = acceptance q" "prefix taken' spoken" by simp_all
  have pq: "p = q"
    using ex(2) B(3,4) negotiate_inbound_request [OF assms(1), of "[]" supported]
    by (auto simp: settles_def exq(1) acceptance_def split: if_splits)
  have "prefix taken spoken' \<and> (is_negotiated ng \<longrightarrow> ng_negotiated_protocol ng = Some q)"
  proof (cases "is_negotiated ng")
    case False
    with A(2) show ?thesis by simp
  next
    case True
    with A(1) obtain ey r where ey: "prefix (ey @ taken) (heard steps)" "settles ng ey r" "ng_negotiated_protocol ng = Some r" "r = q" by auto
    with assms(6) ex(4) pq have pre: "prefix (ey @ taken) (acceptance q @ spoken')" by (auto dest: prefix_order.trans)
    from settles_acceptance [OF ey(2) assms(1) pre] pre ey(3,4) show ?thesis by simp
  qed
  with exq(2) ex(3,5) pq show ?thesis by simp
qed

definition toy_yamux :: "bool \<Rightarrow> connection" where
  "toy_yamux initiator = (keyed (toy_connection initiator))
     \<lparr>cn_yamux := Some (snd (get_or_create_stream 1 True (new_session 7 initiator)))\<rparr>"

lemma toy_yamux_unhindered: "unhindered 2 0 [] (toy_yamux initiator)"
proof -
  have "noise_of (toy_yamux initiator) = noise_of (keyed (toy_connection initiator))" by (simp add: noise_of_def toy_yamux_def)
  then show ?thesis
    by (simp add: unhindered_def can_seal_def toy_yamux_def get_or_create_stream_def new_session_def new_stream_def stream_at_def)
      (simp add: keyed_def toy_connection_def new_connection_def new_io_def set_noise_def map_secure_def noise_of_def
        blocked_socket_def fresh_cipher_def)
qed

theorem ends_agree_on_protocol_witness:
  "\<exists>ng a ng' b. conversation toy_crypto 0 [Basic Polls] (outbound_negotiation 7 ''/chat'') (toy_yamux True)
      = ([], [], ng, (a, acceptance ''/chat''))
    \<and> conversation toy_crypto 0 [Basic (Arrives (acceptance ''/chat'')), Basic Polls]
        (inbound_negotiation_on 8 [''/echo'', ''/chat'']) (toy_yamux False) = ([], [], ng', (b, acceptance ''/chat''))
    \<and> ng_negotiated_protocol ng' = Some ''/chat''"
proof -
  have plain: "plain ''/chat''" by (simp add: plain_def newline_def)
  have len: "length (acceptance ''/chat'') \<le> 1024" "length (acceptance ''/echo'') \<le> 1024"
    by (simp_all add: acceptance_def encode_message_def ensure_newline_def kHeader_def newline_def encode_uvarint.simps Let_def)
  have two: "unhindered (Suc (Suc 0)) 0 [] (toy_yamux i)" for i using toy_yamux_unhindered by (simp add: numeral_2_eq_2)
  from opener_proposes [OF toy_crypto_ok two plain, of 7 True] len obtain ng a where
    A: "conversation toy_crypto 0 [Basic Polls] (outbound_negotiation 7 ''/chat'') (toy_yamux True) = ([], [], ng, (a, acceptance ''/chat''))"
      "\<not> has_failed ng" by auto
  from acceptor_answers [OF toy_crypto_ok two plain len(1), of "[''/echo'', ''/chat'']" 8 False] obtain ng' b where
    B: "conversation toy_crypto 0 [Basic (Arrives (acceptance ''/chat'')), Basic Polls]
        (inbound_negotiation_on 8 [''/echo'', ''/chat'']) (toy_yamux False) = ([], [], ng', (b, acceptance ''/chat''))"
      "is_negotiated ng'" by auto
  have quiet: "quiet_stream 0 [''/chat''] (toy_yamux True)" "quiet_stream 0 [''/echo'', ''/chat''] (toy_yamux False)"
    using unhindered_quiet [OF two] len by simp_all
  have "\<not> has_failed ng'" using B(2) by (simp add: is_negotiated_def has_failed_def)
  from ends_agree_on_protocol [OF plain quiet A(1) B(1) _ _ A(2) this] B(2)
  have "ng_negotiated_protocol ng' = Some ''/chat''" by (simp add: heard_def)
  with A(1) B(1) show ?thesis by blast
qed

end
