(* ===== verification/RoutingTable.thy ===== *)
theory RoutingTable
  imports PeerTypes "HOL-Library.Multiset"
begin

text \<open>
  The flat Kademlia routing table (include/peercore/routing_table.hpp,
  src/src/routing_table.cpp): insertion, removal and the peers closest to a target by XOR distance.
\<close>

section \<open>Code\<close>

record routing_table =
  rt_local_id :: peer_id
  rt_k :: nat
  rt_peers :: "peer_id list"

definition new_routing_table :: "peer_id \<Rightarrow> nat \<Rightarrow> routing_table" where
  "new_routing_table local_id k = \<lparr>rt_local_id = local_id, rt_k = k, rt_peers = []\<rparr>"

definition insert_peer :: "peer_id \<Rightarrow> routing_table \<Rightarrow> routing_table" where
  "insert_peer peer t =
     (if peer = rt_local_id t then t
      else if peer \<in> set (rt_peers t) then t
      else t\<lparr>rt_peers := rt_peers t @ [peer]\<rparr>)"

definition remove_peer :: "peer_id \<Rightarrow> routing_table \<Rightarrow> routing_table" where
  "remove_peer peer t = t\<lparr>rt_peers := filter (\<lambda>p. p \<noteq> peer) (rt_peers t)\<rparr>"

text \<open>\<open>std::array\<close>s of bytes compare lexicographically, byte by byte as unsigned numbers.\<close>

definition xor_dist :: "peer_id \<Rightarrow> peer_id \<Rightarrow> bytes" where
  "xor_dist a b = map (\<lambda>i. peer_bytes a ! i XOR peer_bytes b ! i) [0..<32]"

definition dist_key :: "peer_id \<Rightarrow> peer_id \<Rightarrow> nat list" where
  "dist_key target p = map unat (xor_dist p target)"

definition closest_peers :: "peer_id \<Rightarrow> nat \<Rightarrow> routing_table \<Rightarrow> peer_id list" where
  "closest_peers target k t =
     (let sorted = sort_key (dist_key target) (rt_peers t)
      in if length sorted > k then take k sorted else sorted)"

definition table_size :: "routing_table \<Rightarrow> nat" where
  "table_size t = length (rt_peers t)"

text \<open>\<open>std::countl_zero\<close> of a byte: \<open>countl_zero n\<close> examines the bits below \<open>n\<close>, from the top.\<close>

primrec countl_zero :: "nat \<Rightarrow> byte \<Rightarrow> nat" where
  "countl_zero 0 b = 0"
| "countl_zero (Suc n) b = (if bit b n then 0 else Suc (countl_zero n b))"

fun leading_zeros_from :: "nat \<Rightarrow> bytes \<Rightarrow> byte" where
  "leading_zeros_from i [] = 255"
| "leading_zeros_from i (xb # d) =
     (if xb \<noteq> 0 then of_nat (i * 8 + countl_zero 8 xb) else leading_zeros_from (Suc i) d)"

definition leading_zeros :: "peer_id \<Rightarrow> peer_id \<Rightarrow> byte" where
  "leading_zeros a b = leading_zeros_from 0 (xor_dist a b)"

section \<open>Tables\<close>

definition table_inv :: "routing_table \<Rightarrow> bool" where
  "table_inv t \<longleftrightarrow> distinct (rt_peers t) \<and> rt_local_id t \<notin> set (rt_peers t)"

text \<open>The interface of a peer set that never holds its owner.\<close>

locale peer_set =
  fixes add :: "peer_id \<Rightarrow> 't \<Rightarrow> 't" and del :: "peer_id \<Rightarrow> 't \<Rightarrow> 't"
    and members :: "'t \<Rightarrow> peer_id set" and owner :: "'t \<Rightarrow> peer_id" and ok :: "'t \<Rightarrow> bool"
  assumes members_add: "ok t \<Longrightarrow> members (add p t) = (if p = owner t then members t else insert p (members t))"
    and members_del: "ok t \<Longrightarrow> members (del p t) = members t - {p}"
    and owner_add: "owner (add p t) = owner t" and owner_del: "owner (del p t) = owner t"
    and ok_add: "ok t \<Longrightarrow> ok (add p t)" and ok_del: "ok t \<Longrightarrow> ok (del p t)"
    and ok_owner: "ok t \<Longrightarrow> owner t \<notin> members t"
begin

definition step :: "bool \<times> peer_id \<Rightarrow> 't \<Rightarrow> 't" where
  "step = (\<lambda>(b, p). if b then add p else del p)"

lemma fold_ok: "ok t \<Longrightarrow> ok (fold step ops t) \<and> owner (fold step ops t) = owner t"
  by (induction ops arbitrary: t) (auto simp: step_def ok_add ok_del owner_add owner_del)

text \<open>Its members are those of the set the same operations build, without the owner.\<close>

lemma members_fold:
  assumes "ok t" and "members t = {}"
  shows "members (fold step ops t)
    = fold (\<lambda>(b, p) S. if b then insert p S else S - {p}) ops {} - {owner t}"
proof (induction ops rule: rev_induct)
  case Nil
  then show ?case by (simp add: assms)
next
  case (snoc op ops)
  from fold_ok [OF assms(1), of ops] snoc show ?case
    by (auto simp: step_def members_add members_del split: prod.splits)
qed

end

interpretation table: peer_set insert_peer remove_peer "\<lambda>t. set (rt_peers t)" rt_local_id table_inv
  by unfold_locales (auto simp: insert_peer_def remove_peer_def table_inv_def)

text \<open>A history of a table: insertions (\<open>True\<close>) and removals, and the set it stands for.\<close>

definition run_table :: "(bool \<times> peer_id) list \<Rightarrow> routing_table \<Rightarrow> routing_table" where
  "run_table = fold (\<lambda>(b, p). if b then insert_peer p else remove_peer p)"

definition set_of_history :: "(bool \<times> peer_id) list \<Rightarrow> peer_id set" where
  "set_of_history ops = fold (\<lambda>(b, p) S. if b then insert p S else S - {p}) ops {}"

lemma run_table_refines:
  "table_inv (run_table ops (new_routing_table local_id k))"
  "rt_local_id (run_table ops (new_routing_table local_id k)) = local_id"
  "set (rt_peers (run_table ops (new_routing_table local_id k))) = set_of_history ops - {local_id}"
proof -
  let ?t = "new_routing_table local_id k"
  have new: "table_inv ?t" "set (rt_peers ?t) = {}" "rt_local_id ?t = local_id"
    by (simp_all add: table_inv_def new_routing_table_def)
  have run: "run_table ops ?t = fold table.step ops ?t" by (simp add: run_table_def table.step_def)
  from table.fold_ok [OF new(1), of ops] table.members_fold [OF new(1,2), of ops] new(3)
  show "table_inv (run_table ops (new_routing_table local_id k))"
    "rt_local_id (run_table ops (new_routing_table local_id k)) = local_id"
    "set (rt_peers (run_table ops (new_routing_table local_id k))) = set_of_history ops - {local_id}"
    by (simp_all add: run set_of_history_def)
qed

lemma set_of_history_named: "q \<in> set_of_history ops \<Longrightarrow> (True, q) \<in> set ops"
  unfolding set_of_history_def by (induction ops rule: rev_induct) (auto split: prod.splits if_splits)

section \<open>Distance\<close>

lemma length_xor_dist [simp]: "length (xor_dist a b) = 32"
  by (simp add: xor_dist_def)

lemma xor_cancel: "(x :: byte) XOR z = y XOR z \<longleftrightarrow> x = y"
proof
  assume "x XOR z = y XOR z"
  then have "(x XOR z) XOR z = (y XOR z) XOR z" by simp
  then show "x = y" by (simp only: xor.assoc xor_self_eq xor.right_neutral)
qed simp

lemma xor_dist_inj:
  assumes "wf_peer_id a" and "wf_peer_id b"
  shows "xor_dist a t = xor_dist b t \<longleftrightarrow> a = b"
proof
  assume "xor_dist a t = xor_dist b t"
  then have "\<forall>i < 32. peer_bytes a ! i = peer_bytes b ! i"
    by (simp add: xor_dist_def xor_cancel)
  with assms have "peer_bytes a = peer_bytes b"
    by (intro nth_equalityI) (simp_all add: wf_peer_id_def)
  then show "a = b" by (rule peer_id.expand)
qed simp

lemma dist_key_inj: "wf_peer_id a \<Longrightarrow> wf_peer_id b \<Longrightarrow> dist_key t a = dist_key t b \<longleftrightarrow> a = b"
  by (simp add: dist_key_def map_unat_eq_iff xor_dist_inj)

lemma dist_key_self: "dist_key t t = replicate 32 0"
  by (rule nth_equalityI) (simp_all add: dist_key_def xor_dist_def)

lemma closest_is_take: "closest_peers target k t = take k (sort_key (dist_key target) (rt_peers t))"
  by (simp add: closest_peers_def Let_def)

lemma sorted_take_drop:
  assumes "sorted (map f xs)" and "x \<in> set (take k xs)" and "y \<in> set (drop k xs)"
  shows "f x \<le> (f y :: 'b::linorder)"
proof -
  have "sorted (map f (take k xs) @ map f (drop k xs))"
    using assms(1) by (simp add: take_map [symmetric] drop_map [symmetric])
  with assms(2,3) show ?thesis by (auto simp: sorted_append)
qed

text \<open>The sentinel of \<open>leading_zeros\<close> for equal ids is also its result for ids that differ in the
  last bit only.\<close>

lemma leading_zeros_sentinel:
  "leading_zeros p p = 255" "leading_zeros (PeerId (replicate 31 0 @ [1])) (PeerId (replicate 32 0)) = 255"
proof -
  have "leading_zeros_from i (replicate n 0) = 255" for i n
    by (induction n arbitrary: i) simp_all
  moreover have "xor_dist p p = replicate 32 0"
    by (rule nth_equalityI) (simp_all add: xor_dist_def)
  ultimately show "leading_zeros p p = 255" by (simp add: leading_zeros_def)
  show "leading_zeros (PeerId (replicate 31 0 @ [1])) (PeerId (replicate 32 0)) = 255"
    by code_simp
qed

section \<open>Properties\<close>

lemma closest_facts:
  assumes "\<forall>(b, p) \<in> set ops. wf_peer_id p" and "t = run_table ops (new_routing_table local_id k0)"
    and "r = closest_peers target k t"
  shows "distinct r" and "set r \<subseteq> set_of_history ops - {local_id}"
    and "length r = min k (card (set_of_history ops - {local_id}))" and "sorted (map (dist_key target) r)"
    and "p \<in> set r \<Longrightarrow> q \<in> set_of_history ops - {local_id} - set r \<Longrightarrow> dist_key target p < dist_key target q"
proof -
  let ?s = "sort_key (dist_key target) (rt_peers t)"
  note t = run_table_refines [where local_id = local_id and ops = ops and k = k0, folded assms(2)]
  have wf: "wf_peer_id x" if "x \<in> set (rt_peers t)" for x
    using that assms(1) t(3) set_of_history_named by fast
  have r: "r = take k ?s" by (simp add: assms(3) closest_is_take)
  have s: "distinct ?s" "set ?s = set (rt_peers t)" "sorted (map (dist_key target) ?s)"
    using t(1) by (simp_all add: table_inv_def)
  have members: "set r \<subseteq> set (rt_peers t)" using s set_take_subset [of k ?s] by (simp add: r)
  then show "set r \<subseteq> set_of_history ops - {local_id}" using t(3) by simp
  have "length (rt_peers t) = card (set_of_history ops - {local_id})"
    using t(1,3) distinct_card [of "rt_peers t"] by (simp add: table_inv_def)
  then show "distinct r" "length r = min k (card (set_of_history ops - {local_id}))"
    using s by (simp_all add: r)
  show "sorted (map (dist_key target) r)" using s(3) sorted_wrt_take by (simp add: r flip: take_map)
  show "dist_key target p < dist_key target q" if "p \<in> set r" "q \<in> set_of_history ops - {local_id} - set r"
  proof -
    have "set ?s = set (take k ?s) \<union> set (drop k ?s)" by (metis append_take_drop_id set_append)
    with that s(2) t(3) have "q \<in> set (drop k ?s)" by (auto simp: r)
    with sorted_take_drop [OF s(3)] that(1) have "dist_key target p \<le> dist_key target q" by (simp add: r)
    moreover have "p \<noteq> q" "wf_peer_id p" "wf_peer_id q"
      using that wf members t(3) by auto
    then have "dist_key target p \<noteq> dist_key target q" by (simp add: dist_key_inj)
    ultimately show ?thesis by simp
  qed
qed

text \<open>C27. For a table built by any insertions and removals of 32-byte ids, \<open>closest_peers\<close> returns
  different peers of the set these operations describe, without the local id: \<open>k\<close> of them or all,
  by increasing XOR distance, and every one it leaves out is strictly farther from the target than
  every one it returns.\<close>

theorem closest_peers_are_closest:
  assumes "\<forall>(b, p) \<in> set ops. wf_peer_id p" and "t = run_table ops (new_routing_table local_id k0)"
    and "r = closest_peers target k t"
  shows "distinct r \<and> set r \<subseteq> set_of_history ops - {local_id}
    \<and> length r = min k (card (set_of_history ops - {local_id})) \<and> sorted (map (dist_key target) r)
    \<and> (\<forall>p \<in> set r. \<forall>q \<in> set_of_history ops - {local_id} - set r. dist_key target p < dist_key target q)"
  using closest_facts [OF assms] by blast

text \<open>Two members, the local id inserted and refused, one of the two asked for.\<close>

theorem closest_peers_are_closest_witness:
  "let far = PeerId (replicate 32 7); near = PeerId (replicate 32 1); target = PeerId (replicate 32 0);
       ops = [(True, far), (True, target), (True, near)];
       r = closest_peers target 1 (run_table ops (new_routing_table target 20))
   in length r = 1 \<and> target \<notin> set r \<and> (near \<in> set r \<longrightarrow> dist_key target near < dist_key target far)"
proof -
  let ?far = "PeerId (replicate 32 7)" and ?near = "PeerId (replicate 32 1)" and ?target = "PeerId (replicate 32 0)"
  let ?ops = "[(True, ?far), (True, ?target), (True, ?near)]"
  let ?r = "closest_peers ?target 1 (run_table ?ops (new_routing_table ?target 20))"
  have ids: "\<forall>(b, p) \<in> set ?ops. wf_peer_id p" by (simp add: wf_peer_id_def)
  have ne: "?far \<noteq> ?near" "?far \<noteq> ?target" "?near \<noteq> ?target" by simp_all
  have members: "set_of_history ?ops - {?target} = {?far, ?near}"
    using ne by (auto simp: set_of_history_def)
  note closest = closest_peers_are_closest [where ops = ?ops and local_id = ?target and ?k0.0 = 20
      and target = ?target and k = 1, OF ids refl refl, unfolded members]
  have len: "length ?r = 1" using closest ne(1) by simp
  moreover have "?target \<notin> set ?r" using closest ne by auto
  moreover have "?far \<notin> set ?r" if "?near \<in> set ?r"
    using len that ne(1) by (cases ?r) auto
  then have "?near \<in> set ?r \<longrightarrow> dist_key ?target ?near < dist_key ?target ?far"
    using closest by blast
  ultimately show ?thesis by (simp add: Let_def)
qed

end
