(* ===== verification/EventLoop.thy ===== *)
theory EventLoop
  imports Prelude
begin

text \<open>
  The event loop (src/src/runtime/event_loop.hpp, event_loop.cpp), its Linux (epoll) branch:
  registered descriptors, dispatch of the events epoll reports, timers.

  Closures are labels of a type \<open>'cb\<close>; \<open>call\<close> says what running one does, and may change the
  loop itself, which the actions below reach in the caller's state through \<open>get\<close> and \<open>put\<close>.  What
  the kernel answers is an argument: the events of \<open>epoll_wait\<close> and the readings of the clock (in
  nanoseconds).  \<open>el_interest\<close> is the epoll instance's interest list: adding a descriptor twice
  fails with EEXIST, closing a descriptor takes it off; \<open>el_refused\<close> are descriptors the kernel
  refuses for another reason.  An exception is the \<open>Inl\<close> of an action.

  \<open>el_version\<close> and \<open>el_timer_version\<close> count the changes of the vectors: the code keeps a
  reference into a vector while it runs a callback, and using it after such a change is undefined
  behaviour, here the error \<open>dangling\<close>.
\<close>

section \<open>Code: data\<close>

datatype io_event = Readable | Writable | IoError

record 'cb fd_handler =
  fh_fd :: int
  fh_callback :: 'cb

record 'cb timer =
  tm_id :: u64
  tm_deadline :: int
  tm_callback :: 'cb
  tm_repeat :: bool
  tm_interval :: int

record 'cb event_loop =
  el_interest :: "int list"
  el_refused :: "int list"
  el_running :: bool
  el_fd_handlers :: "'cb fd_handler list"
  el_timers :: "'cb timer list"
  el_next_timer_id :: u64
  el_version :: nat
  el_timer_version :: nat

record epoll_event =
  ee_fd :: int
  ee_in :: bool
  ee_out :: bool
  ee_err :: bool

definition dangling :: string where "dangling = ''undefined behaviour: dangling reference''"

definition new_event_loop :: "'cb event_loop" where
  "new_event_loop =
     \<lparr>el_interest = [], el_refused = [], el_running = False, el_fd_handlers = [], el_timers = [],
      el_next_timer_id = 1, el_version = 0, el_timer_version = 0\<rparr>"

section \<open>Code: registration\<close>

definition register_fd :: "int \<Rightarrow> 'cb \<Rightarrow> ('cb event_loop, unit) action" where
  "register_fd fd callback = reading (\<lambda>l.
     if fd \<in> set (el_interest l) \<or> fd \<in> set (el_refused l)
     then return_err ''epoll_ctl EPOLL_CTL_ADD failed''
     else update (\<lambda>l. l\<lparr>el_interest := el_interest l @ [fd],
            el_fd_handlers := el_fd_handlers l @ [\<lparr>fh_fd = fd, fh_callback = callback\<rparr>],
            el_version := Suc (el_version l)\<rparr>))"

definition unregister_fd :: "int \<Rightarrow> 'cb event_loop \<Rightarrow> 'cb event_loop" where
  "unregister_fd fd l =
     l\<lparr>el_interest := removeAll fd (el_interest l),
       el_fd_handlers := filter (\<lambda>h. fh_fd h \<noteq> fd) (el_fd_handlers l),
       el_version := Suc (el_version l)\<rparr>"

text \<open>\<open>close(2)\<close> of a descriptor, as the epoll instance sees it.\<close>

definition descriptor_closed :: "int \<Rightarrow> 'cb event_loop \<Rightarrow> 'cb event_loop" where
  "descriptor_closed fd l = l\<lparr>el_interest := removeAll fd (el_interest l)\<rparr>"

section \<open>Code: timers\<close>

definition add_timer :: "int \<Rightarrow> 'cb \<Rightarrow> bool \<Rightarrow> int \<Rightarrow> 'cb event_loop \<Rightarrow> u64 \<times> 'cb event_loop" where
  "add_timer delay_ms callback repeat now l =
     (let tid = el_next_timer_id l; delay = delay_ms * 1000000
      in (tid, l\<lparr>el_next_timer_id := tid + 1,
                el_timers := el_timers l @ [\<lparr>tm_id = tid, tm_deadline = now + delay,
                  tm_callback = callback, tm_repeat = repeat, tm_interval = delay\<rparr>],
                el_timer_version := Suc (el_timer_version l)\<rparr>))"

definition cancel_timer :: "u64 \<Rightarrow> 'cb event_loop \<Rightarrow> 'cb event_loop" where
  "cancel_timer tid l =
     l\<lparr>el_timers := filter (\<lambda>t. tm_id t \<noteq> tid) (el_timers l),
       el_timer_version := Suc (el_timer_version l)\<rparr>"

text \<open>\<open>duration_cast\<close> truncates towards zero.\<close>

definition to_milliseconds :: "int \<Rightarrow> int" where
  "to_milliseconds ns = (if 0 \<le> ns then ns div 1000000 else - ((- ns) div 1000000))"

definition next_timer_delay :: "int \<Rightarrow> 'cb event_loop \<Rightarrow> int" where
  "next_timer_delay now l =
     (if el_timers l = [] then 10
      else let diff = to_milliseconds (Min (set (map tm_deadline (el_timers l))) - now)
           in if diff > 0 then diff else 0)"

text \<open>The loop over the timers, \<open>v\<close> the version at its start, and the removal of the one-shot timers
  that are due when \<open>remove_if\<close> reads the clock again, \<open>later k\<close> for the timer at position \<open>k\<close>.\<close>

definition reschedule :: "int \<Rightarrow> 'cb timer \<Rightarrow> 'cb timer" where
  "reschedule now t = (if tm_repeat t then t\<lparr>tm_deadline := now + tm_interval t\<rparr> else t)"

definition fire_one ::
    "('s \<Rightarrow> 'cb event_loop) \<Rightarrow> ('cb event_loop \<Rightarrow> 's \<Rightarrow> 's) \<Rightarrow> ('cb \<Rightarrow> ('s, unit) action) \<Rightarrow> int \<Rightarrow> nat \<Rightarrow> nat
      \<Rightarrow> ('s, unit) action" where
  "fire_one get put call now v i = reading (\<lambda>s.
     let t = el_timers (get s) ! i
     in if el_timer_version (get s) \<noteq> v then return_err dangling
        else if now \<ge> tm_deadline t then
          and_then (call (tm_callback t)) (\<lambda>_. reading (\<lambda>s.
            if el_timer_version (get s) \<noteq> v then return_err dangling
            else update (\<lambda>s. put ((get s)\<lparr>el_timers := (el_timers (get s))[i := reschedule now t]\<rparr>) s)))
        else return_ok ())"

definition remove_expired :: "(nat \<Rightarrow> int) \<Rightarrow> 'cb timer list \<Rightarrow> 'cb timer list" where
  "remove_expired later ts =
     map snd (filter (\<lambda>(k, t). \<not> (\<not> tm_repeat t \<and> later k \<ge> tm_deadline t)) (enumerate 0 ts))"

definition fire_timers ::
    "('s \<Rightarrow> 'cb event_loop) \<Rightarrow> ('cb event_loop \<Rightarrow> 's \<Rightarrow> 's) \<Rightarrow> ('cb \<Rightarrow> ('s, unit) action) \<Rightarrow> int \<Rightarrow> (nat \<Rightarrow> int)
      \<Rightarrow> ('s, unit) action" where
  "fire_timers get put call now later = reading (\<lambda>s.
     and_then (for_each (fire_one get put call now (el_timer_version (get s))) [0..<length (el_timers (get s))])
       (\<lambda>_. update (\<lambda>s. put ((get s)\<lparr>el_timers := remove_expired later (el_timers (get s)),
                              el_timer_version := Suc (el_timer_version (get s))\<rparr>) s)))"

section \<open>Code: dispatch\<close>

fun handler_position :: "int \<Rightarrow> 'cb fd_handler list \<Rightarrow> nat option" where
  "handler_position fd [] = None"
| "handler_position fd (h # hs) = (if fh_fd h = fd then Some 0 else map_option Suc (handler_position fd hs))"

definition flags_of :: "epoll_event \<Rightarrow> io_event list" where
  "flags_of ev = (if ee_in ev then [Readable] else []) @ (if ee_out ev then [Writable] else [])
     @ (if ee_err ev then [IoError] else [])"

definition call_handler ::
    "('s \<Rightarrow> 'cb event_loop) \<Rightarrow> ('cb \<Rightarrow> io_event \<Rightarrow> ('s, unit) action) \<Rightarrow> nat \<Rightarrow> nat \<Rightarrow> io_event
      \<Rightarrow> ('s, unit) action" where
  "call_handler get call v i event = reading (\<lambda>s.
     if el_version (get s) \<noteq> v then return_err dangling
     else call (fh_callback (el_fd_handlers (get s) ! i)) event)"

definition dispatch_event_to ::
    "('s \<Rightarrow> 'cb event_loop) \<Rightarrow> ('cb \<Rightarrow> io_event \<Rightarrow> ('s, unit) action) \<Rightarrow> epoll_event \<Rightarrow> ('s, unit) action" where
  "dispatch_event_to get call ev = reading (\<lambda>s.
     case handler_position (ee_fd ev) (el_fd_handlers (get s)) of
       None \<Rightarrow> return_ok ()
     | Some i \<Rightarrow> and_then (for_each (call_handler get call (el_version (get s)) i) (flags_of ev)) (\<lambda>_. return_ok ()))"

definition poll_with_timeout ::
    "('s \<Rightarrow> 'cb event_loop) \<Rightarrow> ('cb event_loop \<Rightarrow> 's \<Rightarrow> 's) \<Rightarrow> ('cb \<Rightarrow> io_event \<Rightarrow> ('s, unit) action)
      \<Rightarrow> ('cb \<Rightarrow> ('s, unit) action) \<Rightarrow> epoll_event list \<Rightarrow> int \<Rightarrow> (nat \<Rightarrow> int) \<Rightarrow> ('s, unit) action" where
  "poll_with_timeout get put call tick events now later =
     and_then (for_each (dispatch_event_to get call) (take 64 events))
       (\<lambda>_. fire_timers get put tick now later)"

text \<open>\<open>run\<close>, over the rounds the kernel lets it make.\<close>

record poll_round =
  pr_events :: "epoll_event list"
  pr_now :: int
  pr_later :: "nat \<Rightarrow> int"

definition set_running :: "bool \<Rightarrow> 'cb event_loop \<Rightarrow> 'cb event_loop" where
  "set_running b l = l\<lparr>el_running := b\<rparr>"

primrec run_rounds ::
    "('s \<Rightarrow> 'cb event_loop) \<Rightarrow> ('cb event_loop \<Rightarrow> 's \<Rightarrow> 's) \<Rightarrow> ('cb \<Rightarrow> io_event \<Rightarrow> ('s, unit) action)
      \<Rightarrow> ('cb \<Rightarrow> ('s, unit) action) \<Rightarrow> poll_round list \<Rightarrow> ('s, unit) action" where
  "run_rounds get put call tick [] = return_ok ()"
| "run_rounds get put call tick (r # rs) = reading (\<lambda>s.
     if \<not> el_running (get s) then return_ok ()
     else and_then (poll_with_timeout get put call tick (pr_events r) (pr_now r) (pr_later r))
            (\<lambda>_. run_rounds get put call tick rs))"

definition run_event_loop ::
    "('s \<Rightarrow> 'cb event_loop) \<Rightarrow> ('cb event_loop \<Rightarrow> 's \<Rightarrow> 's) \<Rightarrow> ('cb \<Rightarrow> io_event \<Rightarrow> ('s, unit) action)
      \<Rightarrow> ('cb \<Rightarrow> ('s, unit) action) \<Rightarrow> poll_round list \<Rightarrow> ('s, unit) action" where
  "run_event_loop get put call tick rounds =
     and_then (update (\<lambda>s. put (set_running True (get s)) s)) (\<lambda>_. run_rounds get put call tick rounds)"

section \<open>Registered descriptors\<close>

text \<open>Every handler's descriptor is registered once, and the kernel watches no other descriptor.\<close>

definition loop_inv :: "'cb event_loop \<Rightarrow> bool" where
  "loop_inv l \<longleftrightarrow> distinct (map fh_fd (el_fd_handlers l)) \<and> distinct (el_interest l)
     \<and> set (el_interest l) \<subseteq> fh_fd ` set (el_fd_handlers l)"

definition handled :: "'cb event_loop \<Rightarrow> int \<Rightarrow> 'cb option" where
  "handled l fd = map_option (\<lambda>i. fh_callback (el_fd_handlers l ! i)) (handler_position fd (el_fd_handlers l))"

lemma handled_eq: "handled l = map_of (map (\<lambda>h. (fh_fd h, fh_callback h)) (el_fd_handlers l))"
proof
  have "map_option (\<lambda>i. fh_callback (hs ! i)) (handler_position fd hs)
      = map_of (map (\<lambda>h. (fh_fd h, fh_callback h)) hs) fd" for hs :: "'a fd_handler list" and fd
    by (induction hs) (auto simp: option.map_comp comp_def)
  then show "handled l fd = map_of (map (\<lambda>h. (fh_fd h, fh_callback h)) (el_fd_handlers l)) fd" for fd
    by (simp add: handled_def)
qed

lemma handled_register:
  assumes "register_fd fd cb l = (Inr (), l')" and "handled l fd = None"
  shows "handled l' = (handled l)(fd \<mapsto> cb)"
  using assms by (auto simp: register_fd_def handled_eq map_add_def split: if_splits option.splits)

lemma handled_unregister: "handled (unregister_fd fd l) = (handled l)(fd := None)"
proof
  have "map_of (map (\<lambda>h. (fh_fd h, fh_callback h)) (filter (\<lambda>h. fh_fd h \<noteq> fd) hs)) x
      = ((map_of (map (\<lambda>h. (fh_fd h, fh_callback h)) hs))(fd := None)) x" for hs :: "'a fd_handler list" and x
    by (induction hs) auto
  then show "handled (unregister_fd fd l) x = ((handled l)(fd := None)) x" for x
    by (simp add: handled_eq unregister_fd_def)
qed

section \<open>Callbacks that leave the loop alone\<close>

text \<open>The loop beside an owner that the callbacks change.\<close>

definition put_loop :: "'cb event_loop \<Rightarrow> 'cb event_loop \<times> 'o \<Rightarrow> 'cb event_loop \<times> 'o" where
  "put_loop l s = (l, snd s)"

definition owner_call :: "('o \<Rightarrow> 'o) \<Rightarrow> ('cb event_loop \<times> 'o, unit) action" where
  "owner_call f = update (apsnd f)"

definition fire :: "int \<Rightarrow> 'cb timer \<Rightarrow> 'cb timer" where
  "fire now t = (if now \<ge> tm_deadline t then reschedule now t else t)"

definition due :: "int \<Rightarrow> 'cb timer list \<Rightarrow> 'cb list" where
  "due now ts = map tm_callback (filter (\<lambda>t. now \<ge> tm_deadline t) ts)"

lemma fire_one_owner:
  assumes "el_timers l = pre @ t # post" and "i = length pre"
  shows "fire_one fst put_loop (\<lambda>cb. owner_call (f cb)) now (el_timer_version l) i (l, ow)
    = (Inr (), (l\<lparr>el_timers := pre @ fire now t # post\<rparr>, fold f (due now [t]) ow))"
  using assms by (simp add: fire_one_def owner_call_def put_loop_def fire_def due_def Let_def list_update_append)

lemma fire_loop_owner:
  "for_each (fire_one fst put_loop (\<lambda>cb. owner_call (f cb)) now (el_timer_version l)) [length pre..<length pre + length ts]
     (l\<lparr>el_timers := pre @ ts\<rparr>, ow)
   = (Inr (replicate (length ts) ()), (l\<lparr>el_timers := pre @ map (fire now) ts\<rparr>, fold f (due now ts) ow))"
proof (induction ts arbitrary: pre ow)
  case Nil
  then show ?case by (simp add: due_def)
next
  case (Cons t ts)
  let ?l = "l\<lparr>el_timers := pre @ t # ts\<rparr>"
  have one: "fire_one fst put_loop (\<lambda>cb. owner_call (f cb)) now (el_timer_version l) (length pre) (?l, ow)
      = (Inr (), (l\<lparr>el_timers := (pre @ [fire now t]) @ ts\<rparr>, fold f (due now [t]) ow))"
    using fire_one_owner [of ?l pre t ts "length pre" f now ow] by simp
  have upt: "[length pre..<length pre + length (t # ts)]
      = length pre # [length (pre @ [fire now t])..<length (pre @ [fire now t]) + length ts]"
    by (simp add: upt_conv_Cons del: upt_Suc)
  have "due now (t # ts) = due now [t] @ due now ts" by (simp add: due_def)
  with Cons.IH [of "pre @ [fire now t]" "fold f (due now [t]) ow"] one show ?case
    unfolding upt by (simp add: and_then_def del: upt_Suc)
qed

lemma fire_timers_owner:
  "fire_timers fst put_loop (\<lambda>cb. owner_call (f cb)) now later (l, ow)
   = (Inr (), (l\<lparr>el_timers := remove_expired later (map (fire now) (el_timers l)),
                  el_timer_version := Suc (el_timer_version l)\<rparr>, fold f (due now (el_timers l)) ow))"
proof -
  have "l\<lparr>el_timers := el_timers l\<rparr> = l" by simp
  with fire_loop_owner [of f now l "[]" "el_timers l" ow] show ?thesis
    by (simp add: fire_timers_def and_then_def put_loop_def)
qed

lemma remove_expired_all:
  assumes "\<And>k t. k < length ts \<Longrightarrow> t = ts ! k \<Longrightarrow> \<not> tm_repeat t \<Longrightarrow> later k \<ge> tm_deadline t \<longleftrightarrow> now \<ge> tm_deadline t"
  shows "remove_expired later ts = filter (\<lambda>t. tm_repeat t \<or> now < tm_deadline t) ts"
proof -
  have "map snd (filter (\<lambda>(k, t). \<not> (\<not> tm_repeat t \<and> later k \<ge> tm_deadline t)) (enumerate n ts))
      = filter (\<lambda>t. tm_repeat t \<or> now < tm_deadline t) ts"
    if "\<forall>k < length ts. \<not> tm_repeat (ts ! k) \<longrightarrow> (later (n + k) \<ge> tm_deadline (ts ! k)) = (now \<ge> tm_deadline (ts ! k))" for n ts
    using that
  proof (induction ts arbitrary: n)
    case (Cons t ts)
    from Cons.prems have "\<forall>k < length ts. \<not> tm_repeat (ts ! k) \<longrightarrow> (later (Suc n + k) \<ge> tm_deadline (ts ! k)) = (now \<ge> tm_deadline (ts ! k))"
      by (metis Suc_less_eq add_Suc_shift length_Cons nth_Cons_Suc)
    moreover have "\<not> tm_repeat t \<longrightarrow> (later n \<ge> tm_deadline t) = (now \<ge> tm_deadline t)"
      using Cons.prems by force
    ultimately show ?case using Cons.IH [of "Suc n"] by (auto simp: not_le)
  qed simp
  from this [of ts 0] assms show ?thesis by (simp add: remove_expired_def)
qed

text \<open>Dispatch to handlers that leave the loop alone: every reported flag of every descriptor with a
  handler, in order.\<close>

definition calls_of :: "'cb event_loop \<Rightarrow> epoll_event list \<Rightarrow> ('cb \<times> io_event) list" where
  "calls_of l events = concat (map (\<lambda>ev. case handled l (ee_fd ev) of None \<Rightarrow> []
     | Some cb \<Rightarrow> map (\<lambda>fl. (cb, fl)) (flags_of ev)) events)"

lemma call_flags_owner:
  assumes "cb = fh_callback (el_fd_handlers l ! i)"
  shows "for_each (call_handler fst (\<lambda>cb e. owner_call (g (cb, e))) (el_version l) i) fls (l, ow)
    = (Inr (replicate (length fls) ()), (l, fold g (map (\<lambda>fl. (cb, fl)) fls) ow))"
  using assms by (induction fls arbitrary: ow) (simp_all add: call_handler_def owner_call_def and_then_def)

lemma dispatch_owner:
  "dispatch_event_to fst (\<lambda>cb e. owner_call (g (cb, e))) ev (l, ow) = (Inr (), (l, fold g (calls_of l [ev]) ow))"
  by (auto simp: dispatch_event_to_def calls_of_def handled_def call_flags_owner [OF refl] and_then_def
      split: option.splits)

lemma dispatch_all_owner:
  "for_each (dispatch_event_to fst (\<lambda>cb e. owner_call (g (cb, e)))) evs (l, ow)
   = (Inr (replicate (length evs) ()), (l, fold g (calls_of l evs) ow))"
proof (induction evs arbitrary: ow)
  case (Cons ev evs)
  have "calls_of l (ev # evs) = calls_of l [ev] @ calls_of l evs" by (simp add: calls_of_def)
  with Cons show ?case by (simp add: and_then_def dispatch_owner)
qed (simp add: calls_of_def)

lemma poll_owner:
  "poll_with_timeout fst put_loop (\<lambda>cb e. owner_call (g (cb, e))) (\<lambda>cb. owner_call (f cb)) evs now later (l, ow)
   = (Inr (), (l\<lparr>el_timers := remove_expired later (map (fire now) (el_timers l)),
                  el_timer_version := Suc (el_timer_version l)\<rparr>,
        fold f (due now (el_timers l)) (fold g (calls_of l (take 64 evs)) ow)))"
  by (simp add: poll_with_timeout_def and_then_def dispatch_all_owner fire_timers_owner)

section \<open>Properties\<close>

text \<open>C28. One round of the loop under three conditions: the callbacks leave the loop alone, the clock does
  not go backwards and no one-shot timer falls due between its first reading and the later ones
  (\<open>timer_due_between_readings_is_lost\<close> shows what happens otherwise), and intervals are positive.  Then
  each handler is called for every event reported for its descriptor (the first 64 reports), in
  order, then each due timer once, in order of creation; due one-shot timers are gone, a due
  repeating timer is set to the reading of the clock plus its interval, as the code has it (where
  doc/runtime/event_loop.md has the old deadline plus the interval), and the others are untouched.\<close>

theorem poll_calls_what_is_due:
  assumes "\<forall>k. now \<le> later k"
    and "\<forall>k. \<forall>t \<in> set (el_timers l). tm_repeat t \<or> now \<ge> tm_deadline t \<or> later k < tm_deadline t"
    and "\<forall>t \<in> set (el_timers l). 0 < tm_interval t"
  shows "\<exists>l'. poll_with_timeout fst put_loop (\<lambda>cb e. owner_call (g (cb, e))) (\<lambda>cb. owner_call (f cb)) evs now later (l, ow)
      = (Inr (), (l', fold f (due now (el_timers l)) (fold g (calls_of l (take 64 evs)) ow)))
    \<and> el_timers l' = map (fire now) (filter (\<lambda>t. tm_repeat t \<or> now < tm_deadline t) (el_timers l))
    \<and> due now (el_timers l') = [] \<and> el_fd_handlers l' = el_fd_handlers l"
proof -
  let ?ts = "map (fire now) (el_timers l)"
  have fire: "tm_repeat (fire now t) = tm_repeat t" "\<not> tm_repeat t \<Longrightarrow> fire now t = t" for t :: "'a timer"
    by (simp_all add: fire_def reschedule_def)
  have rm: "remove_expired later ?ts = filter (\<lambda>t. tm_repeat t \<or> now < tm_deadline t) ?ts"
  proof (rule remove_expired_all)
    fix k t
    assume "k < length ?ts" "t = ?ts ! k" "\<not> tm_repeat t"
    then have "t \<in> set (el_timers l)" using fire by auto
    with assms(1,2) \<open>\<not> tm_repeat t\<close> show "(later k \<ge> tm_deadline t) = (now \<ge> tm_deadline t)"
      by (meson le_less_trans not_le order_trans)
  qed
  have "filter (\<lambda>t. tm_repeat t \<or> now < tm_deadline t) ?ts
      = map (fire now) (filter (\<lambda>t. tm_repeat t \<or> now < tm_deadline t) (el_timers l))"
    by (auto simp: filter_map comp_def fire intro!: arg_cong [of _ _ "map _"] filter_cong)
       (metis fire(2))+
  moreover have "due now (map (fire now) (filter (\<lambda>t. tm_repeat t \<or> now < tm_deadline t) (el_timers l))) = []"
    using assms(3) by (auto simp: due_def filter_empty_conv fire_def reschedule_def split: if_splits)
  ultimately show ?thesis by (simp add: poll_owner rm)
qed

theorem poll_calls_what_is_due_witness:
  "let t1 = \<lparr>tm_id = 1, tm_deadline = 5, tm_callback = ''once'', tm_repeat = False, tm_interval = 5\<rparr>;
       t2 = \<lparr>tm_id = 2, tm_deadline = 6, tm_callback = ''tick'', tm_repeat = True, tm_interval = 10\<rparr>;
       l = new_event_loop\<lparr>el_fd_handlers := [\<lparr>fh_fd = 3, fh_callback = ''socket''\<rparr>], el_timers := [t1, t2]\<rparr>;
       ev = \<lparr>ee_fd = 3, ee_in = True, ee_out = True, ee_err = False\<rparr>
   in \<exists>l'. poll_with_timeout fst put_loop (\<lambda>cb e. owner_call (\<lambda>log. log @ [(cb, Some e)]))
             (\<lambda>cb. owner_call (\<lambda>log. log @ [(cb, None)])) [ev] 7 (\<lambda>_. 7) (l, [])
        = (Inr (), (l', [(''socket'', Some Readable), (''socket'', Some Writable), (''once'', None), (''tick'', None)]))
      \<and> el_timers l' = [t2\<lparr>tm_deadline := 17\<rparr>]"
proof -
  let ?t1 = "\<lparr>tm_id = 1, tm_deadline = 5, tm_callback = ''once'', tm_repeat = False, tm_interval = 5\<rparr>"
  let ?t2 = "\<lparr>tm_id = 2, tm_deadline = 6, tm_callback = ''tick'', tm_repeat = True, tm_interval = 10\<rparr>"
  let ?l = "new_event_loop\<lparr>el_fd_handlers := [\<lparr>fh_fd = 3, fh_callback = ''socket''\<rparr>], el_timers := [?t1, ?t2]\<rparr>"
  let ?ev = "\<lparr>ee_fd = 3, ee_in = True, ee_out = True, ee_err = False\<rparr>"
  have "\<forall>k. (7::int) \<le> (\<lambda>_::nat. 7) k" by simp
  moreover have "\<forall>k. \<forall>t \<in> set (el_timers ?l). tm_repeat t \<or> 7 \<ge> tm_deadline t \<or> (\<lambda>_::nat. 7) k < tm_deadline t" by simp
  moreover have "\<forall>t \<in> set (el_timers ?l). 0 < tm_interval t" by simp
  ultimately have "\<exists>l'. poll_with_timeout fst put_loop (\<lambda>cb e. owner_call ((\<lambda>(cb, e) log. log @ [(cb, Some e)]) (cb, e)))
      (\<lambda>cb. owner_call ((\<lambda>cb log. log @ [(cb, None)]) cb)) [?ev] 7 (\<lambda>_. 7) (?l, [])
      = (Inr (), (l', fold (\<lambda>cb log. log @ [(cb, None)]) (due 7 (el_timers ?l))
          (fold (\<lambda>(cb, e) log. log @ [(cb, Some e)]) (calls_of ?l (take 64 [?ev])) [])))
    \<and> el_timers l' = map (fire 7) (filter (\<lambda>t. tm_repeat t \<or> 7 < tm_deadline t) (el_timers ?l))
    \<and> due 7 (el_timers l') = [] \<and> el_fd_handlers l' = el_fd_handlers ?l"
    by (rule poll_calls_what_is_due)
  then show ?thesis
    by (auto simp: Let_def due_def calls_of_def handled_def flags_of_def fire_def reschedule_def)
qed

text \<open>C36. A one-shot timer that falls due after the loop read the clock and before the removal reads
  it again is taken off the list, and its callback is never called.\<close>

theorem timer_due_between_readings_is_lost:
  assumes "el_timers l = [t]" and "\<not> tm_repeat t" and "now < tm_deadline t" and "tm_deadline t \<le> later 0"
  shows "\<exists>l'. poll_with_timeout fst put_loop (\<lambda>cb e. owner_call (g (cb, e))) (\<lambda>cb. owner_call (f cb)) [] now later (l, ow)
    = (Inr (), (l', ow)) \<and> el_timers l' = []"
  using assms by (simp add: poll_owner due_def calls_of_def remove_expired_def fire_def)

theorem timer_due_between_readings_is_lost_witness:
  "\<exists>l'. poll_with_timeout fst put_loop (\<lambda>cb e. owner_call (\<lambda>log. log @ [cb])) (\<lambda>cb. owner_call (\<lambda>log. log @ [cb])) []
      10 (\<lambda>_. 12) (snd (add_timer 0 ''callback'' False 11 new_event_loop), []) = (Inr (), (l', [])) \<and> el_timers l' = []"
  using timer_due_between_readings_is_lost [where now = 10 and later = "\<lambda>_. 12" and ow = "[]"
      and l = "snd (add_timer 0 ''callback'' False 11 new_event_loop)"
      and t = "\<lparr>tm_id = 1, tm_deadline = 11, tm_callback = ''callback'', tm_repeat = False, tm_interval = 0\<rparr>"
      and f = "\<lambda>cb log. log @ [cb]" and g = "\<lambda>(cb, e) log. log @ [cb]"]
  by (simp add: add_timer_def new_event_loop_def Let_def)

end
