(* ===== verification/TcpTransport.thy ===== *)
theory TcpTransport
  imports PeerTypes "HOL-Library.Multiset"
begin

text \<open>
  Listening and dialling over TCP (src/src/transport/tcp_transport.hpp, tcp_transport.cpp).

  The kernel is a script of the results of the coming system calls: \<open>tk_results\<close> for socket,
  setsockopt, fcntl, bind, listen and connect in the order they are made, \<open>tk_accepts\<close> for accept,
  \<open>tk_so_errors\<close> for getsockopt(SO_ERROR) (no error, or one), \<open>tk_names\<close> for getsockname.
  \<open>tk_opened\<close>, \<open>tk_closed\<close> and \<open>tk_handed\<close> are the model's log of the descriptors obtained from the
  kernel, closed, and passed to a callback.  Addresses are IPv4: four bytes and a port, in
  host order.

  The callbacks work on the transport's owner, a state of type \<open>'s\<close> beside the transport; an
  exception they throw is the \<open>Inl\<close> of an action.
\<close>

section \<open>Code: addresses\<close>

record sockaddr_in =
  sa_addr :: bytes
  sa_port :: u16

text \<open>\<open>inet_pton\<close>: four decimal numbers up to 255 without leading zeros.  \<open>octets\<close> are the numbers
  read, \<open>cur\<close> the one being read.\<close>

fun inet_pton_loop :: "nat list \<Rightarrow> nat option \<Rightarrow> string \<Rightarrow> bytes option" where
  "inet_pton_loop octets cur [] =
     (case cur of None \<Rightarrow> None
      | Some n \<Rightarrow> if length octets = 3 then Some (map of_nat (octets @ [n])) else None)"
| "inet_pton_loop octets cur (c # cs) =
     (if is_digit c then
        let d = nat (digit_value c)
        in (case cur of
              None \<Rightarrow> if length octets < 4 then inet_pton_loop octets (Some d) cs else None
            | Some n \<Rightarrow> if n = 0 \<or> n * 10 + d > 255 then None else inet_pton_loop octets (Some (n * 10 + d)) cs)
      else if c = CHR ''.'' then
        (case cur of None \<Rightarrow> None
         | Some n \<Rightarrow> if length octets = 3 then None else inet_pton_loop (octets @ [n]) None cs)
      else None)"

definition inet_pton :: "string \<Rightarrow> bytes option" where
  "inet_pton s = inet_pton_loop [] None (c_string s)"

fun inet_ntop :: "bytes \<Rightarrow> string" where
  "inet_ntop [] = []"
| "inet_ntop [b] = decimal_digits (unat b)"
| "inet_ntop (b # bs) = decimal_digits (unat b) @ CHR ''.'' # inet_ntop bs"

definition to_sockaddr :: "multiaddr \<Rightarrow> sockaddr_in result" where
  "to_sockaddr addr =
     bind_result (parse_ip4_tcp addr) (\<lambda>endpoint.
       case inet_pton (ep_ip endpoint) of
         None \<Rightarrow> Inl ''invalid IPv4 address''
       | Some a \<Rightarrow> Inr \<lparr>sa_addr = a, sa_port = ep_port endpoint\<rparr>)"

text \<open>\<open>inet_ntop\<close> fails only for an unknown family or a buffer that is too small.\<close>

definition from_sockaddr :: "sockaddr_in \<Rightarrow> multiaddr result" where
  "from_sockaddr sa = Inr (from_ip4_tcp (inet_ntop (sa_addr sa)) (sa_port sa))"

section \<open>Code: the kernel\<close>

datatype errno = EAgain | EInProgress | Errno string

definition strerror :: "errno \<Rightarrow> string" where
  "strerror e = (case e of EAgain \<Rightarrow> ''Resource temporarily unavailable''
     | EInProgress \<Rightarrow> ''Operation now in progress'' | Errno s \<Rightarrow> s)"

datatype sys_result = SysOk nat | SysErr errno
datatype accept_result = AcceptOk nat sockaddr_in | AcceptErr errno

record tcp_kernel =
  tk_results :: "sys_result list"
  tk_accepts :: "accept_result list"
  tk_so_errors :: "errno option list"
  tk_names :: "(errno + sockaddr_in) list"
  tk_opened :: "int list"
  tk_closed :: "int list"
  tk_handed :: "int list"

definition new_kernel :: tcp_kernel where
  "new_kernel = \<lparr>tk_results = [], tk_accepts = [], tk_so_errors = [], tk_names = [],
     tk_opened = [], tk_closed = [], tk_handed = []\<rparr>"

text \<open>A call beyond the script fails.\<close>

definition sys_call :: "tcp_kernel \<Rightarrow> sys_result \<times> tcp_kernel" where
  "sys_call k = (case tk_results k of [] \<Rightarrow> (SysErr (Errno ''no result''), k)
     | r # rest \<Rightarrow> (r, k\<lparr>tk_results := rest\<rparr>))"

definition checked_call :: "string \<Rightarrow> (tcp_kernel, nat) action" where
  "checked_call what k = (case sys_call k of
     (SysOk n, k') \<Rightarrow> (Inr n, k')
   | (SysErr e, k') \<Rightarrow> (Inl (what @ strerror e), k'))"

definition open_socket :: "(tcp_kernel, int) action" where
  "open_socket = and_then (checked_call ''socket() failed: '') (\<lambda>fd.
     and_then (update (\<lambda>k. k\<lparr>tk_opened := tk_opened k @ [int fd]\<rparr>)) (\<lambda>_. return_ok (int fd)))"

definition close_fd :: "int \<Rightarrow> tcp_kernel \<Rightarrow> tcp_kernel" where
  "close_fd fd k = (if fd \<ge> 0 then k\<lparr>tk_closed := tk_closed k @ [fd]\<rparr> else k)"

definition set_socket_common_flags :: "int \<Rightarrow> (tcp_kernel, unit) action" where
  "set_socket_common_flags fd =
     and_then (checked_call ''setsockopt(SO_REUSEADDR) failed: '') (\<lambda>_. return_ok ())"

definition set_nonblocking :: "int \<Rightarrow> (tcp_kernel, unit) action" where
  "set_nonblocking fd =
     and_then (checked_call ''fcntl(F_GETFL) failed: '') (\<lambda>_.
     and_then (checked_call ''fcntl(F_SETFL) failed: '') (\<lambda>_. return_ok ()))"

definition set_flags :: "int \<Rightarrow> (tcp_kernel, unit) action" where
  "set_flags fd = and_then (set_socket_common_flags fd) (\<lambda>_. set_nonblocking fd)"

definition closing_on_error :: "int \<Rightarrow> (tcp_kernel, 'a) action \<Rightarrow> (tcp_kernel, 'a) action" where
  "closing_on_error fd m k = (case m k of (Inl e, k') \<Rightarrow> (Inl e, close_fd fd k') | (Inr x, k') \<Rightarrow> (Inr x, k'))"

definition create_listen_socket :: "sockaddr_in \<Rightarrow> (tcp_kernel, int) action" where
  "create_listen_socket addr =
     and_then open_socket (\<lambda>fd.
     closing_on_error fd (
       and_then (set_flags fd) (\<lambda>_.
       and_then (checked_call ''bind() failed: '') (\<lambda>_.
       and_then (checked_call ''listen() failed: '') (\<lambda>_. return_ok fd)))))"

definition create_connect_socket :: "(tcp_kernel, int) action" where
  "create_connect_socket =
     and_then open_socket (\<lambda>fd.
     closing_on_error fd (and_then (set_flags fd) (\<lambda>_. return_ok fd)))"

section \<open>Code: the transport\<close>

record tcp_socket =
  so_fd :: int
  so_remote_addr :: multiaddr

record 's transport_callbacks =
  on_accepted :: "(tcp_socket \<Rightarrow> ('s, unit) action) option"
  on_connected :: "(tcp_socket \<Rightarrow> ('s, unit) action) option"
  on_dial_failed :: "(multiaddr \<Rightarrow> string \<Rightarrow> 's \<Rightarrow> 's) option"

record 's tcp_listener =
  ls_fd :: int
  ls_addr :: multiaddr
  ls_callbacks :: "'s transport_callbacks"

record 's pending_dial =
  pd_fd :: int
  pd_addr :: multiaddr
  pd_callbacks :: "'s transport_callbacks"

record 's tcp_transport =
  tt_listeners :: "'s tcp_listener list"
  tt_pending_dials :: "'s pending_dial list"
  tt_kernel :: tcp_kernel

definition new_transport :: "tcp_kernel \<Rightarrow> 's tcp_transport" where
  "new_transport k = \<lparr>tt_listeners = [], tt_pending_dials = [], tt_kernel = k\<rparr>"

definition with_kernel :: "(tcp_kernel \<Rightarrow> tcp_kernel) \<Rightarrow> 's tcp_transport \<Rightarrow> 's tcp_transport" where
  "with_kernel f t = t\<lparr>tt_kernel := f (tt_kernel t)\<rparr>"

definition in_kernel :: "(tcp_kernel, 'a) action \<Rightarrow> ('s tcp_transport, 'a) action" where
  "in_kernel m t = (let (r, k) = m (tt_kernel t) in (r, t\<lparr>tt_kernel := k\<rparr>))"

text \<open>A callback for a connected socket: without one the descriptor is closed.\<close>

definition hand_over ::
    "(tcp_socket \<Rightarrow> ('s, unit) action) option \<Rightarrow> int \<Rightarrow> multiaddr \<Rightarrow> ('s tcp_transport \<times> 's, unit) action" where
  "hand_over cb fd addr = (\<lambda>(t, s). case cb of
     None \<Rightarrow> (Inr (), with_kernel (close_fd fd) t, s)
   | Some f \<Rightarrow> (let (r, s') = f \<lparr>so_fd = fd, so_remote_addr = addr\<rparr> s
               in (r, with_kernel (\<lambda>k. k\<lparr>tk_handed := tk_handed k @ [fd]\<rparr>) t, s')))"

definition listen ::
    "multiaddr \<Rightarrow> 's transport_callbacks \<Rightarrow> ('s tcp_transport, unit) action" where
  "listen addr callbacks =
     and_then (return_result (to_sockaddr addr)) (\<lambda>socket_addr.
     and_then (in_kernel (create_listen_socket socket_addr)) (\<lambda>fd.
     update (\<lambda>t. t\<lparr>tt_listeners := tt_listeners t @
       [\<lparr>ls_fd = fd, ls_addr = addr, ls_callbacks = callbacks\<rparr>]\<rparr>)))"

text \<open>The result of \<open>dial\<close> is the inner one; the outer \<open>Inl\<close> is an exception of a callback.\<close>

definition connect_socket ::
    "multiaddr \<Rightarrow> 's transport_callbacks \<Rightarrow> int \<Rightarrow> ('s tcp_transport \<times> 's, unit) action" where
  "connect_socket addr callbacks fd = (\<lambda>(t, s).
     case sys_call (tt_kernel t) of
       (SysOk _, k) \<Rightarrow> hand_over (on_connected callbacks) fd addr (t\<lparr>tt_kernel := k\<rparr>, s)
     | (SysErr e, k) \<Rightarrow>
         if e \<noteq> EInProgress then
           (Inr (), t\<lparr>tt_kernel := close_fd fd k\<rparr>,
            (case on_dial_failed callbacks of None \<Rightarrow> s | Some f \<Rightarrow> f addr (strerror e) s))
         else
           (Inr (), t\<lparr>tt_kernel := k, tt_pending_dials := tt_pending_dials t @
              [\<lparr>pd_fd = fd, pd_addr = addr, pd_callbacks = callbacks\<rparr>]\<rparr>, s))"

definition dial ::
    "multiaddr \<Rightarrow> 's transport_callbacks \<Rightarrow> ('s tcp_transport \<times> 's, unit result) action" where
  "dial addr callbacks = (\<lambda>(t, s).
     case to_sockaddr addr of
       Inl e \<Rightarrow> (Inr (Inl e), t, s)
     | Inr _ \<Rightarrow>
         (case in_kernel create_connect_socket t of
            (Inl e, t1) \<Rightarrow> (Inr (Inl e), t1, s)
          | (Inr fd, t1) \<Rightarrow>
              and_then (connect_socket addr callbacks fd) (\<lambda>_. return_ok (Inr ())) (t1, s)))"

fun accept_loop :: "accept_result list \<Rightarrow> 's transport_callbacks \<Rightarrow> ('s tcp_transport \<times> 's, unit) action" where
  "accept_loop [] callbacks (t, s) = (Inr (), with_kernel (\<lambda>k. k\<lparr>tk_accepts := []\<rparr>) t, s)"
| "accept_loop (AcceptErr e # rest) callbacks (t, s) =
     (Inr (), with_kernel (\<lambda>k. k\<lparr>tk_accepts := rest\<rparr>) t, s)"
| "accept_loop (AcceptOk n addr # rest) callbacks (t, s) =
     (let fd = int n;
          t1 = with_kernel (\<lambda>k. k\<lparr>tk_opened := tk_opened k @ [fd]\<rparr>) t
      in case in_kernel (closing_on_error fd (and_then (set_flags fd) (\<lambda>_. return_result (from_sockaddr addr)))) t1 of
           (Inl _, t2) \<Rightarrow> accept_loop rest callbacks (t2, s)
         | (Inr remote, t2) \<Rightarrow>
             (case hand_over (on_accepted callbacks) fd remote (t2, s) of
                (Inl e, t3, s3) \<Rightarrow> (Inl e, with_kernel (\<lambda>k. k\<lparr>tk_accepts := rest\<rparr>) t3, s3)
              | (Inr _, t3, s3) \<Rightarrow> accept_loop rest callbacks (t3, s3)))"

definition on_accept_ready :: "int \<Rightarrow> ('s tcp_transport \<times> 's, unit) action" where
  "on_accept_ready listen_fd = reading (\<lambda>(t, s).
     case find (\<lambda>listener. ls_fd listener = listen_fd) (tt_listeners t) of
       None \<Rightarrow> return_ok ()
     | Some listener \<Rightarrow> accept_loop (tk_accepts (tt_kernel t)) (ls_callbacks listener))"

definition pop_so_error :: "tcp_kernel \<Rightarrow> errno option \<times> tcp_kernel" where
  "pop_so_error k = (case tk_so_errors k of [] \<Rightarrow> (None, k) | e # rest \<Rightarrow> (e, k\<lparr>tk_so_errors := rest\<rparr>))"

fun remove_first :: "('a \<Rightarrow> bool) \<Rightarrow> 'a list \<Rightarrow> 'a list" where
  "remove_first P [] = []"
| "remove_first P (x # xs) = (if P x then xs else x # remove_first P xs)"

definition on_connect_ready :: "int \<Rightarrow> ('s tcp_transport \<times> 's, unit) action" where
  "on_connect_ready socket_fd = (\<lambda>(t, s).
     case find (\<lambda>d. pd_fd d = socket_fd) (tt_pending_dials t) of
       None \<Rightarrow> (Inr (), t, s)
     | Some d \<Rightarrow>
         (let (so_error, k) = pop_so_error (tt_kernel t);
              t1 = t\<lparr>tt_kernel := k,
                     tt_pending_dials := remove_first (\<lambda>d. pd_fd d = socket_fd) (tt_pending_dials t)\<rparr>
          in case so_error of
               Some e \<Rightarrow>
                 (Inr (), with_kernel (close_fd (pd_fd d)) t1,
                  (case on_dial_failed (pd_callbacks d) of None \<Rightarrow> s | Some f \<Rightarrow> f (pd_addr d) (strerror e) s))
             | None \<Rightarrow> hand_over (on_connected (pd_callbacks d)) (pd_fd d) (pd_addr d) (t1, s)))"

definition listener_fds :: "'s tcp_transport \<Rightarrow> int list" where
  "listener_fds t = map ls_fd (tt_listeners t)"

definition dialing_fds :: "'s tcp_transport \<Rightarrow> int list" where
  "dialing_fds t = map pd_fd (tt_pending_dials t)"

definition local_addr :: "int \<Rightarrow> 's tcp_transport \<Rightarrow> multiaddr result \<times> 's tcp_transport" where
  "local_addr fd t = (case tk_names (tt_kernel t) of
     [] \<Rightarrow> (Inl (''getsockname failed: '' @ strerror (Errno ''no result'')), t)
   | r # rest \<Rightarrow>
       ((case r of Inl e \<Rightarrow> Inl (''getsockname failed: '' @ strerror e) | Inr sa \<Rightarrow> from_sockaddr sa),
        with_kernel (\<lambda>k. k\<lparr>tk_names := rest\<rparr>) t))"

definition close_all :: "'s tcp_transport \<Rightarrow> 's tcp_transport" where
  "close_all t =
     (let t1 = (with_kernel (fold (\<lambda>l. close_fd (ls_fd l)) (tt_listeners t)) t)\<lparr>tt_listeners := []\<rparr>
      in (with_kernel (fold (\<lambda>d. close_fd (pd_fd d)) (tt_pending_dials t1)) t1)\<lparr>tt_pending_dials := []\<rparr>)"

section \<open>Descriptors\<close>

text \<open>\<open>holds k M\<close>: of the descriptors obtained, those neither closed nor handed over are \<open>M\<close>.\<close>

definition holds :: "tcp_kernel \<Rightarrow> int multiset \<Rightarrow> bool" where
  "holds k M \<longleftrightarrow> mset (tk_opened k) = mset (tk_closed k) + mset (tk_handed k) + M"

text \<open>An action that gains the descriptors \<open>g x\<close> when it returns \<open>x\<close> and none when it fails.\<close>

definition gains :: "('a \<Rightarrow> int multiset) \<Rightarrow> (tcp_kernel, 'a) action \<Rightarrow> bool" where
  "gains g m \<longleftrightarrow> (\<forall>k M. holds k M \<longrightarrow>
     (case m k of (Inl e, k') \<Rightarrow> holds k' M | (Inr x, k') \<Rightarrow> holds k' (g x + M)))"

lemma gainsD:
  assumes "gains g m" and "holds k M"
  shows "m k = (Inl e, k') \<Longrightarrow> holds k' M" and "m k = (Inr x, k') \<Longrightarrow> holds k' (g x + M)"
proof -
  have all: "case m k of (Inl e, k') \<Rightarrow> holds k' M | (Inr x, k') \<Rightarrow> holds k' (g x + M)"
    using assms(1) [unfolded gains_def, THEN spec, THEN spec, THEN mp, OF assms(2)] .
  show "holds k' M" if "m k = (Inl e, k')" using all that by simp
  show "holds k' (g x + M)" if "m k = (Inr x, k')" using all that by simp
qed

named_theorems gaining \<open>which descriptors an action gains\<close>

abbreviation no_gain :: "(tcp_kernel, 'a) action \<Rightarrow> bool" where
  "no_gain \<equiv> gains (\<lambda>_. {#})"

lemma no_gain_return [gaining]: "no_gain (return_ok x)" "no_gain (return_err e)" "no_gain (return_result r)"
  by (auto simp: gains_def split: sum.splits)

lemma no_gain_and_then [gaining]: "no_gain m \<Longrightarrow> (\<And>x. no_gain (f x)) \<Longrightarrow> no_gain (and_then m f)"
proof -
  assume m: "no_gain m" and f: "\<And>x. no_gain (f x)"
  have "case and_then m f k of (Inl e, k') \<Rightarrow> holds k' M | (Inr x, k') \<Rightarrow> holds k' ({#} + M)"
    if k: "holds k M" for k M
  proof (cases "m k")
    case (Pair r k1)
    with gainsD [OF m k] have k1: "holds k1 M" by (cases r) auto
    show ?thesis
    proof (cases r)
      case (Inr x)
      obtain r2 k2 where "f x k1 = (r2, k2)" by fastforce
      with gainsD [OF f k1] Inr Pair show ?thesis by (cases r2) (auto simp: and_then_def)
    qed (use Pair k1 in \<open>simp add: and_then_def\<close>)
  qed
  then show ?thesis by (simp add: gains_def)
qed

lemma no_gain_call [gaining]: "no_gain (checked_call what)"
  by (auto simp: gains_def checked_call_def sys_call_def holds_def split: list.splits sys_result.splits)

lemma no_gain_flags [gaining]: "no_gain (set_flags fd)"
  unfolding set_flags_def set_socket_common_flags_def set_nonblocking_def by (intro gaining)

lemma holds_close [simp]: "0 \<le> fd \<Longrightarrow> holds (close_fd fd k) M \<longleftrightarrow> holds k (add_mset fd M)"
  by (simp add: holds_def close_fd_def)

lemma holds_hand [simp]: "holds (k\<lparr>tk_handed := tk_handed k @ [fd]\<rparr>) M \<longleftrightarrow> holds k (add_mset fd M)"
  by (simp add: holds_def)

lemma holds_open: "holds (k\<lparr>tk_opened := tk_opened k @ [fd]\<rparr>) (add_mset fd M) \<longleftrightarrow> holds k M"
  by (simp add: holds_def)

lemma holds_scripts [simp]:
  "holds (k\<lparr>tk_accepts := xs\<rparr>) M = holds k M" "holds (k\<lparr>tk_so_errors := es\<rparr>) M = holds k M"
  "holds (k\<lparr>tk_results := rs\<rparr>) M = holds k M" "holds (k\<lparr>tk_names := ns\<rparr>) M = holds k M"
  by (simp_all add: holds_def)

text \<open>Opening a socket and setting it up: the descriptor is gained, or closed on a failure.\<close>

lemma opened_socket:
  assumes "no_gain m" and "holds k M" and "0 \<le> fd"
  shows "case closing_on_error fd m (k\<lparr>tk_opened := tk_opened k @ [fd]\<rparr>) of
    (Inl e, k') \<Rightarrow> holds k' M | (Inr x, k') \<Rightarrow> holds k' (add_mset fd M)"
proof -
  have "holds (k\<lparr>tk_opened := tk_opened k @ [fd]\<rparr>) (add_mset fd M)" using assms(2) by (simp add: holds_open)
  from gainsD [OF assms(1) this] assms(3) show ?thesis
    by (auto simp: closing_on_error_def split: prod.splits sum.splits)
qed

lemma gains_open_then:
  assumes "\<And>fd. no_gain (m fd)" and "\<And>fd k fd' k'. m fd k = (Inr fd', k') \<Longrightarrow> fd' = fd"
  shows "gains (\<lambda>fd. {#fd#}) (and_then open_socket (\<lambda>fd. closing_on_error fd (m fd)))"
  unfolding gains_def
proof (intro allI impI)
  fix k M
  assume k: "holds k M"
  show "case and_then open_socket (\<lambda>fd. closing_on_error fd (m fd)) k of
      (Inl e, k') \<Rightarrow> holds k' M | (Inr x, k') \<Rightarrow> holds k' ({#x#} + M)"
  proof (cases "checked_call ''socket() failed: '' k")
    case (Pair r k1)
    with gainsD [OF no_gain_call k, of "''socket() failed: ''"] have k1: "holds k1 M" by (cases r) auto
    show ?thesis
    proof (cases r)
      case (Inr n)
      have "closing_on_error (int n) (m (int n)) k2 = (Inr fd', k') \<Longrightarrow> fd' = int n" for k2 fd' k'
        using assms(2) by (auto simp: closing_on_error_def split: prod.splits sum.splits)
      with opened_socket [OF assms(1) k1, of "int n" "int n"] Inr Pair show ?thesis
        by (auto simp: open_socket_def and_then_def split: prod.splits sum.splits)
    qed (use Pair k1 in \<open>simp add: open_socket_def and_then_def\<close>)
  qed
qed

lemma gains_create:
  "gains (\<lambda>fd. {#fd#}) (create_listen_socket addr)" "gains (\<lambda>fd. {#fd#}) create_connect_socket"
proof -
  let ?flags = "\<lambda>fd. and_then (set_flags fd) (\<lambda>_. and_then (checked_call ''bind() failed: '') (\<lambda>_.
    and_then (checked_call ''listen() failed: '') (\<lambda>_. return_ok fd)))"
  show "gains (\<lambda>fd. {#fd#}) (create_listen_socket addr)"
    unfolding create_listen_socket_def
  proof (rule gains_open_then)
    show "no_gain (?flags fd)" for fd by (intro gaining)
    show "?flags fd k = (Inr fd', k') \<Longrightarrow> fd' = fd" for fd fd' k k'
      by (auto simp: and_then_def split: prod.splits sum.splits)
  qed
  show "gains (\<lambda>fd. {#fd#}) create_connect_socket"
    unfolding create_connect_socket_def
  proof (rule gains_open_then)
    show "no_gain (and_then (set_flags fd) (\<lambda>_. return_ok fd))" for fd :: int by (intro gaining)
    show "and_then (set_flags fd) (\<lambda>_. return_ok fd) k = (Inr fd', k') \<Longrightarrow> fd' = fd" for fd fd' k k'
      by (auto simp: and_then_def split: prod.splits sum.splits)
  qed
qed

text \<open>The transport holds the descriptors of its listeners and of its pending dials.\<close>

definition transport_fds :: "'s tcp_transport \<Rightarrow> int multiset" where
  "transport_fds t = mset (listener_fds t) + mset (dialing_fds t)"

definition transport_inv :: "'s tcp_transport \<Rightarrow> bool" where
  "transport_inv t \<longleftrightarrow> holds (tt_kernel t) (transport_fds t) \<and> (\<forall>fd \<in># transport_fds t. 0 \<le> fd)"

lemma with_kernel_simps [simp]:
  "tt_kernel (with_kernel f t) = f (tt_kernel t)" "tt_listeners (with_kernel f t) = tt_listeners t"
  "tt_pending_dials (with_kernel f t) = tt_pending_dials t" "transport_fds (with_kernel f t) = transport_fds t"
  by (simp_all add: with_kernel_def transport_fds_def listener_fds_def dialing_fds_def)

lemma transport_fds_kernel [simp]: "transport_fds (t\<lparr>tt_kernel := k\<rparr>) = transport_fds t"
  by (simp add: transport_fds_def listener_fds_def dialing_fds_def)

text \<open>\<open>extra\<close>: descriptors an operation holds besides.\<close>

definition holding :: "int multiset \<Rightarrow> 's tcp_transport \<Rightarrow> bool" where
  "holding extra t \<longleftrightarrow> holds (tt_kernel t) (extra + transport_fds t) \<and> (\<forall>fd \<in># extra + transport_fds t. 0 \<le> fd)"

lemma transport_inv_holding: "transport_inv t = holding {#} t"
  by (simp add: transport_inv_def holding_def)

lemma hand_over_holding:
  assumes "holding {#fd#} t"
  shows "transport_inv (fst (snd (hand_over cb fd addr (t, s))))"
  using assms by (auto simp: hand_over_def holding_def transport_inv_def case_prod_beta Let_def split: option.splits)

lemma created_holding:
  assumes "gains (\<lambda>fd. {#fd#}) m" and "transport_inv t" and "\<And>k fd k'. m k = (Inr fd, k') \<Longrightarrow> 0 \<le> fd"
  shows "in_kernel m t = (Inl e, t') \<Longrightarrow> transport_inv t'" and "in_kernel m t = (Inr fd, t') \<Longrightarrow> holding {#fd#} t'"
  using gainsD [OF assms(1), of "tt_kernel t" "transport_fds t"] assms(2,3)
  by (auto simp: in_kernel_def transport_inv_def holding_def Let_def split: prod.splits)

lemma created_nonneg:
  "create_listen_socket addr k = (Inr fd, k') \<Longrightarrow> 0 \<le> fd" "create_connect_socket k = (Inr fd, k') \<Longrightarrow> 0 \<le> fd"
  by (auto simp: create_listen_socket_def create_connect_socket_def and_then_def open_socket_def
      closing_on_error_def split: prod.splits sum.splits)

lemma listen_inv: "transport_inv t \<Longrightarrow> transport_inv (snd (listen addr cbs t))"
  using created_holding [OF gains_create(1) _ created_nonneg(1), where t = t]
  by (auto simp: listen_def and_then_def holding_def transport_inv_def transport_fds_def listener_fds_def
      dialing_fds_def split: prod.splits sum.splits)

lemma connect_socket_inv:
  assumes "holding {#fd#} t"
  shows "transport_inv (fst (snd (connect_socket addr cbs fd (t, s))))"
proof -
  obtain r k where call: "sys_call (tt_kernel t) = (r, k)" by fastforce
  have k: "holds k M = holds (tt_kernel t) M" for M
    using call by (auto simp: sys_call_def split: list.splits)
  then have "holding {#fd#} (t\<lparr>tt_kernel := k\<rparr>)" using assms by (simp add: holding_def)
  from hand_over_holding [OF this] show ?thesis
    using assms k call
    by (auto simp: connect_socket_def holding_def transport_inv_def transport_fds_def listener_fds_def
        dialing_fds_def split: sys_result.splits)
qed

lemma dial_inv:
  assumes "transport_inv t"
  shows "transport_inv (fst (snd (dial addr cbs (t, s))))"
proof (cases "to_sockaddr addr")
  case (Inr sa)
  obtain r t1 where c: "in_kernel create_connect_socket t = (r, t1)" by fastforce
  note created = created_holding [OF gains_create(2) assms created_nonneg(2)]
  show ?thesis
  proof (cases r)
    case (Inl e)
    with c created(1) show ?thesis by (simp add: dial_def Inr)
  next
    case ok: (Inr fd)
    with c created(2) have "holding {#fd#} t1" by simp
    from connect_socket_inv [OF this, of addr cbs s] show ?thesis
      by (auto simp: dial_def Inr c ok and_then_def split: prod.splits sum.splits)
  qed
qed (simp add: dial_def assms)

lemma accepted_holding:
  assumes "transport_inv t" and "t1 = with_kernel (\<lambda>k. k\<lparr>tk_opened := tk_opened k @ [int n]\<rparr>) t"
    and "in_kernel (closing_on_error (int n) (and_then (set_flags (int n)) (\<lambda>_. return_result r0))) t1 = (r, t2)"
  shows "r = Inl e \<Longrightarrow> transport_inv t2" and "r = Inr x \<Longrightarrow> holding {#int n#} t2"
proof -
  let ?m = "closing_on_error (int n) (and_then (set_flags (int n)) (\<lambda>_. return_result r0))"
  obtain k' where m: "?m (tt_kernel t1) = (r, k')" and t2: "t2 = t1\<lparr>tt_kernel := k'\<rparr>"
    using assms(3) by (cases "?m (tt_kernel t1)") (simp add: in_kernel_def)
  have "no_gain (and_then (set_flags (int n)) (\<lambda>_. return_result r0))" by (intro gaining)
  from assms(1) have held: "holds (tt_kernel t) (transport_fds t)" and fds: "\<forall>fd \<in># transport_fds t. 0 \<le> fd"
    by (simp_all add: transport_inv_def)
  have k1: "tt_kernel t1 = (tt_kernel t)\<lparr>tk_opened := tk_opened (tt_kernel t) @ [int n]\<rparr>"
    and fds1: "transport_fds t1 = transport_fds t" by (simp_all add: assms(2))
  from opened_socket [OF \<open>no_gain _\<close> held, of "int n"] m
  have "case r of Inl e \<Rightarrow> holds k' (transport_fds t) | Inr x \<Rightarrow> holds k' (add_mset (int n) (transport_fds t))"
    by (simp add: k1)
  then show "r = Inl e \<Longrightarrow> transport_inv t2" "r = Inr x \<Longrightarrow> holding {#int n#} t2"
    using fds by (simp_all add: t2 fds1 transport_inv_def holding_def)
qed

lemma accept_loop_inv: "transport_inv t \<Longrightarrow> transport_inv (fst (snd (accept_loop rs cbs (t, s))))"
proof (induction rs arbitrary: t s)
  case Nil
  then show ?case by (simp add: transport_inv_def)
next
  case (Cons r rs)
  show ?case
  proof (cases r)
    case (AcceptErr e)
    with Cons.prems show ?thesis by (simp add: transport_inv_def)
  next
    case (AcceptOk n addr)
    let ?m = "closing_on_error (int n) (and_then (set_flags (int n)) (\<lambda>_. return_result (from_sockaddr addr)))"
    obtain q t2 where m: "in_kernel ?m (with_kernel (\<lambda>k. k\<lparr>tk_opened := tk_opened k @ [int n]\<rparr>) t) = (q, t2)"
      by fastforce
    note t2 = accepted_holding [OF Cons.prems refl m]
    show ?thesis
    proof (cases q)
      case (Inl e)
      from Cons.IH [OF t2(1) [OF Inl]] show ?thesis by (simp add: AcceptOk Let_def m Inl)
    next
      case (Inr remote)
      obtain q3 t3 s3 where h: "hand_over (on_accepted cbs) (int n) remote (t2, s) = (q3, t3, s3)"
        by (metis prod_cases3)
      with hand_over_holding [OF t2(2) [OF Inr], of "on_accepted cbs" remote s] have t3: "transport_inv t3" by simp
      show ?thesis
      proof (cases q3)
        case (Inl e)
        with t3 show ?thesis by (simp add: AcceptOk Let_def m Inr h transport_inv_def)
      next
        case (Inr u)
        with Cons.IH [OF t3] show ?thesis by (simp add: AcceptOk Let_def m \<open>q = Inr remote\<close> h)
      qed
    qed
  qed
qed

lemma on_accept_ready_inv: "transport_inv t \<Longrightarrow> transport_inv (fst (snd (on_accept_ready fd (t, s))))"
  using accept_loop_inv by (auto simp: on_accept_ready_def split: option.splits)

lemma mset_remove_first:
  "find P xs = Some x \<Longrightarrow> mset (map f xs) = add_mset (f x) (mset (map f (remove_first P xs)))"
  by (induction xs) (auto split: if_splits)

lemma on_connect_ready_inv:
  assumes "transport_inv t"
  shows "transport_inv (fst (snd (on_connect_ready fd (t, s))))"
proof (cases "find (\<lambda>d. pd_fd d = fd) (tt_pending_dials t)")
  case (Some d)
  obtain e k where pop: "pop_so_error (tt_kernel t) = (e, k)" by fastforce
  let ?t1 = "t\<lparr>tt_kernel := k, tt_pending_dials := remove_first (\<lambda>d. pd_fd d = fd) (tt_pending_dials t)\<rparr>"
  have fds: "transport_fds t = add_mset (pd_fd d) (transport_fds ?t1)"
    using mset_remove_first [OF Some, of pd_fd]
    by (simp add: transport_fds_def dialing_fds_def listener_fds_def)
  have "holds k M = holds (tt_kernel t) M" for M
    using pop by (auto simp: pop_so_error_def split: list.splits)
  with assms fds have t1: "holding {#pd_fd d#} ?t1" by (simp add: holding_def transport_inv_def)
  then have "transport_inv (with_kernel (close_fd (pd_fd d)) ?t1)" by (simp add: holding_def transport_inv_def)
  with hand_over_holding [OF t1] Some pop show ?thesis
    by (simp add: on_connect_ready_def Let_def split: option.splits)
qed (simp add: on_connect_ready_def assms)

lemma holds_close_all:
  "\<forall>fd \<in> set (map f xs). 0 \<le> fd \<Longrightarrow> holds (fold (\<lambda>x. close_fd (f x)) xs k) M = holds k (mset (map f xs) + M)"
  by (induction xs arbitrary: k M) simp_all

lemma close_all_inv: "transport_inv t \<Longrightarrow> transport_inv (close_all t) \<and> transport_fds (close_all t) = {#}"
  by (simp add: close_all_def Let_def transport_inv_def transport_fds_def listener_fds_def dialing_fds_def
      holds_close_all ball_Un)

lemma local_addr_inv: "transport_inv t \<Longrightarrow> transport_inv (snd (local_addr fd t))"
  by (auto simp: local_addr_def transport_inv_def split: list.splits)

section \<open>Histories of a transport\<close>

text \<open>Any sequence of operations, with any answers of the kernel and any callbacks.\<close>

inductive transport_reachable :: "'s tcp_transport \<Rightarrow> bool" where
  fresh: "transport_reachable (new_transport new_kernel)"
| kernel: "transport_reachable t \<Longrightarrow> transport_reachable (with_kernel (\<lambda>k. k\<lparr>tk_results := rs, tk_accepts := xs,
    tk_so_errors := es, tk_names := ns\<rparr>) t)"
| listening: "transport_reachable t \<Longrightarrow> transport_reachable (snd (listen addr cbs t))"
| dialling: "transport_reachable t \<Longrightarrow> transport_reachable (fst (snd (dial addr cbs (t, s))))"
| accepting: "transport_reachable t \<Longrightarrow> transport_reachable (fst (snd (on_accept_ready fd (t, s))))"
| connecting: "transport_reachable t \<Longrightarrow> transport_reachable (fst (snd (on_connect_ready fd (t, s))))"
| naming: "transport_reachable t \<Longrightarrow> transport_reachable (snd (local_addr fd t))"
| closing: "transport_reachable t \<Longrightarrow> transport_reachable (close_all t)"

lemma transport_reachable_inv: "transport_reachable t \<Longrightarrow> transport_inv t"
proof (induction rule: transport_reachable.induct)
  case fresh
  then show ?case
    by (simp add: transport_inv_def new_transport_def new_kernel_def holds_def transport_fds_def
        listener_fds_def dialing_fds_def)
next
  case (kernel t rs xs es ns)
  then show ?case by (simp add: transport_inv_def)
qed (simp_all add: listen_inv dial_inv on_accept_ready_inv on_connect_ready_inv local_addr_inv close_all_inv)

section \<open>Addresses\<close>

lemma pton_digit:
  assumes "d < 10"
  shows "is_digit (''0123456789'' ! d)" and "digit_value (''0123456789'' ! d) = int d"
proof -
  from assms have "d = 0 \<or> d = 1 \<or> d = 2 \<or> d = 3 \<or> d = 4 \<or> d = 5 \<or> d = 6 \<or> d = 7 \<or> d = 8 \<or> d = 9"
    by arith
  then show "is_digit (''0123456789'' ! d)" "digit_value (''0123456789'' ! d) = int d"
    by (auto simp: is_digit_def digit_value_def)
qed

lemma pton_number:
  assumes "n \<le> 255" and "length octets < 4"
  shows "inet_pton_loop octets None (decimal_digits n @ rest) = inet_pton_loop octets (Some n) rest"
  using assms(1)
proof (induction n arbitrary: rest rule: decimal_digits.induct)
  case (1 n)
  show ?case
  proof (cases "n < 10")
    case True
    then show ?thesis
      using assms(2) pton_digit [OF True] by (subst decimal_digits.simps) (simp add: Let_def)
  next
    case False
    have d: "n mod 10 < 10" and n: "n div 10 * 10 + n mod 10 = n" "n div 10 \<noteq> 0" using False by simp_all
    from 1 False have "inet_pton_loop octets None (decimal_digits (n div 10) @ [''0123456789'' ! (n mod 10)] @ rest)
        = inet_pton_loop octets (Some (n div 10)) ([''0123456789'' ! (n mod 10)] @ rest)"
      by simp
    also have "\<dots> = inet_pton_loop octets (Some n) rest"
      using pton_digit [OF d] n False "1.prems" by (simp add: Let_def)
    finally show ?thesis using False by (subst decimal_digits.simps) simp
  qed
qed

lemma inet_round_trip:
  assumes "length a = 4"
  shows "inet_pton (inet_ntop a) = Some a" and "inet_ntop a \<noteq> []" and "CHR ''/'' \<notin> set (inet_ntop a)"
proof -
  from assms obtain w x y z where a: "a = [w, x, y, z]"
    by (auto simp: length_Suc_conv numeral_eq_Suc)
  have le: "unat (b :: byte) \<le> 255" for b using unat_byte_less [of b] by simp
  have digits: "list_all is_digit (decimal_digits n)" "decimal_digits n \<noteq> []" for n
    using decimal_digits_value by blast+
  then have plain: "c \<in> set (decimal_digits n) \<Longrightarrow> c \<noteq> CHR 0x00 \<and> c \<noteq> CHR ''/''" for c n
    by (auto simp: list_all_iff dest: is_digit_plain)
  show "inet_ntop a \<noteq> []" using digits(2) by (simp add: a)
  show "CHR ''/'' \<notin> set (inet_ntop a)" using plain by (auto simp: a)
  have "c_string (inet_ntop a) = inet_ntop a"
    using plain by (auto simp: a c_string_def takeWhile_eq_all_conv)
  moreover have "\<not> is_digit (CHR ''.'')" by (simp add: is_digit_def)
  moreover have "inet_pton_loop [i, j, k] None (decimal_digits n) = inet_pton_loop [i, j, k] (Some n) []"
    if "n \<le> 255" for i j k n using pton_number [OF that, of "[i, j, k]" "[]"] by simp
  ultimately show "inet_pton (inet_ntop a) = Some a"
    by (simp add: inet_pton_def a pton_number le)
qed

lemma sockaddr_round_trip:
  assumes "length (sa_addr sa) = 4" and "from_sockaddr sa = Inr addr"
  shows "to_sockaddr addr = Inr sa"
  using assms inet_round_trip [OF assms(1)] parse_from_ip4_tcp [of "inet_ntop (sa_addr sa)" "sa_port sa"]
  by (auto simp: from_sockaddr_def to_sockaddr_def)

section \<open>Properties\<close>

text \<open>C25. Whatever the kernel answers and whatever is listened to, dialled, accepted and closed: every
  descriptor obtained from the kernel is, once for each time it was obtained, either closed, or
  handed to a callback, or held by a listener or a pending dial; \<open>close_all\<close> leaves none held, so
  none is leaked and none is closed twice.\<close>

theorem descriptors_accounted:
  assumes "transport_reachable t"
  shows "mset (tk_opened (tt_kernel t)) = mset (tk_closed (tt_kernel t)) + mset (tk_handed (tt_kernel t))
      + mset (listener_fds t) + mset (dialing_fds t)
    \<and> mset (tk_opened (tt_kernel (close_all t))) = mset (tk_closed (tt_kernel (close_all t)))
      + mset (tk_handed (tt_kernel (close_all t)))"
  using transport_reachable_inv [OF assms] close_all_inv [of t]
  by (simp add: transport_inv_def holds_def transport_fds_def add.assoc)

text \<open>A listener that accepts a connection, and a dial still pending.\<close>

definition toy_transport :: "unit tcp_transport" where
  "toy_transport =
     (let cbs = \<lparr>on_accepted = Some (\<lambda>_. return_ok ()), on_connected = None, on_dial_failed = None\<rparr>;
          kernel = (\<lambda>k. k\<lparr>tk_results := map SysOk [3, 0, 0, 0, 0, 0] @ [SysOk 4, SysOk 0, SysOk 0, SysOk 0, SysErr EInProgress]
                            @ map SysOk [0, 0, 0],
                         tk_accepts := [AcceptOk 5 \<lparr>sa_addr = [10, 0, 0, 7], sa_port = 9\<rparr>], tk_so_errors := [], tk_names := []\<rparr>);
          t1 = snd (listen (from_ip4_tcp ''127.0.0.1'' 4001) cbs (with_kernel kernel (new_transport new_kernel)));
          t2 = fst (snd (dial (from_ip4_tcp ''127.0.0.1'' 4002) cbs (t1, ())))
      in fst (snd (on_accept_ready 3 (t2, ()))))"

theorem descriptors_accounted_witness:
  "mset (tk_opened (tt_kernel toy_transport)) = mset (tk_closed (tt_kernel toy_transport))
    + mset (tk_handed (tt_kernel toy_transport)) + mset (listener_fds toy_transport) + mset (dialing_fds toy_transport)"
  unfolding toy_transport_def Let_def
  by (intro descriptors_accounted [THEN conjunct1] transport_reachable.intros)

end
