(* ===== verification/PeerStore.thy ===== *)
theory PeerStore
  imports PeerTypes
begin

text \<open>
  The known addresses and dial counts of peers (include/peercore/peer_store.hpp,
  src/src/peer_store.cpp), and the interface \<open>address_book\<close> through which the swarm picks the
  address it dials.
\<close>

section \<open>Code\<close>

record store_entry =
  se_peer :: peer_id
  se_addrs :: "multiaddr list"
  se_dial_successes :: u32
  se_dial_failures :: u32

type_synonym peer_store = "store_entry list"

text \<open>The pointer \<open>find_or_create\<close> returns is the position of the entry.\<close>

fun find_or_create :: "peer_id \<Rightarrow> peer_store \<Rightarrow> nat \<times> peer_store" where
  "find_or_create peer [] =
     (0, [\<lparr>se_peer = peer, se_addrs = [], se_dial_successes = 0, se_dial_failures = 0\<rparr>])"
| "find_or_create peer (e # es) =
     (if se_peer e = peer then (0, e # es)
      else let (i, es') = find_or_create peer es in (Suc i, e # es'))"

definition find_entry :: "peer_id \<Rightarrow> peer_store \<Rightarrow> store_entry option" where
  "find_entry peer s = find (\<lambda>e. se_peer e = peer) s"

definition on_entry :: "(store_entry \<Rightarrow> store_entry) \<Rightarrow> peer_id \<Rightarrow> peer_store \<Rightarrow> peer_store" where
  "on_entry f peer s = (let (i, s') = find_or_create peer s in s'[i := f (s' ! i)])"

definition add_addr :: "peer_id \<Rightarrow> multiaddr \<Rightarrow> peer_store \<Rightarrow> peer_store" where
  "add_addr peer addr = on_entry (\<lambda>e. e\<lparr>se_addrs := se_addrs e @ [addr]\<rparr>) peer"

definition get_addrs :: "peer_id \<Rightarrow> peer_store \<Rightarrow> multiaddr list" where
  "get_addrs peer s = (case find_entry peer s of None \<Rightarrow> [] | Some e \<Rightarrow> se_addrs e)"

definition record_dial_success :: "peer_id \<Rightarrow> peer_store \<Rightarrow> peer_store" where
  "record_dial_success = on_entry (\<lambda>e. e\<lparr>se_dial_successes := se_dial_successes e + 1\<rparr>)"

definition record_dial_failure :: "peer_id \<Rightarrow> peer_store \<Rightarrow> peer_store" where
  "record_dial_failure = on_entry (\<lambda>e. e\<lparr>se_dial_failures := se_dial_failures e + 1\<rparr>)"

section \<open>Entries\<close>

text \<open>The store as a function: what it knows of a peer, with an unknown peer as an empty entry.\<close>

definition known :: "peer_store \<Rightarrow> peer_id \<Rightarrow> store_entry" where
  "known s peer = (case find_entry peer s of Some e \<Rightarrow> e
     | None \<Rightarrow> \<lparr>se_peer = peer, se_addrs = [], se_dial_successes = 0, se_dial_failures = 0\<rparr>)"

definition store_inv :: "peer_store \<Rightarrow> bool" where
  "store_inv s \<longleftrightarrow> distinct (map se_peer s)"

lemma get_addrs_known: "get_addrs peer s = se_addrs (known s peer)"
  by (simp add: get_addrs_def known_def split: option.splits)

lemma on_entry_Nil: "on_entry f peer [] = [f (known [] peer)]"
  by (simp add: on_entry_def known_def find_entry_def)

lemma on_entry_Cons:
  "on_entry f peer (e # es) = (if se_peer e = peer then f e # es else e # on_entry f peer es)"
  by (simp add: on_entry_def Let_def case_prod_beta)

lemma known_Cons: "known (e # es) q = (if se_peer e = q then e else known es q)"
  by (simp add: known_def find_entry_def)

lemma se_peer_known: "se_peer (known s q) = q"
  by (induction s) (simp_all add: known_Cons, simp add: known_def find_entry_def)

lemma known_on_entry:
  assumes "\<And>e. se_peer (f e) = se_peer e"
  shows "known (on_entry f peer s) q = (if q = peer then f (known s peer) else known s q)"
proof (induction s)
  case Nil
  show ?case using assms se_peer_known [of "[]"] by (simp add: on_entry_Nil known_Cons)
next
  case (Cons e es)
  then show ?case using assms by (auto simp: on_entry_Cons known_Cons)
qed

lemma peers_on_entry:
  assumes "\<And>e. se_peer (f e) = se_peer e"
  shows "map se_peer (on_entry f peer s) = (if peer \<in> se_peer ` set s then map se_peer s else map se_peer s @ [peer])"
  using assms by (induction s) (auto simp: on_entry_Nil on_entry_Cons se_peer_known)

lemma store_inv_on_entry: "(\<And>e. se_peer (f e) = se_peer e) \<Longrightarrow> store_inv s \<Longrightarrow> store_inv (on_entry f peer s)"
  by (simp add: store_inv_def peers_on_entry)

lemmas store_ops = add_addr_def record_dial_success_def record_dial_failure_def

section \<open>The address book\<close>

text \<open>What the swarm relies on: addresses are kept in the order they were added, per peer, whatever
  else is recorded.\<close>

locale address_book =
  fixes add :: "peer_id \<Rightarrow> multiaddr \<Rightarrow> 's \<Rightarrow> 's"
    and note_success :: "peer_id \<Rightarrow> 's \<Rightarrow> 's"
    and addrs :: "peer_id \<Rightarrow> 's \<Rightarrow> multiaddr list"
  assumes addrs_add: "addrs q (add p a s) = (if q = p then addrs q s @ [a] else addrs q s)"
    and addrs_success: "addrs q (note_success p s) = addrs q s"
begin

text \<open>Once a peer has an address, the one that is dialled never changes.\<close>

lemma first_address_stays:
  assumes "addrs q s \<noteq> []"
  shows "hd (addrs q (add p a s)) = hd (addrs q s)" and "hd (addrs q (note_success p s)) = hd (addrs q s)"
  using assms by (auto simp: addrs_add addrs_success)

lemma addrs_fold: "addrs q (fold (\<lambda>(p, a). add p a) pas s) = addrs q s @ map snd (filter (\<lambda>(p, a). p = q) pas)"
  by (induction pas arbitrary: s) (auto simp: addrs_add)

end

interpretation book: address_book add_addr record_dial_success get_addrs
  by unfold_locales (simp_all add: get_addrs_known store_ops known_on_entry)

section \<open>Histories\<close>

datatype store_op = AddAddr peer_id multiaddr | DialSucceeded peer_id | DialFailure peer_id

fun run_store_op :: "store_op \<Rightarrow> peer_store \<Rightarrow> peer_store" where
  "run_store_op (AddAddr p a) s = add_addr p a s"
| "run_store_op (DialSucceeded p) s = record_dial_success p s"
| "run_store_op (DialFailure p) s = record_dial_failure p s"

definition added :: "peer_id \<Rightarrow> store_op list \<Rightarrow> multiaddr list" where
  "added q ops = concat (map (\<lambda>op. case op of AddAddr p a \<Rightarrow> if p = q then [a] else [] | _ \<Rightarrow> []) ops)"

lemma known_run_op:
  "known (run_store_op op s) q =
     (let e = known s q in
      e\<lparr>se_addrs := se_addrs e @ added q [op],
        se_dial_successes := se_dial_successes e + (if op = DialSucceeded q then 1 else 0),
        se_dial_failures := se_dial_failures e + (if op = DialFailure q then 1 else 0)\<rparr>)"
  by (cases op) (auto simp: store_ops known_on_entry added_def Let_def)

lemma added_Cons: "added q (op # ops) = added q [op] @ added q ops"
  by (simp add: added_def)

lemma known_run:
  "known (fold run_store_op ops s) q =
     (let e = known s q in
      e\<lparr>se_addrs := se_addrs e @ added q ops,
        se_dial_successes := se_dial_successes e + of_nat (count_list ops (DialSucceeded q)),
        se_dial_failures := se_dial_failures e + of_nat (count_list ops (DialFailure q))\<rparr>)"
proof (induction ops arbitrary: s)
  case Nil
  then show ?case by (simp add: added_def)
next
  case (Cons op ops)
  then show ?case by (auto simp: known_run_op Let_def added_Cons [of q op ops])
qed

lemma store_inv_run: "store_inv s \<Longrightarrow> store_inv (fold run_store_op ops s)"
proof (induction ops arbitrary: s)
  case (Cons op ops)
  then show ?case by (cases op) (simp_all add: store_ops store_inv_on_entry)
qed simp

section \<open>Properties\<close>

text \<open>C38. After any history of operations the store holds at most one entry per peer, and for every
  peer exactly the addresses added for it, in that order, and the numbers of its successful and
  failed dials modulo 2 to the power 32.\<close>

theorem peer_store_reflects_history:
  "let store = fold run_store_op ops []
   in distinct (map se_peer store) \<and> get_addrs q store = added q ops
    \<and> se_dial_successes (known store q) = of_nat (count_list ops (DialSucceeded q))
    \<and> se_dial_failures (known store q) = of_nat (count_list ops (DialFailure q))"
  using store_inv_run [of "[]" ops]
  by (simp add: Let_def store_inv_def get_addrs_known known_run known_def [of "[]"] find_entry_def)

end
