(* ===== verification/Swarm.thy ===== *)
theory Swarm
  imports StreamNegotiation EventLoop TcpTransport PeerStore "HOL-Library.AList"
begin

text \<open>
  The swarm (include/peercore/swarm.hpp, src/src/swarm.cpp), with the events and actions of
  include/peercore/events.hpp and the interfaces of its strategy and its protocols
  (include/peercore/controller.hpp, protocol_handler.hpp).

  A swarm is the transport beside its core: everything else, which is what the transport's
  callbacks work on.  The event loop's closures are the three labels of \<open>loop_callback\<close>.  A
  \<open>std::unordered_map\<close> that is iterated over is an association list, visited in the order
  \<open>en_order\<close> gives its keys; the others are maps.  \<open>sw_streams\<close> is the heap of the negotiating
  streams that shared pointers keep alive, \<open>sw_destroyed\<close> the parts of destroyed sessions that
  their streams keep alive; a Yamux stream of a destroyed session holds a dangling pointer.

  The controller and the protocol handlers are virtual classes: functions on a state of type \<open>'a\<close>
  that holds whatever they keep.  They are not given the swarm, and do not call back into it.  The
  \<open>Inl\<close> of an action is an exception; operations that return a \<open>Result\<close> return it inside.
\<close>

section \<open>Code: events, actions, interfaces\<close>

datatype swarm_event_type = SwListenerStarted | SwIncomingConnection | SwConnectionEstablished
  | SwConnectionClosed | SwDialFailed | SwStreamOpened | SwStreamAccepted | SwStreamClosed
  | SwProtocolNegotiated | SwProtocolError | SwPeerIdentified

record swarm_event =
  sv_type :: swarm_event_type
  sv_connection_id :: u64
  sv_stream_id :: "u32 option"
  sv_peer_id :: "peer_id option"
  sv_detail :: string

datatype action_type = ActDialAddr | ActDialPeer | ActCloseConnection | ActOpenStream | ActSendPing

record controller_action =
  ac_type :: action_type
  ac_addr :: "multiaddr option"
  ac_peer_id :: "peer_id option"
  ac_connection_id :: "u64 option"
  ac_protocol_id :: "string option"

record 'a controller =
  ct_on_swarm_event :: "swarm_event \<Rightarrow> 'a \<Rightarrow> 'a"
  ct_on_timer_tick :: "'a \<Rightarrow> 'a"
  ct_drain_actions :: "'a \<Rightarrow> controller_action list \<times> 'a"

record 'a protocol_handler =
  ph_protocol_id :: string
  ph_on_inbound_stream :: "nat \<Rightarrow> 'a \<Rightarrow> 'a"
  ph_on_outbound_stream_ready :: "nat \<Rightarrow> 'a \<Rightarrow> 'a"
  ph_on_tick :: "'a \<Rightarrow> 'a"

text \<open>\<open>DefaultController\<close>, whose state is its queue of actions.\<close>

definition default_controller :: "controller_action list controller" where
  "default_controller =
     \<lparr>ct_on_swarm_event = (\<lambda>_ pending. pending), ct_on_timer_tick = (\<lambda>pending. pending),
      ct_drain_actions = (\<lambda>pending. (pending, []))\<rparr>"

datatype loop_callback = AcceptReady int | ConnectReady int | ConnectionIo int

section \<open>Code: the swarm\<close>

record 'a swarm_core =
  sw_peer_store :: peer_store
  sw_local_identity :: "identity option"
  sw_local_stream_muxers :: "string list"
  sw_controller :: "'a controller"
  sw_app :: 'a
  sw_event_loop :: "loop_callback event_loop"
  sw_connections :: "(u64 \<times> connection) list"
  sw_conn_fds :: "(u64 \<times> int) list"
  sw_fd_to_conn :: "int \<rightharpoonup> u64"
  sw_peer_connections :: "string \<rightharpoonup> u64"
  sw_connection_peers :: "u64 \<rightharpoonup> string"
  sw_pending_streams :: "(u64 \<times> nat) list"
  sw_listener_fds :: "int list"
  sw_dialing_fds :: "int list"
  sw_handlers :: "'a protocol_handler list"
  sw_event_queue :: "swarm_event list"
  sw_next_conn_id :: u64
  sw_streams :: "(negotiating_stream \<times> stream_handle) list"
  sw_destroyed :: "(u64 \<times> connection) list"

type_synonym 'a swarm = "'a swarm_core tcp_transport \<times> 'a swarm_core"

text \<open>What the environment decides: the primitives, the random draws of a new connection and the results
  of its first \<open>send\<close> calls, the order in which hash tables are visited.\<close>

record swarm_env =
  en_crypto :: crypto
  en_draws :: "u64 \<Rightarrow> draws"
  en_sends :: "u64 \<Rightarrow> send_result list"
  en_order :: "u64 list \<Rightarrow> u64 list"
  en_fd_order :: "int list \<Rightarrow> int list"

definition new_swarm_core ::
    "peer_store \<Rightarrow> identity option \<Rightarrow> string list \<Rightarrow> 'a controller \<Rightarrow> 'a \<Rightarrow> 'a swarm_core" where
  "new_swarm_core peer_store local_identity local_stream_muxers ctrl app =
     \<lparr>sw_peer_store = peer_store, sw_local_identity = local_identity,
      sw_local_stream_muxers = local_stream_muxers, sw_controller = ctrl, sw_app = app,
      sw_event_loop = new_event_loop, sw_connections = [], sw_conn_fds = [], sw_fd_to_conn = Map.empty,
      sw_peer_connections = Map.empty, sw_connection_peers = Map.empty, sw_pending_streams = [],
      sw_listener_fds = [], sw_dialing_fds = [], sw_handlers = [], sw_event_queue = [],
      sw_next_conn_id = 1, sw_streams = [], sw_destroyed = []\<rparr>"

definition dispatch_event :: "swarm_event \<Rightarrow> 'a swarm_core \<Rightarrow> 'a swarm_core" where
  "dispatch_event event s =
     s\<lparr>sw_app := ct_on_swarm_event (sw_controller s) event (sw_app s),
       sw_event_queue := sw_event_queue s @ [event]\<rparr>"

definition make_event :: "swarm_event_type \<Rightarrow> u64 \<Rightarrow> u32 option \<Rightarrow> peer_id option \<Rightarrow> string \<Rightarrow> swarm_event" where
  "make_event ty conn_id sid peer detail =
     \<lparr>sv_type = ty, sv_connection_id = conn_id, sv_stream_id = sid, sv_peer_id = peer, sv_detail = detail\<rparr>"

definition supported_protocols :: "'a swarm_core \<Rightarrow> string list" where
  "supported_protocols s = map ph_protocol_id (sw_handlers s)"

definition find_handler :: "string \<Rightarrow> 'a swarm_core \<Rightarrow> 'a protocol_handler option" where
  "find_handler proto s = find (\<lambda>h. ph_protocol_id h = proto) (sw_handlers s)"

definition stream_key :: "u64 \<Rightarrow> u32 \<Rightarrow> u64" where
  "stream_key conn_id sid = push_bit 32 conn_id OR ucast sid"

definition register_handler :: "'a protocol_handler \<Rightarrow> 'a swarm_core \<Rightarrow> 'a swarm_core" where
  "register_handler h s = s\<lparr>sw_handlers := sw_handlers s @ [h]\<rparr>"

definition set_controller :: "'a controller \<Rightarrow> 'a swarm_core \<Rightarrow> 'a swarm_core" where
  "set_controller ctrl s = s\<lparr>sw_controller := ctrl\<rparr>"

definition swarm_next_event :: "'a swarm_core \<Rightarrow> swarm_event option \<times> 'a swarm_core" where
  "swarm_next_event s = (case sw_event_queue s of [] \<Rightarrow> (None, s)
     | ev # rest \<Rightarrow> (Some ev, s\<lparr>sw_event_queue := rest\<rparr>))"

section \<open>Code: sessions\<close>

definition on_loop :: "(loop_callback event_loop \<Rightarrow> loop_callback event_loop) \<Rightarrow> 'a swarm_core \<Rightarrow> 'a swarm_core" where
  "on_loop f s = s\<lparr>sw_event_loop := f (sw_event_loop s)\<rparr>"

definition in_loop :: "(loop_callback event_loop, 'b) action \<Rightarrow> ('a swarm_core, 'b) action" where
  "in_loop = zoom sw_event_loop (\<lambda>l s. s\<lparr>sw_event_loop := l\<rparr>)"

text \<open>A session that closes its socket takes the descriptor off the kernel's interest list.\<close>

definition note_closed :: "connection \<Rightarrow> connection \<Rightarrow> 'a swarm_core \<Rightarrow> 'a swarm_core" where
  "note_closed c c' s =
     (if io_socket_open (cn_io c) \<and> \<not> io_socket_open (cn_io c')
      then on_loop (descriptor_closed (io_fd (cn_io c))) s else s)"

definition put_session :: "u64 \<Rightarrow> connection \<Rightarrow> 'a swarm_core \<Rightarrow> 'a swarm_core" where
  "put_session conn_id c s = s\<lparr>sw_connections := AList.update conn_id c (sw_connections s)\<rparr>"

definition with_session :: "u64 \<Rightarrow> (connection \<Rightarrow> 'b \<times> connection) \<Rightarrow> 'a swarm_core \<Rightarrow> 'b option \<times> 'a swarm_core" where
  "with_session conn_id m s = (case map_of (sw_connections s) conn_id of
     None \<Rightarrow> (None, s)
   | Some c \<Rightarrow> (let (r, c') = m c in (Some r, note_closed c c' (put_session conn_id c' s))))"

definition on_connection :: "u64 \<Rightarrow> (connection \<Rightarrow> connection) \<Rightarrow> 'a swarm_core \<Rightarrow> 'a swarm_core" where
  "on_connection conn_id f s = snd (with_session conn_id (\<lambda>c. ((), f c)) s)"

definition register_connection :: "u64 \<Rightarrow> int \<Rightarrow> ('a swarm_core, unit) action" where
  "register_connection conn_id fd =
     and_then (update (\<lambda>s. if fd \<in> set (sw_dialing_fds s)
       then on_loop (unregister_fd fd) (s\<lparr>sw_dialing_fds := removeAll fd (sw_dialing_fds s)\<rparr>) else s)) (\<lambda>_.
     and_then (update (\<lambda>s. s\<lparr>sw_conn_fds := AList.update conn_id fd (sw_conn_fds s),
       sw_fd_to_conn := (sw_fd_to_conn s)(fd \<mapsto> conn_id)\<rparr>)) (\<lambda>_.
     in_loop (register_fd fd (ConnectionIo fd))))"

text \<open>\<open>connections_.erase\<close> runs the session's destructor, which closes it.\<close>

definition remove_connection :: "u64 \<Rightarrow> 'a swarm_core \<Rightarrow> 'a swarm_core" where
  "remove_connection conn_id s =
     (let s1 = (case sw_connection_peers s conn_id of
                  None \<Rightarrow> s
                | Some key \<Rightarrow> s\<lparr>sw_peer_connections := (sw_peer_connections s)(key := None),
                               sw_connection_peers := (sw_connection_peers s)(conn_id := None)\<rparr>);
          s2 = s1\<lparr>sw_pending_streams := filter (\<lambda>(k, _). drop_bit 32 k \<noteq> conn_id) (sw_pending_streams s1)\<rparr>;
          s3 = (case map_of (sw_conn_fds s2) conn_id of
                  None \<Rightarrow> s2
                | Some fd \<Rightarrow> on_loop (unregister_fd fd)
                    (s2\<lparr>sw_fd_to_conn := (sw_fd_to_conn s2)(fd := None),
                        sw_conn_fds := AList.delete conn_id (sw_conn_fds s2)\<rparr>))
      in case map_of (sw_connections s3) conn_id of
           None \<Rightarrow> s3
         | Some c \<Rightarrow> note_closed c (close c)
             (s3\<lparr>sw_connections := AList.delete conn_id (sw_connections s3),
                 sw_destroyed := AList.update conn_id (close c) (sw_destroyed s3)\<rparr>))"

section \<open>Code: connection events\<close>

definition new_stream_entry :: "negotiating_stream \<Rightarrow> stream_handle \<Rightarrow> u32 \<Rightarrow> 'a swarm_core \<Rightarrow> nat \<times> 'a swarm_core" where
  "new_stream_entry ng h sid s =
     (length (sw_streams s),
      s\<lparr>sw_streams := sw_streams s @ [(ng, h)],
        sw_pending_streams := AList.update (stream_key (ng_conn_id ng) sid) (length (sw_streams s)) (sw_pending_streams s)\<rparr>)"

definition on_secured :: "u64 \<Rightarrow> string \<Rightarrow> 'a swarm_core \<Rightarrow> 'a swarm_core" where
  "on_secured conn_id detail s =
     (case map_of (sw_connections s) conn_id of
        None \<Rightarrow> s
      | Some c \<Rightarrow> (case remote_peer c of
          None \<Rightarrow> s
        | Some peer \<Rightarrow>
            let key = peer_id_to_string peer;
                s1 = s\<lparr>sw_peer_connections := (sw_peer_connections s)(key \<mapsto> conn_id),
                       sw_connection_peers := (sw_connection_peers s)(conn_id \<mapsto> key)\<rparr>;
                s2 = dispatch_event (make_event SwPeerIdentified conn_id None (Some peer) detail) s1
            in (case sc_negotiated_muxer (cn_secure c) of
                  None \<Rightarrow> s2
                | Some muxer \<Rightarrow> dispatch_event (make_event SwProtocolNegotiated conn_id None (Some peer) muxer) s2)))"

definition on_multiplexer_ready :: "u64 \<Rightarrow> string \<Rightarrow> 'a swarm_core \<Rightarrow> 'a swarm_core" where
  "on_multiplexer_ready conn_id detail s =
     (let peer = (case map_of (sw_connections s) conn_id of None \<Rightarrow> None | Some c \<Rightarrow> remote_peer c);
          s1 = (case peer of None \<Rightarrow> s
                | Some p \<Rightarrow> s\<lparr>sw_peer_store := record_dial_success p (sw_peer_store s)\<rparr>)
      in dispatch_event (make_event SwConnectionEstablished conn_id None peer detail) s1)"

definition on_stream_accepted :: "u64 \<Rightarrow> connection_event \<Rightarrow> 'a swarm_core \<Rightarrow> 'a swarm_core" where
  "on_stream_accepted conn_id ev s =
     (let s1 = (if ev_stream_id ev = None then s
                else case map_of (sw_connections s) conn_id of
                  None \<Rightarrow> s
                | Some c \<Rightarrow> (case accept_inbound_stream c of
                    (None, c') \<Rightarrow> put_session conn_id c' s
                  | (Some h, c') \<Rightarrow> snd (new_stream_entry (inbound_negotiation_on conn_id (supported_protocols s)) h
                                       (stream_id h c') (put_session conn_id c' s))))
      in dispatch_event (make_event SwStreamAccepted conn_id (ev_stream_id ev) None (ev_detail ev)) s1)"

definition handle_connection_event ::
    "u64 \<Rightarrow> connection_event \<Rightarrow> 'a swarm_core \<times> u64 list \<Rightarrow> 'a swarm_core \<times> u64 list" where
  "handle_connection_event conn_id ev = (\<lambda>(s, closed_connections).
     let simple = (\<lambda>ty. dispatch_event (make_event ty conn_id (ev_stream_id ev) None (ev_detail ev)) s)
     in case ev_type ev of
          EvSecured \<Rightarrow> (on_secured conn_id (ev_detail ev) s, closed_connections)
        | EvMultiplexerReady \<Rightarrow> (on_multiplexer_ready conn_id (ev_detail ev) s, closed_connections)
        | EvStreamOpened \<Rightarrow> (simple SwStreamOpened, closed_connections)
        | EvStreamAccepted \<Rightarrow> (on_stream_accepted conn_id ev s, closed_connections)
        | EvStreamClosed \<Rightarrow> (simple SwStreamClosed, closed_connections)
        | EvError \<Rightarrow> (simple SwProtocolError, closed_connections)
        | EvClosed \<Rightarrow> (simple SwConnectionClosed, closed_connections @ [conn_id]))"

text \<open>Handling an event leaves the session's own queue alone, so draining it ends.\<close>

definition queue_of :: "u64 \<Rightarrow> 'a swarm_core \<Rightarrow> connection_event list" where
  "queue_of conn_id s = (case map_of (sw_connections s) conn_id of None \<Rightarrow> [] | Some c \<Rightarrow> cn_event_queue c)"

lemma dispatch_connections [simp]: "sw_connections (dispatch_event ev s) = sw_connections s"
  by (simp add: dispatch_event_def)

lemma put_session_queue [simp]: "queue_of conn_id (put_session conn_id c s) = cn_event_queue c"
  by (simp add: queue_of_def put_session_def AList.update_conv')

lemma queue_of_cong: "sw_connections s' = sw_connections s \<Longrightarrow> queue_of conn_id s' = queue_of conn_id s"
  by (simp add: queue_of_def)

lemma new_stream_connections [simp]: "sw_connections (snd (new_stream_entry ng h sid s)) = sw_connections s"
  by (simp add: new_stream_entry_def)

lemma on_secured_connections [simp]: "sw_connections (on_secured conn_id d s) = sw_connections s"
  by (simp add: on_secured_def Let_def split: option.splits)

lemma on_multiplexer_ready_connections [simp]: "sw_connections (on_multiplexer_ready conn_id d s) = sw_connections s"
  by (simp add: on_multiplexer_ready_def Let_def split: option.splits)

lemma accept_keeps_queue: "accept_inbound_stream c = (r, c') \<Longrightarrow> cn_event_queue c' = cn_event_queue c"
  by (auto simp: accept_inbound_stream_def split: list.splits)

lemma on_stream_accepted_queue: "queue_of conn_id (on_stream_accepted conn_id ev s) = queue_of conn_id s"
proof (cases "map_of (sw_connections s) conn_id")
  case (Some c)
  obtain r c' where a: "accept_inbound_stream c = (r, c')" by (rule prod.exhaust)
  have "queue_of conn_id (put_session conn_id c' s) = queue_of conn_id s"
    using Some accept_keeps_queue [OF a] by (simp add: queue_of_def [of conn_id s])
  then show ?thesis using Some a
    by (cases r) (auto simp: on_stream_accepted_def Let_def intro: trans [OF queue_of_cong])
qed (auto simp: on_stream_accepted_def intro: queue_of_cong)

lemma handle_event_queue: "queue_of conn_id (fst (handle_connection_event conn_id ev (s, cl))) = queue_of conn_id s"
  by (cases "ev_type ev")
     (auto simp: handle_connection_event_def Let_def on_stream_accepted_queue intro: queue_of_cong)

function drain_connection_events_for :: "u64 \<Rightarrow> 'a swarm_core \<times> u64 list \<Rightarrow> 'a swarm_core \<times> u64 list" where
  "drain_connection_events_for conn_id (s, closed_connections) =
     (case map_of (sw_connections s) conn_id of
        None \<Rightarrow> (s, closed_connections)
      | Some c \<Rightarrow> (case next_event c of
          (None, _) \<Rightarrow> (s, closed_connections)
        | (Some ev, c') \<Rightarrow> drain_connection_events_for conn_id
            (handle_connection_event conn_id ev (put_session conn_id c' s, closed_connections))))"
  by pat_completeness auto
termination
proof (relation "measure (\<lambda>(conn_id, s, cl). length (queue_of conn_id s))", goal_cases)
  case (2 conn_id s cl c x c' ev)
  then have "length (cn_event_queue c') < length (cn_event_queue c)"
    by (auto simp: next_event_def split: list.splits)
  moreover obtain s2 cl2 where h: "handle_connection_event conn_id ev (put_session conn_id c' s, cl) = (s2, cl2)"
    by (rule prod.exhaust)
  moreover have "queue_of conn_id s2 = cn_event_queue c'"
    using handle_event_queue [of conn_id ev "put_session conn_id c' s" cl] h by simp
  ultimately show ?case using 2 by (simp add: queue_of_def [of conn_id s])
qed simp

declare drain_connection_events_for.simps [simp del]

definition remove_all :: "u64 list \<Rightarrow> 'a swarm_core \<Rightarrow> 'a swarm_core" where
  "remove_all = fold remove_connection"

definition drain_one :: "u64 \<Rightarrow> 'a swarm_core \<Rightarrow> 'a swarm_core" where
  "drain_one conn_id s = (let (s1, closed_connections) = drain_connection_events_for conn_id (s, [])
                          in remove_all closed_connections s1)"

definition drain_connection_events :: "swarm_env \<Rightarrow> 'a swarm_core \<Rightarrow> 'a swarm_core" where
  "drain_connection_events E s =
     (let (s1, closed_connections) =
        fold drain_connection_events_for (en_order E (map fst (sw_connections s))) (s, [])
      in remove_all closed_connections s1)"

section \<open>Code: listening and dialling\<close>

text \<open>The end of the two socket callbacks: an upgrade that cannot begin closes the session.\<close>

definition start_upgrade :: "(connection, unit) action \<Rightarrow> u64 \<Rightarrow> 'a swarm_core \<Rightarrow> 'a swarm_core" where
  "start_upgrade m conn_id s =
     (let s1 = (case with_session conn_id m s of
                  (Some (Inl e), t) \<Rightarrow> on_connection conn_id close (dispatch_event (make_event SwProtocolError conn_id None None e) t)
                | (_, t) \<Rightarrow> t)
      in drain_one conn_id s1)"

definition new_session_entry :: "swarm_env \<Rightarrow> bool \<Rightarrow> tcp_socket \<Rightarrow> ('a swarm_core, u64) action" where
  "new_session_entry E initiator socket = reading (\<lambda>s.
     let conn_id = sw_next_conn_id s;
         session = set_kernel [] (en_sends E conn_id) None
           ((if initiator then make_outbound_connection_session else make_inbound_connection_session)
             conn_id (so_fd socket) (so_remote_addr socket) (sw_local_identity s) (sw_local_stream_muxers s) (en_draws E conn_id))
     in and_then (update (\<lambda>s. put_session conn_id session (s\<lparr>sw_next_conn_id := conn_id + 1\<rparr>))) (\<lambda>_.
        and_then (register_connection conn_id (so_fd socket)) (\<lambda>_. return_ok conn_id)))"

definition accepted_socket :: "swarm_env \<Rightarrow> tcp_socket \<Rightarrow> ('a swarm_core, unit) action" where
  "accepted_socket E socket =
     and_then (new_session_entry E False socket) (\<lambda>conn_id.
     and_then (update (dispatch_event (make_event SwIncomingConnection conn_id None None
       (multiaddr_to_string (so_remote_addr socket))))) (\<lambda>_.
     update (start_upgrade begin_inbound_upgrade conn_id)))"

definition connected_socket :: "swarm_env \<Rightarrow> tcp_socket \<Rightarrow> ('a swarm_core, unit) action" where
  "connected_socket E socket =
     and_then (new_session_entry E True socket) (\<lambda>conn_id.
     update (start_upgrade begin_outbound_upgrade conn_id))"

definition dial_failed_detail :: "multiaddr \<Rightarrow> string \<Rightarrow> string" where
  "dial_failed_detail addr detail = multiaddr_to_string addr @ '': '' @ detail"

definition listen_callbacks :: "swarm_env \<Rightarrow> 'a swarm_core transport_callbacks" where
  "listen_callbacks E = \<lparr>on_accepted = Some (accepted_socket E), on_connected = None, on_dial_failed = None\<rparr>"

definition dial_callbacks :: "swarm_env \<Rightarrow> 'a swarm_core transport_callbacks" where
  "dial_callbacks E = \<lparr>on_accepted = None, on_connected = Some (connected_socket E),
     on_dial_failed = Some (\<lambda>addr detail. dispatch_event
       (make_event SwDialFailed 0 None None (dial_failed_detail addr detail)))\<rparr>"

definition in_core :: "('a swarm_core, 'b) action \<Rightarrow> ('a swarm, 'b) action" where
  "in_core = zoom snd (\<lambda>s (t, _). (t, s))"

text \<open>An operation of the transport.  Descriptors it closes that were registered leave the kernel's
  interest list; it does not reopen any of them meanwhile.\<close>

definition transport_closed :: "'a swarm \<Rightarrow> 'a swarm \<Rightarrow> 'a swarm" where
  "transport_closed = (\<lambda>(t, s) (t', s').
     let closed_fds = drop (length (tk_closed (tt_kernel t))) (tk_closed (tt_kernel t'))
     in (t', on_loop (fold descriptor_closed
          (filter (\<lambda>fd. fd \<in> set (el_interest (sw_event_loop s))) closed_fds)) s'))"

definition in_transport :: "('a swarm, 'b) action \<Rightarrow> ('a swarm, 'b) action" where
  "in_transport m = (\<lambda>st. let (r, st') = m st in (r, transport_closed st st'))"

definition register_new :: "int \<Rightarrow> loop_callback \<Rightarrow> (int list \<Rightarrow> 'a swarm_core \<Rightarrow> 'a swarm_core) \<Rightarrow> int list
    \<Rightarrow> ('a swarm_core, unit) action" where
  "register_new fd callback put fds =
     and_then (in_loop (register_fd fd callback)) (\<lambda>_. update (put (fds @ [fd])))"

definition sync_listeners :: "swarm_env \<Rightarrow> int list \<Rightarrow> ('a swarm_core, unit) action" where
  "sync_listeners E current =
     and_then (for_each (\<lambda>fd. reading (\<lambda>s.
         if fd \<in> set (sw_listener_fds s) then return_ok ()
         else register_new fd (AcceptReady fd) (\<lambda>fds s. s\<lparr>sw_listener_fds := fds\<rparr>) (sw_listener_fds s)))
       (en_fd_order E (remdups current))) (\<lambda>_.
     update (\<lambda>s. fold (\<lambda>fd s. on_loop (unregister_fd fd) (s\<lparr>sw_listener_fds := removeAll fd (sw_listener_fds s)\<rparr>))
       (filter (\<lambda>fd. fd \<notin> set current) (en_fd_order E (sw_listener_fds s))) s))"

definition sync_dials :: "swarm_env \<Rightarrow> int list \<Rightarrow> ('a swarm_core, unit) action" where
  "sync_dials E current =
     and_then (for_each (\<lambda>fd. reading (\<lambda>s.
         if fd \<in> set (sw_dialing_fds s) \<or> sw_fd_to_conn s fd \<noteq> None then return_ok ()
         else register_new fd (ConnectReady fd) (\<lambda>fds s. s\<lparr>sw_dialing_fds := fds\<rparr>) (sw_dialing_fds s)))
       (en_fd_order E (remdups current))) (\<lambda>_.
     update (\<lambda>s. fold (\<lambda>fd s. on_loop (unregister_fd fd) (s\<lparr>sw_dialing_fds := removeAll fd (sw_dialing_fds s)\<rparr>))
       (filter (\<lambda>fd. fd \<notin> set current) (en_fd_order E (sw_dialing_fds s))) s))"

definition sync_transport_fds :: "swarm_env \<Rightarrow> ('a swarm, unit) action" where
  "sync_transport_fds E = reading (\<lambda>(t, _).
     and_then (in_core (sync_listeners E (listener_fds t))) (\<lambda>_. in_core (sync_dials E (dialing_fds t))))"

text \<open>A \<open>Result\<close> inside an action that may throw.\<close>

definition and_then_ok :: "('s, 'b result) action \<Rightarrow> ('b \<Rightarrow> ('s, 'c result) action) \<Rightarrow> ('s, 'c result) action" where
  "and_then_ok m f = and_then m (\<lambda>r. case r of Inl e \<Rightarrow> return_ok (Inl e) | Inr x \<Rightarrow> f x)"

definition announce_listener :: "multiaddr \<Rightarrow> int \<Rightarrow> ('a swarm, unit) action" where
  "announce_listener addr fd = (\<lambda>(t, s).
     let (r, t') = local_addr fd t;
         detail = (case r of Inl _ \<Rightarrow> multiaddr_to_string addr | Inr a \<Rightarrow> multiaddr_to_string a)
     in (Inr (), t', dispatch_event (make_event SwListenerStarted 0 None None detail) s))"

definition listen_on :: "swarm_env \<Rightarrow> multiaddr \<Rightarrow> ('a swarm, unit result) action" where
  "listen_on E addr = reading (\<lambda>(t0, _).
     and_then_ok (in_transport (\<lambda>(t, s). let (r, t') = listen addr (listen_callbacks E) t in (Inr r, t', s))) (\<lambda>_.
     and_then (sync_transport_fds E) (\<lambda>_. reading (\<lambda>(t, _).
     and_then (for_each (announce_listener addr)
         (filter (\<lambda>fd. fd \<notin> set (listener_fds t0)) (listener_fds t)))
       (\<lambda>_. return_ok (Inr ()))))))"

definition dial_addr :: "swarm_env \<Rightarrow> multiaddr \<Rightarrow> ('a swarm, unit result) action" where
  "dial_addr E addr =
     and_then_ok (in_transport (dial addr (dial_callbacks E))) (\<lambda>_.
     and_then (sync_transport_fds E) (\<lambda>_. return_ok (Inr ())))"

definition dial_peer :: "swarm_env \<Rightarrow> peer_id \<Rightarrow> ('a swarm, unit result) action" where
  "dial_peer E peer = reading (\<lambda>(_, s).
     case get_addrs peer (sw_peer_store s) of
       [] \<Rightarrow> return_ok (Inl ''no known addresses for peer'')
     | addr # _ \<Rightarrow> dial_addr E addr)"

section \<open>Code: streams\<close>

text \<open>A stream beside the flag that says whether a callback of a destroyed session has been called.  A
  Yamux stream (src/src/protocol/yamux/yamux.cpp) reads from its own buffer, and calls its session
  only after it has given bytes out, to write while it is open, to close its writing side once and
  to reset; those callbacks hold a plain pointer to the session.\<close>

definition calls_session :: "(yamux_stream \<Rightarrow> bool) \<Rightarrow> stream_handle \<Rightarrow> connection \<Rightarrow> bool" where
  "calls_session P h c =
     (case h of DirectHandle _ \<Rightarrow> False
      | YamuxHandle p \<Rightarrow> (case cn_yamux c of None \<Rightarrow> False | Some ys \<Rightarrow> P (stream_at ys p)))"

definition guarded :: "bool \<Rightarrow> (connection \<Rightarrow> bool) \<Rightarrow> (connection, 'b) action \<Rightarrow> (connection \<times> bool, 'b) action" where
  "guarded alive calls m = (\<lambda>(c, dangles).
     if \<not> alive \<and> calls c then (Inl dangling, c, True)
     else let (r, c') = m c in (r, c', dangles))"

definition held_stream :: "crypto \<Rightarrow> bool \<Rightarrow> stream_handle \<Rightarrow> (connection \<times> bool) muxed_stream" where
  "held_stream C alive h =
     \<lparr>ms_id = stream_id h \<circ> fst,
      ms_try_read = (\<lambda>n. guarded alive (calls_session (\<lambda>st. st_recv_buf st \<noteq> []) h) (stream_try_read C h n)),
      ms_try_write = (\<lambda>data. guarded alive (calls_session (\<lambda>st. \<not> st_write_closed st \<and> \<not> st_reset st) h)
        (stream_try_write C h data)),
      ms_close_write = guarded alive (calls_session (\<lambda>st. \<not> st_write_closed st) h) (stream_close_write C h),
      ms_reset = guarded alive (calls_session (\<lambda>_. True) h) (stream_reset C h),
      ms_is_open = stream_is_open h \<circ> fst, ms_unread = stream_unread h \<circ> fst\<rparr>"

text \<open>An operation on the negotiating stream at \<open>i\<close>.\<close>

definition on_stream ::
    "swarm_env \<Rightarrow> nat \<Rightarrow> ((connection \<times> bool) muxed_stream \<Rightarrow> ((connection \<times> bool) nstate, 'b) action)
      \<Rightarrow> ('a swarm_core, 'b result) action" where
  "on_stream E i m = (\<lambda>s.
     let (ng, h) = sw_streams s ! i; conn_id = ng_conn_id ng
     in case map_of (sw_connections s) conn_id of
          Some c \<Rightarrow>
            (let (r, ng', c', _) = m (held_stream (en_crypto E) True h) (ng, c, False)
             in (Inr r, note_closed c c' (put_session conn_id c' (s\<lparr>sw_streams := (sw_streams s)[i := (ng', h)]\<rparr>))))
        | None \<Rightarrow> (case map_of (sw_destroyed s) conn_id of
            None \<Rightarrow> (Inl dangling, s)
          | Some c \<Rightarrow>
              (let (r, ng', c', dangles) = m (held_stream (en_crypto E) False h) (ng, c, False)
               in (if dangles then Inl dangling else Inr r,
                   s\<lparr>sw_streams := (sw_streams s)[i := (ng', h)],
                     sw_destroyed := AList.update conn_id c' (sw_destroyed s)\<rparr>))))"

definition stream_id_of :: "nat \<Rightarrow> 'a swarm_core \<Rightarrow> u32" where
  "stream_id_of i s =
     (let (ng, h) = sw_streams s ! i
      in case map_of (sw_connections s @ sw_destroyed s) (ng_conn_id ng) of
           None \<Rightarrow> 0 | Some c \<Rightarrow> stream_id h c)"

definition known_peer :: "u64 \<Rightarrow> 'a swarm_core \<Rightarrow> peer_id option" where
  "known_peer conn_id s =
     (case sw_connection_peers s conn_id of None \<Rightarrow> None
      | Some key \<Rightarrow> (case peer_id_from_string key of Inl _ \<Rightarrow> None | Inr p \<Rightarrow> Some p))"

definition call_handler_ready :: "nat \<Rightarrow> negotiating_stream \<Rightarrow> string \<Rightarrow> 'a swarm_core \<Rightarrow> 'a swarm_core" where
  "call_handler_ready i ng proto s =
     (case find_handler proto s of
        None \<Rightarrow> s
      | Some h \<Rightarrow> s\<lparr>sw_app := (if ng_inbound ng then ph_on_inbound_stream h i (sw_app s)
                             else ph_on_outbound_stream_ready h i (sw_app s))\<rparr>)"

text \<open>One pending stream: \<open>True\<close> when it is to be taken off the list.\<close>

definition poll_entry :: "swarm_env \<Rightarrow> u64 \<times> nat \<Rightarrow> ('a swarm_core, bool) action" where
  "poll_entry E = (\<lambda>(key, i).
     and_then (on_stream E i StreamNegotiation.poll) (\<lambda>progress. reading (\<lambda>s.
       let ng = fst (sw_streams s ! i);
           event = (\<lambda>ty detail. make_event ty (ng_conn_id ng) (Some (stream_id_of i s))
                      (known_peer (ng_conn_id ng) s) detail)
       in if is_err progress \<and> \<not> has_failed ng then return_ok False
          else if has_failed ng then
            and_then (update (dispatch_event (event SwProtocolError (failure_detail ng)))) (\<lambda>_. return_ok True)
          else (case (is_negotiated ng, ng_negotiated_protocol ng) of
            (True, Some proto) \<Rightarrow>
              and_then (update (\<lambda>s. call_handler_ready i ng proto
                (dispatch_event (event SwProtocolNegotiated proto) s))) (\<lambda>_. return_ok True)
          | _ \<Rightarrow> return_ok False))))"

definition pending_entries :: "swarm_env \<Rightarrow> 'a swarm_core \<Rightarrow> (u64 \<times> nat) list" where
  "pending_entries E s = map (\<lambda>k. (k, the (map_of (sw_pending_streams s) k))) (en_order E (map fst (sw_pending_streams s)))"

definition poll_pending_streams :: "swarm_env \<Rightarrow> ('a swarm_core, unit) action" where
  "poll_pending_streams E = reading (\<lambda>s.
     let entries = pending_entries E s
     in and_then (for_each (poll_entry E) entries) (\<lambda>finished.
        update (\<lambda>s. s\<lparr>sw_pending_streams :=
          fold AList.delete (map fst (map fst (filter snd (zip entries finished)))) (sw_pending_streams s)\<rparr>)))"

definition open_stream_on :: "swarm_env \<Rightarrow> u64 \<Rightarrow> string \<Rightarrow> ('a swarm_core, nat result) action" where
  "open_stream_on E conn_id proto = (\<lambda>s.
     case with_session conn_id (request_open_stream (en_crypto E) proto) s of
       (None, s1) \<Rightarrow> (Inr (Inl ''unknown connection''), s1)
     | (Some (Inl e), s1) \<Rightarrow> (Inr (Inl e), s1)
     | (Some (Inr h), s1) \<Rightarrow>
         (let sid = (case map_of (sw_connections s1) conn_id of None \<Rightarrow> 0 | Some c \<Rightarrow> stream_id h c);
              (i, s2) = new_stream_entry (outbound_negotiation conn_id proto) h sid s1
          in and_then (update (drain_one conn_id)) (\<lambda>_.
             and_then (poll_pending_streams E) (\<lambda>_. return_ok (Inr i))) s2))"

definition open_stream_to :: "swarm_env \<Rightarrow> peer_id \<Rightarrow> string \<Rightarrow> ('a swarm_core, nat result) action" where
  "open_stream_to E peer proto = reading (\<lambda>s.
     case sw_peer_connections s (peer_id_to_string peer) of
       None \<Rightarrow> return_ok (Inl ''no active connection for peer'')
     | Some conn_id \<Rightarrow> open_stream_on E conn_id proto)"

section \<open>Code: polling\<close>

definition loop_call :: "swarm_env \<Rightarrow> loop_callback \<Rightarrow> io_event \<Rightarrow> ('a swarm, unit) action" where
  "loop_call E callback event =
     (case callback of
        AcceptReady fd \<Rightarrow>
          if event = Readable \<or> event = IoError then in_transport (on_accept_ready fd) else return_ok ()
      | ConnectReady fd \<Rightarrow>
          if event = Writable \<or> event = IoError then in_transport (on_connect_ready fd) else return_ok ()
      | ConnectionIo fd \<Rightarrow> in_core (update (\<lambda>s.
          case sw_fd_to_conn s fd of
            None \<Rightarrow> s
          | Some conn_id \<Rightarrow> on_connection conn_id
              (case event of Readable \<Rightarrow> on_socket_readable (en_crypto E)
               | Writable \<Rightarrow> on_socket_writable | IoError \<Rightarrow> close) s)))"

definition loop_of :: "'a swarm \<Rightarrow> loop_callback event_loop" where
  "loop_of st = sw_event_loop (snd st)"

definition set_loop :: "loop_callback event_loop \<Rightarrow> 'a swarm \<Rightarrow> 'a swarm" where
  "set_loop l = (\<lambda>(t, s). (t, s\<lparr>sw_event_loop := l\<rparr>))"

text \<open>What applying an action returns is dropped.\<close>

definition ignoring :: "('s, 'b) action \<Rightarrow> ('s, unit) action" where
  "ignoring m = and_then m (\<lambda>_. return_ok ())"

definition apply_action :: "swarm_env \<Rightarrow> controller_action \<Rightarrow> ('a swarm, unit) action" where
  "apply_action E action =
     (case ac_type action of
        ActDialAddr \<Rightarrow> (case ac_addr action of None \<Rightarrow> return_ok () | Some addr \<Rightarrow> ignoring (dial_addr E addr))
      | ActDialPeer \<Rightarrow> (case ac_peer_id action of None \<Rightarrow> return_ok () | Some peer \<Rightarrow> ignoring (dial_peer E peer))
      | ActCloseConnection \<Rightarrow> (case ac_connection_id action of None \<Rightarrow> return_ok ()
          | Some conn_id \<Rightarrow> in_core (update (\<lambda>s.
              if map_of (sw_connections s) conn_id = None then s
              else drain_connection_events E (on_connection conn_id close s))))
      | ActOpenStream \<Rightarrow> (case (ac_connection_id action, ac_protocol_id action) of
            (Some conn_id, Some proto) \<Rightarrow> ignoring (in_core (open_stream_on E conn_id proto))
          | _ \<Rightarrow> return_ok ())
      | ActSendPing \<Rightarrow> return_ok ())"

definition tick_handlers :: "'a swarm_core \<Rightarrow> 'a swarm_core" where
  "tick_handlers s = s\<lparr>sw_app := fold ph_on_tick (sw_handlers s) (sw_app s)\<rparr>"

definition tick_controller :: "'a swarm_core \<Rightarrow> controller_action list \<times> 'a swarm_core" where
  "tick_controller s =
     (let (actions, app) = ct_drain_actions (sw_controller s) (ct_on_timer_tick (sw_controller s) (sw_app s))
      in (actions, s\<lparr>sw_app := app\<rparr>))"

definition poll_once :: "swarm_env \<Rightarrow> epoll_event list \<Rightarrow> int \<Rightarrow> (nat \<Rightarrow> int) \<Rightarrow> ('a swarm, unit) action" where
  "poll_once E events now later =
     and_then (sync_transport_fds E) (\<lambda>_.
     and_then (poll_with_timeout loop_of set_loop (loop_call E) (\<lambda>_. return_ok ()) events now later) (\<lambda>_.
     and_then (sync_transport_fds E) (\<lambda>_.
     and_then (in_core (update (drain_connection_events E))) (\<lambda>_.
     and_then (in_core (poll_pending_streams E)) (\<lambda>_.
     and_then (in_core (update tick_handlers)) (\<lambda>_.
     and_then (in_core (\<lambda>s. let (actions, s') = tick_controller s in (Inr actions, s'))) (\<lambda>actions.
     ignoring (for_each (apply_action E) actions))))))))"

section \<open>Code: starting and stopping\<close>

definition start_swarm :: "swarm_env \<Rightarrow> ('a swarm, unit result) action" where
  "start_swarm E = and_then (sync_transport_fds E) (\<lambda>_. return_ok (Inr ()))"

text \<open>\<open>connections_.clear()\<close> destroys the sessions after \<open>close\<close>.\<close>

definition stop_core :: "'a swarm_core \<Rightarrow> 'a swarm_core" where
  "stop_core s =
     (let s1 = on_loop (fold unregister_fd (sw_listener_fds s @ sw_dialing_fds s @ map snd (sw_conn_fds s))) s;
          s2 = s1\<lparr>sw_listener_fds := [], sw_dialing_fds := [], sw_fd_to_conn := Map.empty, sw_conn_fds := [],
                 sw_peer_connections := Map.empty, sw_connection_peers := Map.empty\<rparr>;
          closed = map (\<lambda>(conn_id, c). (conn_id, close c)) (sw_connections s2)
      in s2\<lparr>sw_connections := [],
            sw_destroyed := fold (\<lambda>(conn_id, c). AList.update conn_id c) closed (sw_destroyed s2),
            sw_event_loop := new_event_loop\<rparr>)"

definition stop_swarm :: "('a swarm, unit result) action" where
  "stop_swarm = (\<lambda>(t, s). (Inr (Inr ()), new_transport (tt_kernel (close_all t)), stop_core s))"

record debug_snapshot =
  ds_connection_count :: u32
  ds_stream_count :: u32
  ds_extra :: string

definition snapshot :: "'a swarm_core \<Rightarrow> debug_snapshot" where
  "snapshot s = \<lparr>ds_connection_count = of_nat (length (sw_connections s)), ds_stream_count = 0, ds_extra = []\<rparr>"

end
