(* ===== verification/SwarmInvariant.thy ===== *)
theory SwarmInvariant
  imports Swarm
begin

text \<open>
  What a swarm keeps true of its sessions, whatever the peers, the kernel, the controller, the
  protocol handlers and the application do.

  \<open>obs\<close> reads, in the state of the controller and the handlers, the events the controller has been
  given so far: \<open>watches\<close> says that it appends each one and that nothing else changes them, as a
  controller that records its events does.  \<open>about\<close> are the events of one connection's life among
  them; \<open>pictured\<close> relates them to the events the session itself has emitted.

  Connection ids are a 64-bit counter; the invariant is about histories with fewer than
  \<open>2 ^ 64 - 1\<close> connections, and \<open>grows\<close> is the shape in which every operation keeps it.
\<close>

section \<open>What the application sees of a connection\<close>

datatype app_phase = AppNew | AppIdentified | AppEstablished | AppOver

fun app_step :: "app_phase \<Rightarrow> swarm_event_type \<Rightarrow> app_phase option" where
  "app_step AppNew SwPeerIdentified = Some AppIdentified"
| "app_step AppNew SwConnectionEstablished = Some AppEstablished"
| "app_step AppIdentified SwConnectionEstablished = Some AppEstablished"
| "app_step AppEstablished SwStreamOpened = Some AppEstablished"
| "app_step AppEstablished SwStreamAccepted = Some AppEstablished"
| "app_step AppEstablished SwStreamClosed = Some AppEstablished"
| "app_step AppNew SwConnectionClosed = Some AppOver"
| "app_step AppIdentified SwConnectionClosed = Some AppOver"
| "app_step AppEstablished SwConnectionClosed = Some AppOver"
| "app_step _ _ = None"

fun app_run :: "app_phase \<Rightarrow> swarm_event_type list \<Rightarrow> app_phase option" where
  "app_run ph [] = Some ph"
| "app_run ph (ty # tys) = (case app_step ph ty of None \<Rightarrow> None | Some ph' \<Rightarrow> app_run ph' tys)"

definition lifecycle :: "swarm_event_type set" where
  "lifecycle = {SwPeerIdentified, SwConnectionEstablished, SwStreamOpened, SwStreamAccepted,
     SwStreamClosed, SwConnectionClosed}"

definition about_in :: "u64 \<Rightarrow> swarm_event list \<Rightarrow> swarm_event_type list" where
  "about_in conn_id evs = filter (\<lambda>ty. ty \<in> lifecycle)
     (map sv_type (filter (\<lambda>e. sv_connection_id e = conn_id) evs))"

text \<open>How a session's event is shown: a peer is identified only when the session knows its id.\<close>

fun shown :: "event_type \<Rightarrow> swarm_event_type list set" where
  "shown EvSecured = {[], [SwPeerIdentified]}"
| "shown EvMultiplexerReady = {[SwConnectionEstablished]}"
| "shown EvStreamOpened = {[SwStreamOpened]}"
| "shown EvStreamAccepted = {[SwStreamAccepted]}"
| "shown EvStreamClosed = {[SwStreamClosed]}"
| "shown EvError = {[]}"
| "shown EvClosed = {[SwConnectionClosed]}"

inductive pictured :: "connection_event list \<Rightarrow> swarm_event_type list \<Rightarrow> bool" where
  nothing: "pictured [] []"
| another: "pictured log tys \<Longrightarrow> tys' \<in> shown (ev_type ev) \<Longrightarrow> pictured (log @ [ev]) (tys @ tys')"

text \<open>The phases the application can be in after the session's own phase.\<close>

fun app_phases :: "log_phase \<Rightarrow> app_phase set" where
  "app_phases LogUpgrading = {AppNew}"
| "app_phases LogSecured = {AppNew, AppIdentified}"
| "app_phases LogUsable = {AppEstablished}"
| "app_phases LogFailed = {AppNew, AppIdentified, AppEstablished}"
| "app_phases LogOver = {AppOver}"

lemma app_run_append:
  "app_run ph (tys @ tys') = (case app_run ph tys of None \<Rightarrow> None | Some ph' \<Rightarrow> app_run ph' tys')"
  by (induction tys arbitrary: ph) (simp_all split: option.splits)

lemma app_step_shown:
  assumes "log_step ph ty = Some ph'" and "ap \<in> app_phases ph" and "tys \<in> shown ty"
  shows "\<exists>ap' \<in> app_phases ph'. app_run ap tys = Some ap'"
  using assms by (cases "(ph, ty)" rule: log_step.cases) auto

lemma pictured_run:
  assumes "pictured log tys" and "log_run LogUpgrading log = Some ph"
  shows "\<exists>ap \<in> app_phases ph. app_run AppNew tys = Some ap"
  using assms
proof (induction arbitrary: ph)
  case (another log tys tys' ev)
  from another.prems obtain ph0 where ph0: "log_run LogUpgrading log = Some ph0"
    and st: "log_step ph0 (ev_type ev) = Some ph"
    by (auto simp: log_run_append split: option.splits)
  from another.IH [OF ph0] obtain ap where ap: "ap \<in> app_phases ph0" "app_run AppNew tys = Some ap" by auto
  from app_step_shown [OF st ap(1) another.hyps(2)] ap(2) show ?case
    by (auto simp: app_run_append)
qed simp

lemma pictured_secured:
  assumes "pictured log tys" and "log_run LogUpgrading (log @ [ev]) \<noteq> None" and "ev_type ev = EvSecured"
  shows "SwPeerIdentified \<notin> set tys"
proof -
  from assms(2) obtain ph where run: "log_run LogUpgrading log = Some ph" "log_step ph (ev_type ev) \<noteq> None"
    by (auto simp: log_run_append split: option.splits)
  then have "ph = LogUpgrading" using assms(3) by (cases ph) auto
  with pictured_run [OF assms(1) run(1)] have "app_run AppNew tys = Some AppNew" by simp
  moreover have "app_run ap tys = Some AppNew \<Longrightarrow> ap = AppNew \<and> tys = []" for ap
  proof (induction tys arbitrary: ap)
    case (Cons ty tys)
    then obtain ph' where "app_step ap ty = Some ph'" "app_run ph' tys = Some AppNew"
      by (auto split: option.splits)
    with Cons.IH [of ph'] show ?case by (cases "(ap, ty)" rule: app_step.cases) auto
  qed simp
  ultimately show ?thesis by (metis empty_iff empty_set)
qed

section \<open>The invariant\<close>

definition watches :: "('a \<Rightarrow> swarm_event list) \<Rightarrow> 'a controller \<Rightarrow> bool" where
  "watches obs ctl \<longleftrightarrow>
     (\<forall>ev app. obs (ct_on_swarm_event ctl ev app) = obs app @ [ev])
     \<and> (\<forall>app. obs (ct_on_timer_tick ctl app) = obs app) \<and> (\<forall>app. obs (snd (ct_drain_actions ctl app)) = obs app)"

definition leaves :: "('a \<Rightarrow> swarm_event list) \<Rightarrow> 'a protocol_handler \<Rightarrow> bool" where
  "leaves obs h \<longleftrightarrow> (\<forall>i app. obs (ph_on_inbound_stream h i app) = obs app
     \<and> obs (ph_on_outbound_stream_ready h i app) = obs app \<and> obs (ph_on_tick h app) = obs app)"

definition ids_used :: "'a swarm_core \<Rightarrow> u64 set" where
  "ids_used s = fst ` set (sw_connections s) \<union> fst ` set (sw_destroyed s)"

abbreviation about :: "('a \<Rightarrow> swarm_event list) \<Rightarrow> u64 \<Rightarrow> 'a swarm_core \<Rightarrow> swarm_event_type list" where
  "about obs conn_id s \<equiv> about_in conn_id (obs (sw_app s))"

definition session_ok :: "crypto \<Rightarrow> ('a \<Rightarrow> swarm_event list) \<Rightarrow> 'a swarm_core \<Rightarrow> u64 \<Rightarrow> bool" where
  "session_ok C obs s conn_id \<longleftrightarrow>
     (\<exists>log. log_run LogUpgrading log \<noteq> None \<and> pictured log (about obs conn_id s)
        \<and> (\<forall>c. map_of (sw_connections s) conn_id = Some c \<longrightarrow> conn_reachable C log c))"

text \<open>The connection for a peer is in the table, and was identified as that peer.\<close>

definition identified :: "('a \<Rightarrow> swarm_event list) \<Rightarrow> u64 \<Rightarrow> string \<Rightarrow> 'a swarm_core \<Rightarrow> bool" where
  "identified obs conn_id key s \<longleftrightarrow>
     (\<exists>e p. e \<in> set (obs (sw_app s)) \<and> sv_type e = SwPeerIdentified \<and> sv_connection_id e = conn_id
        \<and> sv_peer_id e = Some p \<and> peer_id_to_string p = key)"

definition routes_ok :: "('a \<Rightarrow> swarm_event list) \<Rightarrow> 'a swarm_core \<Rightarrow> bool" where
  "routes_ok obs s \<longleftrightarrow>
     (\<forall>key conn_id. sw_peer_connections s key = Some conn_id \<longrightarrow>
        sw_connection_peers s conn_id = Some key \<and> map_of (sw_connections s) conn_id \<noteq> None)
     \<and> (\<forall>conn_id key. sw_connection_peers s conn_id = Some key \<longrightarrow> identified obs conn_id key s)"

definition ids_ok :: "('a \<Rightarrow> swarm_event list) \<Rightarrow> 'a swarm_core \<Rightarrow> bool" where
  "ids_ok obs s \<longleftrightarrow>
     unat (sw_next_conn_id s) = Suc (card (ids_used s)) \<and> (\<forall>conn_id \<in> ids_used s. conn_id < sw_next_conn_id s)
     \<and> (\<forall>conn_id. conn_id \<notin> ids_used s \<longrightarrow> about obs conn_id s = [])"

definition core_inv :: "crypto \<Rightarrow> ('a \<Rightarrow> swarm_event list) \<Rightarrow> 'a swarm_core \<Rightarrow> bool" where
  "core_inv C obs s \<longleftrightarrow>
     watches obs (sw_controller s) \<and> (\<forall>h \<in> set (sw_handlers s). leaves obs h)
     \<and> (\<forall>conn_id. session_ok C obs s conn_id) \<and> ids_ok obs s \<and> routes_ok obs s"

text \<open>Ids are only ever added; with few of them the invariant \<open>I\<close> is kept, \<open>T\<close> always.\<close>

definition few :: "'a swarm_core \<Rightarrow> bool" where
  "few s \<longleftrightarrow> card (ids_used s) < 2 ^ 64 - 1"

definition grows :: "('s \<Rightarrow> 'a swarm_core) \<Rightarrow> ('s \<Rightarrow> bool) \<Rightarrow> ('s \<Rightarrow> bool) \<Rightarrow> 's \<Rightarrow> 's \<Rightarrow> bool" where
  "grows core T I x y \<longleftrightarrow>
     (T x \<longrightarrow> T y \<and> ids_used (core x) \<subseteq> ids_used (core y) \<and> (I x \<longrightarrow> few (core y) \<longrightarrow> I y))"

lemma few_mono: "ids_used s \<subseteq> ids_used t \<Longrightarrow> few t \<Longrightarrow> few s"
  unfolding few_def using card_mono [of "ids_used t" "ids_used s"] by (simp add: ids_used_def)

interpretation growth: change_order "grows core T I"
proof
  fix s t u
  show "grows core T I s s" by (simp add: grows_def)
  show "grows core T I s t \<Longrightarrow> grows core T I t u \<Longrightarrow> grows core T I s u"
    unfolding grows_def using few_mono [of "core t" "core u"] by blast
qed

lemma growsI: "ids_used (core x) \<subseteq> ids_used (core y) \<Longrightarrow> (I x \<Longrightarrow> I y) \<Longrightarrow> grows core (\<lambda>_. True) I x y"
  by (simp add: grows_def)

lemma grows_fold:
  assumes "\<And>x y. grows core T I y (f x y)"
  shows "grows core T I y (fold f xs y)"
proof (induction xs arbitrary: y)
  case Nil
  show ?case by (simp add: growth.unchanged)
next
  case (Cons x xs)
  show ?case using growth.later [OF assms Cons.IH] by simp
qed

lemma stays_for_each:
  assumes "\<And>x. stays (grows core T I) (f x)"
  shows "stays (grows core T I) (for_each f xs)"
proof (induction xs)
  case Nil
  show ?case unfolding for_each.simps by (rule growth.stays_return)
next
  case (Cons x xs)
  show ?case unfolding for_each.simps by (intro growth.stays_and_then growth.stays_return assms Cons.IH)
qed

abbreviation core_grows :: "crypto \<Rightarrow> ('a \<Rightarrow> swarm_event list) \<Rightarrow> 'a swarm_core \<Rightarrow> 'a swarm_core \<Rightarrow> bool" where
  "core_grows C obs \<equiv> grows (\<lambda>s. s) (\<lambda>_. True) (core_inv C obs)"

text \<open>Changes that the invariant does not see.\<close>

definition unseen :: "('a \<Rightarrow> swarm_event list) \<Rightarrow> 'a swarm_core \<Rightarrow> 'a swarm_core \<Rightarrow> bool" where
  "unseen obs s s' \<longleftrightarrow>
     sw_controller s' = sw_controller s \<and> sw_handlers s' = sw_handlers s
     \<and> (obs (sw_app s') = obs (sw_app s)) \<and> sw_connections s' = sw_connections s
     \<and> ids_used s' = ids_used s \<and> sw_next_conn_id s' = sw_next_conn_id s
     \<and> sw_peer_connections s' = sw_peer_connections s \<and> sw_connection_peers s' = sw_connection_peers s"

lemma unseen_grows: "unseen obs s s' \<Longrightarrow> core_grows C obs s s'"
  by (rule growsI) (simp_all add: unseen_def core_inv_def session_ok_def ids_ok_def routes_ok_def identified_def)

section \<open>Events and sessions\<close>

lemma about_in_snoc:
  "about_in conn_id (evs @ [ev])
     = about_in conn_id evs @ (if sv_connection_id ev = conn_id \<and> sv_type ev \<in> lifecycle then [sv_type ev] else [])"
  by (simp add: about_in_def)

lemma dispatch_fields [simp]:
  "sw_controller (dispatch_event ev s) = sw_controller s" "sw_handlers (dispatch_event ev s) = sw_handlers s"
  "sw_destroyed (dispatch_event ev s) = sw_destroyed s" "sw_next_conn_id (dispatch_event ev s) = sw_next_conn_id s"
  "sw_peer_connections (dispatch_event ev s) = sw_peer_connections s"
  "sw_connection_peers (dispatch_event ev s) = sw_connection_peers s"
  "ids_used (dispatch_event ev s) = ids_used s"
  by (simp_all add: dispatch_event_def ids_used_def)

lemma dispatch_obs: "watches obs (sw_controller s) \<Longrightarrow> obs (sw_app (dispatch_event ev s)) = obs (sw_app s) @ [ev]"
  by (simp add: dispatch_event_def watches_def)

lemma make_event_fields [simp]:
  "sv_type (make_event ty conn_id sid peer d) = ty" "sv_connection_id (make_event ty conn_id sid peer d) = conn_id"
  "sv_peer_id (make_event ty conn_id sid peer d) = peer"
  by (simp_all add: make_event_def)

lemma identified_dispatch:
  "watches obs (sw_controller s) \<Longrightarrow> identified obs conn_id key s \<Longrightarrow> identified obs conn_id key (dispatch_event ev s)"
  unfolding identified_def by (auto simp: dispatch_obs)

lemma routes_dispatch: "watches obs (sw_controller s) \<Longrightarrow> routes_ok obs s \<Longrightarrow> routes_ok obs (dispatch_event ev s)"
  unfolding routes_ok_def by (simp add: identified_dispatch)

lemma dispatch_plain_inv:
  assumes "sv_type ev \<notin> lifecycle" and i: "core_inv C obs s"
  shows "core_inv C obs (dispatch_event ev s)"
proof -
  from i have w: "watches obs (sw_controller s)" by (simp add: core_inv_def)
  have same: "about obs conn_id (dispatch_event ev s) = about obs conn_id s" for conn_id
    using assms(1) by (simp add: dispatch_obs [where obs = obs, OF w] about_in_snoc)
  show ?thesis
    using i routes_dispatch [OF w] by (simp add: core_inv_def session_ok_def ids_ok_def same)
qed

lemma dispatch_plain: "sv_type ev \<notin> lifecycle \<Longrightarrow> core_grows C obs s (dispatch_event ev s)"
  by (rule growsI) (simp_all add: dispatch_plain_inv)

lemma map_of_update: "map_of (AList.update k v al) = (map_of al)(k \<mapsto> v)"
  by (rule AList.update_conv')

lemma map_of_delete: "map_of (AList.delete k al) = (map_of al)(k := None)"
  by (rule AList.delete_conv')

lemma put_session_fields [simp]:
  "sw_controller (put_session k c s) = sw_controller s" "sw_handlers (put_session k c s) = sw_handlers s"
  "sw_destroyed (put_session k c s) = sw_destroyed s" "sw_next_conn_id (put_session k c s) = sw_next_conn_id s"
  "sw_peer_connections (put_session k c s) = sw_peer_connections s" "sw_app (put_session k c s) = sw_app s"
  "sw_connection_peers (put_session k c s) = sw_connection_peers s"
  "map_of (sw_connections (put_session k c s)) = (map_of (sw_connections s))(k \<mapsto> c)"
  by (simp_all add: put_session_def map_of_update)

lemma ids_put_session: "map_of (sw_connections s) k = Some c \<Longrightarrow> ids_used (put_session k c' s) = ids_used s"
  using image_eqI [of k fst "(k, c)" "set (sw_connections s)"] map_of_SomeD [of "sw_connections s" k c]
  by (auto simp: ids_used_def put_session_def AList.dom_update)

definition harmless :: "crypto \<Rightarrow> (connection \<Rightarrow> connection) \<Rightarrow> bool" where
  "harmless C f \<longleftrightarrow> (\<forall>log c. conn_reachable C log c \<longrightarrow> conn_reachable C log (f c))"

lemma put_session_grows:
  assumes c: "map_of (sw_connections s) k = Some c"
    and step: "\<And>log. conn_reachable C log c \<Longrightarrow> conn_reachable C log c'"
  shows "core_grows C obs s (put_session k c' s)"
proof (rule growsI)
  assume i: "core_inv C obs s"
  have "session_ok C obs (put_session k c' s) j" for j
    using i c step by (fastforce simp: core_inv_def session_ok_def)
  moreover have "routes_ok obs (put_session k c' s)"
    using i by (auto simp: core_inv_def routes_ok_def identified_def)
  ultimately show "core_inv C obs (put_session k c' s)"
    using i by (simp add: core_inv_def ids_ok_def ids_put_session [OF c])
qed (simp add: ids_put_session [OF c])

lemma on_loop_unseen: "unseen obs s (on_loop f s)"
  by (simp add: unseen_def on_loop_def ids_used_def)

lemma note_closed_unseen: "unseen obs s (note_closed c c' s)"
  by (simp add: note_closed_def on_loop_unseen) (simp add: unseen_def)

lemmas loop_grows = unseen_grows [OF on_loop_unseen] unseen_grows [OF note_closed_unseen]

lemma with_session_grows:
  assumes "harmless C (\<lambda>c. snd (m c))"
  shows "core_grows C obs s (snd (with_session k m s))"
proof (cases "map_of (sw_connections s) k")
  case (Some c)
  have "core_grows C obs s (put_session k (snd (m c)) s)"
    by (rule put_session_grows [OF Some]) (use assms in \<open>simp add: harmless_def\<close>)
  from growth.later [OF this loop_grows(2)] show ?thesis
    by (simp add: with_session_def Some case_prod_beta Let_def)
qed (simp add: with_session_def growth.unchanged)

lemma harmless_steps:
  "harmless C (set_kernel rs ss err)" "harmless C (on_socket_readable C)" "harmless C on_socket_writable"
  "harmless C close" "harmless C (\<lambda>c. snd (begin_outbound_upgrade c))" "harmless C (\<lambda>c. snd (begin_inbound_upgrade c))"
  "harmless C (\<lambda>c. snd (request_open_stream C proto c))" "harmless C (\<lambda>c. snd (accept_inbound_stream c))"
  "harmless C (\<lambda>c. snd (stream_try_read C h n c))" "harmless C (\<lambda>c. snd (stream_try_write C h data c))"
  "harmless C (\<lambda>c. snd (stream_close_write C h c))" "harmless C (\<lambda>c. snd (stream_reset C h c))"
  unfolding harmless_def by (auto intro: reachable_step conn_step.intros)

lemma on_connection_grows: "harmless C f \<Longrightarrow> core_grows C obs s (on_connection k f s)"
  unfolding on_connection_def by (rule with_session_grows) simp

section \<open>Handling a session's events\<close>

text \<open>An event has been taken from a session and not been handled yet.\<close>

definition owing :: "crypto \<Rightarrow> ('a \<Rightarrow> swarm_event list) \<Rightarrow> u64 \<Rightarrow> connection_event \<Rightarrow> 'a swarm_core \<Rightarrow> bool" where
  "owing C obs k ev s \<longleftrightarrow>
     watches obs (sw_controller s) \<and> (\<forall>h \<in> set (sw_handlers s). leaves obs h)
     \<and> (\<forall>j. j \<noteq> k \<longrightarrow> session_ok C obs s j) \<and> ids_ok obs s \<and> routes_ok obs s
     \<and> (\<exists>log c. log_run LogUpgrading (log @ [ev]) \<noteq> None \<and> pictured log (about obs k s)
          \<and> map_of (sw_connections s) k = Some c \<and> conn_reachable C (log @ [ev]) c)"

lemma reachable_log_runs: "conn_reachable C log c \<Longrightarrow> log_run LogUpgrading log \<noteq> None"
  using conn_reachable_settled [of C log c]
  by (auto simp: settled_def conn_inv_def log_inv_def log_run_append split: option.splits)

lemma owing_taken:
  assumes i: "core_inv C obs s" and c: "map_of (sw_connections s) k = Some c" and ev: "next_event c = (Some ev, c')"
  shows "owing C obs k ev (put_session k c' s)"
proof -
  from i have "session_ok C obs s k" by (simp add: core_inv_def)
  then obtain log where log: "pictured log (about obs k s)" "conn_reachable C log c"
    using c by (auto simp: session_ok_def)
  then have r: "conn_reachable C (log @ [ev]) c'" using ev by (auto intro: reachable_step conn_step.takes)
  have "ids_ok obs (put_session k c' s)" "routes_ok obs (put_session k c' s)"
    using i by (auto simp: core_inv_def ids_ok_def routes_ok_def identified_def ids_put_session [OF c])
  moreover have "session_ok C obs (put_session k c' s) j" if "j \<noteq> k" for j
    using i that by (simp add: core_inv_def session_ok_def)
  ultimately show ?thesis using i log(1) r reachable_log_runs [OF r]
    unfolding owing_def core_inv_def by (simp del: fun_upd_apply) (auto simp: fun_upd_same)
qed

lemma owing_unseen: "unseen obs s s' \<Longrightarrow> owing C obs k ev s \<Longrightarrow> owing C obs k ev s'"
  by (simp add: unseen_def owing_def session_ok_def ids_ok_def routes_ok_def identified_def)

lemma owing_put_session:
  assumes o: "owing C obs k ev s" and c: "map_of (sw_connections s) k = Some c" and f: "harmless C f"
  shows "owing C obs k ev (put_session k (f c) s)"
proof -
  have "ids_ok obs (put_session k (f c) s)" "routes_ok obs (put_session k (f c) s)"
    using o by (auto simp: owing_def ids_ok_def routes_ok_def identified_def ids_put_session [OF c])
  moreover have "session_ok C obs (put_session k (f c) s) j" if "j \<noteq> k" for j
    using o that by (simp add: owing_def session_ok_def)
  ultimately show ?thesis using o c f unfolding owing_def harmless_def by auto
qed

lemma owing_settled:
  assumes o: "owing C obs k ev s" and e: "sv_connection_id e = k" "sv_type e \<in> lifecycle" "[sv_type e] \<in> shown (ev_type ev)"
  shows "core_inv C obs (dispatch_event e s)"
proof -
  from o have w: "watches obs (sw_controller s)" by (simp add: owing_def)
  note seen = dispatch_obs [where obs = obs, OF w]
  from o obtain log c where log: "log_run LogUpgrading (log @ [ev]) \<noteq> None" "pictured log (about obs k s)"
    and c: "map_of (sw_connections s) k = Some c" "conn_reachable C (log @ [ev]) c"
    by (auto simp: owing_def)
  have k: "k \<in> ids_used s" using c(1) by (force simp: ids_used_def dest: map_of_SomeD)
  have "session_ok C obs (dispatch_event e s) j" for j
  proof (cases "j = k")
    case True
    have "pictured (log @ [ev]) (about obs k (dispatch_event e s))"
      using pictured.another [OF log(2) e(3)] e(1,2) by (simp add: seen about_in_snoc)
    with log(1) c True show ?thesis unfolding session_ok_def by auto
  next
    case False
    with o e(1) show ?thesis by (simp add: owing_def session_ok_def seen about_in_snoc)
  qed
  moreover have "ids_ok obs (dispatch_event e s)"
    using o k e(1) by (auto simp: owing_def ids_ok_def seen about_in_snoc)
  ultimately show ?thesis using o routes_dispatch [OF w] by (simp add: core_inv_def owing_def)
qed

lemma owing_nothing:
  assumes "owing C obs k ev s" and "[] \<in> shown (ev_type ev)"
  shows "core_inv C obs s"
proof -
  from assms(1) obtain log c where log: "log_run LogUpgrading (log @ [ev]) \<noteq> None" "pictured log (about obs k s)"
    and c: "map_of (sw_connections s) k = Some c" "conn_reachable C (log @ [ev]) c"
    by (auto simp: owing_def)
  have "session_ok C obs s k"
    using pictured.another [OF log(2) assms(2)] log(1) c unfolding session_ok_def by auto
  then have "session_ok C obs s j" for j
    using assms(1) by (cases "j = k") (auto simp: owing_def)
  with assms(1) show ?thesis by (simp add: core_inv_def owing_def)
qed

lemma route_inv:
  assumes i: "core_inv C obs s" and c: "map_of (sw_connections s) k \<noteq> None"
    and new: "sw_connection_peers s k = None" and who: "identified obs k key s"
  shows "core_inv C obs (s\<lparr>sw_peer_connections := (sw_peer_connections s)(key \<mapsto> k),
                           sw_connection_peers := (sw_connection_peers s)(k \<mapsto> key)\<rparr>)"
proof -
  have "routes_ok obs (s\<lparr>sw_peer_connections := (sw_peer_connections s)(key \<mapsto> k),
                         sw_connection_peers := (sw_connection_peers s)(k \<mapsto> key)\<rparr>)"
    using i c new who by (auto simp: core_inv_def routes_ok_def identified_def)
  then show ?thesis using i by (simp add: core_inv_def session_ok_def ids_ok_def ids_used_def)
qed

lemma owing_secured_unknown:
  assumes o: "owing C obs k ev s" and ev: "ev_type ev = EvSecured"
  shows "sw_connection_peers s k = None"
proof (rule ccontr)
  assume "sw_connection_peers s k \<noteq> None"
  then obtain key where "sw_connection_peers s k = Some key" by blast
  with o have "identified obs k key s" by (simp add: owing_def routes_ok_def)
  then have "SwPeerIdentified \<in> set (about obs k s)"
    by (force simp: identified_def about_in_def lifecycle_def)
  moreover from o obtain log where "log_run LogUpgrading (log @ [ev]) \<noteq> None" "pictured log (about obs k s)"
    by (auto simp: owing_def)
  ultimately show False using pictured_secured [OF _ _ ev] by blast
qed

lemma dispatch_routes:
  "dispatch_event ev (s\<lparr>sw_peer_connections := a, sw_connection_peers := b\<rparr>)
     = (dispatch_event ev s)\<lparr>sw_peer_connections := a, sw_connection_peers := b\<rparr>"
  by (simp add: dispatch_event_def)

lemma on_secured_inv:
  assumes o: "owing C obs k ev s" and ev: "ev_type ev = EvSecured"
  shows "core_inv C obs (on_secured k d s)"
proof -
  from o have w: "watches obs (sw_controller s)" by (simp add: owing_def)
  from o obtain c where c: "map_of (sw_connections s) k = Some c" by (auto simp: owing_def)
  show ?thesis
  proof (cases "remote_peer c")
    case None
    with c owing_nothing [OF o] ev show ?thesis by (simp add: on_secured_def)
  next
    case (Some p)
    define e where "e = make_event SwPeerIdentified k None (Some p) d"
    define t where "t = (dispatch_event e s)\<lparr>
        sw_peer_connections := (sw_peer_connections (dispatch_event e s))(peer_id_to_string p \<mapsto> k),
        sw_connection_peers := (sw_connection_peers (dispatch_event e s))(k \<mapsto> peer_id_to_string p)\<rparr>"
    have "core_inv C obs (dispatch_event e s)"
      by (rule owing_settled [OF o]) (simp_all add: e_def ev lifecycle_def)
    moreover have "identified obs k (peer_id_to_string p) (dispatch_event e s)"
      unfolding identified_def by (auto simp: dispatch_obs [where obs = obs, OF w] e_def)
    ultimately have t: "core_inv C obs t" unfolding t_def
      by (intro route_inv) (simp_all add: c owing_secured_unknown [OF o ev])
    have plain: "core_inv C obs (dispatch_event (make_event SwProtocolNegotiated k None (Some p) m) t)" for m
      by (rule dispatch_plain_inv [OF _ t]) (simp add: lifecycle_def)
    with t Some c show ?thesis
      by (simp add: on_secured_def Let_def dispatch_routes t_def e_def split: option.split)
  qed
qed

lemma on_multiplexer_ready_inv:
  assumes o: "owing C obs k ev s" and ev: "ev_type ev = EvMultiplexerReady"
  shows "core_inv C obs (on_multiplexer_ready k d s)"
proof -
  have "owing C obs k ev (s\<lparr>sw_peer_store := st\<rparr>)" for st
    by (rule owing_unseen [OF _ o]) (simp add: unseen_def ids_used_def)
  with o show ?thesis
    by (auto simp: on_multiplexer_ready_def Let_def ev lifecycle_def intro!: owing_settled split: option.split)
qed

lemma new_stream_entry_unseen: "unseen obs s (snd (new_stream_entry ng h sid s))"
  by (simp add: new_stream_entry_def unseen_def ids_used_def)

lemma on_stream_accepted_inv:
  assumes o: "owing C obs k ev s" and ev: "ev_type ev = EvStreamAccepted"
  shows "core_inv C obs (on_stream_accepted k ev s)"
proof -
  have settle: "core_inv C obs (dispatch_event (make_event SwStreamAccepted k (ev_stream_id ev) None (ev_detail ev)) t)"
    if "owing C obs k ev t" for t
    by (rule owing_settled [OF that]) (simp_all add: ev lifecycle_def)
  show ?thesis
  proof (cases "map_of (sw_connections s) k")
    case (Some c)
    obtain r c' where a: "accept_inbound_stream c = (r, c')" by (rule prod.exhaust)
    have put: "owing C obs k ev (put_session k c' s)"
      using owing_put_session [OF o Some harmless_steps(8)] a by simp
    with o settle [OF put] settle [OF owing_unseen [OF new_stream_entry_unseen put]] settle [OF o] show ?thesis
      by (cases "ev_stream_id ev") (auto simp add: on_stream_accepted_def Some a Let_def split: option.split)
  qed (use o settle [OF o] in \<open>cases "ev_stream_id ev"; simp add: on_stream_accepted_def\<close>)
qed

lemma handle_event_inv:
  assumes o: "owing C obs k ev s"
  shows "core_inv C obs (fst (handle_connection_event k ev (s, closed)))"
proof (cases "ev_type ev")
  case EvError
  from o EvError have "core_inv C obs s" by (auto intro: owing_nothing)
  with EvError show ?thesis
    by (auto simp: handle_connection_event_def lifecycle_def intro: dispatch_plain_inv)
qed (use o in \<open>auto simp: handle_connection_event_def lifecycle_def on_secured_inv on_multiplexer_ready_inv
       on_stream_accepted_inv intro: owing_settled\<close>)

lemma ids_on_secured: "ids_used (on_secured k d s) = ids_used s"
  by (simp add: on_secured_def Let_def ids_used_def dispatch_event_def split: option.split)

lemma ids_on_multiplexer_ready: "ids_used (on_multiplexer_ready k d s) = ids_used s"
  by (simp add: on_multiplexer_ready_def Let_def ids_used_def dispatch_event_def split: option.split)

lemma ids_on_stream_accepted: "ids_used (on_stream_accepted k ev s) = ids_used s"
proof (cases "map_of (sw_connections s) k")
  case (Some c)
  obtain r c' where a: "accept_inbound_stream c = (r, c')" by (rule prod.exhaust)
  have "ids_used (snd (new_stream_entry ng h sid (put_session k c' s))) = ids_used s" for ng h sid
    using ids_put_session [OF Some] by (simp add: new_stream_entry_def ids_used_def)
  with Some a ids_put_session [OF Some] show ?thesis
    by (simp add: on_stream_accepted_def Let_def split: option.split)
qed (simp add: on_stream_accepted_def)

lemma ids_handle_event: "ids_used (fst (handle_connection_event k ev (s, closed))) = ids_used s"
  by (cases "ev_type ev")
     (simp_all add: handle_connection_event_def Let_def ids_on_secured ids_on_multiplexer_ready ids_on_stream_accepted)

lemma drain_events_grow: "core_grows C obs (fst sc) (fst (drain_connection_events_for k sc))"
proof (induction k sc rule: drain_connection_events_for.induct)
  case (1 k s closed)
  show ?case
  proof (cases "map_of (sw_connections s) k")
    case None
    then show ?thesis by (simp add: drain_connection_events_for.simps growth.unchanged)
  next
    case (Some c)
    obtain r c' where ev: "next_event c = (r, c')" by (rule prod.exhaust)
    show ?thesis
    proof (cases r)
      case None
      with Some ev show ?thesis by (simp add: drain_connection_events_for.simps growth.unchanged)
    next
      case r: (Some e)
      let ?h = "handle_connection_event k e (put_session k c' s, closed)"
      have "core_grows C obs s (fst ?h)"
      proof (rule growsI)
        show "core_inv C obs s \<Longrightarrow> core_inv C obs (fst ?h)"
          using handle_event_inv [OF owing_taken [OF _ Some]] ev r by blast
      qed (simp add: ids_handle_event ids_put_session [OF Some])
      moreover have "core_grows C obs (fst ?h) (fst (drain_connection_events_for k ?h))"
        using "1.IH" Some ev r by fastforce
      ultimately have "core_grows C obs s (fst (drain_connection_events_for k ?h))" by (rule growth.later)
      then show ?thesis using Some ev r by (simp add: drain_connection_events_for.simps [of k s closed])
    qed
  qed
qed

section \<open>Sessions that come and go\<close>

lemma delete_keys: "fst ` set (AList.delete k al) = fst ` set al - {k}"
  by (induction al) auto

definition detached :: "u64 \<Rightarrow> connection \<Rightarrow> 'a swarm_core \<Rightarrow> 'a swarm_core" where
  "detached k c s = s\<lparr>sw_connections := AList.delete k (sw_connections s),
     sw_destroyed := AList.update k c (sw_destroyed s)\<rparr>"

lemma ids_detached: "map_of (sw_connections s) k \<noteq> None \<Longrightarrow> ids_used (detached k c s) = ids_used s"
  by (force simp: ids_used_def detached_def AList.dom_update delete_keys dest: map_of_SomeD)

definition unrouted :: "u64 \<Rightarrow> 'a swarm_core \<Rightarrow> 'a swarm_core" where
  "unrouted k s = (case sw_connection_peers s k of None \<Rightarrow> s
     | Some key \<Rightarrow> s\<lparr>sw_peer_connections := (sw_peer_connections s)(key := None),
                     sw_connection_peers := (sw_connection_peers s)(k := None)\<rparr>)"

lemma ids_unrouted: "ids_used (unrouted k s) = ids_used s"
  by (simp add: unrouted_def ids_used_def split: option.split)

lemma unrouted_inv:
  assumes i: "core_inv C obs s"
  shows "core_inv C obs (unrouted k s)"
    and "sw_peer_connections (unrouted k s) key \<noteq> Some k"
proof -
  have r: "routes_ok obs s" using i by (simp add: core_inv_def)
  show "sw_peer_connections (unrouted k s) key \<noteq> Some k"
    using r by (auto simp: unrouted_def routes_ok_def split: option.split)
  have "routes_ok obs (unrouted k s)"
    using r by (auto simp: unrouted_def routes_ok_def identified_def split: option.split)
  moreover have "session_ok C obs (unrouted k s) j" "ids_ok obs (unrouted k s)" for j
    using i ids_unrouted [of k s]
    by (auto simp: core_inv_def session_ok_def ids_ok_def unrouted_def split: option.splits)
  ultimately show "core_inv C obs (unrouted k s)"
    using i by (simp add: core_inv_def unrouted_def split: option.splits)
qed

lemma detached_inv:
  assumes i: "core_inv C obs s" and c: "map_of (sw_connections s) k \<noteq> None"
    and unrouted: "\<And>key. sw_peer_connections s key \<noteq> Some k"
  shows "core_inv C obs (detached k c s)"
proof -
  have "session_ok C obs (detached k c s) j" for j
    using i by (fastforce simp: core_inv_def session_ok_def detached_def map_of_delete)
  moreover have "routes_ok obs (detached k c s)"
    using i unrouted by (auto simp: core_inv_def routes_ok_def identified_def detached_def map_of_delete)
  ultimately show ?thesis using i ids_detached [OF c]
    by (simp add: core_inv_def ids_ok_def) (simp add: detached_def)
qed

text \<open>A connection that is gone from every table but that of the sessions.\<close>

definition unlisted :: "u64 \<Rightarrow> 'a swarm_core \<Rightarrow> 'a swarm_core" where
  "unlisted k s = (case map_of (sw_conn_fds s) k of None \<Rightarrow> s
     | Some fd \<Rightarrow> on_loop (unregister_fd fd) (s\<lparr>sw_fd_to_conn := (sw_fd_to_conn s)(fd := None),
         sw_conn_fds := AList.delete k (sw_conn_fds s)\<rparr>))"

definition released :: "u64 \<Rightarrow> 'a swarm_core \<Rightarrow> 'a swarm_core" where
  "released k s = unlisted k (unrouted k s\<lparr>sw_pending_streams :=
     filter (\<lambda>(p, _). drop_bit 32 p \<noteq> k) (sw_pending_streams (unrouted k s))\<rparr>)"

lemma remove_connection_eq:
  "remove_connection k s = (case map_of (sw_connections (released k s)) k of None \<Rightarrow> released k s
     | Some c \<Rightarrow> note_closed c (close c) (detached k (close c) (released k s)))"
  unfolding remove_connection_def released_def unlisted_def unrouted_def detached_def Let_def by (rule refl)

lemma released_fields [simp]:
  "sw_connections (released k s) = sw_connections s" "sw_destroyed (released k s) = sw_destroyed s"
  "sw_streams (released k s) = sw_streams s"
  "sw_peer_connections (released k s) = (case sw_connection_peers s k of
     None \<Rightarrow> sw_peer_connections s | Some key \<Rightarrow> (sw_peer_connections s)(key := None))"
  by (simp_all add: released_def unlisted_def unrouted_def on_loop_def split: option.split)

lemma released_unseen: "unseen obs (unrouted k s) (released k s)"
  by (simp add: released_def unlisted_def unseen_def on_loop_def ids_used_def split: option.split)

lemma remove_connection_grows: "core_grows C obs s (remove_connection k s)"
proof -
  note un = released_unseen [of obs k s]
  have t: "core_inv C obs (released k s)" "sw_peer_connections (released k s) key \<noteq> Some k" if "core_inv C obs s" for key
    using unrouted_inv [OF that, of k] un
    by (simp_all add: unseen_def core_inv_def session_ok_def ids_ok_def routes_ok_def identified_def)
  have ids: "ids_used (released k s) = ids_used s" using un ids_unrouted by (simp add: unseen_def)
  show ?thesis
  proof (cases "map_of (sw_connections (released k s)) k")
    case None
    with ids t show ?thesis by (auto simp: remove_connection_eq intro: growsI)
  next
    case (Some c)
    have "core_grows C obs s (detached k (close c) (released k s))"
      by (rule growsI) (use Some ids t detached_inv [of C obs "released k s" k] in \<open>auto simp: ids_detached\<close>)
    from growth.later [OF this loop_grows(2)] Some show ?thesis by (simp add: remove_connection_eq)
  qed
qed

lemma remove_all_grows: "core_grows C obs s (remove_all ks s)"
  unfolding remove_all_def by (rule grows_fold) (rule remove_connection_grows)

lemma drain_one_grows: "core_grows C obs s (drain_one k s)"
  using growth.later [OF drain_events_grow [of C obs "(s, [])" k] remove_all_grows]
  by (simp add: drain_one_def case_prod_beta Let_def)

lemma drain_connection_events_grows: "core_grows C obs s (drain_connection_events E s)"
proof -
  have fold: "core_grows C obs (fst sc) (fst (fold drain_connection_events_for ks sc))" for ks and sc :: "'a swarm_core \<times> u64 list"
  proof (induction ks arbitrary: sc)
    case (Cons k ks)
    show ?case using growth.later [OF drain_events_grow Cons.IH] by simp
  qed (simp add: growth.unchanged)
  from growth.later [OF fold [of "(s, [])"] remove_all_grows] show ?thesis
    by (simp add: drain_connection_events_def case_prod_beta Let_def)
qed

section \<open>New sessions\<close>

lemma new_session_reachable:
  assumes "0 \<le> fd"
  shows "conn_reachable C [] (make_outbound_connection_session k fd addr identity muxers draws)"
    and "conn_reachable C [] (make_inbound_connection_session k fd addr identity muxers draws)"
proof -
  have "conn_reachable C [] (new_connection k fd addr b identity muxers draws)" for b
    using assms unfolding conn_reachable_def initial_connection_def by blast
  then show "conn_reachable C [] (make_outbound_connection_session k fd addr identity muxers draws)"
    and "conn_reachable C [] (make_inbound_connection_session k fd addr identity muxers draws)"
    by (simp_all add: make_outbound_connection_session_def make_inbound_connection_session_def)
qed

lemma ids_put_new: "ids_used (put_session k c s) = insert k (ids_used s)"
  by (auto simp: ids_used_def put_session_def AList.dom_update)

lemma next_id_grows:
  assumes c: "conn_reachable C [] c"
  shows "core_grows C obs s (put_session (sw_next_conn_id s) c (s\<lparr>sw_next_conn_id := sw_next_conn_id s + 1\<rparr>))"
    (is "core_grows C obs s ?t")
  unfolding grows_def
proof (intro conjI impI TrueI)
  let ?k = "sw_next_conn_id s"
  have ids: "ids_used ?t = insert ?k (ids_used s)" by (simp add: ids_put_new) (simp add: ids_used_def)
  then show "ids_used s \<subseteq> ids_used ?t" by blast
  assume i: "core_inv C obs s" and few: "few ?t"
  from i have new: "?k \<notin> ids_used s" and num: "unat ?k = Suc (card (ids_used s))"
    by (auto simp: core_inv_def ids_ok_def)
  then have quiet: "about obs ?k s = []" using i by (simp add: core_inv_def ids_ok_def)
  have fin: "finite (ids_used s)" by (simp add: ids_used_def)
  with few ids new have "unat ?k < 2 ^ 64 - 1" by (simp add: few_def num)
  then have succ: "unat (?k + 1) = Suc (unat ?k)" by (simp add: unat_word_ariths)
  have "session_ok C obs ?t j" for j
    using i c quiet pictured.nothing by (auto simp: core_inv_def session_ok_def intro: exI [of _ "[]"])
  moreover have "ids_ok obs ?t"
    using i new fin succ num
    by (auto simp: core_inv_def ids_ok_def ids word_less_nat_alt)
  moreover have "routes_ok obs ?t"
    using i by (auto simp: core_inv_def routes_ok_def identified_def)
  ultimately show "core_inv C obs ?t" using i by (simp add: core_inv_def)
qed

lemma stays_update_core: "(\<And>s. core_grows C obs s (f s)) \<Longrightarrow> stays (core_grows C obs) (update f)"
  by (rule growth.stays_update)

lemma in_loop_stays: "stays (core_grows C obs) (in_loop m)"
proof (rule staysI)
  have "unseen obs s (snd (in_loop m s))" for s :: "'a swarm_core"
    by (simp add: in_loop_def zoom_def unseen_def ids_used_def case_prod_beta Let_def)
  then show "core_grows C obs s (snd (in_loop m s))" for s by (rule unseen_grows)
qed

lemma register_connection_stays: "stays (core_grows C obs) (register_connection k fd)"
  unfolding register_connection_def
  by (intro growth.stays_and_then growth.stays_update in_loop_stays unseen_grows)
     (simp_all add: unseen_def on_loop_def ids_used_def)

lemma new_session_stays:
  fixes obs :: "'a \<Rightarrow> swarm_event list"
  assumes "0 \<le> so_fd socket"
  shows "stays (core_grows C obs) (new_session_entry E b socket)"
proof (rule staysI)
  fix s :: "'a swarm_core"
  define c where "c = set_kernel [] (en_sends E (sw_next_conn_id s)) None
     ((if b then make_outbound_connection_session else make_inbound_connection_session)
       (sw_next_conn_id s) (so_fd socket) (so_remote_addr socket) (sw_local_identity s) (sw_local_stream_muxers s)
       (en_draws E (sw_next_conn_id s)))"
  let ?f = "\<lambda>t. put_session (sw_next_conn_id s) c (t\<lparr>sw_next_conn_id := sw_next_conn_id s + 1\<rparr>)"
  let ?rest = "and_then (register_connection (sw_next_conn_id s) (so_fd socket)) (\<lambda>_. return_ok (sw_next_conn_id s))"
  have eq: "new_session_entry E b socket s = ?rest (?f s)"
    by (simp add: new_session_entry_def c_def Let_def)
  have "core_grows C obs s (?f s)"
    by (rule next_id_grows) (use assms in \<open>simp add: c_def new_session_reachable reachable_step [OF _ conn_step.kernel]\<close>)
  moreover have "core_grows C obs (?f s) (snd (?rest (?f s)))"
    by (rule stays_apply, intro growth.stays_and_then growth.stays_return register_connection_stays)
  ultimately show "core_grows C obs s (snd (new_session_entry E b socket s))"
    unfolding eq by (rule growth.later)
qed

lemma start_upgrade_grows:
  assumes "harmless C (\<lambda>c. snd (m c))"
  shows "core_grows C obs s (start_upgrade m k s)"
proof -
  obtain r t where w: "with_session k m s = (r, t)" by (rule prod.exhaust)
  have t: "core_grows C obs s t" using with_session_grows [OF assms, of obs s k] w by simp
  let ?failed = "\<lambda>e. on_connection k close (dispatch_event (make_event SwProtocolError k None None e) t)"
  have "core_grows C obs t (?failed e)" for e
    by (rule growth.later [OF dispatch_plain on_connection_grows]) (simp_all add: lifecycle_def harmless_steps)
  then have "core_grows C obs s (case (r, t) of (Some (Inl e), t) \<Rightarrow> ?failed e | (_, t) \<Rightarrow> t)"
    using t growth.later [OF t] by (cases r) (auto split: sum.split)
  from growth.later [OF this drain_one_grows] show ?thesis
    by (simp add: start_upgrade_def w Let_def)
qed

lemma socket_stays:
  assumes "0 \<le> so_fd socket"
  shows "stays (core_grows C obs) (accepted_socket E socket)" and "stays (core_grows C obs) (connected_socket E socket)"
  unfolding accepted_socket_def connected_socket_def
  by (intro growth.stays_and_then growth.stays_update new_session_stays assms start_upgrade_grows harmless_steps
      dispatch_plain; simp add: lifecycle_def)+

section \<open>The transport's callbacks\<close>

definition transport_ok :: "swarm_env \<Rightarrow> 'a swarm_core tcp_transport \<Rightarrow> bool" where
  "transport_ok E t \<longleftrightarrow> (\<forall>l \<in> set (tt_listeners t). ls_callbacks l = listen_callbacks E)
     \<and> (\<forall>d \<in> set (tt_pending_dials t). pd_callbacks d = dial_callbacks E \<and> 0 \<le> pd_fd d)"

abbreviation swarm_grows :: "swarm_env \<Rightarrow> ('a \<Rightarrow> swarm_event list) \<Rightarrow> 'a swarm \<Rightarrow> 'a swarm \<Rightarrow> bool" where
  "swarm_grows E obs \<equiv> grows snd (\<lambda>st. transport_ok E (fst st)) (\<lambda>st. core_inv (en_crypto E) obs (snd st))"

lemma swarm_growsI:
  assumes "transport_ok E t \<Longrightarrow> transport_ok E t'" and "core_grows (en_crypto E) obs s s'"
  shows "swarm_grows E obs (t, s) (t', s')"
  using assms by (auto simp: grows_def)

lemma in_core_stays: "stays (core_grows (en_crypto E) obs) m \<Longrightarrow> stays (swarm_grows E obs) (in_core m)"
  by (auto simp: stays_def in_core_def zoom_def case_prod_beta Let_def intro!: swarm_growsI)

lemma transport_ok_kernel [simp]:
  "transport_ok E (t\<lparr>tt_kernel := k\<rparr>) = transport_ok E t" "transport_ok E (with_kernel f t) = transport_ok E t"
  "transport_ok E (snd (in_kernel m t)) = transport_ok E t"
  by (simp_all add: transport_ok_def with_kernel_def in_kernel_def case_prod_beta Let_def)

lemma hand_over_grows:
  fixes obs :: "'a \<Rightarrow> swarm_event list"
  assumes "0 \<le> fd" and "cb = None \<or> cb = Some (accepted_socket E) \<or> cb = Some (connected_socket E)"
  shows "swarm_grows E obs (t, s) (snd (hand_over cb fd addr (t, s)))"
proof (cases cb)
  case None
  then show ?thesis by (auto simp: hand_over_def growth.unchanged intro!: swarm_growsI)
next
  case (Some f)
  have "stays (core_grows (en_crypto E) obs) (f \<lparr>so_fd = fd, so_remote_addr = addr\<rparr>)"
    using assms Some socket_stays [of "\<lparr>so_fd = fd, so_remote_addr = addr\<rparr>"] by auto
  then have "core_grows (en_crypto E) obs s (snd (f \<lparr>so_fd = fd, so_remote_addr = addr\<rparr> s))"
    by (rule stays_apply)
  with Some show ?thesis by (auto simp: hand_over_def case_prod_beta Let_def intro!: swarm_growsI)
qed

lemma accept_loop_grows:
  fixes obs :: "'a \<Rightarrow> swarm_event list"
  shows "swarm_grows E obs (t, s) (snd (accept_loop xs (listen_callbacks E) (t, s)))"
proof (induction xs "listen_callbacks E :: 'a swarm_core transport_callbacks" "(t, s)" arbitrary: t s rule: accept_loop.induct)
  case (3 n addr rest t s)
  let ?fd = "int n"
  let ?t1 = "with_kernel (\<lambda>k. k\<lparr>tk_opened := tk_opened k @ [?fd]\<rparr>) t"
  obtain r t2 where k: "in_kernel (closing_on_error ?fd (and_then (set_flags ?fd) (\<lambda>_. return_result (from_sockaddr addr)))) ?t1
      = (r, t2)" by (rule prod.exhaust)
  have t2: "swarm_grows E obs (t, s) (t2, s)"
  proof (rule swarm_growsI)
    have "transport_ok E t2 = transport_ok E (snd (in_kernel (closing_on_error ?fd (and_then (set_flags ?fd)
        (\<lambda>_. return_result (from_sockaddr addr)))) ?t1))" using k by simp
    then show "transport_ok E t \<Longrightarrow> transport_ok E t2" by (simp only: transport_ok_kernel)
  qed (rule growth.unchanged)
  show ?case
  proof (cases r)
    case (Inl e)
    from growth.later [OF t2 "3.hyps"(1)] k Inl show ?thesis by (simp add: Let_def)
  next
    case (Inr remote)
    obtain r3 t3 s3 where h: "hand_over (on_accepted (listen_callbacks E)) ?fd remote (t2, s) = (r3, t3, s3)"
      by (metis prod.exhaust)
    have "swarm_grows E obs (t2, s) (t3, s3)"
      using hand_over_grows [of ?fd "on_accepted (listen_callbacks E)" E obs t2 s remote] h
      by (simp add: listen_callbacks_def)
    from growth.later [OF t2 this] have t3: "swarm_grows E obs (t, s) (t3, s3)" .
    show ?thesis
    proof (cases r3)
      case (Inl e)
      have "swarm_grows E obs (t3, s3) (with_kernel (\<lambda>k. k\<lparr>tk_accepts := rest\<rparr>) t3, s3)"
        by (rule swarm_growsI) (simp_all add: growth.unchanged)
      from growth.later [OF t3 this] k Inr h Inl show ?thesis by (simp add: Let_def)
    next
      case r3: (Inr u)
      from growth.later [OF t3 "3.hyps"(2)] k Inr h r3 show ?thesis by (simp add: Let_def)
    qed
  qed
qed (auto intro!: swarm_growsI growth.unchanged)

lemma on_accept_ready_stays:
  fixes obs :: "'a \<Rightarrow> swarm_event list"
  shows "stays (swarm_grows E obs) (on_accept_ready fd)"
proof (rule staysI, unfold split_paired_all)
  fix t and s :: "'a swarm_core"
  show "swarm_grows E obs (t, s) (snd (on_accept_ready fd (t, s)))"
  proof (cases "find (\<lambda>listener. ls_fd listener = fd) (tt_listeners t)")
    case (Some l)
    have "ls_callbacks l = listen_callbacks E" if "transport_ok E t"
      using that Some by (auto simp: find_Some_iff transport_ok_def)
    then show ?thesis using accept_loop_grows [of E obs t s] Some
      by (auto simp: on_accept_ready_def grows_def)
  qed (simp add: on_accept_ready_def growth.unchanged)
qed

lemma dispatch_failed_grows:
  "core_grows C obs s (dispatch_event (make_event SwDialFailed 0 None None d) s)"
  by (rule dispatch_plain) (simp add: lifecycle_def)

lemma remove_first_subset: "set (remove_first P xs) \<subseteq> set xs"
  by (induction xs) auto

lemma on_connect_ready_stays:
  fixes obs :: "'a \<Rightarrow> swarm_event list"
  shows "stays (swarm_grows E obs) (on_connect_ready fd)"
proof (rule staysI, unfold split_paired_all)
  fix t and s :: "'a swarm_core"
  show "swarm_grows E obs (t, s) (snd (on_connect_ready fd (t, s)))"
  proof (cases "find (\<lambda>d. pd_fd d = fd) (tt_pending_dials t)")
    case (Some d)
    obtain e k where pop: "pop_so_error (tt_kernel t) = (e, k)" by (rule prod.exhaust)
    define t1 where "t1 = t\<lparr>tt_kernel := k,
        tt_pending_dials := remove_first (\<lambda>d. pd_fd d = fd) (tt_pending_dials t)\<rparr>"
    have t1: "swarm_grows E obs (t, s) (t1, s)"
      using remove_first_subset [of "\<lambda>d. pd_fd d = fd" "tt_pending_dials t"]
      by (intro swarm_growsI growth.unchanged) (auto simp: transport_ok_def t1_def)
    have d: "pd_callbacks d = dial_callbacks E \<and> 0 \<le> pd_fd d" if "transport_ok E t"
      using that Some by (auto simp: find_Some_iff transport_ok_def)
    have "swarm_grows E obs (t1, s) (with_kernel f t1,
        dispatch_event (make_event SwDialFailed 0 None None x) s)" for f x
      by (rule swarm_growsI) (simp_all add: dispatch_failed_grows)
    note failed = growth.later [OF t1 this]
    have "swarm_grows E obs (t1, s) (snd (hand_over (on_connected (dial_callbacks E)) (pd_fd d) a (t1, s)))"
      if "0 \<le> pd_fd d" for a
      by (rule hand_over_grows) (simp_all add: that dial_callbacks_def)
    note connected = growth.later [OF t1 this]
    show ?thesis
    proof (cases "transport_ok E t")
      case True
      show ?thesis
      proof (cases e)
        case None
        with connected d [OF True] Some pop show ?thesis by (simp add: on_connect_ready_def t1_def)
      next
        case (Some err)
        with failed d [OF True] \<open>find _ _ = Some d\<close> pop show ?thesis
          by (simp add: on_connect_ready_def t1_def dial_callbacks_def)
      qed
    qed (simp add: grows_def)
  qed (simp add: on_connect_ready_def growth.unchanged)
qed

lemma listen_keeps_ok: "preserves (transport_ok E) (listen addr (listen_callbacks E))"
  unfolding listen_def
  by (intro keeps) (auto simp: transport_ok_def preserves_def in_kernel_def case_prod_beta Let_def)

lemma dial_stays:
  fixes obs :: "'a \<Rightarrow> swarm_event list"
  shows "stays (swarm_grows E obs) (dial addr (dial_callbacks E))"
proof (rule staysI, unfold split_paired_all)
  fix t and s :: "'a swarm_core"
  show "swarm_grows E obs (t, s) (snd (dial addr (dial_callbacks E) (t, s)))"
  proof (cases "to_sockaddr addr")
    case (Inr sa)
    obtain r t1 where k: "in_kernel create_connect_socket t = (r, t1)" by (rule prod.exhaust)
    have t1: "swarm_grows E obs (t, s) (t1, s)"
      using transport_ok_kernel(3) [of E create_connect_socket t] k
      by (intro swarm_growsI growth.unchanged) simp
    show ?thesis
    proof (cases r)
      case (Inl e)
      with t1 k Inr show ?thesis by (simp add: dial_def)
    next
      case fd: (Inr fd)
      have nonneg: "0 \<le> fd"
        using k fd created_nonneg(2) by (auto simp: in_kernel_def case_prod_beta Let_def prod_eq_iff)
      have "swarm_grows E obs (t1, s) (snd (connect_socket addr (dial_callbacks E) fd (t1, s)))"
      proof (cases "sys_call (tt_kernel t1)")
        case (Pair res k2)
        have ok: "swarm_grows E obs (t1, s) (t1\<lparr>tt_kernel := k2\<rparr>, s)"
          by (rule swarm_growsI) (simp_all add: growth.unchanged)
        have "swarm_grows E obs (t1\<lparr>tt_kernel := k2\<rparr>, s)
            (snd (hand_over (on_connected (dial_callbacks E)) fd addr (t1\<lparr>tt_kernel := k2\<rparr>, s)))"
          by (rule hand_over_grows) (simp_all add: nonneg dial_callbacks_def)
        note connected = growth.later [OF ok this]
        have failed: "swarm_grows E obs (t1, s) (t1\<lparr>tt_kernel := kk\<rparr>,
            dispatch_event (make_event SwDialFailed 0 None None x) s)" for kk x
          by (rule swarm_growsI) (simp_all add: dispatch_failed_grows)
        have waiting: "swarm_grows E obs (t1, s) (t1\<lparr>tt_kernel := k2, tt_pending_dials := tt_pending_dials t1 @
            [\<lparr>pd_fd = fd, pd_addr = addr, pd_callbacks = dial_callbacks E\<rparr>]\<rparr>, s)"
          by (intro swarm_growsI growth.unchanged) (use nonneg in \<open>auto simp: transport_ok_def\<close>)
        show ?thesis using connected failed waiting
          by (cases res) (simp_all add: connect_socket_def Pair dial_callbacks_def)
      qed
      then have "swarm_grows E obs (t1, s)
          (snd (and_then (connect_socket addr (dial_callbacks E) fd) (\<lambda>_. return_ok (Inr ())) (t1, s)))"
        by (auto simp: and_then_def split: prod.split sum.split)
      from growth.later [OF t1 this] k fd Inr show ?thesis by (simp add: dial_def)
    qed
  qed (simp add: dial_def growth.unchanged)
qed

section \<open>The operations of the swarm\<close>

lemma in_transport_stays:
  fixes obs :: "'a \<Rightarrow> swarm_event list"
  assumes "stays (swarm_grows E obs) m"
  shows "stays (swarm_grows E obs) (in_transport m)"
proof (rule staysI)
  fix st :: "'a swarm"
  obtain t' s' where m: "snd (m st) = (t', s')" by (rule prod.exhaust)
  have "swarm_grows E obs (t', s') (transport_closed st (t', s'))"
    by (auto simp: transport_closed_def case_prod_beta Let_def intro!: swarm_growsI loop_grows)
  from growth.later [OF _ this] stays_apply [OF assms, of st] m
  show "swarm_grows E obs st (snd (in_transport m st))"
    by (simp add: in_transport_def case_prod_beta Let_def)
qed

lemma listen_stays: "stays (swarm_grows E obs)
    (\<lambda>(t, s). let (r, t') = listen addr (listen_callbacks E) t in (Inr r, t', s))"
  using listen_keeps_ok [of E addr]
  by (auto simp: stays_def preserves_def case_prod_beta Let_def intro!: swarm_growsI growth.unchanged)

lemma unseen_stays: "(\<And>s. unseen obs s (f s)) \<Longrightarrow> stays (core_grows C obs) (update f)"
  by (intro growth.stays_update unseen_grows)

lemma unseen_fold:
  assumes "\<And>x s. unseen obs s (f x s)"
  shows "unseen obs s (fold f xs s)"
proof (induction xs arbitrary: s)
  case (Cons x xs)
  show ?case using assms [of s x] Cons.IH [of "f x s"] by (simp add: unseen_def)
qed (simp add: unseen_def)

lemma stays_if: "stays R m \<Longrightarrow> stays R m' \<Longrightarrow> stays R (if b then m else m')"
  by simp

lemma reading_pair: "(\<And>t s. stays (grows core T I) (f t s)) \<Longrightarrow> stays (grows core T I) (reading (\<lambda>(t, s). f t s))"
  by (intro growth.stays_reading) (simp add: case_prod_beta)

lemma register_new_stays:
  assumes "\<And>fds s. unseen obs s (put fds s)"
  shows "stays (core_grows C obs) (register_new fd callback put fds)"
  unfolding register_new_def by (intro growth.stays_and_then in_loop_stays unseen_stays assms)

lemma sync_stays:
  fixes obs :: "'a \<Rightarrow> swarm_event list"
  shows "stays (core_grows C obs) (sync_listeners E current)" and "stays (core_grows C obs) (sync_dials E current)"
proof -
  have put: "unseen obs s (s\<lparr>sw_listener_fds := fds\<rparr>)" "unseen obs s (s\<lparr>sw_dialing_fds := fds\<rparr>)"
    "unseen obs s (on_loop f (s\<lparr>sw_listener_fds := fds\<rparr>))" "unseen obs s (on_loop f (s\<lparr>sw_dialing_fds := fds\<rparr>))"
    for s :: "'a swarm_core" and fds f
    by (simp_all add: unseen_def ids_used_def on_loop_def)
  show "stays (core_grows C obs) (sync_listeners E current)"
    unfolding sync_listeners_def
    by (intro growth.stays_and_then stays_for_each growth.stays_reading stays_if growth.stays_return
        register_new_stays put unseen_stays unseen_fold)
  show "stays (core_grows C obs) (sync_dials E current)"
    unfolding sync_dials_def
    by (intro growth.stays_and_then stays_for_each growth.stays_reading stays_if growth.stays_return
        register_new_stays put unseen_stays unseen_fold)
qed

lemma sync_transport_stays: "stays (swarm_grows E obs) (sync_transport_fds E)"
  unfolding sync_transport_fds_def
  by (intro reading_pair growth.stays_and_then in_core_stays sync_stays)

lemma and_then_ok_stays:
  assumes "stays (grows core T I) m" and "\<And>x. stays (grows core T I) (f x)"
  shows "stays (grows core T I) (and_then_ok m f)"
  unfolding and_then_ok_def
proof (rule growth.stays_and_then [OF assms(1)])
  show "stays (grows core T I) (case r of Inl e \<Rightarrow> return_ok (Inl e) | Inr x \<Rightarrow> f x)" for r
    using assms(2) by (cases r) (simp_all only: sum.case growth.stays_return)
qed

lemma announce_stays:
  fixes obs :: "'a \<Rightarrow> swarm_event list"
  shows "stays (swarm_grows E obs) (announce_listener addr fd)"
proof (rule staysI, unfold split_paired_all)
  fix t :: "'a swarm_core tcp_transport" and s :: "'a swarm_core"
  have "core_grows (en_crypto E) obs s (dispatch_event (make_event SwListenerStarted 0 None None d) s)" for d
    by (rule dispatch_plain) (simp add: lifecycle_def)
  moreover have "transport_ok E t \<Longrightarrow> transport_ok E (snd (local_addr fd t))"
    by (simp add: local_addr_def split: list.split)
  ultimately show "swarm_grows E obs (t, s) (snd (announce_listener addr fd (t, s)))"
    by (auto simp: announce_listener_def case_prod_beta Let_def intro!: swarm_growsI)
qed

lemma listen_on_stays: "stays (swarm_grows E obs) (listen_on E addr)"
  unfolding listen_on_def
  by (intro reading_pair and_then_ok_stays in_transport_stays listen_stays growth.stays_and_then sync_transport_stays
        stays_for_each announce_stays growth.stays_return)

lemma dial_addr_stays: "stays (swarm_grows E obs) (dial_addr E addr)"
  unfolding dial_addr_def
  by (intro and_then_ok_stays in_transport_stays dial_stays growth.stays_and_then sync_transport_stays growth.stays_return)

lemma dial_peer_stays: "stays (swarm_grows E obs) (dial_peer E peer)"
  unfolding dial_peer_def
  by (intro growth.stays_reading) (auto intro: growth.stays_return dial_addr_stays split: list.split)

section \<open>Streams\<close>

text \<open>A stream's operation takes steps of its connection, and never changes which one that is.\<close>

definition kindly :: "crypto \<Rightarrow> (connection \<times> bool) nstate \<Rightarrow> (connection \<times> bool) nstate \<Rightarrow> bool" where
  "kindly C x y \<longleftrightarrow> ng_conn_id (fst y) = ng_conn_id (fst x)
     \<and> (\<forall>log. conn_reachable C log (fst (snd x)) \<longrightarrow> conn_reachable C log (fst (snd y)))"

definition gentle :: "crypto \<Rightarrow> (connection \<times> bool, 'b) action \<Rightarrow> bool" where
  "gentle C m \<longleftrightarrow> (\<forall>log x. conn_reachable C log (fst x) \<longrightarrow> conn_reachable C log (fst (snd (m x))))"

lemma gentleD: "gentle C m \<Longrightarrow> conn_reachable C log (fst x) \<Longrightarrow> conn_reachable C log (fst (snd (m x)))"
  unfolding gentle_def by blast

lemma gentle_guarded: "harmless C (\<lambda>c. snd (m c)) \<Longrightarrow> gentle C (guarded alive calls m)"
  by (auto simp: gentle_def harmless_def guarded_def case_prod_beta Let_def)

interpretation kindness: change_order "kindly C"
  by unfold_locales (auto simp: kindly_def)

lemma kind_inner: "gentle C m \<Longrightarrow> stays (kindly C) (on_inner m)"
  by (auto simp: stays_def kindly_def gentle_def on_inner_def zoom_def case_prod_beta Let_def)

lemma kind_ng: "(\<And>ng. ng_conn_id (f ng) = ng_conn_id ng) \<Longrightarrow> stays (kindly C) (on_ng f)"
  by (auto simp: stays_def kindly_def on_ng_def)

lemma kind_pair: "(\<And>ng c. stays (kindly C) (f ng c)) \<Longrightarrow> stays (kindly C) (reading (\<lambda>(ng, c). f ng c))"
  by (intro kindness.stays_reading) (simp add: case_prod_beta)

lemma kind_fail: "stays (kindly C) (fail_negotiation d)"
  unfolding fail_negotiation_def by (intro kindness.stays_and_then kind_ng kindness.stays_return) simp

lemma kind_or_fail:
  assumes "stays (kindly C) m" and "\<And>x. stays (kindly C) (f x)"
  shows "stays (kindly C) (or_fail m f)"
proof (rule staysI)
  fix st
  obtain r t where m: "m st = (r, t)" by (rule prod.exhaust)
  with assms(1) have t: "kindly C st t" by (rule staysD)
  show "kindly C st (snd (or_fail m f st))"
  proof (cases r)
    case (Inl e)
    from kindness.later [OF t stays_apply [OF kind_fail]] m Inl show ?thesis by (simp add: or_fail_def)
  next
    case (Inr x)
    from kindness.later [OF t stays_apply [OF assms(2)]] m Inr show ?thesis by (simp add: or_fail_def)
  qed
qed

lemma kind_rounds:
  assumes "\<And>n. gentle C (ms_try_read M n)"
  shows "stays (kindly C) (read_rounds rounds M)"
proof (induction rounds)
  case 0
  show ?case unfolding read_rounds.simps by (rule kindness.stays_return)
next
  case (Suc rounds)
  show ?case
  proof (rule staysI, unfold split_paired_all)
    fix ng c
    obtain r c1 where read: "ms_try_read M 1024 c = (r, c1)" by (rule prod.exhaust)
    have c1: "kindly C (ng, c) (ng', c1)" if "ng_conn_id ng' = ng_conn_id ng" for ng'
      using gentleD [OF assms, where x = c] read that unfolding kindly_def by (metis fst_conv snd_conv)
    have "kindly C (ng, c) (snd (read_rounds rounds M (ng\<lparr>ng_negotiation_buffer := buf\<rparr>, c1)))" for buf
      by (rule kindness.later [OF c1 stays_apply [OF Suc.IH]]) simp
    with c1 [of ng] read show "kindly C (ng, c) (snd (read_rounds (Suc rounds) M (ng, c)))"
      by (auto split: sum.split)
  qed
qed

lemma finish_conn_id [simp]: "ng_conn_id (finish_negotiation n ng) = ng_conn_id ng"
  by (simp add: finish_negotiation_def Let_def)

lemma kind_poll:
  assumes M: "\<And>n. gentle C (ms_try_read M n)" "\<And>d. gentle C (ms_try_write M d)"
    "gentle C (ms_close_write M)"
  shows "stays (kindly C) (StreamNegotiation.poll M)"
proof -
  have closing: "stays (kindly C) (\<lambda>(ng, c). fail_negotiation d (ng, snd (ms_close_write M c)))" for d
  proof (rule staysI, unfold split_paired_all prod.case)
    fix ng c
    have "kindly C (ng, c) (ng, snd (ms_close_write M c))"
      using gentleD [OF M(3)] by (simp add: kindly_def)
    from kindness.later [OF this stays_apply [OF kind_fail]]
    show "kindly C (ng, c) (snd (fail_negotiation d (ng, snd (ms_close_write M c))))" .
  qed
  have sends: "stays (kindly C) (send_proposal M)"
    unfolding send_proposal_def
    by (intro kind_pair kind_or_fail kindness.stays_return kind_inner M kind_ng) simp
  have reads: "stays (kindly C) (read_into_negotiation_buffer M)"
    unfolding read_into_negotiation_buffer_def by (intro kind_pair kind_rounds M)
  have response: "stays (kindly C) (take_response n)" for n
    unfolding take_response_def by (intro kind_pair kind_or_fail kindness.stays_return kind_ng) simp
  have proposal: "stays (kindly C) (take_proposal M n)" for n
    unfolding take_proposal_def
  proof (intro kind_pair kind_or_fail kindness.stays_return kind_inner M)
    fix ng :: inbound_negotiation
    show "stays (kindly C) (case in_protocol ng of
        None \<Rightarrow> (\<lambda>(ng, c). fail_negotiation ''protocol not supported'' (ng, snd (ms_close_write M c)))
      | Some proto \<Rightarrow> on_ng (\<lambda>ng. finish_negotiation n (ng\<lparr>ng_negotiated_protocol := Some proto\<rparr>)))"
      by (cases "in_protocol ng"; simp only: option.case; (rule closing | rule kind_ng, simp))
  qed
  have exchange: "stays (kindly C) (with_exchange f)" if "\<And>n. stays (kindly C) (f n)" for f
    unfolding with_exchange_def
  proof (rule kind_pair)
    fix ng :: negotiating_stream and c :: "connection \<times> bool"
    show "stays (kindly C) (case multistream_exchange_span (ng_negotiation_buffer ng) of
        Inl e \<Rightarrow> if is_incomplete_multistream_error e then return_ok () else fail_negotiation e | Inr x \<Rightarrow> f x)"
      using that by (cases "multistream_exchange_span (ng_negotiation_buffer ng)")
        (simp_all only: sum.case stays_if kindness.stays_return kind_fail)
  qed
  show ?thesis
    unfolding StreamNegotiation.poll_def
    by (intro kind_pair stays_if kindness.stays_return kindness.stays_and_then sends kind_or_fail reads exchange
        response proposal)
qed

text \<open>What the application's operations on a negotiated stream do to the connection.\<close>

lemma kind_when:
  assumes "stays (kindly C) (StreamNegotiation.poll M)" and "stays (kindly C) m"
  shows "stays (kindly C) (when_negotiated M m)"
  unfolding when_negotiated_def
  by (intro kindness.stays_and_then assms kind_pair stays_if kindness.stays_return)

lemma kind_held:
  "stays (kindly C) (StreamNegotiation.poll (held_stream C alive h))" "stays (kindly C) (ng_try_read (held_stream C alive h) n)"
  "stays (kindly C) (ng_try_write (held_stream C alive h) data)" "stays (kindly C) (ng_close_write (held_stream C alive h))"
  "stays (kindly C) (ng_reset (held_stream C alive h))"
proof -
  show p: "stays (kindly C) (StreamNegotiation.poll (held_stream C alive h))"
    by (rule kind_poll) (simp_all add: held_stream_def gentle_guarded harmless_steps)
  show "stays (kindly C) (ng_try_read (held_stream C alive h) n)"
    unfolding ng_try_read_def
    by (intro kind_when p kind_pair stays_if kind_inner)
       (auto simp: held_stream_def gentle_guarded harmless_steps Let_def
         intro!: kindness.stays_and_then kind_ng kindness.stays_return)
  show "stays (kindly C) (ng_try_write (held_stream C alive h) data)" "stays (kindly C) (ng_close_write (held_stream C alive h))"
    unfolding ng_try_write_def ng_close_write_def
    by (intro kind_when p kind_inner; simp add: held_stream_def gentle_guarded harmless_steps)+
  show "stays (kindly C) (ng_reset (held_stream C alive h))"
    unfolding ng_reset_def
    by (intro kindness.stays_and_then kind_ng kind_inner) (simp_all add: held_stream_def gentle_guarded harmless_steps)
qed

lemma on_stream_stays:
  fixes obs :: "'a \<Rightarrow> swarm_event list"
  assumes m: "\<And>h. stays (kindly (en_crypto E)) (m (held_stream (en_crypto E) True h))"
  shows "stays (core_grows (en_crypto E) obs) (on_stream E i m)"
proof (rule staysI)
  fix s :: "'a swarm_core"
  obtain ng h where st: "sw_streams s ! i = (ng, h)" by (rule prod.exhaust)
  let ?k = "ng_conn_id ng"
  show "core_grows (en_crypto E) obs s (snd (on_stream E i m s))"
  proof (cases "map_of (sw_connections s) ?k")
    case (Some c)
    obtain r ng' c' b where run: "m (held_stream (en_crypto E) True h) (ng, c, False) = (r, ng', c', b)"
      by (metis prod.exhaust)
    let ?t = "s\<lparr>sw_streams := (sw_streams s)[i := (ng', h)]\<rparr>"
    have "core_grows (en_crypto E) obs s ?t" by (rule unseen_grows) (simp add: unseen_def ids_used_def)
    moreover have "core_grows (en_crypto E) obs ?t (put_session ?k c' ?t)"
    proof (rule put_session_grows)
      show "map_of (sw_connections ?t) ?k = Some c" using Some by simp
      show "conn_reachable (en_crypto E) log c \<Longrightarrow> conn_reachable (en_crypto E) log c'" for log
        using staysD [OF m run] by (simp add: kindly_def)
    qed
    ultimately have "core_grows (en_crypto E) obs s (put_session ?k c' ?t)" by (rule growth.later)
    from growth.later [OF this loop_grows(2)] st Some run show ?thesis by (simp add: on_stream_def)
  next
    case None
    show ?thesis
    proof (cases "map_of (sw_destroyed s) ?k")
      case (Some c)
      obtain r ng' c' b where run: "m (held_stream (en_crypto E) False h) (ng, c, False) = (r, ng', c', b)"
        by (metis prod.exhaust)
      have "?k \<in> fst ` set (sw_destroyed s)" using Some by (force dest: map_of_SomeD)
      then have "unseen obs s (s\<lparr>sw_streams := (sw_streams s)[i := (ng', h)],
          sw_destroyed := AList.update ?k c' (sw_destroyed s)\<rparr>)"
        by (auto simp: unseen_def ids_used_def AList.dom_update)
      from unseen_grows [OF this] st None Some run show ?thesis by (simp add: on_stream_def)
    qed (use st None in \<open>simp add: on_stream_def growth.unchanged\<close>)
  qed
qed

lemma call_handler_grows: "core_grows C obs s (call_handler_ready i ng proto s)"
proof (rule growsI)
  show "ids_used s \<subseteq> ids_used (call_handler_ready i ng proto s)"
    by (simp add: call_handler_ready_def ids_used_def split: option.split)
  assume inv: "core_inv C obs s"
  have "obs (sw_app (call_handler_ready i ng proto s)) = obs (sw_app s)"
  proof (cases "find_handler proto s")
    case (Some h)
    then have "h \<in> set (sw_handlers s)" by (auto simp: find_handler_def find_Some_iff)
    with inv have "leaves obs h" by (simp add: core_inv_def)
    with Some show ?thesis by (simp add: call_handler_ready_def leaves_def)
  qed (simp add: call_handler_ready_def)
  then have "unseen obs s (call_handler_ready i ng proto s)"
    by (simp add: unseen_def call_handler_ready_def ids_used_def split: option.split)
  with inv show "core_inv C obs (call_handler_ready i ng proto s)"
    by (simp add: unseen_def core_inv_def session_ok_def ids_ok_def routes_ok_def identified_def)
qed

lemma stays_negotiated:
  assumes "\<And>proto. stays R (f proto)" and "stays R g"
  shows "stays R (case b of True \<Rightarrow> (case p of None \<Rightarrow> g | Some proto \<Rightarrow> f proto) | False \<Rightarrow> g)"
  using assms by (auto split: bool.split option.split)

lemma poll_entry_stays: "stays (core_grows (en_crypto E) obs) (poll_entry E (key, i))"
proof -
  have plain: "core_grows C obs s (dispatch_event (make_event SwProtocolError k sid p d) s)"
    "core_grows C obs s (call_handler_ready i ng proto (dispatch_event (make_event SwProtocolNegotiated k sid p d) s))"
    for C s k sid p d i ng proto
    by (auto intro: growth.later [OF dispatch_plain call_handler_grows] dispatch_plain simp: lifecycle_def)
  show ?thesis
    unfolding poll_entry_def prod.case Let_def
    by (intro growth.stays_and_then on_stream_stays kind_held growth.stays_reading stays_if growth.stays_return
      growth.stays_update plain stays_negotiated)
qed

lemma poll_pending_stays: "stays (core_grows (en_crypto E) obs) (poll_pending_streams E)"
  unfolding poll_pending_streams_def Let_def
  by (intro growth.stays_reading growth.stays_and_then stays_for_each unseen_stays)
     (auto simp: unseen_def ids_used_def poll_entry_stays)

lemma open_stream_stays:
  fixes obs :: "'a \<Rightarrow> swarm_event list"
  shows "stays (core_grows (en_crypto E) obs) (open_stream_on E k proto)"
proof (rule staysI)
  fix s :: "'a swarm_core"
  obtain r s1 where w: "with_session k (request_open_stream (en_crypto E) proto) s = (r, s1)" by (rule prod.exhaust)
  have s1: "core_grows (en_crypto E) obs s s1"
    using with_session_grows [OF harmless_steps(7), where obs = obs and s = s and k = k] w by (metis snd_conv)
  have rest: "stays (core_grows (en_crypto E) obs)
      (and_then (update (drain_one k)) (\<lambda>_. and_then (poll_pending_streams E) (\<lambda>_. return_ok x)))" for x :: "nat result"
    by (intro growth.stays_and_then growth.stays_update drain_one_grows poll_pending_stays growth.stays_return)
  have opened: "core_grows (en_crypto E) obs s (snd (let (i, s2) = new_stream_entry ng h sid s1
      in and_then (update (drain_one k)) (\<lambda>_. and_then (poll_pending_streams E) (\<lambda>_. return_ok (Inr i))) s2))"
    for ng h sid
  proof -
    obtain i s2 where n: "new_stream_entry ng h sid s1 = (i, s2)" by (rule prod.exhaust)
    with new_stream_entry_unseen [of obs s1 ng h sid] have "core_grows (en_crypto E) obs s1 s2"
      by (intro unseen_grows) simp
    from growth.later [OF growth.later [OF s1 this] stays_apply [OF rest]] n show ?thesis by simp
  qed
  show "core_grows (en_crypto E) obs s (snd (open_stream_on E k proto s))"
  proof (cases r)
    case None
    with w s1 show ?thesis by (simp add: open_stream_on_def)
  next
    case (Some res)
    show ?thesis
    proof (cases res)
      case (Inl e)
      with w s1 Some show ?thesis by (simp add: open_stream_on_def)
    next
      case (Inr h)
      show ?thesis unfolding open_stream_on_def w Some Inr prod.case option.case sum.case Let_def [of "case _ of None \<Rightarrow> _ | Some c \<Rightarrow> _ c"]
        by (rule opened)
    qed
  qed
qed

lemma open_stream_to_stays: "stays (core_grows (en_crypto E) obs) (open_stream_to E peer proto)"
  unfolding open_stream_to_def
proof (rule growth.stays_reading)
  fix s
  show "stays (core_grows (en_crypto E) obs) (case sw_peer_connections s (peer_id_to_string peer) of
      None \<Rightarrow> return_ok (Inl ''no active connection for peer'') | Some k \<Rightarrow> open_stream_on E k proto)"
    by (cases "sw_peer_connections s (peer_id_to_string peer)")
       (simp_all only: option.case growth.stays_return open_stream_stays)
qed

section \<open>A poll\<close>

text \<open>The event loop only runs callbacks and changes itself.\<close>

lemma poll_stays:
  assumes put: "\<And>l s. grows core T I s (put l s)"
    and calls: "\<And>cb ev. stays (grows core T I) (call cb ev)" "\<And>cb. stays (grows core T I) (tick cb)"
  shows "stays (grows core T I) (poll_with_timeout get put call tick events now later)"
proof -
  have handler: "stays (grows core T I) (call_handler get call v i ev)" for v i ev
    unfolding call_handler_def by (intro growth.stays_reading stays_if growth.stays_return calls)
  have dispatch: "stays (grows core T I) (dispatch_event_to get call ev)" for ev
    unfolding dispatch_event_to_def
  proof (rule growth.stays_reading)
    fix s
    show "stays (grows core T I) (case handler_position (ee_fd ev) (el_fd_handlers (get s)) of None \<Rightarrow> return_ok ()
        | Some i \<Rightarrow> and_then (for_each (call_handler get call (el_version (get s)) i) (flags_of ev)) (\<lambda>_. return_ok ()))"
      by (cases "handler_position (ee_fd ev) (el_fd_handlers (get s))"; simp only: option.case)
         (intro growth.stays_return growth.stays_and_then stays_for_each handler)+
  qed
  have "stays (grows core T I) (fire_one get put tick now v i)" for v i
    unfolding fire_one_def Let_def
    by (intro growth.stays_reading stays_if growth.stays_return growth.stays_and_then calls growth.stays_update put)
  then have "stays (grows core T I) (fire_timers get put tick now later)"
    unfolding fire_timers_def by (intro growth.stays_reading growth.stays_and_then stays_for_each growth.stays_update put)
  then show ?thesis
    unfolding poll_with_timeout_def by (intro growth.stays_and_then stays_for_each dispatch)
qed

lemma set_loop_grows: "swarm_grows E obs st (set_loop l st)"
  by (cases st) (auto simp: set_loop_def unseen_def ids_used_def intro!: swarm_growsI unseen_grows)

lemma loop_call_stays:
  fixes obs :: "'a \<Rightarrow> swarm_event list"
  shows "stays (swarm_grows E obs) (loop_call E cb ev)"
proof (cases cb)
  case (ConnectionIo fd)
  let ?f = "case ev of Readable \<Rightarrow> on_socket_readable (en_crypto E) | Writable \<Rightarrow> on_socket_writable | IoError \<Rightarrow> close"
  have "core_grows (en_crypto E) obs s (on_connection k ?f s)" for s and k
    by (rule on_connection_grows) (cases ev; simp add: harmless_steps)
  then show ?thesis unfolding loop_call_def ConnectionIo loop_callback.case
    by (intro in_core_stays growth.stays_update) (simp add: growth.unchanged split: option.split)
qed (simp_all only: loop_call_def loop_callback.case,
     (intro stays_if in_transport_stays on_accept_ready_stays on_connect_ready_stays growth.stays_return)+)

lemma ignoring_stays: "stays (grows core T I) m \<Longrightarrow> stays (grows core T I) (ignoring m)"
  unfolding ignoring_def by (intro growth.stays_and_then growth.stays_return)

lemma apply_action_stays: "stays (swarm_grows E obs) (apply_action E act)"
proof -
  have close: "core_grows (en_crypto E) obs s (if map_of (sw_connections s) k = None then s
      else drain_connection_events E (on_connection k close s))" for s k
    by (simp add: growth.unchanged growth.later [OF on_connection_grows [OF harmless_steps(4)] drain_connection_events_grows])
  show ?thesis
  proof (cases "ac_type act")
    case ActDialAddr
    then show ?thesis by (cases "ac_addr act"; simp only: apply_action_def action_type.case option.case)
        (intro growth.stays_return ignoring_stays dial_addr_stays)+
  next
    case ActDialPeer
    then show ?thesis by (cases "ac_peer_id act"; simp only: apply_action_def action_type.case option.case)
        (intro growth.stays_return ignoring_stays dial_peer_stays)+
  next
    case ActCloseConnection
    then show ?thesis by (cases "ac_connection_id act"; simp only: apply_action_def action_type.case option.case)
        (intro growth.stays_return in_core_stays growth.stays_update close)+
  next
    case ActOpenStream
    then show ?thesis by (cases "ac_connection_id act"; cases "ac_protocol_id act";
        simp only: apply_action_def action_type.case option.case prod.case)
        (intro growth.stays_return ignoring_stays in_core_stays open_stream_stays)+
  next
    case ActSendPing
    then show ?thesis by (simp only: apply_action_def action_type.case growth.stays_return)
  qed
qed

lemma tick_grows:
  "core_grows C obs s (tick_handlers s)" "core_grows C obs s (snd (tick_controller s))"
proof -
  have fold: "obs (fold ph_on_tick hs app) = obs app" if "\<forall>h \<in> set hs. leaves obs h" for hs app
    using that by (induction hs arbitrary: app) (auto simp: leaves_def)
  have h: "ids_used s = ids_used (tick_handlers s)" "ids_used s = ids_used (snd (tick_controller s))"
    by (simp_all add: tick_handlers_def tick_controller_def ids_used_def case_prod_beta Let_def)
  have "unseen obs s (tick_handlers s)" "unseen obs s (snd (tick_controller s))" if "core_inv C obs s"
    using that fold [of "sw_handlers s"]
    by (auto simp: core_inv_def watches_def unseen_def tick_handlers_def tick_controller_def ids_used_def
        case_prod_beta Let_def)
  then have "core_inv C obs (tick_handlers s)" "core_inv C obs (snd (tick_controller s))" if "core_inv C obs s"
    using that by (simp_all add: unseen_def core_inv_def session_ok_def ids_ok_def routes_ok_def identified_def)
  with h show "core_grows C obs s (tick_handlers s)" "core_grows C obs s (snd (tick_controller s))"
    by (auto intro: growsI)
qed

lemma poll_once_stays: "stays (swarm_grows E obs) (poll_once E events now later)"
proof -
  have tick: "stays (core_grows C obs) (\<lambda>s. let (actions, s') = tick_controller s in (Inr actions, s'))" for C
    using tick_grows(2) by (auto simp: stays_def case_prod_beta Let_def)
  show ?thesis
    unfolding poll_once_def
    by (intro growth.stays_and_then sync_transport_stays poll_stays set_loop_grows loop_call_stays growth.stays_return
        in_core_stays growth.stays_update drain_connection_events_grows poll_pending_stays tick_grows(1) tick
        ignoring_stays stays_for_each apply_action_stays)
qed

lemma stop_core_ids: "ids_used (stop_core s) = ids_used s"
proof -
  have "fst ` set (fold (\<lambda>(k, c). AList.update k c) xs d) = fst ` set xs \<union> fst ` set d" for xs d :: "(u64 \<times> connection) list"
  proof (induction xs arbitrary: d)
    case (Cons x xs)
    show ?case by (cases x) (simp add: Cons.IH AList.dom_update)
  qed simp
  then show ?thesis by (auto simp: stop_core_def ids_used_def on_loop_def Let_def image_image case_prod_beta)
qed

lemma stop_core_inv:
  assumes i: "core_inv C obs s"
  shows "core_inv C obs (stop_core s)"
proof -
  have ids: "ids_used (stop_core s) = ids_used s" by (rule stop_core_ids)
  have "session_ok C obs (stop_core s) j" for j
  proof -
    from i have "session_ok C obs s j" by (simp add: core_inv_def)
    then obtain log where "log_run LogUpgrading log \<noteq> None" "pictured log (about obs j s)"
      unfolding session_ok_def by blast
    then show ?thesis unfolding session_ok_def
      by (intro exI [of _ log]) (simp add: stop_core_def on_loop_def Let_def)
  qed
  moreover have "routes_ok obs (stop_core s)" by (simp add: routes_ok_def stop_core_def on_loop_def Let_def)
  ultimately show ?thesis using i ids
    by (simp add: core_inv_def ids_ok_def) (simp add: stop_core_def on_loop_def Let_def)
qed

lemma stop_stays:
  fixes obs :: "'a \<Rightarrow> swarm_event list"
  shows "stays (swarm_grows E obs) stop_swarm"
proof (rule staysI, unfold split_paired_all)
  fix t :: "'a swarm_core tcp_transport" and s :: "'a swarm_core"
  have "core_grows (en_crypto E) obs s (stop_core s)"
    by (rule growsI) (simp_all add: stop_core_ids stop_core_inv)
  then have "swarm_grows E obs (t, s) (new_transport (tt_kernel (close_all t)), stop_core s)"
    by (intro swarm_growsI) (simp_all add: transport_ok_def new_transport_def)
  then show "swarm_grows E obs (t, s) (snd (stop_swarm (t, s)))" by (simp add: stop_swarm_def)
qed

section \<open>Histories of a swarm\<close>

definition give_kernel :: "(tcp_kernel \<Rightarrow> tcp_kernel) \<Rightarrow> 'a swarm \<Rightarrow> 'a swarm" where
  "give_kernel f st = (with_kernel f (fst st), snd st)"

definition on_core :: "('a swarm_core \<Rightarrow> 'a swarm_core) \<Rightarrow> 'a swarm \<Rightarrow> 'a swarm" where
  "on_core f st = (fst st, f (snd st))"

text \<open>Any sequence of the owner's calls, with any answers of the kernel to the transport, the sessions
  and the event loop, and any controllers and handlers that respect \<open>obs\<close>.\<close>

inductive swarm_reachable :: "swarm_env \<Rightarrow> ('a \<Rightarrow> swarm_event list) \<Rightarrow> 'a swarm \<Rightarrow> bool" for E obs where
  fresh: "watches obs ctl \<Longrightarrow> obs app = []
    \<Longrightarrow> swarm_reachable E obs (new_transport k, new_swarm_core store identity muxers ctl app)"
| kernel: "swarm_reachable E obs st \<Longrightarrow> swarm_reachable E obs (give_kernel f st)"
| epoll: "swarm_reachable E obs st \<Longrightarrow> swarm_reachable E obs (on_core (on_loop (el_refused_update g)) st)"
| socket: "swarm_reachable E obs st
    \<Longrightarrow> swarm_reachable E obs (on_core (on_connection conn_id (set_kernel rs ss err)) st)"
| starts: "swarm_reachable E obs st \<Longrightarrow> swarm_reachable E obs (snd (start_swarm E st))"
| stops: "swarm_reachable E obs st \<Longrightarrow> swarm_reachable E obs (snd (stop_swarm st))"
| listens: "swarm_reachable E obs st \<Longrightarrow> swarm_reachable E obs (snd (listen_on E addr st))"
| dials: "swarm_reachable E obs st \<Longrightarrow> swarm_reachable E obs (snd (dial_addr E addr st))"
| dials_peer: "swarm_reachable E obs st \<Longrightarrow> swarm_reachable E obs (snd (dial_peer E peer st))"
| opens: "swarm_reachable E obs st \<Longrightarrow> swarm_reachable E obs (snd (in_core (open_stream_on E conn_id proto) st))"
| opens_to: "swarm_reachable E obs st \<Longrightarrow> swarm_reachable E obs (snd (in_core (open_stream_to E peer proto) st))"
| handles: "swarm_reachable E obs st \<Longrightarrow> leaves obs h \<Longrightarrow> swarm_reachable E obs (on_core (register_handler h) st)"
| controls: "swarm_reachable E obs st \<Longrightarrow> watches obs ctl \<Longrightarrow> swarm_reachable E obs (on_core (set_controller ctl) st)"
| polls: "swarm_reachable E obs st \<Longrightarrow> swarm_reachable E obs (snd (poll_once E events now later st))"
| takes: "swarm_reachable E obs st \<Longrightarrow> swarm_reachable E obs (on_core (\<lambda>s. snd (swarm_next_event s)) st)"
| reads: "swarm_reachable E obs st
    \<Longrightarrow> swarm_reachable E obs (snd (in_core (on_stream E i (\<lambda>M. ng_try_read M n)) st))"
| writes: "swarm_reachable E obs st
    \<Longrightarrow> swarm_reachable E obs (snd (in_core (on_stream E i (\<lambda>M. ng_try_write M data)) st))"
| closes_write: "swarm_reachable E obs st
    \<Longrightarrow> swarm_reachable E obs (snd (in_core (on_stream E i ng_close_write) st))"
| resets: "swarm_reachable E obs st \<Longrightarrow> swarm_reachable E obs (snd (in_core (on_stream E i ng_reset) st))"

definition swarm_inv :: "swarm_env \<Rightarrow> ('a \<Rightarrow> swarm_event list) \<Rightarrow> 'a swarm \<Rightarrow> bool" where
  "swarm_inv E obs st \<longleftrightarrow> transport_ok E (fst st) \<and> (few (snd st) \<longrightarrow> core_inv (en_crypto E) obs (snd st))"

lemma inv_grows: "swarm_grows E obs st st' \<Longrightarrow> swarm_inv E obs st \<Longrightarrow> swarm_inv E obs st'"
  unfolding swarm_inv_def grows_def using few_mono [of "snd st" "snd st'"] by blast

lemma inv_stays: "stays (swarm_grows E obs) m \<Longrightarrow> swarm_inv E obs st \<Longrightarrow> swarm_inv E obs (snd (m st))"
  by (rule inv_grows) (rule stays_apply [where R = "swarm_grows E obs"])

lemma on_core_grows: "core_grows (en_crypto E) obs (snd st) (f (snd st)) \<Longrightarrow> swarm_grows E obs st (on_core f st)"
  by (cases st) (auto simp: on_core_def intro!: swarm_growsI)

lemma fresh_core_inv:
  assumes "watches obs ctl" and "obs app = []"
  shows "core_inv C obs (new_swarm_core store identity muxers ctl app)"
proof -
  let ?s = "new_swarm_core store identity muxers ctl app"
  have "session_ok C obs ?s k" for k
    unfolding session_ok_def using pictured.nothing assms(2)
    by (intro exI [of _ "[]"]) (simp add: new_swarm_core_def about_in_def)
  with assms show ?thesis
    by (simp add: core_inv_def ids_ok_def routes_ok_def ids_used_def about_in_def new_swarm_core_def)
qed

lemma settings_grow:
  "leaves obs h \<Longrightarrow> core_grows C obs s (register_handler h s)"
  "watches obs ctl \<Longrightarrow> core_grows C obs s (set_controller ctl s)"
  by (auto simp: register_handler_def set_controller_def core_inv_def session_ok_def ids_ok_def routes_ok_def
      identified_def ids_used_def intro!: growsI)

lemma next_event_unseen: "unseen obs s (snd (swarm_next_event s))"
  by (simp add: swarm_next_event_def unseen_def ids_used_def split: list.split)

lemma swarm_reachable_inv: "swarm_reachable E obs st \<Longrightarrow> swarm_inv E obs st"
proof (induction rule: swarm_reachable.induct)
  case (fresh ctl app)
  then show ?case by (simp add: swarm_inv_def fresh_core_inv transport_ok_def new_transport_def)
next
  case (kernel st f)
  then show ?case by (simp add: swarm_inv_def give_kernel_def)
next
  case (epoll st g)
  from epoll.IH show ?case by (rule inv_grows [rotated]) (intro on_core_grows loop_grows)
next
  case (socket st)
  from socket.IH show ?case by (rule inv_grows [rotated]) (intro on_core_grows on_connection_grows harmless_steps)
next
  case (starts st)
  from starts.IH show ?case
    by (rule inv_stays [rotated]) (unfold start_swarm_def, intro growth.stays_and_then sync_transport_stays growth.stays_return)
next
  case (handles st h)
  then show ?case by (intro inv_grows [OF on_core_grows]) (simp_all add: settings_grow)
next
  case (controls st ctl)
  then show ?case by (intro inv_grows [OF on_core_grows]) (simp_all add: settings_grow)
next
  case (takes st)
  then show ?case by (intro inv_grows [OF on_core_grows]) (simp_all add: unseen_grows next_event_unseen)
qed (erule inv_stays [rotated],
     intro stop_stays listen_on_stays dial_addr_stays dial_peer_stays in_core_stays open_stream_stays open_stream_to_stays
       poll_once_stays on_stream_stays kind_held)+

end
