(* ===== verification/SwarmProperties.thy ===== *)
theory SwarmProperties
  imports SwarmInvariant
begin

text \<open>
  The properties of the swarm: what the application sees of its connections, whose connections
  streams are opened on, and three faults of the bookkeeping.

  The faults: a descriptor that the kernel reuses before the old session's end has been handled
  loses its registration with it; the end of one of two connections to a peer makes the other
  unreachable by peer id; stopping leaves pending streams behind whose sessions are gone.
\<close>

section \<open>How a session starts\<close>

lemma begins:
  assumes "c = set_kernel [] ss None (new_connection k fd addr b identity muxers draws)" and "0 \<le> fd" and "b \<Longrightarrow> ss = []"
  shows "b \<Longrightarrow> fst (begin_outbound_upgrade c) = Inr ()" "\<not> b \<Longrightarrow> begin_inbound_upgrade c = (Inr (), begin_upgrade True c)"
    "b \<Longrightarrow> cn_event_queue (snd (begin_outbound_upgrade c)) = []" "cn_event_queue (begin_upgrade True c) = []"
    "b \<Longrightarrow> is_active (snd (begin_outbound_upgrade c))" "is_active (begin_upgrade True c)"
    "b \<Longrightarrow> io_socket_open (cn_io (snd (begin_outbound_upgrade c)))" "io_socket_open (cn_io (begin_upgrade True c))"
  using assms
  by (simp_all add: begin_outbound_upgrade_def begin_inbound_upgrade_def hello_exchange(3) queue_raw_then
      flush_pending_blocked begin_upgrade_def new_connection_def new_io_def is_active_def map_secure_def set_io_def
      set_kernel_def)

lemma drain_quiet: "queue_of k s = [] \<Longrightarrow> drain_connection_events_for k (s, closed) = (s, closed)"
  by (auto simp: drain_connection_events_for.simps queue_of_def next_event_def split: option.split)

lemma drain_one_quiet: "queue_of k s = [] \<Longrightarrow> drain_one k s = s"
  by (simp add: drain_one_def drain_quiet remove_all_def)

text \<open>The session and the registration of a socket, when the loop accepts it.\<close>

definition session_entered :: "u64 \<Rightarrow> int \<Rightarrow> connection \<Rightarrow> 'a swarm_core \<Rightarrow> 'a swarm_core" where
  "session_entered k fd c s =
     put_session k c (s\<lparr>sw_next_conn_id := k + 1, sw_conn_fds := AList.update k fd (sw_conn_fds s),
       sw_fd_to_conn := (sw_fd_to_conn s)(fd \<mapsto> k), sw_event_loop := snd (register_fd fd (ConnectionIo fd) (sw_event_loop s))\<rparr>)"

definition can_register :: "int \<Rightarrow> 'a swarm_core \<Rightarrow> bool" where
  "can_register fd s \<longleftrightarrow> 0 \<le> fd \<and> fd \<notin> set (sw_dialing_fds s) \<and> fd \<notin> set (el_interest (sw_event_loop s))
     \<and> fd \<notin> set (el_refused (sw_event_loop s))"

lemma update_twice: "AList.update k v (AList.update k w al) = AList.update k v al"
  by (induction al) auto

lemma put_session_twice: "put_session k c (put_session k d s) = put_session k c s"
  by (simp add: put_session_def update_twice)

lemma new_session_entered:
  assumes "can_register (so_fd socket) s"
  shows "new_session_entry E b socket s =
    (Inr (sw_next_conn_id s), session_entered (sw_next_conn_id s) (so_fd socket)
      (set_kernel [] (en_sends E (sw_next_conn_id s)) None
        ((if b then make_outbound_connection_session else make_inbound_connection_session) (sw_next_conn_id s)
         (so_fd socket) (so_remote_addr socket) (sw_local_identity s) (sw_local_stream_muxers s)
         (en_draws E (sw_next_conn_id s)))) s)"
  using assms
  by (simp add: new_session_entry_def session_entered_def register_connection_def put_session_def in_loop_def zoom_def
      register_fd_def can_register_def and_then_def Let_def update_def)

lemma upgrade_started:
  assumes "map_of (sw_connections s) k = Some c" and "m c = (Inr (), c')" and "io_socket_open (cn_io c')"
    and "cn_event_queue c' = []"
  shows "start_upgrade m k s = put_session k c' s"
  using assms by (simp add: start_upgrade_def with_session_def note_closed_def drain_one_quiet)

definition inbound_session :: "swarm_env \<Rightarrow> tcp_socket \<Rightarrow> 'a swarm_core \<Rightarrow> connection" where
  "inbound_session E socket s = begin_upgrade True (set_kernel [] (en_sends E (sw_next_conn_id s)) None
     (make_inbound_connection_session (sw_next_conn_id s) (so_fd socket) (so_remote_addr socket)
        (sw_local_identity s) (sw_local_stream_muxers s) (en_draws E (sw_next_conn_id s))))"

definition outbound_session :: "swarm_env \<Rightarrow> tcp_socket \<Rightarrow> 'a swarm_core \<Rightarrow> connection" where
  "outbound_session E socket s = snd (begin_outbound_upgrade (set_kernel [] (en_sends E (sw_next_conn_id s)) None
     (make_outbound_connection_session (sw_next_conn_id s) (so_fd socket) (so_remote_addr socket)
        (sw_local_identity s) (sw_local_stream_muxers s) (en_draws E (sw_next_conn_id s)))))"

lemma entered_fields [simp]:
  "map_of (sw_connections (session_entered k fd c s)) = (map_of (sw_connections s))(k \<mapsto> c)"
  "sw_conn_fds (session_entered k fd c s) = AList.update k fd (sw_conn_fds s)"
  "sw_event_loop (session_entered k fd c s) = snd (register_fd fd (ConnectionIo fd) (sw_event_loop s))"
  "sw_fd_to_conn (session_entered k fd c s) = (sw_fd_to_conn s)(fd \<mapsto> k)"
  "ids_used (session_entered k fd c s) = insert k (ids_used s)"
  by (auto simp: session_entered_def put_session_def map_of_update ids_used_def AList.dom_update)

lemma accepted_enters:
  assumes "can_register (so_fd socket) s"
  shows "accepted_socket E socket s =
    (Inr (), put_session (sw_next_conn_id s) (inbound_session E socket s)
       (dispatch_event (make_event SwIncomingConnection (sw_next_conn_id s) None None
          (multiaddr_to_string (so_remote_addr socket)))
       (session_entered (sw_next_conn_id s) (so_fd socket)
          (set_kernel [] (en_sends E (sw_next_conn_id s)) None
            (make_inbound_connection_session (sw_next_conn_id s) (so_fd socket) (so_remote_addr socket)
               (sw_local_identity s) (sw_local_stream_muxers s) (en_draws E (sw_next_conn_id s)))) s)))"
proof -
  have "0 \<le> so_fd socket" using assms by (simp add: can_register_def)
  note begun = begins [where b = False, OF refl this, folded make_inbound_connection_session_def, simplified]
  show ?thesis
    by (simp add: accepted_socket_def and_then_def new_session_entered [OF assms] inbound_session_def
        upgrade_started [where m = begin_inbound_upgrade] begun)
qed

lemma connected_enters:
  assumes "can_register (so_fd socket) s" and "en_sends E (sw_next_conn_id s) = []"
  shows "connected_socket E socket s =
    (Inr (), put_session (sw_next_conn_id s) (outbound_session E socket s)
       (session_entered (sw_next_conn_id s) (so_fd socket)
          (set_kernel [] (en_sends E (sw_next_conn_id s)) None
            (make_outbound_connection_session (sw_next_conn_id s) (so_fd socket) (so_remote_addr socket)
               (sw_local_identity s) (sw_local_stream_muxers s) (en_draws E (sw_next_conn_id s)))) s))"
proof -
  have "0 \<le> so_fd socket" using assms by (simp add: can_register_def)
  note begun = begins [where b = True, OF refl this, folded make_outbound_connection_session_def, simplified]
  then have "begin_outbound_upgrade c = (Inr (), snd (begin_outbound_upgrade c))"
    if "c = set_kernel [] [] None (make_outbound_connection_session k (so_fd socket) addr identity muxers draws)"
    for c k addr identity muxers draws
    using that by (metis prod.collapse)
  note begun' = this [OF refl]
  show ?thesis unfolding connected_socket_def
    by (simp add: and_then_def new_session_entered [OF assms(1)] outbound_session_def assms(2)
        upgrade_started [where m = begin_outbound_upgrade, OF _ begun' begun(7,3)])
qed

section \<open>A swarm that dials\<close>

text \<open>A controller that records what it is given; a swarm whose first socket is connected at once.\<close>

definition recorder :: "swarm_event list controller" where
  "recorder = \<lparr>ct_on_swarm_event = (\<lambda>ev log. log @ [ev]), ct_on_timer_tick = (\<lambda>log. log),
     ct_drain_actions = (\<lambda>log. ([], log))\<rparr>"

definition toy_env :: swarm_env where
  "toy_env = \<lparr>en_crypto = toy_crypto, en_draws = (\<lambda>_. toy_draws), en_sends = (\<lambda>_. []), en_order = (\<lambda>ks. ks), en_fd_order = (\<lambda>fds. fds)\<rparr>"

definition toy_address :: multiaddr where "toy_address = from_ip4_tcp ''127.0.0.1'' 4001"

definition toy_socket :: tcp_socket where "toy_socket = \<lparr>so_fd = 5, so_remote_addr = toy_address\<rparr>"

definition toy_core :: "swarm_event list swarm_core" where
  "toy_core = new_swarm_core [] None [] recorder []"

definition toy_start :: "swarm_event list swarm" where
  "toy_start = (new_transport (new_kernel\<lparr>tk_results := map SysOk [5, 0, 0, 0, 0]\<rparr>), toy_core)"

definition toy_dialed :: "swarm_event list swarm" where
  "toy_dialed = snd (dial_addr toy_env toy_address toy_start)"

lemma toy_sockaddr: "to_sockaddr toy_address = Inr \<lparr>sa_addr = [127, 0, 0, 1], sa_port = 4001\<rparr>"
  by (rule sockaddr_round_trip) (simp_all add: from_sockaddr_def toy_address_def decimal_digits.simps)

lemma toy_fields:
  "can_register (so_fd toy_socket) toy_core" "sw_next_conn_id toy_core = 1" "sw_connections toy_core = []"
  "ids_used toy_core = {}"
  by (simp_all add: can_register_def toy_socket_def toy_core_def new_swarm_core_def new_event_loop_def ids_used_def)

lemmas toy_entered = connected_enters [OF toy_fields(1), of toy_env, unfolded toy_env_def swarm_env.simps,
  OF refl, folded toy_env_def]

lemma toy_dial:
  "dial toy_address (dial_callbacks toy_env) toy_start =
     (Inr (Inr ()), with_kernel (\<lambda>k. k\<lparr>tk_handed := [5]\<rparr>) (new_transport (new_kernel\<lparr>tk_opened := [5]\<rparr>)),
      snd (connected_socket toy_env toy_socket toy_core))"
proof -
  have "connected_socket toy_env \<lparr>so_fd = 5, so_remote_addr = toy_address\<rparr> toy_core
      = (Inr (), snd (connected_socket toy_env toy_socket toy_core))"
    using toy_entered by (simp add: toy_socket_def)
  then show ?thesis
    by (simp add: dial_def toy_sockaddr toy_start_def in_kernel_def create_connect_socket_def open_socket_def
      and_then_def checked_call_def sys_call_def new_transport_def new_kernel_def closing_on_error_def set_flags_def
      set_socket_common_flags_def set_nonblocking_def connect_socket_def hand_over_def dial_callbacks_def Let_def
      with_kernel_def)
qed

lemma sync_idle:
  assumes "listener_fds t = []" "dialing_fds t = []" "sw_listener_fds s = []" "sw_dialing_fds s = []"
  shows "sync_transport_fds toy_env (t, s) = (Inr (), t, s)"
  using assms
  by (simp add: sync_transport_fds_def sync_listeners_def sync_dials_def in_core_def zoom_def toy_env_def and_then_def)

lemma toy_dialed_core:
  "snd toy_dialed = on_loop id (snd (connected_socket toy_env toy_socket toy_core))"
proof -
  have no_fds: "listener_fds (with_kernel f (new_transport k)) = []" "dialing_fds (with_kernel f (new_transport k)) = []"
    for f k by (simp_all add: listener_fds_def dialing_fds_def new_transport_def)
  have "sw_listener_fds (snd (connected_socket toy_env toy_socket toy_core)) = []"
      "sw_dialing_fds (snd (connected_socket toy_env toy_socket toy_core)) = []"
    using toy_entered
    by (simp_all add: session_entered_def put_session_def toy_core_def new_swarm_core_def)
  moreover have "in_transport (dial toy_address (dial_callbacks toy_env)) toy_start =
      (Inr (Inr ()), with_kernel (\<lambda>k. k\<lparr>tk_handed := [5]\<rparr>) (new_transport (new_kernel\<lparr>tk_opened := [5]\<rparr>)),
       snd (connected_socket toy_env toy_socket toy_core))"
    by (simp add: in_transport_def toy_dial)
       (simp add: transport_closed_def on_loop_def toy_start_def new_kernel_def new_transport_def)
  ultimately show ?thesis
    by (simp add: toy_dialed_def dial_addr_def and_then_ok_def and_then_def sync_idle no_fds on_loop_def)
qed

lemma toy_dialed_fields:
  "ids_used (snd toy_dialed) = {1}" "sw_app (snd toy_dialed) = []"
  "map_of (sw_connections (snd toy_dialed)) 1 = Some (outbound_session toy_env toy_socket toy_core)"
proof -
  note entered = toy_dialed_core toy_entered
  show "ids_used (snd toy_dialed) = {1}"
    unfolding entered by (simp add: on_loop_def ids_used_def toy_fields session_entered_def put_session_def)
      (simp add: toy_core_def new_swarm_core_def)
  show "sw_app (snd toy_dialed) = []"
    unfolding entered by (simp add: on_loop_def session_entered_def toy_core_def new_swarm_core_def)
  show "map_of (sw_connections (snd toy_dialed)) 1 = Some (outbound_session toy_env toy_socket toy_core)"
    unfolding entered by (simp add: on_loop_def toy_fields)
qed

lemma toy_reachable: "swarm_reachable toy_env (\<lambda>log. log) toy_dialed"
  unfolding toy_dialed_def toy_start_def toy_core_def
  by (intro swarm_reachable.intros) (simp_all add: watches_def recorder_def)

section \<open>Faults of the bookkeeping\<close>

text \<open>Draining when a single session has anything to tell, and that is its end.\<close>

lemma queue_put_other: "j \<noteq> k \<Longrightarrow> queue_of j (put_session k c s) = queue_of j s"
  by (simp add: queue_of_def)

lemma drain_end:
  assumes "map_of (sw_connections s) k = Some c" and "cn_event_queue c = [ev]" and "ev_type ev = EvClosed"
  shows "drain_connection_events_for k (s, closed) =
    (dispatch_event (make_event SwConnectionClosed k (ev_stream_id ev) None (ev_detail ev))
       (put_session k (c\<lparr>cn_event_queue := []\<rparr>) s), closed @ [k])"
proof -
  have "next_event c = (Some ev, c\<lparr>cn_event_queue := []\<rparr>)" using assms(2) by (simp add: next_event_def)
  with assms show ?thesis
    by (subst drain_connection_events_for.simps)
       (simp add: handle_connection_event_def Let_def drain_quiet queue_of_def)
qed

lemma drain_all_quiet: "\<forall>k \<in> set ks. queue_of k s = [] \<Longrightarrow> fold drain_connection_events_for ks (s, closed) = (s, closed)"
  by (induction ks) (simp_all add: drain_quiet)

lemma drain_one_end:
  assumes "map_of (sw_connections s) k = Some c" and "cn_event_queue c = [ev]" and "ev_type ev = EvClosed"
    and others: "\<forall>j. j \<noteq> k \<longrightarrow> queue_of j s = []" and once: "k \<in> set (en_order E (map fst (sw_connections s)))"
      "distinct (en_order E (map fst (sw_connections s)))"
  shows "drain_connection_events E s = remove_connection k
    (dispatch_event (make_event SwConnectionClosed k (ev_stream_id ev) None (ev_detail ev))
       (put_session k (c\<lparr>cn_event_queue := []\<rparr>) s))"
proof -
  let ?t = "dispatch_event (make_event SwConnectionClosed k (ev_stream_id ev) None (ev_detail ev))
       (put_session k (c\<lparr>cn_event_queue := []\<rparr>) s)"
  from once obtain xs ys where order: "en_order E (map fst (sw_connections s)) = xs @ k # ys" "k \<notin> set xs"
    by (metis split_list_first)
  have "\<forall>j \<in> set xs. queue_of j s = []" using order(2) others by metis
  moreover have "queue_of j ?t = []" for j
    using others by (cases "j = k") (auto simp: queue_of_def)
  ultimately have "fold drain_connection_events_for (en_order E (map fst (sw_connections s))) (s, []) = (?t, [k])"
    by (simp add: order drain_all_quiet drain_end [OF assms(1-3)])
  then show ?thesis by (simp add: drain_connection_events_def remove_all_def)
qed

lemma handled_closed: "handled (descriptor_closed fd l) = handled l"
  by (simp add: handled_eq descriptor_closed_def)

lemma interest_removed [simp]:
  "el_interest (descriptor_closed fd l) = removeAll fd (el_interest l)"
  "el_interest (unregister_fd fd l) = removeAll fd (el_interest l)"
  by (simp_all add: descriptor_closed_def unregister_fd_def)

lemma note_closed_fields [simp]:
  "sw_connections (note_closed c c' s) = sw_connections s" "sw_destroyed (note_closed c c' s) = sw_destroyed s"
  "sw_streams (note_closed c c' s) = sw_streams s" "sw_peer_connections (note_closed c c' s) = sw_peer_connections s"
  by (simp_all add: note_closed_def on_loop_def)

lemma detached_fields [simp]:
  "sw_connections (detached k c s) = AList.delete k (sw_connections s)"
  "sw_destroyed (detached k c s) = AList.update k c (sw_destroyed s)"
  "sw_streams (detached k c s) = sw_streams s" "sw_peer_connections (detached k c s) = sw_peer_connections s"
  by (simp_all add: detached_def)

lemma removed_fields:
  "map_of (sw_connections (remove_connection k s)) = (map_of (sw_connections s))(k := None)"
  "map_of (sw_destroyed (remove_connection k s)) = (case map_of (sw_connections s) k of
     None \<Rightarrow> map_of (sw_destroyed s) | Some c \<Rightarrow> (map_of (sw_destroyed s))(k \<mapsto> close c))"
  "sw_peer_connections (remove_connection k s) = (case sw_connection_peers s k of
     None \<Rightarrow> sw_peer_connections s | Some key \<Rightarrow> (sw_peer_connections s)(key := None))"
  "sw_streams (remove_connection k s) = sw_streams s"
  by (auto simp: remove_connection_eq map_of_delete map_of_update split: option.split)

lemma removed_descriptor:
  assumes "map_of (sw_conn_fds s) k = Some fd"
  shows "sw_fd_to_conn (remove_connection k s) fd = None" and "handled (sw_event_loop (remove_connection k s)) fd = None"
    and "fd \<notin> set (el_interest (sw_event_loop (remove_connection k s)))"
proof -
  have same: "sw_conn_fds (case p of None \<Rightarrow> s | Some key \<Rightarrow> f key) = sw_conn_fds s"
    if "\<And>key. sw_conn_fds (f key) = sw_conn_fds s" for p and f :: "string \<Rightarrow> 'a swarm_core"
    using that by (simp split: option.split)
  show "sw_fd_to_conn (remove_connection k s) fd = None" "handled (sw_event_loop (remove_connection k s)) fd = None"
    "fd \<notin> set (el_interest (sw_event_loop (remove_connection k s)))"
    using assms
    by (auto simp: remove_connection_def Let_def same note_closed_def on_loop_def handled_closed handled_unregister
        split: option.split)
qed

section \<open>Properties\<close>

text \<open>C9. In every history of a swarm with fewer than 2^64 - 1 connections, whatever the peers, the
  kernel, the application, the controller and the handlers do: what the controller is told of a
  connection's life is at most one identification, then at most one establishment, then stream
  events, then at most one end and nothing after it, and nothing of a connection that never was;
  and every session in the table is a connection reached by its own operations, of which the
  controller has been told each event taken from it.\<close>

theorem swarm_events_ordered:
  assumes "swarm_reachable E obs st" and "few (snd st)"
  shows "app_run AppNew (about obs conn_id (snd st)) \<noteq> None
    \<and> (conn_id \<notin> ids_used (snd st) \<longrightarrow> about obs conn_id (snd st) = [])
    \<and> (\<forall>c. map_of (sw_connections (snd st)) conn_id = Some c \<longrightarrow>
         (\<exists>log. conn_reachable (en_crypto E) log c \<and> pictured log (about obs conn_id (snd st))))"
proof -
  from swarm_reachable_inv [OF assms(1)] assms(2) have i: "core_inv (en_crypto E) obs (snd st)"
    by (simp add: swarm_inv_def)
  then obtain log where "log_run LogUpgrading log \<noteq> None" "pictured log (about obs conn_id (snd st))"
    "\<forall>c. map_of (sw_connections (snd st)) conn_id = Some c \<longrightarrow> conn_reachable (en_crypto E) log c"
    unfolding core_inv_def session_ok_def by blast
  with pictured_run i show ?thesis by (fastforce simp: core_inv_def ids_ok_def)
qed

theorem swarm_events_ordered_witness:
  "\<exists>log. conn_reachable toy_crypto log (outbound_session toy_env toy_socket toy_core)
    \<and> pictured log (about (\<lambda>log. log) 1 (snd toy_dialed))"
  using swarm_events_ordered [OF toy_reachable, of 1] toy_dialed_fields(1,3)
  by (simp add: few_def toy_env_def)

text \<open>C15. A stream to a peer is only ever opened on a connection that is in the table and that the
  controller was told is that peer's; without such a connection the call fails and changes
  nothing.\<close>

theorem stream_goes_to_identified_peer:
  assumes "swarm_reachable E obs st" and "few (snd st)"
  shows "open_stream_to E p proto (snd st) = (Inr (Inl ''no active connection for peer''), snd st)
    \<or> (\<exists>conn_id c e q. open_stream_to E p proto (snd st) = open_stream_on E conn_id proto (snd st)
         \<and> map_of (sw_connections (snd st)) conn_id = Some c
         \<and> e \<in> set (obs (sw_app (snd st))) \<and> sv_type e = SwPeerIdentified \<and> sv_connection_id e = conn_id
         \<and> sv_peer_id e = Some q \<and> peer_id_to_string q = peer_id_to_string p)"
proof (cases "sw_peer_connections (snd st) (peer_id_to_string p)")
  case (Some conn_id)
  from swarm_reachable_inv [OF assms(1)] assms(2) have "routes_ok obs (snd st)"
    by (simp add: swarm_inv_def core_inv_def)
  with Some have "identified obs conn_id (peer_id_to_string p) (snd st)" "map_of (sw_connections (snd st)) conn_id \<noteq> None"
    unfolding routes_ok_def by blast+
  with Some show ?thesis unfolding identified_def by (auto simp: open_stream_to_def)
qed (simp add: open_stream_to_def)

theorem stream_goes_to_identified_peer_witness:
  "open_stream_to toy_env (PeerId (replicate 32 0)) ''/ipfs/ping/1.0.0'' (snd toy_dialed)
     = (Inr (Inl ''no active connection for peer''), snd toy_dialed)"
  using stream_goes_to_identified_peer [OF toy_reachable, of "PeerId (replicate 32 0)" "''/ipfs/ping/1.0.0''"]
    toy_dialed_fields(1,2)
  by (simp add: few_def)

text \<open>C29. The kernel gives the descriptor of a session that has closed its socket to a connection it
  accepts before the end of that session has been handled, as in one poll of the event loop.
  Draining the end then takes the new connection's registration away: its session stays in the
  table, active, but the loop has no handler for its descriptor, the kernel does not watch it, and
  no id is recorded for it.\<close>

theorem reused_descriptor_strands_connection:
  assumes old: "map_of (sw_connections s) k = Some c" "cn_event_queue c = [ev]" "ev_type ev = EvClosed"
      "map_of (sw_conn_fds s) k = Some (so_fd socket)" "k \<noteq> sw_next_conn_id s"
    and others: "\<forall>j. j \<noteq> k \<longrightarrow> queue_of j s = []"
    and order: "\<forall>ks. distinct ks \<longrightarrow> distinct (en_order E ks) \<and> set (en_order E ks) = set ks"
      "distinct (map fst (sw_connections s))"
    and reuse: "can_register (so_fd socket) s" "accepted_socket E socket s = (r, s1)"
    and drained: "s2 = drain_connection_events E s1"
  shows "r = Inr () \<and> map_of (sw_connections s2) (sw_next_conn_id s) = Some (inbound_session E socket s)
    \<and> is_active (inbound_session E socket s) \<and> sw_fd_to_conn s2 (so_fd socket) = None
    \<and> handled (sw_event_loop s2) (so_fd socket) = None
    \<and> so_fd socket \<notin> set (el_interest (sw_event_loop s2))"
proof -
  let ?n = "sw_next_conn_id s"
  have fd: "0 \<le> so_fd socket" using reuse(1) by (simp add: can_register_def)
  note begun = begins [where b = False, OF refl fd, folded make_inbound_connection_session_def, folded inbound_session_def]
  define d where "d = dispatch_event (make_event SwConnectionClosed k (ev_stream_id ev) None (ev_detail ev))
      (put_session k (c\<lparr>cn_event_queue := []\<rparr>) s1)"
  from accepted_enters [OF reuse(1), of E] reuse(2) have r: "r = Inr ()"
    and conns: "map_of (sw_connections s1) = (map_of (sw_connections s))(?n \<mapsto> inbound_session E socket s)"
    and fds: "sw_conn_fds s1 = AList.update ?n (so_fd socket) (sw_conn_fds s)"
    and keys: "map fst (sw_connections s1) = map fst (AList.update ?n undefined (sw_connections s))"
    by (auto simp: put_session_def dispatch_event_def session_entered_def update_twice map_of_update AList.update_keys)
  have quiet: "\<forall>j. j \<noteq> k \<longrightarrow> queue_of j s1 = []"
    using others begun(4) by (auto simp: queue_of_def conns inbound_session_def)
  have "distinct (map fst (sw_connections s1))"
    unfolding keys using order(2) by (simp add: AList.update_keys AList.distinct_update)
  moreover have "k \<in> set (map fst (sw_connections s1))"
    using old(1,5) conns by (metis fun_upd_apply image_set map_of_eq_None_iff option.distinct(1) list.set_map)
  ultimately have "s2 = remove_connection k d"
    unfolding drained d_def using order(1) old conns by (intro drain_one_end quiet) auto
  moreover have "map_of (sw_conn_fds d) k = Some (so_fd socket)"
    using old(4,5) by (simp add: d_def dispatch_event_def put_session_def fds map_of_update)
  moreover have "map_of (sw_connections d) ?n = Some (inbound_session E socket s)"
    using old(5) by (simp add: d_def conns)
  ultimately show ?thesis
    using r removed_fields(1) [of k d] removed_descriptor [of d k] old(5) begun(6) by (simp add: inbound_session_def)
qed

text \<open>A swarm whose only session has closed its socket.\<close>

definition toy_closed :: "swarm_event list swarm_core" where
  "toy_closed = on_connection 1 close (snd (accepted_socket toy_env toy_socket toy_core))"

lemma toy_closed_fields:
  "map_of (sw_connections toy_closed) = [1 \<mapsto> close (inbound_session toy_env toy_socket toy_core)]"
  "sw_conn_fds toy_closed = [(1, 5)]" "sw_next_conn_id toy_closed = 2" "can_register 5 toy_closed"
  "map fst (sw_connections toy_closed) = [1]"
proof -
  note entered = accepted_enters [OF toy_fields(1), of toy_env]
  have io: "cn_io (inbound_session toy_env toy_socket toy_core) = new_io 5"
    by (simp add: inbound_session_def make_inbound_connection_session_def new_connection_def begin_upgrade_def
        map_secure_def toy_socket_def set_kernel_def set_io_def new_io_def toy_env_def)
  have closed: "\<not> io_socket_open (cn_io (close (inbound_session toy_env toy_socket toy_core)))"
    by (simp add: inbound_session_def make_inbound_connection_session_def new_connection_def begin_upgrade_def
        map_secure_def toy_socket_def close_def close_socket_def new_io_def set_io_def set_kernel_def push_event_def Let_def)
  show "map_of (sw_connections toy_closed) = [1 \<mapsto> close (inbound_session toy_env toy_socket toy_core)]"
    "sw_conn_fds toy_closed = [(1, 5)]" "sw_next_conn_id toy_closed = 2" "can_register 5 toy_closed"
    "map fst (sw_connections toy_closed) = [1]"
    using closed io
    by (simp_all add: toy_closed_def on_connection_def with_session_def entered toy_fields note_closed_def on_loop_def
        session_entered_def put_session_def dispatch_event_def can_register_def)
       (simp_all add: toy_core_def new_swarm_core_def new_event_loop_def toy_socket_def register_fd_def new_io_def descriptor_closed_def)
qed

lemma toy_closed_queue:
  "cn_event_queue (close (inbound_session toy_env toy_socket toy_core))
     = [\<lparr>ev_type = EvClosed, ev_stream_id = None, ev_detail = ''connection closed''\<rparr>]"
  by (simp add: inbound_session_def make_inbound_connection_session_def new_connection_def begin_upgrade_def
      map_secure_def close_def set_io_def push_event_def current_stream_id_def Let_def set_kernel_def)

theorem reused_descriptor_strands_connection_witness:
  "let s2 = drain_connection_events toy_env (snd (accepted_socket toy_env toy_socket toy_closed))
   in (\<exists>c. map_of (sw_connections s2) 2 = Some c \<and> is_active c) \<and> handled (sw_event_loop s2) 5 = None"
proof -
  have "queue_of j toy_closed = []" if "j \<noteq> 1" for j
    using that by (simp add: queue_of_def toy_closed_fields)
  then show ?thesis
    using reused_descriptor_strands_connection [OF _ toy_closed_queue _ _ _ _ _ _ _ prod.collapse [symmetric] refl,
        where k = 1 and s = toy_closed and socket = toy_socket and E = toy_env]
    by (simp add: toy_closed_fields toy_socket_def toy_env_def Let_def)
qed

text \<open>C37. Two connections to one peer: when the older one is removed, the entry for the peer goes with
  it, although that entry leads to the other connection, which stays in the table and known as that
  peer's; a stream to the peer can no longer be opened.\<close>

theorem second_connection_unreachable:
  assumes "sw_connection_peers s old = Some (peer_id_to_string p)"
    and "sw_peer_connections s (peer_id_to_string p) = Some new" and "new \<noteq> old"
    and "map_of (sw_connections s) new = Some c"
    and "s' = remove_connection old s"
  shows "map_of (sw_connections s') new = Some c
    \<and> open_stream_to E p proto s' = (Inr (Inl ''no active connection for peer''), s')"
  using assms by (simp add: removed_fields open_stream_to_def)

text \<open>Two sessions with the same peer, whose secured events have been handled.\<close>

definition toy_peer :: peer_id where "toy_peer = PeerId (replicate 32 7)"

definition toy_secured :: connection where
  "toy_secured = (let c = inbound_session toy_env toy_socket toy_core
     in set_noise ((noise_of c)\<lparr>ns_remote_peer_id := Some toy_peer\<rparr>) c)"

definition toy_pair :: "swarm_event list swarm_core" where
  "toy_pair = on_secured 2 [] (on_secured 1 [] (put_session 2 toy_secured (put_session 1 toy_secured toy_core)))"

theorem second_connection_unreachable_witness:
  "(\<exists>c. map_of (sw_connections (remove_connection 1 toy_pair)) 2 = Some c)
    \<and> open_stream_to toy_env toy_peer ''/x'' (remove_connection 1 toy_pair)
        = (Inr (Inl ''no active connection for peer''), remove_connection 1 toy_pair)"
proof -
  have peer: "remote_peer toy_secured = Some toy_peer"
    by (simp add: toy_secured_def remote_peer_def Let_def set_noise_def noise_of_def map_secure_def)
  have "sc_negotiated_muxer (cn_secure toy_secured) = None"
    by (simp add: toy_secured_def Let_def set_noise_def map_secure_def inbound_session_def begin_upgrade_def
        make_inbound_connection_session_def new_connection_def set_kernel_def set_io_def)
  then have "sw_connection_peers toy_pair 1 = Some (peer_id_to_string toy_peer)"
      "sw_peer_connections toy_pair (peer_id_to_string toy_peer) = Some 2"
      "map_of (sw_connections toy_pair) 2 = Some toy_secured"
    by (simp_all add: toy_pair_def on_secured_def peer Let_def)
  from second_connection_unreachable [OF this(1,2) _ this(3) refl, of toy_env "''/x''"] show ?thesis by simp
qed

text \<open>C30. A protocol handler keeps a stream it was given after the stream's connection has ended: the
  next write on it calls a callback of the destroyed Yamux session.\<close>

theorem write_after_close_dangles:
  assumes "sw_streams s ! i = (ng, YamuxHandle p)" and "is_negotiated ng"
    and "map_of (sw_connections s) (ng_conn_id ng) = Some c" and "cn_yamux c = Some ys"
    and "\<not> st_write_closed (stream_at ys p)" and "\<not> st_reset (stream_at ys p)"
  shows "fst (on_stream E i (\<lambda>M. ng_try_write M data) (remove_connection (ng_conn_id ng) s)) = Inl dangling"
proof -
  let ?k = "ng_conn_id ng" and ?s = "remove_connection (ng_conn_id ng) s"
  have gone: "map_of (sw_connections ?s) ?k = None" "map_of (sw_destroyed ?s) ?k = Some (close c)"
      "sw_streams ?s = sw_streams s"
    using assms(3) by (simp_all add: removed_fields)
  have "cn_yamux (close c) = Some ys"
    using assms(4) by (simp add: close_def Let_def set_io_def map_stream_state_def push_event_def split: option.split)
  with assms(5,6) have called: "calls_session (\<lambda>st. \<not> st_write_closed st \<and> \<not> st_reset st) (YamuxHandle p) (close c)"
    by (simp add: calls_session_def)
  from assms(2) have "ng_stage ng = NgReady" by (simp add: is_negotiated_def)
  with called assms(1,2) gone show ?thesis
    by (simp add: on_stream_def ng_try_write_def when_negotiated_def StreamNegotiation.poll_def on_inner_def zoom_def
        held_stream_def guarded_def and_then_def Let_def)
qed

definition toy_kept :: "swarm_event list swarm_core" where
  "toy_kept = (put_session 1 ((inbound_session toy_env toy_socket toy_core)\<lparr>cn_yamux :=
       Some ((new_session 1 False)\<lparr>ys_heap := [new_stream 2 1]\<rparr>)\<rparr>) toy_core)
     \<lparr>sw_streams := [((inbound_negotiation_on 1 [])\<lparr>ng_stage := NgReady, ng_negotiated_protocol := Some ''/x''\<rparr>, YamuxHandle 0)]\<rparr>"

theorem write_after_close_dangles_witness:
  "fst (on_stream toy_env 0 (\<lambda>M. ng_try_write M [1, 2, 3]) (remove_connection 1 toy_kept)) = Inl dangling"
proof -
  let ?ng = "(inbound_negotiation_on 1 [])\<lparr>ng_stage := NgReady, ng_negotiated_protocol := Some ''/x''\<rparr>"
  have k: "ng_conn_id ?ng = 1" by (simp add: inbound_negotiation_on_def)
  show ?thesis
    using write_after_close_dangles [where s = toy_kept and i = 0 and ng = ?ng and p = 0 and E = toy_env and data = "[1, 2, 3]",
        unfolded k]
    by (simp add: toy_kept_def is_negotiated_def stream_at_def new_stream_def)
qed

end
