(* ===== verification/Node.thy ===== *)
theory Node
  imports SwarmProperties
begin

text \<open>
  The node (include/peercore/node.hpp, src/src/node.cpp) and its three services
  (include/peercore/services, src/src/services).

  A node owns the peer store, the swarm with its default controller, and the services, which it
  registers as protocol handlers.  The services are skeletons that keep no state: their handlers
  do nothing and their requests call back at once, with nothing.  Nobody else holds the swarm, so
  what can happen to a node is its own operations, and what the kernel does to its sockets.
\<close>

section \<open>Code: the services\<close>

record peer_info =
  pi_peer_id :: peer_id
  pi_listen_addrs :: "multiaddr list"
  pi_agent_version :: string
  pi_protocol_version :: string
  pi_protocols :: "string list"

definition dht_service :: "'a protocol_handler" where
  "dht_service = \<lparr>ph_protocol_id = ''/kad/1.0.0'', ph_on_inbound_stream = (\<lambda>_ app. app),
     ph_on_outbound_stream_ready = (\<lambda>_ app. app), ph_on_tick = (\<lambda>app. app)\<rparr>"

definition find_peer :: "peer_id \<Rightarrow> (peer_id list \<Rightarrow> 'a \<Rightarrow> 'a) \<Rightarrow> 'a \<Rightarrow> 'a" where
  "find_peer target callback = callback []"

definition provide :: "peer_id \<Rightarrow> 'a \<Rightarrow> 'a" where
  "provide key = (\<lambda>app. app)"

definition ping_service :: "'a protocol_handler" where
  "ping_service = \<lparr>ph_protocol_id = ''/ipfs/ping/1.0.0'', ph_on_inbound_stream = (\<lambda>_ app. app),
     ph_on_outbound_stream_ready = (\<lambda>_ app. app), ph_on_tick = (\<lambda>app. app)\<rparr>"

definition ping :: "nat \<Rightarrow> (int option \<Rightarrow> 'a \<Rightarrow> 'a) \<Rightarrow> 'a \<Rightarrow> 'a" where
  "ping stream callback = callback None"

definition identify_service :: "'a protocol_handler" where
  "identify_service = \<lparr>ph_protocol_id = ''/ipfs/id/1.0.0'', ph_on_inbound_stream = (\<lambda>_ app. app),
     ph_on_outbound_stream_ready = (\<lambda>_ app. app), ph_on_tick = (\<lambda>app. app)\<rparr>"

definition identify :: "nat \<Rightarrow> (peer_info option \<Rightarrow> 'a \<Rightarrow> 'a) \<Rightarrow> 'a \<Rightarrow> 'a" where
  "identify stream callback = callback None"

section \<open>Code: the node\<close>

record node_options =
  no_identity :: identity
  no_listen_addrs :: "multiaddr list"
  no_bootstrap_addrs :: "multiaddr list"

text \<open>The state of the default controller is its queue of actions.\<close>

record node =
  nd_opts :: node_options
  nd_swarm :: "controller_action list swarm"

definition new_node :: "node_options \<Rightarrow> tcp_kernel \<Rightarrow> node" where
  "new_node opts k =
     \<lparr>nd_opts = opts,
      nd_swarm = (new_transport k, fold register_handler [dht_service, ping_service, identify_service]
        (new_swarm_core [] (Some (no_identity opts)) [] default_controller []))\<rparr>"

definition in_swarm :: "(controller_action list swarm, 'b) action \<Rightarrow> (node, 'b) action" where
  "in_swarm = zoom nd_swarm (\<lambda>st n. n\<lparr>nd_swarm := st\<rparr>)"

fun listen_on_all :: "swarm_env \<Rightarrow> multiaddr list \<Rightarrow> ('a swarm, unit result) action" where
  "listen_on_all E [] = return_ok (Inr ())"
| "listen_on_all E (addr # addrs) = and_then_ok (listen_on E addr) (\<lambda>_. listen_on_all E addrs)"

definition node_start :: "swarm_env \<Rightarrow> (node, unit result) action" where
  "node_start E = reading (\<lambda>n. in_swarm (
     and_then_ok (listen_on_all E (no_listen_addrs (nd_opts n))) (\<lambda>_.
     and_then_ok (start_swarm E) (\<lambda>_.
     and_then (for_each (\<lambda>addr. ignoring (dial_addr E addr)) (no_bootstrap_addrs (nd_opts n))) (\<lambda>_.
     return_ok (Inr ()))))))"

definition node_stop :: "(node, unit result) action" where
  "node_stop = in_swarm stop_swarm"

definition node_connect :: "swarm_env \<Rightarrow> multiaddr \<Rightarrow> (node, unit result) action" where
  "node_connect E addr = in_swarm (dial_addr E addr)"

definition node_open_stream :: "swarm_env \<Rightarrow> peer_id \<Rightarrow> string \<Rightarrow> (node, nat result) action" where
  "node_open_stream E peer proto = in_swarm (in_core (open_stream_to E peer proto))"

definition node_snapshot :: "node \<Rightarrow> debug_snapshot" where
  "node_snapshot n = snapshot (snd (nd_swarm n))"

section \<open>The histories of a node\<close>

text \<open>The kernel answers as it likes, and may answer anew before each operation.\<close>

inductive node_reachable :: "swarm_env \<Rightarrow> node \<Rightarrow> bool" for E where
  built: "node_reachable E (new_node opts k)"
| kernel: "node_reachable E n \<Longrightarrow> node_reachable E (n\<lparr>nd_swarm := give_kernel f (nd_swarm n)\<rparr>)"
| epoll: "node_reachable E n
    \<Longrightarrow> node_reachable E (n\<lparr>nd_swarm := on_core (on_loop (el_refused_update g)) (nd_swarm n)\<rparr>)"
| socket: "node_reachable E n
    \<Longrightarrow> node_reachable E (n\<lparr>nd_swarm := on_core (on_connection conn_id (set_kernel rs ss err)) (nd_swarm n)\<rparr>)"
| starts: "node_reachable E n \<Longrightarrow> node_reachable E (snd (node_start E n))"
| stops: "node_reachable E n \<Longrightarrow> node_reachable E (snd (node_stop n))"
| connects: "node_reachable E n \<Longrightarrow> node_reachable E (snd (node_connect E addr n))"
| opens: "node_reachable E n \<Longrightarrow> node_reachable E (snd (node_open_stream E peer proto n))"

section \<open>A core that is never polled\<close>

text \<open>No session has got anything from its peer: it can only have failed or ended.\<close>

definition idle_session :: "connection \<Rightarrow> bool" where
  "idle_session c \<longleftrightarrow> (\<forall>ev \<in> set (cn_event_queue c). ev_type ev \<in> {EvError, EvClosed})"

definition unconnected :: "swarm_event_type set" where
  "unconnected = {SwListenerStarted, SwDialFailed, SwProtocolError, SwConnectionClosed}"

definition dormant :: "'a swarm_core \<Rightarrow> bool" where
  "dormant s \<longleftrightarrow> sw_peer_connections s = Map.empty
     \<and> (\<forall>ev \<in> set (sw_event_queue s). sv_type ev \<in> unconnected)
     \<and> (\<forall>k c. map_of (sw_connections s) k = Some c \<longrightarrow> idle_session c)"

lemma idle_same: "cn_event_queue c' = cn_event_queue c \<Longrightarrow> idle_session c \<Longrightarrow> idle_session c'"
  by (simp add: idle_session_def)

lemma idle_calm: "stays (calm {}) m \<Longrightarrow> preserves idle_session m"
  unfolding preserves_def using calm_same_history stays_apply [where R = "calm {}"] idle_same
  unfolding same_history_def by blast

lemma idle_begins: "idle_session c \<Longrightarrow> idle_session (snd (begin_outbound_upgrade c))"
proof -
  have "preserves idle_session begin_outbound_upgrade"
    unfolding begin_outbound_upgrade_def
    by (intro keeps preserves_if idle_calm calmly_queue calmly_flush_pending_writes)
       (auto simp: begin_upgrade_def map_secure_def intro: idle_same)
  then show "idle_session c \<Longrightarrow> idle_session (snd (begin_outbound_upgrade c))" by (simp add: preserves_def)
qed

lemma idle_close: "idle_session c \<Longrightarrow> idle_session (close c)"
  by (auto simp: idle_session_def close_def set_io_def map_stream_state_def push_event_def Let_def split: option.split)

lemma idle_kernel: "idle_session c \<Longrightarrow> idle_session (set_kernel rs ss err c)"
  by (rule idle_same) (simp_all add: set_kernel_def set_io_def)

lemma dormant_same:
  "sw_peer_connections s' = sw_peer_connections s \<Longrightarrow> sw_event_queue s' = sw_event_queue s
     \<Longrightarrow> sw_connections s' = sw_connections s \<Longrightarrow> dormant s' = dormant s"
  by (simp add: dormant_def)

lemma dormant_loop [simp]: "dormant (on_loop f s) = dormant s"
  by (rule dormant_same) (simp_all add: on_loop_def)

lemma dormant_note [simp]: "dormant (note_closed c c' s) = dormant s"
  by (simp add: note_closed_def)

lemma dormant_put: "dormant s \<Longrightarrow> idle_session c \<Longrightarrow> dormant (put_session k c s)"
  by (auto simp: dormant_def put_session_def map_of_update)

lemma dormant_dispatch: "dormant s \<Longrightarrow> ty \<in> unconnected \<Longrightarrow> dormant (dispatch_event (make_event ty k sid p d) s)"
  by (auto simp: dormant_def dispatch_event_def make_event_def)

lemma dormant_with_session:
  assumes "dormant s" and "\<And>c. idle_session c \<Longrightarrow> idle_session (snd (m c))"
  shows "dormant (snd (with_session k m s))"
proof (cases "map_of (sw_connections s) k")
  case (Some c)
  with assms have "dormant (put_session k (snd (m c)) s)" by (intro dormant_put) (auto simp: dormant_def)
  with Some show ?thesis by (simp add: with_session_def case_prod_beta Let_def)
qed (simp add: with_session_def assms(1))

lemma dormant_on_connection:
  "dormant s \<Longrightarrow> (\<And>c. idle_session c \<Longrightarrow> idle_session (f c)) \<Longrightarrow> dormant (on_connection k f s)"
  unfolding on_connection_def by (rule dormant_with_session) auto

lemma dormant_drain: "dormant (fst sc) \<Longrightarrow> dormant (fst (drain_connection_events_for k sc))"
proof (induction k sc rule: drain_connection_events_for.induct)
  case (1 k s closed)
  show ?case
  proof (cases "\<exists>c e c'. map_of (sw_connections s) k = Some c \<and> next_event c = (Some e, c')")
    case True
    then obtain c e c' where c: "map_of (sw_connections s) k = Some c" and ev: "next_event c = (Some e, c')" by blast
    from 1(2) c have "idle_session c" by (simp add: dormant_def)
    with ev have e: "ev_type e = EvError \<or> ev_type e = EvClosed" and "idle_session c'"
      by (auto simp: next_event_def idle_session_def split: list.splits)
    with 1(2) have "dormant (put_session k c' s)" by (simp add: dormant_put)
    with e have "dormant (fst (handle_connection_event k e (put_session k c' s, closed)))"
      by (auto simp: handle_connection_event_def unconnected_def intro!: dormant_dispatch)
    from "1.IH" [OF c ev [symmetric] refl this] c ev show ?thesis
      by (simp add: drain_connection_events_for.simps [of k s closed])
  qed (use 1(2) in \<open>auto simp: drain_connection_events_for.simps [of k s closed] split: option.split prod.split\<close>)
qed

lemma dormant_remove: "dormant s \<Longrightarrow> dormant (remove_connection k s)"
proof -
  assume s: "dormant s"
  then have "sw_event_queue (released k s) = sw_event_queue s"
    by (simp add: released_def unlisted_def unrouted_def on_loop_def split: option.split)
  with s have r: "dormant (released k s)" by (auto simp: dormant_def split: option.split)
  then have "dormant (detached k c (released k s))" for c
    by (auto simp: dormant_def map_of_delete) (simp_all add: detached_def)
  with r show ?thesis by (simp add: remove_connection_eq split: option.split)
qed

lemma dormant_drain_one: "dormant s \<Longrightarrow> dormant (drain_one k s)"
proof -
  assume s: "dormant s"
  have all: "dormant (remove_all ks t)" if "dormant t" for ks and t :: "'a swarm_core"
    using that by (induction ks arbitrary: t) (simp_all add: remove_all_def dormant_remove)
  from dormant_drain [of "(s, [])" k] s show ?thesis
    by (simp add: drain_one_def case_prod_beta Let_def all)
qed

section \<open>The operations of a swarm that is not polled\<close>

named_theorems sleeps \<open>operations that leave a swarm dormant\<close>

declare keeps [sleeps]

lemma dormant_in_loop [sleeps]: "preserves dormant (in_loop m)"
  by (rule preservesI) (auto simp: in_loop_def zoom_def case_prod_beta Let_def dormant_def)

lemma dormant_register [sleeps]: "preserves dormant (register_connection k fd)"
  unfolding register_connection_def
  by (intro sleeps) (auto simp: dormant_def on_loop_def)

lemma dormant_new_session [sleeps]: "preserves dormant (new_session_entry E b socket)"
proof (rule preservesI)
  fix s :: "'a swarm_core"
  assume s: "dormant s"
  let ?k = "sw_next_conn_id s"
  define c where "c = set_kernel [] (en_sends E ?k) None
    ((if b then make_outbound_connection_session else make_inbound_connection_session)
      ?k (so_fd socket) (so_remote_addr socket) (sw_local_identity s) (sw_local_stream_muxers s) (en_draws E ?k))"
  let ?rest = "and_then (register_connection ?k (so_fd socket)) (\<lambda>_. return_ok ?k) :: ('a swarm_core, u64) action"
  have "idle_session c"
    by (simp add: c_def idle_session_def set_kernel_def set_io_def make_outbound_connection_session_def
        make_inbound_connection_session_def new_connection_def)
  moreover have "dormant (s\<lparr>sw_next_conn_id := ?k + 1\<rparr>)" using s by (simp add: dormant_def)
  ultimately have "dormant (put_session ?k c (s\<lparr>sw_next_conn_id := ?k + 1\<rparr>))" by (intro dormant_put)
  moreover have "preserves dormant ?rest" by (intro sleeps)
  ultimately have "dormant (snd (?rest (put_session ?k c (s\<lparr>sw_next_conn_id := ?k + 1\<rparr>))))"
    by (simp add: preserves_def)
  then show "dormant (snd (new_session_entry E b socket s))" by (simp add: new_session_entry_def c_def Let_def)
qed

lemma dormant_start_upgrade:
  assumes "dormant s" and "\<And>c. idle_session c \<Longrightarrow> idle_session (snd (m c))"
  shows "dormant (start_upgrade m k s)"
proof -
  obtain r t where w: "with_session k m s = (r, t)" by (rule prod.exhaust)
  have "dormant (snd (with_session k m s))" by (rule dormant_with_session) (use assms in simp_all)
  then have t: "dormant t" using w by simp
  then have "dormant (on_connection k close (dispatch_event (make_event SwProtocolError k None None e) t))" for e
    by (intro dormant_on_connection dormant_dispatch idle_close) (simp_all add: unconnected_def)
  with t show ?thesis
    by (auto simp: start_upgrade_def w Let_def intro!: dormant_drain_one split: option.split sum.split)
qed

lemma dormant_connected [sleeps]: "preserves dormant (connected_socket E socket)"
  unfolding connected_socket_def by (intro sleeps dormant_start_upgrade idle_begins)

text \<open>On the whole swarm, its transport beside the core.\<close>

abbreviation asleep :: "'a swarm \<Rightarrow> bool" where "asleep st \<equiv> dormant (snd st)"

lemma asleep_core [sleeps]: "preserves dormant m \<Longrightarrow> preserves asleep (in_core m)"
  by (auto simp: preserves_def in_core_def zoom_def case_prod_beta Let_def)

lemma asleep_transport [sleeps]: "preserves asleep m \<Longrightarrow> preserves asleep (in_transport m)"
  by (auto simp: preserves_def in_transport_def transport_closed_def case_prod_beta Let_def)

lemma asleep_for_each [sleeps]: "(\<And>x. preserves P (f x)) \<Longrightarrow> preserves P (for_each f xs)"
  by (induction xs) (auto intro!: keeps)

lemma preserves_ok [sleeps]: "preserves P m \<Longrightarrow> (\<And>x. preserves P (f x)) \<Longrightarrow> preserves P (and_then_ok m f)"
  unfolding and_then_ok_def by (intro keeps preserves_sum_case)

lemma preserves_pair [sleeps]: "(\<And>t s. preserves P (f t s)) \<Longrightarrow> preserves P (reading (\<lambda>(t, s). f t s))"
  by (simp add: preserves_def)

lemma asleep_sync [sleeps]: "preserves asleep (sync_transport_fds E)"
proof -
  have folded: "dormant (fold f xs s)" if "dormant s" "\<And>x t. dormant t \<Longrightarrow> dormant (f x t)"
    for f :: "int \<Rightarrow> 'a swarm_core \<Rightarrow> 'a swarm_core" and xs s
    using that by (induction xs arbitrary: s) simp_all
  have new: "preserves dormant (register_new fd callback put fds)"
    if "\<And>fds s. dormant s \<Longrightarrow> dormant (put fds s)" for fd callback put fds
    unfolding register_new_def by (intro sleeps that)
  show ?thesis
    unfolding sync_transport_fds_def sync_listeners_def sync_dials_def
    by (intro sleeps preserves_if new folded) (simp_all add: dormant_def on_loop_def)
qed

lemma asleep_pair: "asleep (t, s) \<longleftrightarrow> dormant s"
  by simp

lemma asleep_dial: "preserves asleep (dial addr (dial_callbacks E))"
proof (rule preservesI, unfold split_paired_all)
  fix t and s :: "'a swarm_core"
  assume "asleep (t, s)"
  then have s: "dormant s" by simp
  have handed: "dormant (snd (snd (hand_over (on_connected (dial_callbacks E)) fd addr (t, s))))" for fd and t
    using dormant_connected [where ?'a = 'a and E = E and socket = "\<lparr>so_fd = fd, so_remote_addr = addr\<rparr>"] s
    by (simp add: hand_over_def dial_callbacks_def case_prod_beta Let_def preserves_def)
  have connects: "dormant (snd (snd (connect_socket addr (dial_callbacks E) fd (t, s))))" for fd t
    using handed s
    by (auto simp: connect_socket_def case_prod_beta Let_def unconnected_def dial_callbacks_def
        intro!: dormant_dispatch split: prod.split sys_result.split)
  show "asleep (snd (dial addr (dial_callbacks E) (t, s)))"
    using s by (auto simp: dial_def and_then_def split: sum.split prod.split) (metis connects snd_conv)+
qed

lemma asleep_listen_on [sleeps]: "preserves asleep (listen_on E addr)"
proof -
  have announce: "preserves asleep (announce_listener addr fd)" for fd
    by (rule preservesI)
       (auto simp: announce_listener_def case_prod_beta Let_def unconnected_def intro!: dormant_dispatch)
  have listening: "preserves asleep (\<lambda>(t, s). let (r, t') = listen addr (listen_callbacks E) t in (Inr r, t', s))"
    by (auto simp: preserves_def case_prod_beta Let_def)
  show ?thesis unfolding listen_on_def by (intro sleeps announce listening)
qed

lemma asleep_dial_addr [sleeps]: "preserves asleep (dial_addr E addr)"
  unfolding dial_addr_def by (intro sleeps asleep_dial)

lemma asleep_stop: "asleep st \<Longrightarrow> asleep (snd (stop_swarm st))"
  by (cases st) (auto simp: stop_swarm_def stop_core_def Let_def dormant_def on_loop_def)

lemma dormant_opens: "dormant s \<Longrightarrow> open_stream_to E p proto s = (Inr (Inl ''no active connection for peer''), s)"
  by (simp add: open_stream_to_def dormant_def)

definition node_asleep :: "node \<Rightarrow> bool" where
  "node_asleep n = asleep (nd_swarm n)"

lemma asleep_in_swarm: "preserves asleep m \<Longrightarrow> node_asleep n \<Longrightarrow> node_asleep (snd (in_swarm m n))"
  by (cases "nd_swarm n") (auto simp: in_swarm_def zoom_def node_asleep_def preserves_def case_prod_beta Let_def)

lemma node_reachable_asleep: "node_reachable E n \<Longrightarrow> node_asleep n"
proof (induction rule: node_reachable.induct)
  case (built opts k)
  show ?case
    by (simp add: node_asleep_def new_node_def dormant_def new_swarm_core_def register_handler_def)
next
  case (kernel n f)
  then show ?case by (simp add: node_asleep_def give_kernel_def)
next
  case (epoll n g)
  then show ?case by (simp add: node_asleep_def on_core_def case_prod_beta)
next
  case (socket n)
  then show ?case by (auto simp: node_asleep_def on_core_def case_prod_beta intro: dormant_on_connection idle_kernel)
next
  case (starts n)
  have all: "preserves asleep (listen_on_all E addrs)" for addrs
  proof (induction addrs)
    case (Cons addr addrs)
    show ?case unfolding listen_on_all.simps by (intro sleeps Cons.IH)
  qed (unfold listen_on_all.simps, intro sleeps)
  from starts.IH show ?case
    unfolding node_start_def start_swarm_def ignoring_def
    by (subst reading_def) (intro asleep_in_swarm sleeps all)
next
  case (stops n)
  then show ?case unfolding node_stop_def by (intro asleep_in_swarm) (simp_all add: preserves_def asleep_stop)
next
  case (connects n addr)
  then show ?case unfolding node_connect_def by (intro asleep_in_swarm sleeps)
next
  case (opens n peer proto)
  then have "asleep (nd_swarm n)" by (simp add: node_asleep_def)
  with opens.IH show ?case
    by (simp add: node_open_stream_def in_swarm_def in_core_def zoom_def dormant_opens case_prod_beta node_asleep_def)
qed

lemma listen_on_all_fails:
  "listen_on_all E addrs (nd_swarm n) = (Inr (Inl e), st) \<Longrightarrow> no_listen_addrs (nd_opts n) = addrs
     \<Longrightarrow> node_start E n = (Inr (Inl e), n\<lparr>nd_swarm := st\<rparr>)"
  by (simp add: node_start_def in_swarm_def zoom_def and_then_ok_def and_then_def)

section \<open>Properties\<close>

text \<open>C26. A node can never open a stream, whatever its options, the kernel and the remote ends do: nothing
  in a node polls its swarm, so no connection is accepted, no dial that waits is finished, no session
  reads what its peer sent and no peer is ever identified; \<open>open_stream\<close> reports that there is no
  connection to the peer and changes nothing, and the only events are of listeners, of dials that
  failed at once and of connections that failed.\<close>

theorem node_opens_no_stream:
  assumes "node_reachable E n"
  shows "node_open_stream E peer proto n = (Inr (Inl ''no active connection for peer''), n)
    \<and> (\<forall>ev \<in> set (sw_event_queue (snd (nd_swarm n))).
         sv_type ev \<in> {SwListenerStarted, SwDialFailed, SwProtocolError, SwConnectionClosed})"
  using node_reachable_asleep [OF assms]
  by (simp add: node_asleep_def node_open_stream_def in_swarm_def in_core_def zoom_def dormant_opens
      case_prod_beta dormant_def unconnected_def)

definition toy_node :: node where
  "toy_node = snd (node_start toy_env (new_node
     \<lparr>no_identity = toy_identity, no_listen_addrs = [toy_address], no_bootstrap_addrs = [toy_address]\<rparr>
     (new_kernel\<lparr>tk_results := map SysOk [4, 0, 0, 0, 0, 0, 5, 0, 0, 0, 0]\<rparr>)))"

theorem node_opens_no_stream_witness:
  "node_open_stream toy_env toy_peer ''/kad/1.0.0'' toy_node = (Inr (Inl ''no active connection for peer''), toy_node)"
proof -
  have "node_reachable toy_env toy_node"
    unfolding toy_node_def by (rule node_reachable.starts [OF node_reachable.built])
  from node_opens_no_stream [OF this] show ?thesis by simp
qed

end
