(* ===== verification/Logging.thy ===== *)
theory Logging
  imports PeerTypes
begin

text \<open>
  The log (include/peercore/log.hpp, src/src/log.cpp): a gate fixed when the code is compiled, a
  gate that can be moved at run time, and a sink that can be replaced.

  A sink is a function on the state \<open>'a\<close> of whoever installed it.  The default sink writes lines to
  the standard error stream; what the clock and \<open>localtime_r\<close> say is an argument.  The log has
  global variables with a lock: an operation is one step on them.
\<close>

section \<open>Code: levels\<close>

datatype log_level = LevelTrace | LevelDebug | LevelInfo | LevelWarn | LevelError | LevelOff

definition level_code :: "log_level \<Rightarrow> int" where
  "level_code level = (case level of LevelTrace \<Rightarrow> 0 | LevelDebug \<Rightarrow> 1 | LevelInfo \<Rightarrow> 2 | LevelWarn \<Rightarrow> 3
     | LevelError \<Rightarrow> 4 | LevelOff \<Rightarrow> 5)"

section \<open>Code: the default sink\<close>

record clock_reading =
  tm_hour :: nat
  tm_min :: nat
  tm_sec :: nat
  tm_millis :: nat

text \<open>The formats \<open>%02d\<close> and \<open>%03d\<close>; \<open>%.*s\<close> ends at a zero byte, as \<open>c_string\<close> does.\<close>

definition zero_padded :: "nat \<Rightarrow> nat \<Rightarrow> string" where
  "zero_padded width n = replicate (width - length (decimal_digits n)) CHR ''0'' @ decimal_digits n"

definition kNames :: "string list" where
  "kNames = [''TRACE'', ''DEBUG'', ''INFO '', ''WARN '', ''ERROR'']"

text \<open>There is no name for \<open>Off\<close>: a message of that level reads past the array.\<close>

definition default_sink :: "clock_reading \<Rightarrow> log_level \<Rightarrow> string \<Rightarrow> string \<Rightarrow> (string, unit) action" where
  "default_sink tm level component msg =
     (if nat (level_code level) < length kNames then update (\<lambda>err. err
        @ ''['' @ zero_padded 2 (tm_hour tm) @ '':'' @ zero_padded 2 (tm_min tm) @ '':'' @ zero_padded 2 (tm_sec tm)
        @ ''.'' @ zero_padded 3 (tm_millis tm) @ '']['' @ kNames ! nat (level_code level) @ '']['' @ c_string component
        @ ''] '' @ c_string msg @ [CHR 0x0A])
      else return_err ''out of range'')"

section \<open>Code: the log\<close>

record 'a logger =
  lg_sink :: "(log_level \<Rightarrow> string \<Rightarrow> string \<Rightarrow> 'a \<Rightarrow> 'a) option"
  lg_level :: log_level
  lg_app :: 'a
  lg_stderr :: string

definition new_logger :: "'a \<Rightarrow> 'a logger" where
  "new_logger app = \<lparr>lg_sink = None, lg_level = LevelInfo, lg_app = app, lg_stderr = []\<rparr>"

definition set_sink :: "(log_level \<Rightarrow> string \<Rightarrow> string \<Rightarrow> 'a \<Rightarrow> 'a) option \<Rightarrow> 'a logger \<Rightarrow> 'a logger" where
  "set_sink sink lg = lg\<lparr>lg_sink := sink\<rparr>"

definition set_level :: "log_level \<Rightarrow> 'a logger \<Rightarrow> 'a logger" where
  "set_level level lg = lg\<lparr>lg_level := level\<rparr>"

definition get_level :: "'a logger \<Rightarrow> log_level" where
  "get_level lg = lg_level lg"

definition write_log :: "clock_reading \<Rightarrow> log_level \<Rightarrow> string \<Rightarrow> string \<Rightarrow> ('a logger, unit) action" where
  "write_log tm level component msg = reading (\<lambda>lg.
     if level_code level < level_code (lg_level lg) then return_ok ()
     else case lg_sink lg of
       Some sink \<Rightarrow> update (\<lambda>lg. lg\<lparr>lg_app := sink level component msg (lg_app lg)\<rparr>)
     | None \<Rightarrow> zoom lg_stderr (\<lambda>err lg. lg\<lparr>lg_stderr := err\<rparr>) (default_sink tm level component msg))"

text \<open>The macros, with the level \<open>PEERCORE_LOG_LEVEL\<close> they are compiled for and the message formatted.\<close>

definition log_macro :: "int \<Rightarrow> clock_reading \<Rightarrow> log_level \<Rightarrow> string \<Rightarrow> string \<Rightarrow> ('a logger, unit) action" where
  "log_macro compiled tm level component msg =
     (if compiled \<le> level_code level then write_log tm level component msg else return_ok ())"

section \<open>What gets through\<close>

definition passes :: "int \<Rightarrow> log_level \<Rightarrow> log_level \<Rightarrow> bool" where
  "passes compiled gate level \<longleftrightarrow> compiled \<le> level_code level \<and> level_code gate \<le> level_code level"

text \<open>There is a macro for each level but \<open>Off\<close>: no message of a macro passes that gate, or lacks a name.\<close>

lemma off_silences: "level \<noteq> LevelOff \<Longrightarrow> \<not> passes compiled LevelOff level"
  by (cases level) (simp_all add: passes_def level_code_def)

lemma macro_level_named: "level \<noteq> LevelOff \<Longrightarrow> nat (level_code level) < length kNames"
  by (cases level) (simp_all add: level_code_def kNames_def)

text \<open>A sink gets the messages that pass both gates, in order; nothing else changes.\<close>

lemma sink_gets:
  assumes "lg_sink lg = Some sink"
  shows "snd (for_each (\<lambda>(tm, level, component, msg). log_macro compiled tm level component msg) msgs lg)
    = lg\<lparr>lg_app := fold (\<lambda>(_, level, component, msg). sink level component msg)
        (filter (\<lambda>(_, level, _). passes compiled (lg_level lg) level) msgs) (lg_app lg)\<rparr>"
proof -
  have "for_each (\<lambda>(tm, level, component, msg). log_macro compiled tm level component msg) msgs lg
    = (Inr (map (\<lambda>_. ()) msgs), lg\<lparr>lg_app := fold (\<lambda>(_, level, component, msg). sink level component msg)
        (filter (\<lambda>(_, level, _). passes compiled (lg_level lg) level) msgs) (lg_app lg)\<rparr>)"
    using assms
  proof (induction msgs arbitrary: lg)
    case (Cons m msgs)
    obtain tm level component msg where m: "m = (tm, level, component, msg)" by (cases m)
    show ?case
    proof (cases "passes compiled (lg_level lg) level")
      case True
      have "for_each (\<lambda>(tm, level, component, msg). log_macro compiled tm level component msg) msgs
          (lg\<lparr>lg_app := sink level component msg (lg_app lg)\<rparr>)
        = (Inr (map (\<lambda>_. ()) msgs), lg\<lparr>lg_app := fold (\<lambda>(_, level, component, msg). sink level component msg)
            (filter (\<lambda>(_, level, _). passes compiled (lg_level lg) level) msgs)
            (sink level component msg (lg_app lg))\<rparr>)"
        using Cons.IH [of "lg\<lparr>lg_app := sink level component msg (lg_app lg)\<rparr>"] Cons.prems by simp
      with True Cons.prems show ?thesis by (simp add: m log_macro_def write_log_def passes_def and_then_def)
    next
      case False
      then show ?thesis using Cons.IH [OF Cons.prems] Cons.prems
        by (auto simp: m log_macro_def write_log_def passes_def and_then_def)
    qed
  qed simp
  then show ?thesis by simp
qed

end
