(* ===== verification/Spec2Isabelle.thy ===== *)
theory Spec2Isabelle
  imports EndToEnd YamuxDuplex StreamAgreement RoutingTable Node Logging
begin

text \<open>
  PeerCore is a libp2p core in C++20: Ed25519 peer ids, TCP, Noise XX, multistream-select, Yamux,
  a swarm that keeps it all together, and a node with three skeleton services.  This development
  models the whole of src/src and src/include for Linux, states what each part promises, and proves
  it, or proves how it breaks the promise.

  How the parts interact.  \<open>Node\<close> owns a \<open>Swarm\<close>.  The swarm asks \<open>TcpTransport\<close> to listen and to
  dial, registers descriptors with \<open>EventLoop\<close>, and makes a \<open>ConnectionSession\<close> of each socket the
  transport hands over.  A session agrees on \<open>/noise\<close> by multistream-select, runs the Noise
  handshake, agrees on a multiplexer, and then carries a Yamux session, or a single stream where
  there is no multiplexer.  It tells the swarm by a queue of events; the swarm keeps the routes from
  peers to connections, tells its controller, wraps each stream in a \<open>ProtocolNegotiatingStream\<close> and
  gives agreed streams to the protocol handlers.

  Theories, and the code they model:

  \<^item> \<open>Prelude\<close>: words for the machine integers; \<open>action\<close>, a function from a state to a result and a
    state, for the operations that return \<open>Result\<close>; the invariants and relations of actions
    (\<open>preserves\<close>, \<open>stays\<close>, \<open>leads\<close>, \<open>ensures\<close>) and the locale \<open>change_order\<close> of the relations that
    sequences of actions respect.
  \<^item> \<open>Streaming\<close>: the contracts of everything that is cut out of a byte stream, the locales
    \<open>incremental_parser\<close> (arrival in pieces makes no difference) and \<open>frame_codec\<close> (what is encoded
    is parsed back); interpreted for varints, multistream messages, Noise wire frames and Yamux frames.
  \<^item> \<open>Positional\<close>, \<open>PeerTypes\<close>: types.cpp, types.hpp.  Base58, peer ids, \<open>Multiaddr\<close>, identities.
  \<^item> \<open>Varint\<close>, \<open>Multistream\<close>: protocol/multistream_select.cpp and the copies of its varints and
    spans in swarm.cpp and connection_session.cpp.
  \<^item> \<open>PeerStore\<close>, \<open>RoutingTable\<close>: peer_store.cpp and routing_table.cpp, each behind a locale of what
    its users rely on (\<open>address_book\<close>, \<open>peer_set\<close>).
  \<^item> \<open>Yamux\<close>, \<open>YamuxInvariant\<close>, \<open>YamuxDelivery\<close>: protocol/yamux/yamux.cpp.  A stream object is an
    index into the heap \<open>ys_heap\<close> of its session, since the application keeps streams that the
    session has dropped; the callbacks of the code are functions on the state of the session's owner.
  \<^item> \<open>StreamSpec\<close>: what a multiplexed stream promises, as a step relation on two ends and the messages
    between them, without frames, ids or sessions.  \<open>YamuxDuplex\<close>: two sessions and a network that
    cuts the bytes anywhere refine one such stream per stream id (\<open>moves\<close> is one operation seen from
    one stream, \<open>joined\<close> the simulation relation).
  \<^item> \<open>NoiseWire\<close>, \<open>Noise\<close>, \<open>NoiseHandshake\<close>: protocol/noise/noise.cpp.  libsodium is the record
    \<open>crypto\<close>, an argument; \<open>crypto_ok\<close> is what the handshake needs of it.
  \<^item> \<open>ConnectionSession\<close>, \<open>ConnectionInput\<close>: connection_session.cpp, data and output, then input.
    \<open>ConnectionLifecycle\<close>: its states and events.  \<open>ConnectionUpgrade\<close>: two sessions joined by a
    network, as a schedule of whole flights (\<open>establish\<close>: each end sends what it has pending and the
    other reads it; sends made while reading are refused, and flushed with the next flight) or, for
    the flight that decides, with any answers of the kernel (\<open>decide\<close>).  \<open>ConnectionTransfer\<close>: what is
    written on a ready connection.  \<open>ConnectionHandles\<close>: histories of a connection with the streams
    it handed out (\<open>has_history\<close>), each once and by one event.  \<open>EndToEnd\<close>: what the application at one end writes is what the application at the other end reads, through Yamux,
    the Noise channel and the socket.
  \<^item> \<open>StreamNegotiation\<close>: \<open>ProtocolNegotiatingStream\<close> of swarm.cpp, on any stream that meets the locale
    \<open>byte_stream\<close>, which the streams of a connection do.  \<open>StreamAgreement\<close>: both ends of a Yamux stream
    negotiating with each other, on streams that remember what was said (the locale
    \<open>spoken_stream\<close>); what joins the ends is that each hears a prefix of what the other said, which
    \<open>YamuxDuplex\<close> shows.
  \<^item> \<open>TcpTransport\<close>, \<open>EventLoop\<close>: transport/tcp_transport.cpp and runtime/event_loop.cpp, with the
    kernel as a script of results.
  \<^item> \<open>Swarm\<close>, \<open>SwarmInvariant\<close>, \<open>SwarmProperties\<close>: swarm.cpp, events.hpp, controller.cpp; every
    operation, its invariant, its properties.
  \<^item> \<open>Node\<close>: node.cpp and services/*.cpp.  \<open>Logging\<close>: log.cpp and log.hpp.

  What is shown:

  \<^item> Codecs (\<open>PeerTypes\<close>, \<open>Multistream\<close>, \<open>NoiseWire\<close>, \<open>Yamux\<close>): what is written is read back, by every
    split into pieces, and which texts are accepted.
  \<^item> Noise: two honest ends agree on crossed keys, one hash and each other's identity; whoever is
    reported as the remote peer has signed; messages come in order; no nonce is used twice under a
    key, and the last one never.
  \<^item> Connections: in every reachable state the events follow an automaton, a closed connection is
    final, and one that dialled a named peer is only ever secured with that peer; each stream is
    handed out once, in the order of the events.  Two honest ends become ready.  A dialler refuses an
    impostor, but only after message 3, so that the impostor may have become ready.  On a connection of honest ends the streams one
    application opens are handed to the other in their order, with the bytes written on them.
  \<^item> Yamux: the tables of a session agree in every reachable state; what is written on the streams
    one end opens is read from those the other accepts.  Of two sessions used in any order on both
    sides: what was read, what is buffered and what is on the way is what was written; unread bytes
    and remaining window stay within 256 KiB; the end of a stream is reported exactly when
    everything has been read.
  \<^item> Stream negotiation: no byte is lost or invented between the stream below and the application,
    in whatever pieces the answer arrives; the two ends agree on the protocol, and neither
    application ever reads a byte of the negotiation.
  \<^item> Transport and loop: every descriptor obtained is held, handed over or closed, exactly once;
    what poll calls is what is due and registered.
  \<^item> Swarm: in every history the controller sees each connection identified, established and ended
    in that order, each at most once; streams are opened on connections identified as the peer's.
  \<^item> Faults of the code, each by a theorem: end of stream discards a burst, a local reset and a reused
    descriptor strand connections, a write above the frame size breaks the channel for good (for
    a cipher that opens nothing under another nonce, \<open>nonce_bound\<close>, which \<open>bound_crypto\<close> meets), a late reset
    kills a reopened stream, a timer is lost, a closed swarm leaves dangling streams, a node never
    polls its swarm.

  Bounds and termination.  Loops that consume a buffer or a queue are total functions with measures
  on it.  The loops over \<open>recv\<close>, \<open>send\<close>, \<open>accept\<close> and system calls recurse over the script of the
  kernel's answers; an exhausted script answers that there is nothing more, and a step of each
  history may give the kernel any new script.  The reading loop of a negotiating stream has a number
  of rounds in the model of the handlers; without one it is the partial function \<open>read_loop\<close>, which
  is shown to return on every stream, with what any number of rounds above the unread bytes gives.  \<open>few\<close> bounds the
  connections of a swarm by 2^64 - 2, the range of its counter; the runs of \<open>YamuxDuplex\<close> open
  fewer than 2^31 streams on each side, before the stream ids wrap; other counters wrap as in the code.
  Sizes are unbounded naturals where the code uses \<open>size_t\<close> for lengths of buffers in memory.

  Iterating over an unordered container takes the order the environment gives (\<open>swarm_env\<close>), which is
  arbitrary; the code has one thread, so a history is a sequence of operations.

  Not modelled: the kqueue branch of the event loop (the model is of the Linux branch); the
  platform's socket headers and the WIN32 branches; the formatting of messages by \<open>std::format\<close> and
  the calls of the log in the other components, whose state does not depend on them; memory
  exhaustion.  \<open>EventLoop::run\<close> is modelled over the rounds it makes before it is stopped.  Tests, the
  interoperability probes and the scripts are not part of the library.
\<close>

end
